(* ===== verification/Prelude.thy ===== *)
theory Prelude
  imports Main "HOL-Library.AList" "HOL-Library.Char_ord" "HOL-Library.List_Lexorder" "HOL-Library.Sublist"
begin

text \<open>
  Shared vocabulary of the development.

  \<^item> The domain errors of \<^verbatim>\<open>errors.py\<close>, plus the one foreign exception that crosses the
    store facade (botocore's transport error) and Python's own exceptions (\<^verbatim>\<open>FileNotFoundError\<close>,
    \<^verbatim>\<open>ValueError\<close> and so on), which the file-system adapter, the lease and the drivers raise.
  \<^item> The state-and-exception computations in which every handler is written: a computation
    takes the state of the world and returns either an error or a value, with the new state.
    \<open>bind_io\<close> is the sequencing of Python statements, \<open>try_io\<close> is \<^verbatim>\<open>try\<close> (the handler then
    looks at the captured outcome), \<open>finally_io\<close> is \<^verbatim>\<open>try/finally\<close>.
\<close>

section \<open>Text and bytes\<close>

text \<open>
  A Python \<^verbatim>\<open>bytes\<close> value is a list of 8-bit characters, which is what \<open>char\<close> is.
  Object keys are text over the same 256 code points.
\<close>

type_synonym bytes = "char list"
type_synonym key = "char list"

abbreviation newline :: char where
  "newline \<equiv> CHR 0x0A"

text \<open>\<^verbatim>\<open>s.startswith(p)\<close> is \<open>prefix p s\<close>; \<^verbatim>\<open>s.removeprefix(p)\<close> is the next definition.\<close>

definition removeprefix :: "string \<Rightarrow> string \<Rightarrow> string" where
  "removeprefix p s = (if prefix p s then drop (length p) s else s)"

lemma removeprefix_append [simp]: "removeprefix p (p @ s) = s"
  by (simp add: removeprefix_def)

section \<open>Errors\<close>

text \<open>
  Why a changeset may not be replayed (the \<^verbatim>\<open>reason\<close> texts of \<^verbatim>\<open>Abort\<close>), one constructor per
  text; the first carries the number it prints.
\<close>

datatype abort_reason =
    ExhaustedAttempts int
  | ContainsDDL
  | PolicyAbortAll
  | EmptyChangeset
  | ContainsStateDependentDML
  | MixesReadsWithWrites
  | BlobLostRace
  | PayloadUploadKeptFailing int

datatype error =
    NotFoundError
  | ObjectNotFoundError
  | LakeNotInitializedError
  | InputValidationError
  | ExternalServiceError
  | BackendUnsafeError
  | PreconditionFailedError
  | ConditionalConflictError
  | AmbiguousCasError
  | ConflictAbortError abort_reason
  | CatalogHygieneError
  | VersionMismatchError
  | BotoCoreError            \<comment> \<open>botocore's transport failure, where the facade lets it through\<close>
  | DuckDBError             \<comment> \<open>the driver's \<^verbatim>\<open>duckdb.Error\<close>, before the engine facade maps it\<close>
  | PyFileNotFoundError
  | PyIsADirectoryError
  | PyNotImplementedError
  | PyAssertionError
  | PyValueError
  | PyKeyError
  | PyTypeError
  | PyIndexError
  | PyOverflowError
  | PyRecursionError

text \<open>
  \<^verbatim>\<open>except NotFoundError\<close> also catches the two subclasses.
\<close>

definition is_NotFoundError :: "error \<Rightarrow> bool" where
  "is_NotFoundError e \<longleftrightarrow> e = NotFoundError \<or> e = ObjectNotFoundError \<or> e = LakeNotInitializedError"

section \<open>Computations over the world\<close>

type_synonym ('s, 'a) io = "'s \<Rightarrow> (error + 'a) \<times> 's"

definition ret :: "'a \<Rightarrow> ('s, 'a) io" where
  "ret x = (\<lambda>s. (Inr x, s))"

definition raise :: "error \<Rightarrow> ('s, 'a) io" where
  "raise e = (\<lambda>s. (Inl e, s))"

definition bind_io :: "('s, 'a) io \<Rightarrow> ('a \<Rightarrow> ('s, 'b) io) \<Rightarrow> ('s, 'b) io" where
  "bind_io m f = (\<lambda>s. case m s of (r, s') \<Rightarrow>
     (case r of Inl e \<Rightarrow> (Inl e, s') | Inr x \<Rightarrow> f x s'))"

definition try_io :: "('s, 'a) io \<Rightarrow> ('s, error + 'a) io" where
  "try_io m = (\<lambda>s. case m s of (r, s') \<Rightarrow> (Inr r, s'))"

definition finally_io :: "('s, 'a) io \<Rightarrow> ('s, unit) io \<Rightarrow> ('s, 'a) io" where
  "finally_io m fin = (\<lambda>s. case m s of (r, s') \<Rightarrow>
     (case fin s' of (q, s'') \<Rightarrow> (case q of Inl e \<Rightarrow> (Inl e, s'') | Inr _ \<Rightarrow> (r, s''))))"

text \<open>A pure result raised or returned inside a computation, and a reading of the world (a clock).\<close>

definition lift_io :: "error + 'a \<Rightarrow> ('s, 'a) io" where
  "lift_io r = (\<lambda>s. (r, s))"

definition ask :: "('s \<Rightarrow> 'a) \<Rightarrow> ('s, 'a) io" where
  "ask f = (\<lambda>s. (Inr (f s), s))"

text \<open>A \<^verbatim>\<open>for\<close> loop over a list, and the list of the results of a call on each element.\<close>

fun for_io :: "'a list \<Rightarrow> ('a \<Rightarrow> ('s, unit) io) \<Rightarrow> ('s, unit) io" where
  "for_io [] f = ret ()"
| "for_io (x # xs) f = bind_io (f x) (\<lambda>_. for_io xs f)"

fun map_io :: "('a \<Rightarrow> ('s, 'b) io) \<Rightarrow> 'a list \<Rightarrow> ('s, 'b list) io" where
  "map_io f [] = ret []"
| "map_io f (x # xs) = bind_io (f x) (\<lambda>y. bind_io (map_io f xs) (\<lambda>ys. ret (y # ys)))"

named_theorems io_simps "evaluation of computations"

lemma ret_run [simp]: "ret x s = (Inr x, s)"
  and raise_run [simp]: "raise e s = (Inl e, s)"
  and lift_run [simp]: "lift_io r s = (r, s)"
  and ask_run [simp]: "ask f s = (Inr (f s), s)"
  by (simp_all add: ret_def raise_def lift_io_def ask_def)

lemma bind_ok [simp]: "m s = (Inr x, s') \<Longrightarrow> bind_io m f s = f x s'"
  and bind_err [simp]: "m s = (Inl e, s') \<Longrightarrow> bind_io m f s = (Inl e, s')"
  by (simp_all add: bind_io_def)

lemma bind_ret [simp]: "bind_io (ret x) f = f x"
  and bind_raise [simp]: "bind_io (raise e) f = raise e"
  by (simp_all add: bind_io_def fun_eq_iff)

lemma try_ok [simp]: "m s = (r, s') \<Longrightarrow> try_io m s = (Inr r, s')"
  by (simp add: try_io_def)

lemma bind_assoc: "bind_io (bind_io m f) g = bind_io m (\<lambda>x. bind_io (f x) g)"
  by (simp add: bind_io_def fun_eq_iff split: prod.splits sum.splits)

lemma bind_io_Inr_iff [io_simps]:
  "bind_io m f s = (Inr y, s'') \<longleftrightarrow> (\<exists>x s'. m s = (Inr x, s') \<and> f x s' = (Inr y, s''))"
  by (auto simp: bind_io_def split: prod.splits sum.splits)

lemma bind_io_Inl_iff [io_simps]:
  "bind_io m f s = (Inl e, s'') \<longleftrightarrow>
     m s = (Inl e, s'') \<or> (\<exists>x s'. m s = (Inr x, s') \<and> f x s' = (Inl e, s''))"
  by (auto simp: bind_io_def split: prod.splits sum.splits)

lemma try_io_iff [io_simps]:
  "try_io m s = (q, s') \<longleftrightarrow> (\<exists>r. m s = (r, s') \<and> q = Inr r)"
  by (auto simp: try_io_def split: prod.splits)

lemma ret_iff [io_simps]: "ret x s = (r, s') \<longleftrightarrow> r = Inr x \<and> s' = s"
  and raise_iff [io_simps]: "raise e s = (r', s') \<longleftrightarrow> r' = Inl e \<and> s' = s"
  and lift_iff [io_simps]: "lift_io q s = (r'', s') \<longleftrightarrow> r'' = q \<and> s' = s"
  and ask_iff [io_simps]: "ask f s = (t, s') \<longleftrightarrow> t = Inr (f s) \<and> s' = s"
  by auto

text \<open>
  A captured outcome is inspected by a \<^verbatim>\<open>match\<close>; running \<open>try_io\<close> under a bind feeds it the
  outcome, whatever it is.
\<close>

lemma bind_try_run [simp]: "m s = (r, s') \<Longrightarrow> bind_io (try_io m) f s = f r s'"
  by simp

lemma bind_try_iff [io_simps]:
  "bind_io (try_io m) f s = (q, s'') \<longleftrightarrow> (\<exists>r s'. m s = (r, s') \<and> f r s' = (q, s''))"
  by (cases "m s") simp

section \<open>Preservation of a relation between states\<close>

text \<open>
  \<open>guar R m\<close>: whatever the state, running \<open>m\<close> moves the world along \<open>R\<close>.
  For a preorder \<open>R\<close> the combinators compose such facts, so that a handler is shown to keep
  \<open>R\<close> from the facts about the store calls it makes. This is the interface between the
  components that call the store and the store itself.
\<close>

definition guar :: "('s \<Rightarrow> 's \<Rightarrow> bool) \<Rightarrow> ('s, 'a) io \<Rightarrow> bool" where
  "guar R m \<longleftrightarrow> (\<forall>s. R s (snd (m s)))"

lemma guarI: "(\<And>s r s'. m s = (r, s') \<Longrightarrow> R s s') \<Longrightarrow> guar R m"
  by (simp add: guar_def) (metis prod.collapse)

lemma guarD: "guar R m \<Longrightarrow> m s = (r, s') \<Longrightarrow> R s s'"
  by (metis guar_def snd_conv)

named_theorems guar_intros "handlers that keep the world relation"

locale step_relation =
  fixes R :: "'s \<Rightarrow> 's \<Rightarrow> bool"
  assumes R_refl: "R s s"
    and R_trans: "R s t \<Longrightarrow> R t u \<Longrightarrow> R s u"
begin

lemma guar_ret [guar_intros]: "guar R (ret x)"
  and guar_raise [guar_intros]: "guar R (raise e)"
  and guar_lift [guar_intros]: "guar R (lift_io q)"
  and guar_ask [guar_intros]: "guar R (ask f)"
  by (simp_all add: guar_def R_refl)

lemma guar_bind [guar_intros]:
  assumes "guar R m" and "\<And>x. guar R (f x)"
  shows "guar R (bind_io m f)"
proof (rule guarI)
  fix s r s'
  assume run: "bind_io m f s = (r, s')"
  obtain q t where m: "m s = (q, t)" by fastforce
  with assms(1) have st: "R s t" by (rule guarD)
  show "R s s'"
  proof (cases q)
    case (Inl e)
    with run m st show ?thesis by simp
  next
    case (Inr x)
    with run m have "f x t = (r, s')" by simp
    with assms(2) have "R t s'" by (rule guarD)
    with st show ?thesis by (rule R_trans)
  qed
qed

lemma guar_try [guar_intros]: "guar R m \<Longrightarrow> guar R (try_io m)"
  by (simp add: guar_def try_io_def split: prod.splits) (metis snd_conv)

lemma guar_finally [guar_intros]:
  assumes "guar R m" and "guar R fin"
  shows "guar R (finally_io m fin)"
proof (rule guarI)
  fix s r s'
  assume run: "finally_io m fin s = (r, s')"
  obtain q t where m: "m s = (q, t)" by fastforce
  obtain q' u where f: "fin t = (q', u)" by fastforce
  from run m f have "s' = u" by (simp add: finally_io_def split: sum.splits)
  with guarD [OF assms(1) m] guarD [OF assms(2) f] show "R s s'" by (blast intro: R_trans)
qed

lemma guar_for [guar_intros]: "(\<And>x. guar R (f x)) \<Longrightarrow> guar R (for_io xs f)"
  by (induction xs) (auto intro: guar_intros)

lemma guar_map [guar_intros]: "(\<And>x. guar R (f x)) \<Longrightarrow> guar R (map_io f xs)"
  by (induction xs) (auto intro: guar_intros)

end

section \<open>Computations with an object's own attributes\<close>

text \<open>
  A method of an object that holds a store and mutable attributes runs on pairs: the world and the
  attributes. \<open>on_world\<close> runs a store call there, \<open>get_attr\<close> and \<open>set_attr\<close> read and assign. An
  assignment survives a later exception, as it does in Python.
\<close>

definition on_world :: "('s, 'a) io \<Rightarrow> ('s \<times> 't, 'a) io" where
  "on_world m = (\<lambda>(s, t). case m s of (r, s') \<Rightarrow> (r, (s', t)))"

definition get_attr :: "('s \<times> 't, 't) io" where
  "get_attr = (\<lambda>(s, t). (Inr t, (s, t)))"

definition set_attr :: "'t \<Rightarrow> ('s \<times> 't, unit) io" where
  "set_attr t = (\<lambda>(s, _). (Inr (), (s, t)))"

text \<open>A local object: its methods run from the attribute value \<open>t\<close>, which is dropped at the end.\<close>

definition with_attr :: "'t \<Rightarrow> ('s \<times> 't, 'a) io \<Rightarrow> ('s, 'a) io" where
  "with_attr t m = (\<lambda>s. case m (s, t) of (r, (s', _)) \<Rightarrow> (r, s'))"

lemma with_attr_iff [io_simps]: "with_attr t m s = (r, s') \<longleftrightarrow> (\<exists>t'. m (s, t) = (r, (s', t')))"
  by (auto simp: with_attr_def split: prod.splits)

lemma on_world_run [simp]: "m s = (r, s') \<Longrightarrow> on_world m (s, t) = (r, (s', t))"
  by (simp add: on_world_def)

lemma get_attr_run [simp]: "get_attr (s, t) = (Inr t, (s, t))"
  and set_attr_run [simp]: "set_attr t' (s, t) = (Inr (), (s, t'))"
  by (simp_all add: get_attr_def set_attr_def)

lemma on_world_iff [io_simps]:
  "on_world m p = (r, q) \<longleftrightarrow> (\<exists>s'. m (fst p) = (r, s') \<and> q = (s', snd p))"
  by (cases p) (auto simp: on_world_def split: prod.splits)

lemma get_attr_iff [io_simps]: "get_attr p = (r, q) \<longleftrightarrow> r = Inr (snd p) \<and> q = p"
  and set_attr_iff [io_simps]: "set_attr t p = (r', q) \<longleftrightarrow> r' = Inr () \<and> q = (fst p, t)"
  by (cases p; auto)+

context step_relation
begin

lemma guar_on_world: "guar R m \<Longrightarrow> guar (\<lambda>p q. R (fst p) (fst q)) (on_world m)"
  by (auto simp: guar_def on_world_def split: prod.splits) (metis snd_conv)

lemma guar_get_attr: "guar (\<lambda>p q. R (fst p) (fst q)) get_attr"
  and guar_set_attr: "guar (\<lambda>p q. R (fst p) (fst q)) (set_attr t)"
  by (auto simp: guar_def get_attr_def set_attr_def R_refl split: prod.splits)

lemma guar_with_attr: "guar (\<lambda>p q. R (fst p) (fst q)) m \<Longrightarrow> guar R (with_attr t m)"
  by (auto simp: guar_def with_attr_def split: prod.splits) (metis fst_conv snd_conv)

lemma step_relation_world: "step_relation (\<lambda>p q. R (fst p) (fst q))"
  by unfold_locales (blast intro: R_refl R_trans)+

lemmas guar_world = guar_on_world guar_get_attr guar_set_attr
  step_relation.guar_ret [OF step_relation_world] step_relation.guar_raise [OF step_relation_world]
  step_relation.guar_lift [OF step_relation_world] step_relation.guar_ask [OF step_relation_world]
  step_relation.guar_bind [OF step_relation_world] step_relation.guar_try [OF step_relation_world]
  step_relation.guar_finally [OF step_relation_world] step_relation.guar_for [OF step_relation_world]
  step_relation.guar_map [OF step_relation_world]

end

section \<open>Invariants with results\<close>

text \<open>
  \<open>triple I m F\<close>: from a state with the invariant \<open>I\<close>, \<open>m\<close> ends in one, whatever happens, and a value it
  returns satisfies \<open>F\<close>. A handler that acts on what it read is verified with such facts.
\<close>

definition triple :: "('s \<Rightarrow> bool) \<Rightarrow> ('s, 'a) io \<Rightarrow> ('a \<Rightarrow> bool) \<Rightarrow> bool" where
  "triple I m F \<longleftrightarrow> (\<forall>s r s'. I s \<longrightarrow> m s = (r, s') \<longrightarrow> I s' \<and> (\<forall>x. r = Inr x \<longrightarrow> F x))"

named_theorems triple_intros "invariants of computations"

lemma tripleI: "(\<And>s r s'. I s \<Longrightarrow> m s = (r, s') \<Longrightarrow> I s' \<and> (\<forall>x. r = Inr x \<longrightarrow> F x)) \<Longrightarrow> triple I m F"
  by (simp add: triple_def)

lemma tripleD: "triple I m F \<Longrightarrow> I s \<Longrightarrow> m s = (r, s') \<Longrightarrow> I s' \<and> (\<forall>x. r = Inr x \<longrightarrow> F x)"
  by (simp add: triple_def)

lemma triple_weaken: "triple I m F \<Longrightarrow> (\<And>x. F x \<Longrightarrow> G x) \<Longrightarrow> triple I m G"
  by (force simp: triple_def)

lemma triple_conj: "triple I m F \<Longrightarrow> triple I m G \<Longrightarrow> triple I m (\<lambda>x. F x \<and> G x)"
  by (simp add: triple_def)

lemma triple_ret [triple_intros]: "F x \<Longrightarrow> triple I (ret x) F"
  and triple_raise [triple_intros]: "triple I (raise e) F"
  and triple_lift: "(\<And>x. q = Inr x \<Longrightarrow> F x) \<Longrightarrow> triple I (lift_io q) F"
  and triple_ask [triple_intros]: "triple I (ask f) (\<lambda>_. True)"
  by (auto simp: triple_def)

lemma triple_bind:
  assumes "triple I m F" and "\<And>x. F x \<Longrightarrow> triple I (f x) G"
  shows "triple I (bind_io m f) G"
proof (rule tripleI)
  fix s r s'
  assume I: "I s" and run: "bind_io m f s = (r, s')"
  obtain q t where m: "m s = (q, t)" by fastforce
  with tripleD [OF assms(1) I] have t: "I t" "\<forall>x. q = Inr x \<longrightarrow> F x" by blast+
  show "I s' \<and> (\<forall>x. r = Inr x \<longrightarrow> G x)"
  proof (cases q)
    case (Inl e)
    with run m t show ?thesis by auto
  next
    case (Inr x)
    with run m have "f x t = (r, s')" by simp
    with tripleD [OF assms(2) t(1)] t(2) Inr show ?thesis by blast
  qed
qed

lemma triple_try: "triple I m F \<Longrightarrow> triple I (try_io m) (\<lambda>r. \<forall>x. r = Inr x \<longrightarrow> F x)"
  by (auto simp: triple_def try_io_def split: prod.splits)

lemma triple_finally [triple_intros]:
  assumes "triple I m F" and "triple I fin (\<lambda>_. True)"
  shows "triple I (finally_io m fin) F"
proof (rule tripleI)
  fix s r s'
  assume I: "I s" and run: "finally_io m fin s = (r, s')"
  obtain q t where m: "m s = (q, t)" by fastforce
  obtain q' u where f: "fin t = (q', u)" by fastforce
  from tripleD [OF assms(1) I m] tripleD [OF assms(2) _ f] run m f show "I s' \<and> (\<forall>x. r = Inr x \<longrightarrow> F x)"
    by (auto simp: finally_io_def split: sum.splits)
qed

lemma triple_world [triple_intros]:
  "triple I m F \<Longrightarrow> triple (\<lambda>p. I (fst p)) (on_world m) F"
  "triple (\<lambda>p. I (fst p)) get_attr (\<lambda>_. True)"
  "triple (\<lambda>p. I (fst p)) (set_attr t) (\<lambda>_. True)"
  by (auto simp: triple_def io_simps)

lemma triple_with_attr: "triple (\<lambda>p. I (fst p)) m F \<Longrightarrow> triple I (with_attr t m) F"
  by (fastforce simp: triple_def io_simps)

lemma guar_triple: "guar R m \<Longrightarrow> (\<And>s s'. I s \<Longrightarrow> R s s' \<Longrightarrow> I s') \<Longrightarrow> triple I m (\<lambda>_. True)"
  by (auto simp: triple_def dest: guarD)

text \<open>Sequencing where nothing is needed of the value.\<close>

lemma triple_then [triple_intros]: "triple I m (\<lambda>_. True) \<Longrightarrow> (\<And>x. triple I (f x) G) \<Longrightarrow> triple I (bind_io m f) G"
  by (rule triple_bind)

lemma triple_for [triple_intros]: "(\<And>x. x \<in> set xs \<Longrightarrow> triple I (f x) (\<lambda>_. True)) \<Longrightarrow> triple I (for_io xs f) (\<lambda>_. True)"
  by (induction xs) (auto intro: triple_ret triple_then)

lemma triple_try_any [triple_intros]: "triple I m (\<lambda>_. True) \<Longrightarrow> triple I (try_io m) (\<lambda>_. True)"
  by (rule triple_weaken [OF triple_try]) simp_all

lemma triple_sum [triple_intros]:
  "(\<And>e. q = Inl e \<Longrightarrow> triple I (f e) G) \<Longrightarrow> (\<And>x. q = Inr x \<Longrightarrow> triple I (g x) G) \<Longrightarrow>
     triple I (case q of Inl e \<Rightarrow> f e | Inr x \<Rightarrow> g x) G"
  and triple_option [triple_intros]:
  "(q' = None \<Longrightarrow> triple I m G) \<Longrightarrow> (\<And>x. q' = Some x \<Longrightarrow> triple I (h x) G) \<Longrightarrow>
     triple I (case q' of None \<Rightarrow> m | Some x \<Rightarrow> h x) G"
  and triple_if [triple_intros]:
  "(P \<Longrightarrow> triple I m G) \<Longrightarrow> (\<not> P \<Longrightarrow> triple I m' G) \<Longrightarrow> triple I (if P then m else m') G"
  by (auto split: sum.splits option.splits)

end
