(* ===== verification/Text_Format.thy ===== *)
theory Text_Format
  imports Prelude "HOL-Library.Word"
begin

text \<open>
  Positional notation, and the text forms the code prints and matches: decimal numbers
  (\<^verbatim>\<open>str(n)\<close>), zero-padded decimals (\<^verbatim>\<open>f"{n:08d}"\<close>), lower-case hexadecimal, and the
  \<^verbatim>\<open>$\<close> anchor of Python's \<^verbatim>\<open>re\<close>, which also matches before one final newline.
\<close>

section \<open>Digits in a base\<close>

fun value_of :: "nat \<Rightarrow> nat list \<Rightarrow> nat" where
  "value_of b [] = 0"
| "value_of b (d # ds) = d * b ^ length ds + value_of b ds"

fun digits_of :: "nat \<Rightarrow> nat \<Rightarrow> nat \<Rightarrow> nat list" where
  "digits_of b 0 n = []"
| "digits_of b (Suc w) n = digits_of b w (n div b) @ [n mod b]"

lemma length_digits_of [simp]: "length (digits_of b w n) = w"
  by (induction b w n rule: digits_of.induct) simp_all

lemma value_of_snoc [simp]: "value_of b (ds @ [d]) = value_of b ds * b + d"
  by (induction ds) (simp_all add: algebra_simps)

lemma value_of_digits_of: "value_of b (digits_of b w n) = n mod b ^ w"
proof (induction b w n rule: digits_of.induct)
  case (2 b w n)
  have "n mod b ^ Suc w = n div b mod b ^ w * b + n mod b"
    by (simp add: mod_mult2_eq mult.commute)
  with 2 show ?case by simp
qed simp

lemma digits_of_less: "0 < b \<Longrightarrow> d \<in> set (digits_of b w n) \<Longrightarrow> d < b"
  by (induction b w n rule: digits_of.induct) auto

lemma value_of_less: "\<forall>d \<in> set ds. d < b \<Longrightarrow> 0 < b \<Longrightarrow> value_of b ds < b ^ length ds"
proof (induction ds rule: rev_induct)
  case (snoc d ds)
  then have "value_of b ds + 1 \<le> b ^ length ds" and "d < b" by auto
  then have "(value_of b ds + 1) * b \<le> b ^ length ds * b" by (intro mult_right_mono) auto
  with \<open>d < b\<close> show ?case by (simp add: algebra_simps)
qed simp

lemma digits_of_value_of:
  "\<forall>d \<in> set ds. d < b \<Longrightarrow> 0 < b \<Longrightarrow> digits_of b (length ds) (value_of b ds) = ds"
  by (induction ds rule: rev_induct) simp_all

section \<open>Digit characters\<close>

text \<open>\<^verbatim>\<open>"0123456789abcdef"\<close>; a digit of any base up to 16.\<close>

definition hex_digits :: string where
  "hex_digits = ''0123456789abcdef''"

definition digit_char :: "nat \<Rightarrow> char" where
  "digit_char d = (if d < 10 then char_of (48 + d) else char_of (87 + d))"

definition char_digit :: "char \<Rightarrow> nat" where
  "char_digit c = (let k = of_char c in if k < 58 then k - 48 else k - 87)"

definition is_digit :: "char \<Rightarrow> bool" where
  "is_digit c \<longleftrightarrow> 48 \<le> (of_char c :: nat) \<and> (of_char c :: nat) \<le> 57"

definition is_hex :: "char \<Rightarrow> bool" where
  "is_hex c \<longleftrightarrow> is_digit c \<or> (97 \<le> (of_char c :: nat) \<and> (of_char c :: nat) \<le> 102)"

lemma is_hex_iff: "is_hex c \<longleftrightarrow> c \<in> set hex_digits"
proof -
  have "is_hex c \<longleftrightarrow> (of_char c :: nat) \<in> {48..57} \<union> {97..102}"
    by (auto simp: is_hex_def is_digit_def)
  also have "\<dots> \<longleftrightarrow> (of_char c :: nat) \<in> of_char ` set hex_digits"
    by (simp add: hex_digits_def atLeastAtMost_insertL numeral_eq_Suc flip: atLeast0_atMost_Suc)
       (auto simp: atLeastAtMost_iff le_Suc_eq numeral_eq_Suc)
  also have "\<dots> \<longleftrightarrow> c \<in> set hex_digits"
    by (auto simp: image_iff)
  finally show ?thesis .
qed

lemma digit_is_hex: "is_digit c \<Longrightarrow> is_hex c"
  by (simp add: is_hex_def)

lemma of_digit_char: "d < 16 \<Longrightarrow> (of_char (digit_char d) :: nat) = (if d < 10 then 48 + d else 87 + d)"
  by (simp add: digit_char_def of_char_of)

lemma char_digit_digit_char [simp]: "d < 16 \<Longrightarrow> char_digit (digit_char d) = d"
  by (simp add: char_digit_def of_digit_char)

lemma is_hex_digit_char [simp]: "d < 16 \<Longrightarrow> is_hex (digit_char d)"
  by (auto simp: is_hex_def is_digit_def of_digit_char)

lemma is_digit_digit_char [simp]: "d < 10 \<Longrightarrow> is_digit (digit_char d)"
  by (auto simp: is_digit_def of_digit_char)

lemma digit_char_char_digit: "is_hex c \<Longrightarrow> digit_char (char_digit c) = c"
  by (auto simp: is_hex_def is_digit_def digit_char_def char_digit_def Let_def)

lemma char_digit_less_16: "is_hex c \<Longrightarrow> char_digit c < 16"
  and char_digit_less_10: "is_digit c \<Longrightarrow> char_digit c < 10"
  by (auto simp: is_hex_def is_digit_def char_digit_def Let_def)

lemma not_is_hex_newline [simp]: "\<not> is_hex newline"
  and not_is_hex_dash [simp]: "\<not> is_hex (CHR ''-'')"
  and not_is_digit_newline [simp]: "\<not> is_digit newline"
  by (simp_all add: is_hex_def is_digit_def)

section \<open>Fixed-width numbers as text\<close>

definition num_text :: "nat \<Rightarrow> nat \<Rightarrow> nat \<Rightarrow> string" where
  "num_text b w n = map digit_char (digits_of b w n)"

definition text_num :: "nat \<Rightarrow> string \<Rightarrow> nat" where
  "text_num b s = value_of b (map char_digit s)"

lemma length_num_text [simp]: "length (num_text b w n) = w"
  by (simp add: num_text_def)

lemma text_num_text:
  assumes "0 < b" and "b \<le> 16"
  shows "text_num b (num_text b w n) = n mod b ^ w"
proof -
  have "map char_digit (num_text b w n) = digits_of b w n"
    using assms by (auto simp: num_text_def o_def intro!: map_idI dest!: digits_of_less [OF assms(1)])
  then show ?thesis by (simp add: text_num_def value_of_digits_of)
qed

lemma num_text_hex: "c \<in> set (num_text 16 w n) \<Longrightarrow> is_hex c"
  by (auto simp: num_text_def dest: digits_of_less [rotated])

lemma num_text_digit: "c \<in> set (num_text 10 w n) \<Longrightarrow> is_digit c"
  by (auto simp: num_text_def dest: digits_of_less [rotated])

lemma num_text_num_16: "list_all is_hex s \<Longrightarrow> num_text 16 (length s) (text_num 16 s) = s"
proof -
  assume s: "list_all is_hex s"
  then have "digits_of 16 (length (map char_digit s)) (value_of 16 (map char_digit s)) = map char_digit s"
    by (intro digits_of_value_of) (auto simp: list_all_iff char_digit_less_16)
  then show ?thesis
    using s by (auto simp: num_text_def text_num_def o_def list_all_iff digit_char_char_digit intro!: map_idI)
qed

lemma num_text_num_10: "list_all is_digit s \<Longrightarrow> num_text 10 (length s) (text_num 10 s) = s"
proof -
  assume s: "list_all is_digit s"
  then have "digits_of 10 (length (map char_digit s)) (value_of 10 (map char_digit s)) = map char_digit s"
    by (intro digits_of_value_of) (auto simp: list_all_iff char_digit_less_10)
  then show ?thesis
    using s by (auto simp: num_text_def text_num_def o_def list_all_iff digit_char_char_digit
        digit_is_hex intro!: map_idI)
qed

lemma text_num_less:
  "list_all is_digit s \<Longrightarrow> text_num 10 s < 10 ^ length s"
  "list_all is_hex s \<Longrightarrow> text_num 16 s < 16 ^ length s"
  using value_of_less [of "map char_digit s" 10] value_of_less [of "map char_digit s" 16]
  by (auto simp: text_num_def list_all_iff char_digit_less_10 char_digit_less_16)

section \<open>Decimal numbers\<close>

text \<open>\<^verbatim>\<open>str(n)\<close> for a non-negative number, and \<^verbatim>\<open>f"{n:08d}"\<close>, which pads but never truncates.\<close>

fun dec :: "nat \<Rightarrow> string" where
  "dec n = (if n < 10 then [digit_char n] else dec (n div 10) @ [digit_char (n mod 10)])"

declare dec.simps [simp del]

definition pad8 :: "nat \<Rightarrow> string" where
  "pad8 n = (let s = dec n in replicate (8 - length s) (CHR ''0'') @ s)"

lemma dec_digit: "c \<in> set (dec n) \<Longrightarrow> is_digit c"
  by (induction n rule: dec.induct) (subst (asm) dec.simps, auto split: if_splits)

lemma dec_nonempty [simp]: "dec n \<noteq> []"
  by (subst dec.simps) simp

lemma text_num_snoc: "text_num b (s @ [c]) = text_num b s * b + char_digit c"
  by (simp add: text_num_def)

lemma text_num_dec [simp]: "text_num 10 (dec n) = n"
proof (induction n rule: dec.induct)
  case (1 n)
  show ?case
  proof (cases "n < 10")
    case True
    then show ?thesis by (subst dec.simps) (simp add: text_num_def)
  next
    case False
    then show ?thesis
      using 1 by (subst dec.simps) (simp add: text_num_snoc)
  qed
qed

lemma dec_inject: "dec m = dec n \<longleftrightarrow> m = n"
  by (metis text_num_dec)

lemma length_dec_le: "n < 10 ^ w \<Longrightarrow> 0 < w \<Longrightarrow> length (dec n) \<le> w"
proof (induction w arbitrary: n)
  case (Suc w)
  show ?case
  proof (cases "n < 10")
    case True
    then show ?thesis by (subst dec.simps) simp
  next
    case False
    with Suc.prems have "n div 10 < 10 ^ w" and "0 < w" by (auto intro: gr0I)
    then have "length (dec (n div 10)) \<le> w" by (rule Suc.IH)
    with False show ?thesis by (subst dec.simps) simp
  qed
qed simp

lemma text_num_zeros: "text_num 10 (replicate k (CHR ''0'') @ s) = text_num 10 s"
  by (induction k) (simp_all add: text_num_def char_digit_def)

lemma text_num_pad8 [simp]: "text_num 10 (pad8 n) = n"
  by (simp add: pad8_def Let_def text_num_zeros)

lemma pad8_inject: "pad8 m = pad8 n \<longleftrightarrow> m = n"
  by (metis text_num_pad8)

lemma pad8_digits: "list_all is_digit (pad8 n)"
  by (auto simp: pad8_def Let_def list_all_iff is_digit_def dest: dec_digit)

lemma length_pad8: "n < 10 ^ 8 \<Longrightarrow> length (pad8 n) = 8"
  using length_dec_le [of n 8] by (simp add: pad8_def Let_def)

lemma pad8_num_text: "n < 10 ^ 8 \<Longrightarrow> pad8 n = num_text 10 8 n"
  using num_text_num_10 [OF pad8_digits, of n] by (simp add: length_pad8)

lemma pad8_text_num: "list_all is_digit s \<Longrightarrow> length s = 8 \<Longrightarrow> pad8 (text_num 10 s) = s"
  using num_text_num_10 [of s] text_num_less(1) [of s] by (simp add: pad8_num_text)

section \<open>The end anchor of Python's regular expressions\<close>

text \<open>
  In \<^verbatim>\<open>re\<close>, \<^verbatim>\<open>$\<close> (without \<^verbatim>\<open>MULTILINE\<close>) matches at the end of the text and also just before a
  newline that ends it. A pattern \<^verbatim>\<open>^p$\<close> whose \<open>p\<close> cannot match a newline therefore matches a text
  exactly when \<open>p\<close> matches all of \<open>dollar\<close> of the text.
\<close>

definition dollar :: "string \<Rightarrow> string" where
  "dollar s = (if s \<noteq> [] \<and> last s = newline then butlast s else s)"

lemma dollar_id: "s = [] \<or> last s \<noteq> newline \<Longrightarrow> dollar s = s"
  by (auto simp: dollar_def)

lemma dollar_newline [simp]: "dollar (s @ [newline]) = s"
  by (simp add: dollar_def)

lemma dollar_cases: "s = dollar s \<or> s = dollar s @ [newline]"
  by (cases s rule: rev_cases) (auto simp: dollar_def)

end
