(* ===== verification/Models.thy ===== *)
theory Models
  imports Text_Format
begin

text \<open>
  The data of \<^verbatim>\<open>models.py\<close>: generation numbers and the two families of object keys derived from
  them, the marker body \<open>root_doc\<close> and the advisory hint with their JSON forms, the classes of
  recorded statements, rebase decisions, lease states and commit results.

  pydantic, the JSON text format and SHA-256 are not part of the repository. What the code uses
  of them is the record \<open>lib\<close>, an argument of the definitions that need it; \<open>lib_ok\<close> states the
  documented behaviour the code relies on. The shape of each JSON object (field names, order,
  defaults, ranges, \<^verbatim>\<open>extra="forbid"\<close>) is read off the model classes and is defined here.
\<close>

section \<open>Generations and keys\<close>

type_synonym uuid = "128 word"

definition PAYLOAD_PREFIX :: string where
  "PAYLOAD_PREFIX = ''payload/''"

definition ROOTS_PREFIX :: string where
  "ROOTS_PREFIX = ''roots/''"

definition MAX_GENERATION :: int where
  "MAX_GENERATION = 10 ^ 8 - 1"

definition check_generation :: "int \<Rightarrow> error + unit" where
  "check_generation generation =
     (if generation < 0 then Inl InputValidationError
      else if generation > MAX_GENERATION then Inl InputValidationError
      else Inr ())"

subsection \<open>The text of a uuid\<close>

text \<open>
  \<^verbatim>\<open>str(uuid)\<close> prints 32 hexadecimal digits in groups of 8, 4, 4, 4 and 12 joined by dashes;
  \<^verbatim>\<open>UUID(text)\<close> drops the dashes and reads the digits. \<open>match_hex_groups\<close> is the part of the key
  pattern that describes those groups.
\<close>

fun hex_groups :: "nat list \<Rightarrow> string \<Rightarrow> string" where
  "hex_groups [] h = h"
| "hex_groups [n] h = h"
| "hex_groups (n # ns) h = take n h @ CHR ''-'' # hex_groups ns (drop n h)"

fun match_hex_groups :: "nat list \<Rightarrow> string \<Rightarrow> bool" where
  "match_hex_groups [] s = (s = [])"
| "match_hex_groups [n] s = (length s = n \<and> list_all is_hex s)"
| "match_hex_groups (n # ns) s =
     (n < length s \<and> list_all is_hex (take n s) \<and> s ! n = CHR ''-'' \<and>
      match_hex_groups ns (drop (Suc n) s))"

definition uuid_groups :: "nat list" where
  "uuid_groups = [8, 4, 4, 4, 12]"

definition uuid_str :: "uuid \<Rightarrow> string" where
  "uuid_str u = hex_groups uuid_groups (num_text 16 32 (unat u))"

definition uuid_of_str :: "string \<Rightarrow> uuid" where
  "uuid_of_str s = word_of_nat (text_num 16 (filter (\<lambda>c. c \<noteq> CHR ''-'') s))"

lemma filter_hex_id: "list_all is_hex h \<Longrightarrow> filter (\<lambda>c. c \<noteq> CHR ''-'') h = h"
  by (induction h) auto

lemma list_all_take_drop: "list_all P h \<Longrightarrow> list_all P (take n h) \<and> list_all P (drop n h)"
  by (auto simp: list_all_iff dest: in_set_takeD in_set_dropD)

lemma filter_hex_groups:
  "list_all is_hex h \<Longrightarrow> filter (\<lambda>c. c \<noteq> CHR ''-'') (hex_groups ns h) = h"
proof (induction ns h rule: hex_groups.induct)
  case (3 n m ns h)
  then have "list_all is_hex (take n h)" and "list_all is_hex (drop n h)"
    using list_all_take_drop by blast+
  with 3 show ?case by (simp add: filter_hex_id)
qed (simp_all add: filter_hex_id)

lemma match_hex_groups_format:
  "list_all is_hex h \<Longrightarrow> length h = sum_list ns \<Longrightarrow> match_hex_groups ns (hex_groups ns h)"
proof (induction ns h rule: hex_groups.induct)
  case (3 n m ns h)
  then have h: "list_all is_hex (take n h)" "list_all is_hex (drop n h)"
    using list_all_take_drop by blast+
  from 3 h have "match_hex_groups (m # ns) (hex_groups (m # ns) (drop n h))" by simp
  moreover have "length (take n h) = n" using 3 by simp
  ultimately show ?case using h
    by (simp add: nth_append del: length_take)
qed simp_all

lemma match_hex_groups_parts:
  "match_hex_groups ns s \<Longrightarrow>
     (let h = filter (\<lambda>c. c \<noteq> CHR ''-'') s in
       list_all is_hex h \<and> length h = sum_list ns \<and> hex_groups ns h = s)"
proof (induction ns s rule: match_hex_groups.induct)
  case (3 n m ns s)
  let ?r = "drop (Suc n) s"
  let ?h = "filter (\<lambda>c. c \<noteq> CHR ''-'') ?r"
  from 3 have n: "n < length s" and t: "list_all is_hex (take n s)" and d: "s ! n = CHR ''-''"
    and r: "list_all is_hex ?h" "length ?h = sum_list (m # ns)" "hex_groups (m # ns) ?h = ?r"
    by (auto simp: Let_def)
  have s: "s = take n s @ CHR ''-'' # ?r"
    using id_take_nth_drop [OF n] d by simp
  have "filter (\<lambda>c. c \<noteq> CHR ''-'') s = take n s @ ?h"
    using t by (subst s) (simp add: filter_hex_id)
  then show ?case
    using n t r s by (simp add: Let_def)
qed (auto simp: filter_hex_id Let_def)

lemma match_hex_groups_last:
  "match_hex_groups ns s \<Longrightarrow> s \<noteq> [] \<Longrightarrow> ns \<noteq> [] \<Longrightarrow> last ns > 0 \<Longrightarrow> is_hex (last s)"
proof (induction ns s rule: match_hex_groups.induct)
  case (2 n s)
  then show ?case by (auto simp: list_all_iff)
next
  case (3 n m ns s)
  have "match_hex_groups (m # ns) (drop (Suc n) s)" using 3 by simp
  moreover have "drop (Suc n) s \<noteq> []"
  proof
    assume "drop (Suc n) s = []"
    with 3 have "match_hex_groups (m # ns) []" by simp
    then have "sum_list (m # ns) = 0" by (auto dest!: match_hex_groups_parts simp: Let_def)
    with 3 show False by (simp add: sum_list_eq_0_iff) (metis last_in_set less_irrefl list.set_intros(1) last_ConsL)
  qed
  ultimately show ?case using 3 by (simp add: last_drop)
qed simp

lemma uuid_bits: "unat (u :: uuid) < 16 ^ 32"
  using unsigned_less [of u, where 'a = nat] by simp

lemma uuid_hex: "list_all is_hex (num_text 16 w n)"
  by (auto simp: list_all_iff dest: num_text_hex)

lemma uuid_of_uuid_str [simp]: "uuid_of_str (uuid_str u) = u"
  using uuid_bits [of u]
  by (simp add: uuid_of_str_def uuid_str_def filter_hex_groups uuid_hex text_num_text del: hex_groups.simps)

lemma match_uuid_str: "match_hex_groups uuid_groups (uuid_str u)"
  unfolding uuid_str_def by (rule match_hex_groups_format) (simp_all add: uuid_hex uuid_groups_def)

lemma uuid_str_of_match: "match_hex_groups uuid_groups s \<Longrightarrow> uuid_str (uuid_of_str s) = s"
proof -
  assume m: "match_hex_groups uuid_groups s"
  let ?h = "filter (\<lambda>c. c \<noteq> CHR ''-'') s"
  from match_hex_groups_parts [OF m] have h: "list_all is_hex ?h" "length ?h = 32"
    "hex_groups uuid_groups ?h = s"
    by (simp_all add: Let_def uuid_groups_def del: hex_groups.simps)
  from text_num_less(2) [OF h(1)] h(2) have "text_num 16 ?h < 2 ^ 128" by simp
  then have "unat (word_of_nat (text_num 16 ?h) :: uuid) = text_num 16 ?h"
    by (simp add: unat_of_nat)
  then show ?thesis
    using num_text_num_16 [OF h(1)] h(2,3) by (simp add: uuid_str_def uuid_of_str_def)
qed

lemma uuid_str_inject [simp]: "uuid_str u = uuid_str v \<longleftrightarrow> u = v"
  by (metis uuid_of_uuid_str)

subsection \<open>Payload and marker keys\<close>

definition payload_key_text :: "int \<Rightarrow> uuid \<Rightarrow> key" where
  "payload_key_text generation u = PAYLOAD_PREFIX @ pad8 (nat generation) @ CHR ''-'' # uuid_str u"

definition format_payload_key :: "int \<Rightarrow> uuid \<Rightarrow> error + key" where
  "format_payload_key generation u =
     (case check_generation generation of
        Inl e \<Rightarrow> Inl e
      | Inr _ \<Rightarrow> Inr (payload_key_text generation u))"

text \<open>The pattern \<^verbatim>\<open>_PAYLOAD_KEY_RE\<close>, group by group, on the text that \<^verbatim>\<open>$\<close> leaves.\<close>

definition match_payload_key :: "string \<Rightarrow> (string \<times> string) option" where
  "match_payload_key key =
     (let s = dollar key; n = length PAYLOAD_PREFIX; g = take 8 (drop n s); u = drop (n + 9) s in
      if prefix PAYLOAD_PREFIX s \<and> length g = 8 \<and> list_all is_digit g \<and>
         n + 8 < length s \<and> s ! (n + 8) = CHR ''-'' \<and> match_hex_groups uuid_groups u
      then Some (g, u) else None)"

definition parse_payload_key :: "string \<Rightarrow> error + (int \<times> uuid)" where
  "parse_payload_key key =
     (case match_payload_key key of
        None \<Rightarrow> Inl InputValidationError
      | Some (g, u) \<Rightarrow> Inr (int (text_num 10 g), uuid_of_str u))"

definition marker_key_text :: "int \<Rightarrow> key" where
  "marker_key_text generation = ROOTS_PREFIX @ pad8 (nat generation)"

definition format_marker_key :: "int \<Rightarrow> error + key" where
  "format_marker_key generation =
     (case check_generation generation of
        Inl e \<Rightarrow> Inl e
      | Inr _ \<Rightarrow> Inr (marker_key_text generation))"

definition match_marker_key :: "string \<Rightarrow> string option" where
  "match_marker_key key =
     (let s = dollar key; g = drop (length ROOTS_PREFIX) s in
      if prefix ROOTS_PREFIX s \<and> length g = 8 \<and> list_all is_digit g then Some g else None)"

definition parse_marker_key :: "string \<Rightarrow> error + int" where
  "parse_marker_key key =
     (case match_marker_key key of
        None \<Rightarrow> Inl InputValidationError
      | Some g \<Rightarrow> Inr (int (text_num 10 g)))"

definition valid_generation :: "int \<Rightarrow> bool" where
  "valid_generation g \<longleftrightarrow> 0 \<le> g \<and> g \<le> MAX_GENERATION"

lemma check_generation_ok [simp]: "valid_generation g \<Longrightarrow> check_generation g = Inr ()"
  and check_generation_bad: "\<not> valid_generation g \<Longrightarrow> check_generation g = Inl InputValidationError"
  by (auto simp: check_generation_def valid_generation_def)

lemma format_marker_key_ok [simp]: "valid_generation g \<Longrightarrow> format_marker_key g = Inr (marker_key_text g)"
  and format_payload_key_ok [simp]: "valid_generation g \<Longrightarrow> format_payload_key g u = Inr (payload_key_text g u)"
  by (simp_all add: format_marker_key_def format_payload_key_def)

lemma format_marker_key_Inr:
  "format_marker_key g = Inr k \<longleftrightarrow> valid_generation g \<and> k = marker_key_text g"
  by (cases "valid_generation g") (auto simp: format_marker_key_def check_generation_bad)

lemma valid_generation_nat: "valid_generation g \<Longrightarrow> nat g < 10 ^ 8"
  by (auto simp: valid_generation_def MAX_GENERATION_def)

lemma marker_key_inject [simp]:
  "0 \<le> g \<Longrightarrow> 0 \<le> h \<Longrightarrow> marker_key_text g = marker_key_text h \<longleftrightarrow> g = h"
  by (auto simp: marker_key_text_def pad8_inject)

lemma prefix_roots_marker [simp]: "prefix ROOTS_PREFIX (marker_key_text g)"
  by (simp add: marker_key_text_def)

lemma prefix_payload_key [simp]: "prefix PAYLOAD_PREFIX (payload_key_text g u)"
  by (simp add: payload_key_text_def)

lemma payload_not_roots: "prefix PAYLOAD_PREFIX k \<Longrightarrow> \<not> prefix ROOTS_PREFIX k"
  by (auto simp: PAYLOAD_PREFIX_def ROOTS_PREFIX_def prefix_def)

lemma payload_key_not_roots [simp]: "\<not> prefix ROOTS_PREFIX (payload_key_text g u)"
  by (rule payload_not_roots) simp

lemma dollar_marker: "dollar (marker_key_text g) = marker_key_text g"
proof (rule dollar_id, rule disjI2)
  have "pad8 (nat g) \<noteq> []" by (simp add: pad8_def Let_def)
  moreover have "is_digit (last (pad8 (nat g)))"
    using pad8_digits [of "nat g"] calculation by (auto simp: list_all_iff)
  ultimately show "last (marker_key_text g) \<noteq> newline"
    by (auto simp: marker_key_text_def)
qed

lemma uuid_str_nonempty [simp]: "uuid_str u \<noteq> []"
  using match_uuid_str [of u] by (auto simp: uuid_groups_def)

lemma last_uuid_str: "is_hex (last (uuid_str u))"
  using match_hex_groups_last [OF match_uuid_str, of u] by (simp add: uuid_groups_def)

lemma dollar_payload: "dollar (payload_key_text g u) = payload_key_text g u"
  using last_uuid_str [of u] by (intro dollar_id disjI2) (auto simp: payload_key_text_def)

lemma match_marker_key_text:
  assumes "valid_generation g" and "dollar k = marker_key_text g"
  shows "match_marker_key k = Some (pad8 (nat g))"
  using assms length_pad8 [OF valid_generation_nat [OF assms(1)]]
  by (simp add: match_marker_key_def Let_def marker_key_text_def pad8_digits)

lemma match_payload_key_text:
  assumes "valid_generation g" and "dollar k = payload_key_text g u"
  shows "match_payload_key k = Some (pad8 (nat g), uuid_str u)"
  using assms length_pad8 [OF valid_generation_nat [OF assms(1)]]
  by (simp add: match_payload_key_def Let_def payload_key_text_def pad8_digits match_uuid_str nth_append)

lemma match_payload_key_Some:
  assumes "match_payload_key k = Some (g, u)"
  shows "dollar k = PAYLOAD_PREFIX @ g @ CHR ''-'' # u \<and> length g = 8 \<and> list_all is_digit g \<and>
    match_hex_groups uuid_groups u"
proof -
  let ?s = "dollar k" and ?n = "length PAYLOAD_PREFIX"
  from assms have p: "prefix PAYLOAD_PREFIX ?s" and g: "g = take 8 (drop ?n ?s)"
    and u: "u = drop (?n + 9) ?s" and d: "?s ! (?n + 8) = CHR ''-''" and l: "?n + 8 < length ?s"
    and rest: "length g = 8" "list_all is_digit g" "match_hex_groups uuid_groups u"
    by (auto simp: match_payload_key_def Let_def split: if_splits)
  have "drop (?n + 8) ?s = CHR ''-'' # u"
    using l d u by (simp add: Cons_nth_drop_Suc [symmetric] add.commute)
  then have "drop ?n ?s = g @ CHR ''-'' # u"
    by (metis append_take_drop_id drop_drop g add.commute)
  with p have "?s = PAYLOAD_PREFIX @ g @ CHR ''-'' # u"
    by (auto simp: prefix_def)
  with rest show ?thesis by simp
qed

subsection \<open>Round trips of the keys\<close>

lemma parse_marker_key_text:
  "valid_generation g \<Longrightarrow> dollar k = marker_key_text g \<Longrightarrow> parse_marker_key k = Inr g"
  by (simp add: parse_marker_key_def match_marker_key_text) (simp add: valid_generation_def)

lemma parse_payload_key_text:
  "valid_generation g \<Longrightarrow> dollar k = payload_key_text g u \<Longrightarrow> parse_payload_key k = Inr (g, u)"
  by (simp add: parse_payload_key_def match_payload_key_text) (simp add: valid_generation_def)

lemma text_num_8_valid: "length g = 8 \<Longrightarrow> list_all is_digit g \<Longrightarrow> valid_generation (int (text_num 10 g))"
  using text_num_less(1) [of g] by (simp add: valid_generation_def MAX_GENERATION_def)

lemma parse_payload_key_Inr:
  assumes "parse_payload_key k = Inr (g, u)"
  shows "valid_generation g \<and> dollar k = payload_key_text g u"
proof -
  from assms obtain gs us where m: "match_payload_key k = Some (gs, us)"
    and g: "g = int (text_num 10 gs)" and u: "u = uuid_of_str us"
    by (auto simp: parse_payload_key_def split: option.splits)
  from match_payload_key_Some [OF m] show ?thesis
    using g u by (auto simp: payload_key_text_def pad8_text_num uuid_str_of_match text_num_8_valid)
qed

lemma parse_marker_key_Inr:
  assumes "parse_marker_key k = Inr g"
  shows "valid_generation g \<and> dollar k = marker_key_text g"
proof -
  from assms obtain gs where m: "match_marker_key k = Some gs" and g: "g = int (text_num 10 gs)"
    by (auto simp: parse_marker_key_def split: option.splits)
  from m have "prefix ROOTS_PREFIX (dollar k)" and gs: "gs = drop (length ROOTS_PREFIX) (dollar k)"
    and d: "length gs = 8" "list_all is_digit gs"
    by (auto simp: match_marker_key_def Let_def split: if_splits)
  then have "dollar k = ROOTS_PREFIX @ gs" by (auto simp: prefix_def)
  with g d show ?thesis by (simp add: marker_key_text_def pad8_text_num text_num_8_valid)
qed

text \<open>
  \<^verbatim>\<open>parse_payload_key\<close> is the inverse of \<^verbatim>\<open>format_payload_key\<close>: it accepts exactly the
  texts whose \<^verbatim>\<open>$\<close>-anchored part is the canonical key of the generation and uuid it returns, and
  refuses every other text; generations outside the 8-digit range have no key at all.
\<close>
theorem payload_key_roundtrip:
  "parse_payload_key k = Inr (g, u) \<longleftrightarrow> format_payload_key g u = Inr (dollar k)"
  by (cases "valid_generation g")
     (auto simp: format_payload_key_def check_generation_bad parse_payload_key_text dest: parse_payload_key_Inr)

text \<open>
  \<^verbatim>\<open>parse_marker_key\<close> is the inverse of \<^verbatim>\<open>format_marker_key\<close> in the same sense.
\<close>
theorem marker_key_roundtrip:
  "parse_marker_key k = Inr g \<longleftrightarrow> format_marker_key g = Inr (dollar k)"
  by (cases "valid_generation g")
     (auto simp: format_marker_key_def check_generation_bad parse_marker_key_text dest: parse_marker_key_Inr)

text \<open>
  The key parsers do not raise on every non-canonical key, as their comments say: a
  canonical payload key followed by one newline is accepted as the same generation and uuid,
  although it is a different object key.
\<close>
theorem payload_key_final_newline:
  "let k = payload_key_text 7 5 in
     parse_payload_key (k @ [newline]) = Inr (7, 5) \<and> format_payload_key 7 5 \<noteq> Inr (k @ [newline])"
  using parse_payload_key_text [of 7 "payload_key_text 7 5 @ [newline]" 5]
  by (simp add: Let_def valid_generation_def MAX_GENERATION_def)

section \<open>JSON values and the external library\<close>

datatype json =
    JNull
  | JBool bool
  | JInt int
  | JStr string
  | JList "json list"
  | JObj "(string \<times> json) list"

text \<open>
  What the code calls outside the repository: the JSON text of a value and back, pydantic's
  coercions of one JSON value to an integer, a uuid and a time stamp, the ISO text of a time
  stamp, and SHA-256 as its hexadecimal digest. \<open>None\<close> is a parse or validation error.
\<close>

record lib =
  json_dumps :: "json \<Rightarrow> bytes"
  json_loads :: "bytes \<Rightarrow> json option"
  iso_text :: "int \<Rightarrow> string"
  as_int :: "json \<Rightarrow> int option"
  as_uuid :: "json \<Rightarrow> uuid option"
  as_datetime :: "json \<Rightarrow> int option"
  sha256 :: "bytes \<Rightarrow> string"

text \<open>A JSON object has each of its keys once, all the way down.\<close>

fun json_wf :: "json \<Rightarrow> bool" where
  "json_wf (JList js) = list_all json_wf js"
| "json_wf (JObj kvs) = (distinct (map fst kvs) \<and> list_all (\<lambda>kv. json_wf (snd kv)) kvs)"
| "json_wf _ = True"

definition is_sha256_hex :: "string \<Rightarrow> bool" where
  "is_sha256_hex s \<longleftrightarrow> length s = 64 \<and> list_all is_hex s"

definition lib_ok :: "lib \<Rightarrow> bool" where
  "lib_ok L \<longleftrightarrow>
     (\<forall>j. json_wf j \<longrightarrow> json_loads L (json_dumps L j) = Some j) \<and>
     (\<forall>b j. json_loads L b = Some j \<longrightarrow> json_wf j) \<and>
     (\<forall>n. as_int L (JInt n) = Some n) \<and>
     (\<forall>u. as_uuid L (JStr (uuid_str u)) = Some u) \<and>
     (\<forall>t. as_datetime L (JStr (iso_text L t)) = Some t) \<and>
     (\<forall>b. is_sha256_hex (sha256 L b))"

lemma lib_ok_loads: "lib_ok L \<Longrightarrow> json_loads L b = Some j \<Longrightarrow> json_wf j"
  unfolding lib_ok_def by blast

lemma lib_ok_D [simp]:
  assumes "lib_ok L"
  shows "json_wf j \<Longrightarrow> json_loads L (json_dumps L j) = Some j"
    and "as_int L (JInt n) = Some n"
    and "as_uuid L (JStr (uuid_str u)) = Some u"
    and "as_datetime L (JStr (iso_text L t)) = Some t"
    and "is_sha256_hex (sha256 L b)"
  using assms unfolding lib_ok_def by blast+

definition as_str :: "json \<Rightarrow> string option" where
  "as_str j = (case j of JStr s \<Rightarrow> Some s | _ \<Rightarrow> None)"

definition as_obj :: "json \<Rightarrow> (string \<times> json) list option" where
  "as_obj j = (case j of JObj kvs \<Rightarrow> Some kvs | _ \<Rightarrow> None)"

text \<open>A field of a model class: required, or with a default; and \<^verbatim>\<open>extra="forbid"\<close>.\<close>

definition required :: "(string \<times> json) list \<Rightarrow> string \<Rightarrow> (json \<Rightarrow> 'a option) \<Rightarrow> 'a option" where
  "required kvs name conv = (case map_of kvs name of None \<Rightarrow> None | Some j \<Rightarrow> conv j)"

definition defaulted :: "(string \<times> json) list \<Rightarrow> string \<Rightarrow> (json \<Rightarrow> 'a option) \<Rightarrow> 'a \<Rightarrow> 'a option" where
  "defaulted kvs name conv d = (case map_of kvs name of None \<Rightarrow> Some d | Some j \<Rightarrow> conv j)"

definition only_fields :: "string list \<Rightarrow> (string \<times> json) list \<Rightarrow> bool" where
  "only_fields names kvs \<longleftrightarrow> list_all (\<lambda>kv. fst kv \<in> set names) kvs"

definition literal :: "string \<Rightarrow> json \<Rightarrow> unit option" where
  "literal s j = (if j = JStr s then Some () else None)"

definition ge0 :: "lib \<Rightarrow> json \<Rightarrow> int option" where
  "ge0 L j = (case as_int L j of None \<Rightarrow> None | Some n \<Rightarrow> if n \<ge> 0 then Some n else None)"

definition as_generation :: "lib \<Rightarrow> json \<Rightarrow> int option" where
  "as_generation L j =
     (case as_int L j of None \<Rightarrow> None | Some n \<Rightarrow> if 0 \<le> n \<and> n \<le> MAX_GENERATION then Some n else None)"

text \<open>\<^verbatim>\<open>dict[str, str]\<close>\<close>

fun as_str_dict :: "(string \<times> json) list \<Rightarrow> (string \<times> string) list option" where
  "as_str_dict [] = Some []"
| "as_str_dict ((k, j) # kvs) =
     (case as_str j of None \<Rightarrow> None
      | Some s \<Rightarrow> (case as_str_dict kvs of None \<Rightarrow> None | Some r \<Rightarrow> Some ((k, s) # r)))"

lemma as_str_dict_inverse [simp]: "as_str_dict (map (\<lambda>(k, v). (k, JStr v)) d) = Some d"
  by (induction d) (auto simp: as_str_def)

lemma as_str_dict_keys: "as_str_dict kvs = Some d \<Longrightarrow> map fst d = map fst kvs"
  by (induction kvs arbitrary: d rule: as_str_dict.induct) (auto split: option.splits)

end
