(* ===== verification/Documents.thy ===== *)
theory Documents
  imports Models
begin

text \<open>
  The document classes of \<^verbatim>\<open>models.py\<close>: the marker body \<open>root_doc\<close> and the hint, with the JSON
  objects they serialize to and the validation that reads them back; recorded statements and
  changesets; rebase decisions and commit results.
\<close>

section \<open>The marker body\<close>

record writer_info =
  lib_version :: string
  host :: string
  pid :: int

datatype transport = Whole | Chunked

record root_doc =
  generation :: int
  payload_uuid :: uuid
  created_at :: int
  writer :: writer_info
  pins :: "(string \<times> string) list"
  transport_of :: transport
  payload_size :: int

text \<open>What the field constraints of the class admit; \<^verbatim>\<open>pins\<close> is a dictionary.\<close>

definition doc_valid :: "root_doc \<Rightarrow> bool" where
  "doc_valid d \<longleftrightarrow> valid_generation (generation d) \<and> 0 \<le> payload_size d \<and> distinct (map fst (pins d))"

definition payload_key :: "root_doc \<Rightarrow> error + key" where
  "payload_key d = format_payload_key (generation d) (payload_uuid d)"

definition marker_key :: "root_doc \<Rightarrow> error + key" where
  "marker_key d = format_marker_key (generation d)"

definition writer_to_json :: "writer_info \<Rightarrow> json" where
  "writer_to_json w = JObj [(''lib_version'', JStr (lib_version w)), (''host'', JStr (host w)),
     (''pid'', JInt (pid w))]"

definition writer_of_json :: "lib \<Rightarrow> json \<Rightarrow> writer_info option" where
  "writer_of_json L j =
     (case as_obj j of None \<Rightarrow> None | Some kvs \<Rightarrow>
      if \<not> only_fields [''lib_version'', ''host'', ''pid''] kvs then None else
      (case required kvs ''lib_version'' as_str of None \<Rightarrow> None | Some v \<Rightarrow>
      (case required kvs ''host'' as_str of None \<Rightarrow> None | Some h \<Rightarrow>
      (case required kvs ''pid'' (as_int L) of None \<Rightarrow> None | Some p \<Rightarrow>
         Some \<lparr>lib_version = v, host = h, pid = p\<rparr>))))"

definition pins_to_json :: "(string \<times> string) list \<Rightarrow> json" where
  "pins_to_json d = JObj (map (\<lambda>(k, v). (k, JStr v)) d)"

definition pins_of_json :: "json \<Rightarrow> (string \<times> string) list option" where
  "pins_of_json j = (case as_obj j of None \<Rightarrow> None | Some kvs \<Rightarrow> as_str_dict kvs)"

definition transport_to_json :: "transport \<Rightarrow> json" where
  "transport_to_json t = JStr (case t of Whole \<Rightarrow> ''whole'' | Chunked \<Rightarrow> ''chunked'')"

definition transport_of_json :: "json \<Rightarrow> transport option" where
  "transport_of_json j =
     (if j = JStr ''whole'' then Some Whole else if j = JStr ''chunked'' then Some Chunked else None)"

definition root_schema :: string where
  "root_schema = ''ducklake-serverless-root/1''"

text \<open>\<^verbatim>\<open>to_json_bytes\<close> leaves \<^verbatim>\<open>transport\<close> out of the object when it is the default.\<close>

definition root_to_json :: "lib \<Rightarrow> root_doc \<Rightarrow> json" where
  "root_to_json L d = JObj
     ([(''schema'', JStr root_schema),
       (''generation'', JInt (generation d)),
       (''payload_uuid'', JStr (uuid_str (payload_uuid d))),
       (''created_at'', JStr (iso_text L (created_at d))),
       (''writer'', writer_to_json (writer d)),
       (''pins'', pins_to_json (pins d))]
      @ (if transport_of d = Whole then [] else [(''transport'', transport_to_json (transport_of d))])
      @ [(''payload_size'', JInt (payload_size d))])"

definition root_to_json_bytes :: "lib \<Rightarrow> root_doc \<Rightarrow> bytes" where
  "root_to_json_bytes L d = json_dumps L (root_to_json L d)"

definition root_fields :: "string list" where
  "root_fields = [''schema'', ''generation'', ''payload_uuid'', ''created_at'', ''writer'', ''pins'',
     ''transport'', ''payload_size'']"

definition root_of_json :: "lib \<Rightarrow> json \<Rightarrow> root_doc option" where
  "root_of_json L j =
     (case as_obj j of None \<Rightarrow> None | Some kvs \<Rightarrow>
      if \<not> only_fields root_fields kvs then None else
      (case defaulted kvs ''schema'' (literal root_schema) () of None \<Rightarrow> None | Some _ \<Rightarrow>
      (case required kvs ''generation'' (as_generation L) of None \<Rightarrow> None | Some g \<Rightarrow>
      (case required kvs ''payload_uuid'' (as_uuid L) of None \<Rightarrow> None | Some u \<Rightarrow>
      (case required kvs ''created_at'' (as_datetime L) of None \<Rightarrow> None | Some t \<Rightarrow>
      (case required kvs ''writer'' (writer_of_json L) of None \<Rightarrow> None | Some w \<Rightarrow>
      (case defaulted kvs ''pins'' pins_of_json [] of None \<Rightarrow> None | Some p \<Rightarrow>
      (case defaulted kvs ''transport'' transport_of_json Whole of None \<Rightarrow> None | Some tr \<Rightarrow>
      (case required kvs ''payload_size'' (ge0 L) of None \<Rightarrow> None | Some n \<Rightarrow>
         Some \<lparr>generation = g, payload_uuid = u, created_at = t, writer = w, pins = p,
               transport_of = tr, payload_size = n\<rparr>)))))))))"

text \<open>\<^verbatim>\<open>None\<close> is pydantic's \<^verbatim>\<open>ValidationError\<close>.\<close>

definition root_from_json_bytes :: "lib \<Rightarrow> bytes \<Rightarrow> root_doc option" where
  "root_from_json_bytes L data =
     (case json_loads L data of None \<Rightarrow> None | Some j \<Rightarrow> root_of_json L j)"

named_theorems json_defs "JSON readers and writers, unfolded"

lemmas json_field_defs [json_defs] =
  as_obj_def as_str_def only_fields_def required_def defaulted_def literal_def ge0_def as_generation_def

lemma writer_json_inverse [simp]: "lib_ok L \<Longrightarrow> writer_of_json L (writer_to_json w) = Some w"
  by (simp add: writer_of_json_def writer_to_json_def json_defs)

lemma pins_json_inverse [simp]: "pins_of_json (pins_to_json p) = Some p"
  by (simp add: pins_of_json_def pins_to_json_def as_obj_def)

lemma transport_json_inverse [simp]: "transport_of_json (transport_to_json t) = Some t"
  by (cases t) (simp_all add: transport_of_json_def transport_to_json_def)

lemma writer_json_wf [simp]: "json_wf (writer_to_json w)"
  by (simp add: writer_to_json_def)

lemma pins_json_wf [simp]: "distinct (map fst p) \<Longrightarrow> json_wf (pins_to_json p)"
  by (auto simp: pins_to_json_def list_all_iff o_def case_prod_unfold)

lemma transport_json_wf [simp]: "json_wf (transport_to_json t)"
  by (simp add: transport_to_json_def)

lemma root_json_wf: "doc_valid d \<Longrightarrow> json_wf (root_to_json L d)"
  by (simp add: root_to_json_def doc_valid_def)

lemma root_json_inverse: "lib_ok L \<Longrightarrow> doc_valid d \<Longrightarrow> root_of_json L (root_to_json L d) = Some d"
  by (cases "transport_of d")
     (simp_all add: root_of_json_def root_to_json_def json_defs root_fields_def doc_valid_def
        valid_generation_def)

lemma root_doc_roundtrip_lemma:
  "lib_ok L \<Longrightarrow> doc_valid d \<Longrightarrow> root_from_json_bytes L (root_to_json_bytes L d) = Some d"
  by (simp add: root_from_json_bytes_def root_to_json_bytes_def root_json_wf root_json_inverse)

lemma as_generation_valid: "as_generation L j = Some g \<Longrightarrow> valid_generation g"
  by (auto simp: as_generation_def valid_generation_def split: option.splits if_splits)

lemma required_Some: "required kvs f c = Some x \<longleftrightarrow> (\<exists>j. map_of kvs f = Some j \<and> c j = Some x)"
  by (simp add: required_def split: option.splits)

lemma pins_of_json_distinct: "json_wf j \<Longrightarrow> pins_of_json j = Some p \<Longrightarrow> distinct (map fst p)"
  by (auto simp: pins_of_json_def as_obj_def as_str_dict_keys split: option.splits json.splits)

lemma json_wf_field: "json_wf (JObj kvs) \<Longrightarrow> map_of kvs f = Some j \<Longrightarrow> json_wf j"
  by (auto simp: list_all_iff dest!: map_of_SomeD)

lemma pins_field_distinct:
  "json_wf (JObj kvs) \<Longrightarrow> defaulted kvs f pins_of_json [] = Some p \<Longrightarrow> distinct (map fst p)"
  by (auto simp: defaulted_def simp del: json_wf.simps dest: json_wf_field
      intro: pins_of_json_distinct split: option.splits)

lemma root_of_json_valid:
  assumes "json_wf j" and "root_of_json L j = Some d"
  shows "doc_valid d"
proof -
  from assms(2) obtain kvs g u t w p tr n where j: "j = JObj kvs"
    and g: "required kvs ''generation'' (as_generation L) = Some g"
    and p: "defaulted kvs ''pins'' pins_of_json [] = Some p"
    and n: "required kvs ''payload_size'' (ge0 L) = Some n"
    and d: "d = \<lparr>generation = g, payload_uuid = u, created_at = t, writer = w, pins = p,
               transport_of = tr, payload_size = n\<rparr>"
    by (auto simp: root_of_json_def as_obj_def split: option.splits json.splits if_splits)
  have "valid_generation g"
    using g by (auto simp: required_Some intro: as_generation_valid)
  moreover have "0 \<le> n"
    using n by (auto simp: required_Some ge0_def split: option.splits if_splits)
  moreover have "distinct (map fst p)"
    using assms(1) p by (auto simp: j intro: pins_field_distinct)
  ultimately show ?thesis by (simp add: d doc_valid_def)
qed

lemma root_from_json_bytes_valid:
  "lib_ok L \<Longrightarrow> root_from_json_bytes L b = Some d \<Longrightarrow> doc_valid d"
  by (auto simp: root_from_json_bytes_def intro: root_of_json_valid lib_ok_loads split: option.splits)

lemma payload_key_ok [simp]:
  "doc_valid d \<Longrightarrow> payload_key d = Inr (payload_key_text (generation d) (payload_uuid d))"
  and marker_key_ok [simp]: "doc_valid d \<Longrightarrow> marker_key d = Inr (marker_key_text (generation d))"
  by (simp_all add: payload_key_def marker_key_def doc_valid_def)

section \<open>The hint\<close>

definition hint_schema :: string where
  "hint_schema = ''ducklake-serverless-hint/1''"

definition hint_to_json_bytes :: "lib \<Rightarrow> int \<Rightarrow> bytes" where
  "hint_to_json_bytes L g = json_dumps L (JObj [(''schema'', JStr hint_schema), (''generation'', JInt g)])"

definition hint_from_json_bytes :: "lib \<Rightarrow> bytes \<Rightarrow> int option" where
  "hint_from_json_bytes L data =
     (case json_loads L data of None \<Rightarrow> None | Some j \<Rightarrow>
      (case as_obj j of None \<Rightarrow> None | Some kvs \<Rightarrow>
       if \<not> only_fields [''schema'', ''generation''] kvs then None else
       (case defaulted kvs ''schema'' (literal hint_schema) () of None \<Rightarrow> None | Some _ \<Rightarrow>
          required kvs ''generation'' (as_generation L))))"

lemma hint_roundtrip [simp]:
  "lib_ok L \<Longrightarrow> valid_generation g \<Longrightarrow> hint_from_json_bytes L (hint_to_json_bytes L g) = Some g"
  by (simp add: hint_from_json_bytes_def hint_to_json_bytes_def json_defs valid_generation_def)

lemma hint_valid: "hint_from_json_bytes L b = Some g \<Longrightarrow> valid_generation g"
  by (auto simp: hint_from_json_bytes_def required_Some intro: as_generation_valid
      split: option.splits if_splits)

section \<open>Statements and changesets\<close>

datatype statement_class = BLIND_APPEND | STATE_DEPENDENT_DML | DDL | READ | VOLATILE

record 'p statement =
  sql :: string
  params :: "'p list"
  statement_class :: statement_class

type_synonym 'p changeset = "'p statement list"

definition has_ddl :: "'p changeset \<Rightarrow> bool" where
  "has_ddl c = list_ex (\<lambda>s. statement_class s = DDL) c"

definition has_reads :: "'p changeset \<Rightarrow> bool" where
  "has_reads c = list_ex (\<lambda>s. statement_class s = READ) c"

definition is_blind_append_only :: "'p changeset \<Rightarrow> bool" where
  "is_blind_append_only c =
     (let writes = filter (\<lambda>s. statement_class s \<noteq> READ) c
      in writes \<noteq> [] \<and> list_all (\<lambda>s. statement_class s = BLIND_APPEND) writes)"

section \<open>Decisions and outcomes\<close>

datatype conflict_policy = APPEND_ONLY_REPLAY | REPLAY_ALL | ABORT_ALL

datatype rebase_decision = Replay | Abort abort_reason

record commit_result =
  result_generation :: int
  result_uuid :: uuid
  attempts :: int

end
