(* ===== verification/Rebase.thy ===== *)
theory Rebase
  imports Documents
begin

text \<open>
  \<^verbatim>\<open>rebase.py\<close>: the pure decision taken when a commit loses the race for its generation.
\<close>

definition has_state_dependent :: "'p changeset \<Rightarrow> bool" where
  "has_state_dependent c = list_ex (\<lambda>s. statement_class s = STATE_DEPENDENT_DML) c"

definition decide_rebase :: "'p changeset \<Rightarrow> conflict_policy \<Rightarrow> int \<Rightarrow> int \<Rightarrow> rebase_decision" where
  "decide_rebase changeset policy attempt max_attempts =
     (if attempt \<ge> max_attempts then Abort (ExhaustedAttempts max_attempts)
      else if has_ddl changeset then Abort ContainsDDL
      else if policy = ABORT_ALL then Abort PolicyAbortAll
      else if changeset = [] then Abort EmptyChangeset
      else if has_state_dependent changeset \<and> policy \<noteq> REPLAY_ALL then Abort ContainsStateDependentDML
      else if has_reads changeset \<and> policy \<noteq> REPLAY_ALL then Abort MixesReadsWithWrites
      else Replay)"

text \<open>
  Under the default policy a lost commit is replayed exactly when attempts are left and
  every statement of a non-empty changeset is a blind append, where a recorded volatile statement
  counts as one; the recorder never records a volatile statement (it raises instead).
\<close>
theorem default_policy_replays_blind_appends:
  "decide_rebase c APPEND_ONLY_REPLAY a m = Replay \<longleftrightarrow>
     a < m \<and> c \<noteq> [] \<and> set (map statement_class c) \<subseteq> {BLIND_APPEND, VOLATILE}"
proof -
  have "(\<not> has_ddl c \<and> \<not> has_state_dependent c \<and> \<not> has_reads c) \<longleftrightarrow>
      set (map statement_class c) \<subseteq> {BLIND_APPEND, VOLATILE}"
    by (auto simp: has_ddl_def has_state_dependent_def has_reads_def list_ex_iff)
       (metis statement_class.exhaust)+
  then show ?thesis by (auto simp: decide_rebase_def)
qed

text \<open>
  Opting into \<^verbatim>\<open>replay_all\<close> never overrides exhaustion or DDL: a replay under any policy
  has attempts left, a non-empty changeset without DDL, and a policy other than \<^verbatim>\<open>abort_all\<close>; and
  if it is not \<^verbatim>\<open>replay_all\<close>, the changeset neither reads the lake nor depends on its state.
\<close>
theorem replay_never_overrides_ddl_or_exhaustion:
  "decide_rebase c p a m = Replay \<longleftrightarrow>
     a < m \<and> c \<noteq> [] \<and> \<not> has_ddl c \<and> p \<noteq> ABORT_ALL \<and>
     (p = REPLAY_ALL \<or> (set (map statement_class c) \<inter> {READ, STATE_DEPENDENT_DML} = {}))"
proof -
  have "(\<not> has_state_dependent c \<and> \<not> has_reads c) \<longleftrightarrow>
      set (map statement_class c) \<inter> {READ, STATE_DEPENDENT_DML} = {}"
    by (auto simp: has_state_dependent_def has_reads_def list_ex_iff) (metis image_eqI)+
  then show ?thesis by (auto simp: decide_rebase_def)
qed

lemma decide_rebase_exhausted: "m \<le> a \<Longrightarrow> decide_rebase c p a m = Abort (ExhaustedAttempts m)"
  by (simp add: decide_rebase_def)

lemma blind_append_only_replayed:
  assumes "is_blind_append_only c" and "\<not> has_reads c" and "a < m" and "p \<noteq> ABORT_ALL"
  shows "decide_rebase c p a m = Replay"
proof -
  from assms(1,2) have "c \<noteq> []" and all: "\<forall>s \<in> set c. statement_class s = BLIND_APPEND"
    by (auto simp: is_blind_append_only_def has_reads_def list_ex_iff list_all_iff Let_def)
  then have "\<not> has_ddl c" and "\<not> has_state_dependent c"
    by (auto simp: has_ddl_def has_state_dependent_def list_ex_iff)
  with \<open>c \<noteq> []\<close> assms show ?thesis by (simp add: decide_rebase_def)
qed

end
