(* ===== verification/Object_Store.thy ===== *)
theory Object_Store
  imports Documents "HOL-Library.DAList"
begin

text \<open>
  \<^verbatim>\<open>objectstore.py\<close>: the \<^verbatim>\<open>ObjectStore\<close> protocol as a record of operations on a state, the two
  classes that implement it, and the contract (a locale) that the rest of the library relies on.

  \<^item> \<open>mem_store\<close> is \<^verbatim>\<open>InMemoryObjectStore\<close>: a Python dict of objects, an ETag counter, and the
    clock that stamps every write. Each method holds the lock, so it is one atomic step.
  \<^item> \<open>s3_store\<close> is \<^verbatim>\<open>S3ObjectStore\<close> over a boto3 client. boto3 is not in the repository: the client
    is a parameter, and what the class does with its answers and exceptions is defined here.
\<close>

section \<open>The protocol\<close>

record get_result =
  body :: bytes
  etag :: string
  last_modified :: "int option"

record object_meta =
  meta_key :: key
  meta_size :: nat
  meta_modified :: "int option"

record 's store =
  get :: "key \<Rightarrow> ('s, get_result) io"
  get_range :: "key \<Rightarrow> int \<Rightarrow> int \<Rightarrow> ('s, bytes) io"
  put_if_absent :: "key \<Rightarrow> bytes \<Rightarrow> ('s, string) io"
  put_if_match :: "key \<Rightarrow> bytes \<Rightarrow> string \<Rightarrow> ('s, string) io"
  put :: "key \<Rightarrow> bytes \<Rightarrow> ('s, string) io"
  list_prefix :: "string \<Rightarrow> ('s, key list) io"
  list_meta :: "string \<Rightarrow> ('s, object_meta list) io"
  head_meta :: "key \<Rightarrow> ('s, object_meta) io"
  delete :: "key \<Rightarrow> ('s, unit) io"

section \<open>The in-memory store\<close>

record stored =
  ob_body :: bytes
  ob_etag :: nat
  ob_mtime :: int

text \<open>
  An object is its body, its ETag and its write time. Every ETag is the text \<open>etag_text n\<close> of a counter
  value, which is what \<open>ob_etag\<close> holds. \<open>objects\<close> is the dict (an association list with distinct keys, in insertion order); \<open>clock\<close> is what \<^verbatim>\<open>datetime.now\<close> returns, in microseconds.
\<close>

record mem =
  objects :: "(key, stored) alist"
  etag_counter :: nat
  clock :: int

definition empty_mem :: mem where
  "empty_mem = \<lparr>objects = DAList.empty, etag_counter = 0, clock = 0\<rparr>"

definition etag_text :: "nat \<Rightarrow> string" where
  "etag_text n = ''etag-'' @ pad8 n"

definition next_etag :: "mem \<Rightarrow> nat \<times> mem" where
  "next_etag m = (let n = Suc (etag_counter m) in (n, m\<lparr>etag_counter := n\<rparr>))"

definition mem_get :: "key \<Rightarrow> (mem, get_result) io" where
  "mem_get k m =
     (case DAList.lookup (objects m) k of
        None \<Rightarrow> (Inl ObjectNotFoundError, m)
      | Some ob \<Rightarrow> (Inr \<lparr>body = ob_body ob, etag = etag_text (ob_etag ob), last_modified = Some (ob_mtime ob)\<rparr>, m))"

text \<open>A Python slice \<^verbatim>\<open>body[start : start + length]\<close> with non-negative bounds.\<close>

definition byte_slice :: "bytes \<Rightarrow> nat \<Rightarrow> nat \<Rightarrow> bytes" where
  "byte_slice b start len = take len (drop start b)"

definition mem_get_range :: "key \<Rightarrow> int \<Rightarrow> int \<Rightarrow> (mem, bytes) io" where
  "mem_get_range k start len m =
     (if start < 0 then (Inl InputValidationError, m)
      else case DAList.lookup (objects m) k of
        None \<Rightarrow> (Inl ObjectNotFoundError, m)
      | Some ob \<Rightarrow>
          (if len \<le> 0 then (Inr [], m)
           else (Inr (byte_slice (ob_body ob) (nat start) (nat len)), m)))"

definition mem_write :: "key \<Rightarrow> bytes \<Rightarrow> (mem, string) io" where
  "mem_write k b m =
     (let (e, m') = next_etag m
      in (Inr (etag_text e), m'\<lparr>objects := DAList.update k \<lparr>ob_body = b, ob_etag = e, ob_mtime = clock m\<rparr> (objects m')\<rparr>))"

definition mem_put_if_absent :: "key \<Rightarrow> bytes \<Rightarrow> (mem, string) io" where
  "mem_put_if_absent k b m =
     (if DAList.lookup (objects m) k \<noteq> None then (Inl PreconditionFailedError, m) else mem_write k b m)"

definition mem_put_if_match :: "key \<Rightarrow> bytes \<Rightarrow> string \<Rightarrow> (mem, string) io" where
  "mem_put_if_match k b e m =
     (case DAList.lookup (objects m) k of
        None \<Rightarrow> (Inl ObjectNotFoundError, m)
      | Some current \<Rightarrow>
          (if etag_text (ob_etag current) \<noteq> e then (Inl PreconditionFailedError, m) else mem_write k b m))"

definition mem_put :: "key \<Rightarrow> bytes \<Rightarrow> (mem, string) io" where
  "mem_put k b m = mem_write k b m"

definition mem_list_prefix :: "string \<Rightarrow> (mem, key list) io" where
  "mem_list_prefix p m = (Inr (sort (filter (prefix p) (map fst (DAList.impl_of (objects m))))), m)"

definition mem_list_meta :: "string \<Rightarrow> (mem, object_meta list) io" where
  "mem_list_meta p m =
     (Inr (map (\<lambda>(k, ob). \<lparr>meta_key = k, meta_size = length (ob_body ob), meta_modified = Some (ob_mtime ob)\<rparr>)
            (filter (\<lambda>(k, ob). prefix p k) (sort_key fst (DAList.impl_of (objects m))))), m)"

definition mem_head_meta :: "key \<Rightarrow> (mem, object_meta) io" where
  "mem_head_meta k m =
     (case DAList.lookup (objects m) k of
        None \<Rightarrow> (Inl ObjectNotFoundError, m)
      | Some ob \<Rightarrow>
          (Inr \<lparr>meta_key = k, meta_size = length (ob_body ob), meta_modified = Some (ob_mtime ob)\<rparr>, m))"

definition mem_delete :: "key \<Rightarrow> (mem, unit) io" where
  "mem_delete k m = (Inr (), m\<lparr>objects := DAList.delete k (objects m)\<rparr>)"

definition mem_store :: "mem store" where
  "mem_store = \<lparr>get = mem_get, get_range = mem_get_range, put_if_absent = mem_put_if_absent,
     put_if_match = mem_put_if_match, put = mem_put, list_prefix = mem_list_prefix,
     list_meta = mem_list_meta, head_meta = mem_head_meta, delete = mem_delete\<rparr>"

section \<open>The S3 store over a client\<close>

text \<open>
  A boto3 call ends in an answer, in a \<^verbatim>\<open>ClientError\<close> (an error response with a code and an HTTP
  status) or in a \<^verbatim>\<open>BotoCoreError\<close> (no response: connection and timeout failures).
\<close>

datatype boto_exc = ClientError string int | BotoCore

datatype put_condition = Unconditional | IfNoneMatch | IfMatch string

record get_response =
  resp_body :: bytes
  resp_etag :: string
  resp_modified :: "int option"

record list_row =
  row_key :: "key option"
  row_size :: nat
  row_modified :: "int option"

record 's client =
  get_object :: "key \<Rightarrow> (int \<times> int) option \<Rightarrow> 's \<Rightarrow> (boto_exc + get_response) \<times> 's"
  put_object :: "key \<Rightarrow> bytes \<Rightarrow> put_condition \<Rightarrow> 's \<Rightarrow> (boto_exc + string) \<times> 's"
  list_pages :: "string \<Rightarrow> 's \<Rightarrow> (boto_exc + list_row list list) \<times> 's"
  head_object :: "key \<Rightarrow> 's \<Rightarrow> (boto_exc + (nat \<times> int option)) \<times> 's"
  delete_object :: "key \<Rightarrow> 's \<Rightarrow> (boto_exc + unit) \<times> 's"

text \<open>\<^verbatim>\<open>etag.strip('"')\<close> and \<^verbatim>\<open>prefix.rstrip("/") + "/"\<close>\<close>

definition lstrip :: "char \<Rightarrow> string \<Rightarrow> string" where
  "lstrip c s = dropWhile (\<lambda>x. x = c) s"

definition rstrip :: "char \<Rightarrow> string \<Rightarrow> string" where
  "rstrip c s = rev (dropWhile (\<lambda>x. x = c) (rev s))"

definition strip_quotes :: "string \<Rightarrow> string" where
  "strip_quotes s = rstrip (CHR 0x22) (lstrip (CHR 0x22) s)"

definition s3_prefix :: "string \<Rightarrow> string" where
  "s3_prefix p = (if p = '''' then '''' else rstrip (CHR ''/'') p @ ''/'')"

definition is_missing :: "string \<Rightarrow> bool" where
  "is_missing code \<longleftrightarrow> code = ''NoSuchKey'' \<or> code = ''404''"

text \<open>
  \<^verbatim>\<open>_raise_conditional\<close>: the domain error of a failed conditional write, or none of them.
\<close>

definition raise_conditional :: "string \<Rightarrow> int \<Rightarrow> error option" where
  "raise_conditional code status =
     (if code = ''PreconditionFailed'' \<or> status = 412 then Some PreconditionFailedError
      else if is_missing code \<or> status = 404 then Some ObjectNotFoundError
      else if code = ''ConditionalRequestConflict'' \<or> status = 409 then Some ConditionalConflictError
      else if status \<ge> 500 \<or> code = ''RequestTimeout'' \<or> code = ''SlowDown'' then Some AmbiguousCasError
      else None)"

text \<open>What each method does with the exception of its boto3 call.\<close>

definition get_error :: "boto_exc \<Rightarrow> error" where
  "get_error x = (case x of
     ClientError code _ \<Rightarrow> (if is_missing code then ObjectNotFoundError else ExternalServiceError)
   | BotoCore \<Rightarrow> BotoCoreError)"

definition conditional_error :: "boto_exc \<Rightarrow> error" where
  "conditional_error x = (case x of
     ClientError code status \<Rightarrow>
       (case raise_conditional code status of Some e \<Rightarrow> e | None \<Rightarrow> ExternalServiceError)
   | BotoCore \<Rightarrow> AmbiguousCasError)"

definition list_error :: "boto_exc \<Rightarrow> error" where
  "list_error x = (case x of ClientError _ _ \<Rightarrow> ExternalServiceError | BotoCore \<Rightarrow> BotoCoreError)"

definition head_error :: "boto_exc \<Rightarrow> error" where
  "head_error x = (case x of
     ClientError code status \<Rightarrow>
       (if is_missing code \<or> status = 404 then ObjectNotFoundError else ExternalServiceError)
   | BotoCore \<Rightarrow> BotoCoreError)"

definition boto_call :: "(boto_exc \<Rightarrow> error) \<Rightarrow> ('a \<Rightarrow> 'b) \<Rightarrow> (boto_exc + 'a) \<times> 's \<Rightarrow> (error + 'b) \<times> 's" where
  "boto_call onexc f rs = (case rs of (r, s) \<Rightarrow>
     (case r of Inl x \<Rightarrow> (Inl (onexc x), s) | Inr a \<Rightarrow> (Inr (f a), s)))"

definition s3_get :: "'s client \<Rightarrow> string \<Rightarrow> key \<Rightarrow> ('s, get_result) io" where
  "s3_get C p k s = boto_call get_error
     (\<lambda>resp. \<lparr>body = resp_body resp, etag = strip_quotes (resp_etag resp), last_modified = resp_modified resp\<rparr>)
     (get_object C (p @ k) None s)"

definition s3_get_range :: "'s client \<Rightarrow> string \<Rightarrow> key \<Rightarrow> int \<Rightarrow> int \<Rightarrow> ('s, bytes) io" where
  "s3_get_range C p k start len s =
     (if start < 0 then (Inl InputValidationError, s)
      else if len \<le> 0 then (Inr [], s)
      else case get_object C (p @ k) (Some (start, start + len - 1)) s of (r, s') \<Rightarrow>
        (case r of
           Inr resp \<Rightarrow> (Inr (resp_body resp), s')
         | Inl BotoCore \<Rightarrow> (Inl BotoCoreError, s')
         | Inl (ClientError code _) \<Rightarrow>
             (if is_missing code then (Inl ObjectNotFoundError, s')
              else if code = ''InvalidRange'' then (Inr [], s')
              else (Inl ExternalServiceError, s'))))"

definition s3_put_if_absent :: "'s client \<Rightarrow> string \<Rightarrow> key \<Rightarrow> bytes \<Rightarrow> ('s, string) io" where
  "s3_put_if_absent C p k b s = boto_call conditional_error strip_quotes (put_object C (p @ k) b IfNoneMatch s)"

definition s3_put_if_match :: "'s client \<Rightarrow> string \<Rightarrow> key \<Rightarrow> bytes \<Rightarrow> string \<Rightarrow> ('s, string) io" where
  "s3_put_if_match C p k b e s = boto_call conditional_error strip_quotes (put_object C (p @ k) b (IfMatch e) s)"

definition s3_put :: "'s client \<Rightarrow> string \<Rightarrow> key \<Rightarrow> bytes \<Rightarrow> ('s, string) io" where
  "s3_put C p k b s = boto_call (\<lambda>_. ExternalServiceError) strip_quotes (put_object C (p @ k) b Unconditional s)"

definition s3_list_prefix :: "'s client \<Rightarrow> string \<Rightarrow> string \<Rightarrow> ('s, key list) io" where
  "s3_list_prefix C p q s = boto_call list_error
     (\<lambda>pages. map (removeprefix p) (List.map_filter row_key (concat pages)))
     (list_pages C (p @ q) s)"

definition s3_list_meta :: "'s client \<Rightarrow> string \<Rightarrow> string \<Rightarrow> ('s, object_meta list) io" where
  "s3_list_meta C p q s = boto_call list_error
     (\<lambda>pages. List.map_filter (\<lambda>row. map_option (\<lambda>k.
         \<lparr>meta_key = removeprefix p k, meta_size = row_size row, meta_modified = row_modified row\<rparr>) (row_key row))
       (concat pages))
     (list_pages C (p @ q) s)"

definition s3_delete :: "'s client \<Rightarrow> string \<Rightarrow> key \<Rightarrow> ('s, unit) io" where
  "s3_delete C p k s = boto_call list_error id (delete_object C (p @ k) s)"

definition s3_head_meta :: "'s client \<Rightarrow> string \<Rightarrow> key \<Rightarrow> ('s, object_meta) io" where
  "s3_head_meta C p k s = boto_call head_error
     (\<lambda>(n, t). \<lparr>meta_key = k, meta_size = n, meta_modified = t\<rparr>) (head_object C (p @ k) s)"

definition s3_store :: "'s client \<Rightarrow> string \<Rightarrow> 's store" where
  "s3_store C prefix_arg = (let p = s3_prefix prefix_arg in
     \<lparr>get = s3_get C p, get_range = s3_get_range C p, put_if_absent = s3_put_if_absent C p,
      put_if_match = s3_put_if_match C p, put = s3_put C p, list_prefix = s3_list_prefix C p,
      list_meta = s3_list_meta C p, head_meta = s3_head_meta C p, delete = s3_delete C p\<rparr>)"

text \<open>The URI under which DuckDB's httpfs reads an object of the bucket itself.\<close>

definition s3_uri :: "string \<Rightarrow> string \<Rightarrow> key \<Rightarrow> string" where
  "s3_uri bucket prefix_arg key = ''s3://'' @ bucket @ ''/'' @ s3_prefix prefix_arg @ key"

lemma s3_uri_inject [simp]: "s3_uri bucket prefix_arg k = s3_uri bucket prefix_arg k' \<longleftrightarrow> k = k'"
  by (simp add: s3_uri_def)

text \<open>
  A conditional write of the S3 store never reports a definitive loss for an outcome it
  cannot know: a missing response and every 5xx, timeout or throttling answer become
  \<^verbatim>\<open>AmbiguousCasError\<close>, and only a 412 (by code or status) becomes \<^verbatim>\<open>PreconditionFailedError\<close>.
\<close>
theorem conditional_write_error_map:
  "conditional_error BotoCore = AmbiguousCasError \<and>
   (\<forall>code status. conditional_error (ClientError code status) = PreconditionFailedError \<longleftrightarrow>
      code = ''PreconditionFailed'' \<or> status = 412) \<and>
   (\<forall>code status. conditional_error (ClientError code status) = AmbiguousCasError \<longleftrightarrow>
      (status \<ge> 500 \<or> code = ''RequestTimeout'' \<or> code = ''SlowDown'') \<and>
      code \<notin> {''PreconditionFailed'', ''NoSuchKey'', ''404'', ''ConditionalRequestConflict''} \<and>
      status \<notin> {412, 404, 409})"
  by (auto simp: conditional_error_def raise_conditional_def is_missing_def)

end
