(* ===== verification/Store_Contract.thy ===== *)
theory Store_Contract
  imports Object_Store
begin

text \<open>
  The contract between the object store and the protocol code, as the locale \<open>object_store\<close>.

  The protocol never owns the store: rival processes act on it between any two of our calls. The
  laws therefore speak of a relation \<open>evolves\<close> between the contents before and after a stretch of
  time in which anyone may act: markers are create-only and immortal, and a lake whose markers are
  dense and readable stays so. Each call does its atomic effect at some moment within the
  stretch. A write whose outcome is unknown (\<open>AmbiguousCasError\<close>) promises nothing beyond \<open>evolves\<close>.
\<close>

section \<open>Markers in the contents of a store\<close>

type_synonym contents = "key \<Rightarrow> stored option"

definition has_marker :: "contents \<Rightarrow> int \<Rightarrow> bool" where
  "has_marker h g \<longleftrightarrow> valid_generation g \<and> h (marker_key_text g) \<noteq> None"

definition marker_at :: "lib \<Rightarrow> contents \<Rightarrow> int \<Rightarrow> root_doc \<Rightarrow> bool" where
  "marker_at L h g d \<longleftrightarrow> valid_generation g \<and> generation d = g \<and>
     (case h (marker_key_text g) of None \<Rightarrow> False
      | Some ob \<Rightarrow> root_from_json_bytes L (ob_body ob) = Some d)"

definition lake_ok :: "lib \<Rightarrow> contents \<Rightarrow> bool" where
  "lake_ok L h \<longleftrightarrow>
     (\<forall>g. has_marker h g \<longrightarrow> (\<exists>d. marker_at L h g d) \<and> (0 < g \<longrightarrow> has_marker h (g - 1)))"

definition heap_evolves :: "lib \<Rightarrow> contents \<Rightarrow> contents \<Rightarrow> bool" where
  "heap_evolves L h h' \<longleftrightarrow>
     (\<forall>k ob. prefix ROOTS_PREFIX k \<longrightarrow> h k = Some ob \<longrightarrow> h' k = Some ob) \<and>
     (lake_ok L h \<longrightarrow> lake_ok L h')"

lemma heap_evolves_refl [simp]: "heap_evolves L h h"
  by (simp add: heap_evolves_def)

lemma heap_evolves_trans: "heap_evolves L h h' \<Longrightarrow> heap_evolves L h' h'' \<Longrightarrow> heap_evolves L h h''"
  by (auto simp: heap_evolves_def)

lemma evolves_lake_ok: "heap_evolves L h h' \<Longrightarrow> lake_ok L h \<Longrightarrow> lake_ok L h'"
  by (simp add: heap_evolves_def)

lemma evolves_marker: "heap_evolves L h h' \<Longrightarrow> h (marker_key_text g) = Some ob \<Longrightarrow> h' (marker_key_text g) = Some ob"
  using prefix_roots_marker [of g] by (auto simp: heap_evolves_def)

lemma evolves_has_marker: "heap_evolves L h h' \<Longrightarrow> has_marker h g \<Longrightarrow> has_marker h' g"
  by (auto simp: has_marker_def dest: evolves_marker)

lemma evolves_marker_at: "heap_evolves L h h' \<Longrightarrow> marker_at L h g d \<Longrightarrow> marker_at L h' g d"
  by (auto simp: marker_at_def dest: evolves_marker split: option.splits)

lemma marker_at_unique: "marker_at L h g d \<Longrightarrow> marker_at L h g d' \<Longrightarrow> d = d'"
  by (auto simp: marker_at_def split: option.splits)

lemma marker_at_has: "marker_at L h g d \<Longrightarrow> has_marker h g"
  by (auto simp: marker_at_def has_marker_def split: option.splits)

lemma marker_at_generation: "marker_at L h g d \<Longrightarrow> generation d = g \<and> valid_generation g"
  by (simp add: marker_at_def)

text \<open>Density: below a marker every generation has one.\<close>

lemma lake_ok_dense_step: "lake_ok L h \<Longrightarrow> has_marker h g \<Longrightarrow> 0 < g \<Longrightarrow> has_marker h (g - 1)"
  by (simp add: lake_ok_def)

lemma lake_ok_dense:
  assumes ok: "lake_ok L h" and m: "has_marker h g" and k: "0 \<le> k" "k \<le> g"
  shows "has_marker h k"
proof -
  have "has_marker h (g - int n)" if "int n \<le> g" for n
    using that
  proof (induction n)
    case (Suc n)
    then have "has_marker h (g - int n)" and "0 < g - int n" by auto
    from lake_ok_dense_step [OF ok this] show ?case by (simp add: algebra_simps)
  qed (simp add: m)
  from this [of "nat (g - k)"] k show ?thesis by simp
qed

lemma marker_frame:
  "\<not> prefix ROOTS_PREFIX k \<Longrightarrow> has_marker (h(k := v)) g = has_marker h g"
  "\<not> prefix ROOTS_PREFIX k \<Longrightarrow> marker_at L (h(k := v)) g d = marker_at L h g d"
  using prefix_roots_marker [of g] by (auto simp: has_marker_def marker_at_def split: option.splits)

lemma evolves_frame: "\<not> prefix ROOTS_PREFIX k \<Longrightarrow> heap_evolves L h (h(k := v))"
  by (auto simp: heap_evolves_def lake_ok_def marker_frame)

text \<open>
  The one way a marker may come into being: a body that reads back as a document, at the key of
  that document's generation, whose parent generation has a marker. \<open>safe_create\<close> is what a
  create-only write must satisfy.
\<close>

definition safe_create :: "lib \<Rightarrow> contents \<Rightarrow> key \<Rightarrow> bytes \<Rightarrow> bool" where
  "safe_create L h k b \<longleftrightarrow> \<not> prefix ROOTS_PREFIX k \<or>
     (\<exists>d. root_from_json_bytes L b = Some d \<and> valid_generation (generation d) \<and>
          k = marker_key_text (generation d) \<and> (generation d = 0 \<or> has_marker h (generation d - 1)))"

lemma safe_create_marker:
  "lib_ok L \<Longrightarrow> doc_valid d \<Longrightarrow> generation d = 0 \<or> has_marker h (generation d - 1) \<Longrightarrow>
     safe_create L h (marker_key_text (generation d)) (root_to_json_bytes L d)"
  by (auto simp: safe_create_def root_doc_roundtrip_lemma) (auto simp: doc_valid_def)

lemma safe_create_other: "\<not> prefix ROOTS_PREFIX k \<Longrightarrow> safe_create L h k b"
  by (simp add: safe_create_def)

lemma safe_create_evolves: "heap_evolves L h h' \<Longrightarrow> safe_create L h k b \<Longrightarrow> safe_create L h' k b"
  by (auto simp: safe_create_def dest: evolves_has_marker)

lemma evolves_create:
  assumes new: "h k = None" and safe: "safe_create L h k b" and ob: "ob_body ob = b"
  shows "heap_evolves L h (h(k \<mapsto> ob))"
proof (cases "prefix ROOTS_PREFIX k")
  case False
  then show ?thesis by (rule evolves_frame)
next
  case True
  with safe obtain d where b: "root_from_json_bytes L b = Some d"
    and vg: "valid_generation (generation d)" and k: "k = marker_key_text (generation d)"
    and parent: "generation d = 0 \<or> has_marker h (generation d - 1)"
    by (auto simp: safe_create_def)
  have new_at: "marker_at L (h(k \<mapsto> ob)) (generation d) d"
    using ob b k vg by (simp add: marker_at_def)
  have has: "has_marker (h(k \<mapsto> ob)) g \<longleftrightarrow> g = generation d \<or> has_marker h g" for g
    using vg by (auto simp: has_marker_def k valid_generation_def)
  have old_at: "marker_at L h g e \<Longrightarrow> marker_at L (h(k \<mapsto> ob)) g e" for g e
    using new by (auto simp: marker_at_def split: option.splits)
  have "lake_ok L (h(k \<mapsto> ob))" if ok: "lake_ok L h"
    unfolding lake_ok_def
  proof (intro allI impI)
    fix g
    assume "has_marker (h(k \<mapsto> ob)) g"
    then consider "g = generation d" | "has_marker h g" by (auto simp: has)
    then show "(\<exists>e. marker_at L (h(k \<mapsto> ob)) g e) \<and> (0 < g \<longrightarrow> has_marker (h(k \<mapsto> ob)) (g - 1))"
    proof cases
      case 1
      then show ?thesis using new_at parent by (auto simp: has)
    next
      case 2
      then show ?thesis using ok old_at unfolding lake_ok_def by (meson has)
    qed
  qed
  moreover have "(h(k \<mapsto> ob)) j = Some ob'" if "h j = Some ob'" for j ob'
    using that new by auto
  ultimately show ?thesis by (simp add: heap_evolves_def)
qed

section \<open>The contract\<close>

definition get_answers :: "key \<Rightarrow> contents \<Rightarrow> error + get_result \<Rightarrow> bool" where
  "get_answers k h r = (case r of
     Inr g \<Rightarrow> (\<exists>ob. h k = Some ob \<and> body g = ob_body ob \<and> etag g = etag_text (ob_etag ob) \<and>
                 last_modified g \<in> {None, Some (ob_mtime ob)})
   | Inl e \<Rightarrow> (e = ObjectNotFoundError \<and> h k = None) \<or> e \<in> {ExternalServiceError, BotoCoreError})"

definition head_answers :: "key \<Rightarrow> contents \<Rightarrow> error + object_meta \<Rightarrow> bool" where
  "head_answers k h r = (case r of
     Inr g \<Rightarrow> (\<exists>ob. h k = Some ob \<and> meta_key g = k \<and> meta_size g = length (ob_body ob) \<and>
                 meta_modified g \<in> {None, Some (ob_mtime ob)})
   | Inl e \<Rightarrow> (e = ObjectNotFoundError \<and> h k = None) \<or> e \<in> {ExternalServiceError, BotoCoreError})"

definition range_answers :: "key \<Rightarrow> int \<Rightarrow> int \<Rightarrow> contents \<Rightarrow> error + bytes \<Rightarrow> bool" where
  "range_answers k start len h r = (case r of
     Inr b \<Rightarrow> 0 \<le> start \<and> (len \<le> 0 \<and> b = [] \<or>
                 (\<exists>ob. h k = Some ob \<and> b = byte_slice (ob_body ob) (nat start) (nat len)))
   | Inl e \<Rightarrow> (e = ObjectNotFoundError \<and> h k = None) \<or> (e = InputValidationError \<and> start < 0) \<or>
             e \<in> {ExternalServiceError, BotoCoreError})"

definition list_answers :: "string \<Rightarrow> contents \<Rightarrow> error + key list \<Rightarrow> bool" where
  "list_answers p h r = (case r of
     Inr ks \<Rightarrow> distinct ks \<and> set ks = {k. h k \<noteq> None \<and> prefix p k}
   | Inl e \<Rightarrow> e \<in> {ExternalServiceError, BotoCoreError})"

definition metas_answer :: "string \<Rightarrow> contents \<Rightarrow> error + object_meta list \<Rightarrow> bool" where
  "metas_answer p h r = (case r of
     Inr ms \<Rightarrow> distinct (map meta_key ms) \<and> meta_key ` set ms = {k. h k \<noteq> None \<and> prefix p k} \<and>
       (\<forall>m \<in> set ms. \<exists>ob. h (meta_key m) = Some ob \<and> meta_size m = length (ob_body ob) \<and>
          meta_modified m \<in> {None, Some (ob_mtime ob)})
   | Inl e \<Rightarrow> e \<in> {ExternalServiceError, BotoCoreError})"

definition create_errors :: "error set" where
  "create_errors = {PreconditionFailedError, ConditionalConflictError, AmbiguousCasError,
     ExternalServiceError, ObjectNotFoundError}"

locale object_store =
  fixes L :: lib and S :: "'s store" and objs :: "'s \<Rightarrow> contents"
  assumes get_law: "get S k s = (r, s') \<Longrightarrow>
      \<exists>h. heap_evolves L (objs s) h \<and> heap_evolves L h (objs s') \<and> get_answers k h r"
    and head_law: "head_meta S k s = (r1, s') \<Longrightarrow>
      \<exists>h. heap_evolves L (objs s) h \<and> heap_evolves L h (objs s') \<and> head_answers k h r1"
    and range_law: "get_range S k start len s = (r2, s') \<Longrightarrow>
      \<exists>h. heap_evolves L (objs s) h \<and> heap_evolves L h (objs s') \<and> range_answers k start len h r2"
    and list_law: "list_prefix S p s = (r3, s') \<Longrightarrow>
      \<exists>h. heap_evolves L (objs s) h \<and> heap_evolves L h (objs s') \<and> list_answers p h r3"
    and metas_law: "list_meta S p s = (r4, s') \<Longrightarrow>
      \<exists>h. heap_evolves L (objs s) h \<and> heap_evolves L h (objs s') \<and> metas_answer p h r4"
    and create_law: "put_if_absent S k b s = (q, s') \<Longrightarrow> safe_create L (objs s) k b \<Longrightarrow>
      heap_evolves L (objs s) (objs s') \<and>
      (case q of
         Inr e \<Rightarrow> \<exists>h ob. heap_evolves L (objs s) h \<and> h k = None \<and> ob_body ob = b \<and> etag_text (ob_etag ob) = e \<and>
                    heap_evolves L (h(k \<mapsto> ob)) (objs s')
       | Inl e \<Rightarrow> e \<in> create_errors \<and>
           (e = PreconditionFailedError \<longrightarrow>
              (\<exists>h. heap_evolves L (objs s) h \<and> h k \<noteq> None \<and> heap_evolves L h (objs s'))))"
    and put_law: "put S k b s = (q, s') \<Longrightarrow> \<not> prefix ROOTS_PREFIX k \<Longrightarrow>
      heap_evolves L (objs s) (objs s') \<and>
      (case q of
         Inr e \<Rightarrow> \<exists>h ob. heap_evolves L (objs s) h \<and> ob_body ob = b \<and> etag_text (ob_etag ob) = e \<and>
                    heap_evolves L (h(k \<mapsto> ob)) (objs s')
       | Inl e \<Rightarrow> e = ExternalServiceError)"
    and match_law: "put_if_match S k b t s = (q, s') \<Longrightarrow> \<not> prefix ROOTS_PREFIX k \<Longrightarrow>
      heap_evolves L (objs s) (objs s') \<and>
      (case q of
         Inr e \<Rightarrow> \<exists>h ob0 ob. heap_evolves L (objs s) h \<and> h k = Some ob0 \<and> etag_text (ob_etag ob0) = t \<and>
                    ob_body ob = b \<and> etag_text (ob_etag ob) = e \<and> heap_evolves L (h(k \<mapsto> ob)) (objs s')
       | Inl e \<Rightarrow> e \<in> create_errors)"
    and delete_law: "delete S k s = (q', s') \<Longrightarrow> \<not> prefix ROOTS_PREFIX k \<Longrightarrow>
      heap_evolves L (objs s) (objs s') \<and>
      (case q' of Inr _ \<Rightarrow> True | Inl e \<Rightarrow> e \<in> {ExternalServiceError, BotoCoreError})"
begin

abbreviation evolves :: "'s \<Rightarrow> 's \<Rightarrow> bool" where
  "evolves s s' \<equiv> heap_evolves L (objs s) (objs s')"

sublocale step_relation evolves
  by unfold_locales (auto intro: heap_evolves_trans)

lemma get_evolves: "get S k s = (r, s') \<Longrightarrow> evolves s s'"
  by (drule get_law) (blast intro: heap_evolves_trans)

lemma head_evolves: "head_meta S k s = (r, s') \<Longrightarrow> evolves s s'"
  by (drule head_law) (blast intro: heap_evolves_trans)

lemma range_evolves: "get_range S k start len s = (r, s') \<Longrightarrow> evolves s s'"
  by (drule range_law) (blast intro: heap_evolves_trans)

lemma list_evolves: "list_prefix S p s = (r, s') \<Longrightarrow> evolves s s'"
  by (drule list_law) (blast intro: heap_evolves_trans)

lemma metas_evolves: "list_meta S p s = (r, s') \<Longrightarrow> evolves s s'"
  by (drule metas_law) (blast intro: heap_evolves_trans)

lemma guar_get [guar_intros]: "guar evolves (get S k)"
  and guar_head [guar_intros]: "guar evolves (head_meta S k)"
  and guar_range [guar_intros]: "guar evolves (get_range S k start len)"
  and guar_list [guar_intros]: "guar evolves (list_prefix S p)"
  and guar_metas [guar_intros]: "guar evolves (list_meta S p)"
  by (blast intro: guarI get_evolves head_evolves range_evolves list_evolves metas_evolves)+

lemma guar_create [guar_intros]: "\<not> prefix ROOTS_PREFIX k \<Longrightarrow> guar evolves (put_if_absent S k b)"
  by (rule guarI) (blast dest: create_law [OF _ safe_create_other])

lemma guar_put [guar_intros]: "\<not> prefix ROOTS_PREFIX k \<Longrightarrow> guar evolves (put S k b)"
  and guar_match [guar_intros]: "\<not> prefix ROOTS_PREFIX k \<Longrightarrow> guar evolves (put_if_match S k b t)"
  and guar_delete [guar_intros]: "\<not> prefix ROOTS_PREFIX k \<Longrightarrow> guar evolves (delete S k)"
  by (blast intro: guarI dest: put_law match_law delete_law)+

end

text \<open>
  A store whose reads are always answered: the only error of \<open>get\<close> is an absent object.
\<close>

locale reliable_store = object_store +
  assumes get_reliable: "get S k s = (Inl e, s') \<Longrightarrow> e = ObjectNotFoundError"
begin

lemma get_answered: "get S k s = (r, s') \<Longrightarrow> r = Inl ObjectNotFoundError \<or> (\<exists>g. r = Inr g)"
  by (cases r) (auto dest: get_reliable)

end

end
