(* ===== verification/Store_Instances.thy ===== *)
theory Store_Instances
  imports Store_Contract
begin

text \<open>
  Providers of the store contract: the in-memory store of \<^verbatim>\<open>objectstore.py\<close> when nobody else acts,
  and \<open>net_store\<close>, the \<^verbatim>\<open>S3ObjectStore\<close> class over an instance of the client parameter: an atomic
  bucket that other processes share and whose answers get lost. The properties of the protocol are
  stated for \<open>net_store\<close> with an arbitrary script of such events.
\<close>

section \<open>The in-memory store alone\<close>

definition mem_objs :: "mem \<Rightarrow> contents" where
  "mem_objs m = DAList.lookup (objects m)"

lemma lookup_impl: "DAList.lookup d k = map_of (DAList.impl_of d) k"
  by (simp add: DAList.lookup_def)

lemma lookup_update_map [simp]: "DAList.lookup (DAList.update k v d) = (DAList.lookup d)(k \<mapsto> v)"
  by (rule ext) (simp add: DAList.lookup_update)

lemma lookup_keys: "fst ` set (DAList.impl_of d) = {k. DAList.lookup d k \<noteq> None}"
  by (auto simp: lookup_impl dom_map_of_conv_image_fst [symmetric])

lemma lookup_dom: "(\<exists>v. (k, v) \<in> set (DAList.impl_of d)) \<longleftrightarrow> DAList.lookup d k \<noteq> None"
  by (force simp: lookup_impl map_of_eq_None_iff)

lemma lookup_mem_iff: "(k, v) \<in> set (DAList.impl_of d) \<longleftrightarrow> DAList.lookup d k = Some v"
  by (simp add: lookup_impl)

named_theorems mem_defs "operations of the in-memory store"

lemmas mem_op_defs [mem_defs] =
  mem_get_def mem_get_range_def mem_put_if_absent_def mem_put_if_match_def mem_put_def mem_list_prefix_def
  mem_list_meta_def mem_head_meta_def mem_delete_def mem_objs_def

lemma mem_write_run:
  "mem_write k b m = (Inr (etag_text (Suc (etag_counter m))),
     m\<lparr>etag_counter := Suc (etag_counter m),
       objects := DAList.update k \<lparr>ob_body = b, ob_etag = Suc (etag_counter m), ob_mtime = clock m\<rparr>
         (objects m)\<rparr>)"
  by (simp add: mem_write_def next_etag_def Let_def)

lemma mem_write_objs:
  "mem_write k b m = (r, m') \<Longrightarrow>
     \<exists>e ob. r = Inr e \<and> ob_body ob = b \<and> etag_text (ob_etag ob) = e \<and> mem_objs m' = (mem_objs m)(k \<mapsto> ob)"
  by (auto simp: mem_write_run mem_objs_def intro!: exI)

lemma mem_get_answers: "mem_get k m = (r, m') \<Longrightarrow> m' = m \<and> get_answers k (mem_objs m) r"
  by (auto simp: mem_defs get_answers_def split: option.splits)

lemma mem_head_answers: "mem_head_meta k m = (r, m') \<Longrightarrow> m' = m \<and> head_answers k (mem_objs m) r"
  by (auto simp: mem_defs head_answers_def split: option.splits)

lemma mem_read_errors [simp]:
  "mem_get k m = (Inl e, m') \<longleftrightarrow> e = ObjectNotFoundError \<and> m' = m \<and> mem_objs m k = None"
  "mem_head_meta k m = (Inl e, m') \<longleftrightarrow> e = ObjectNotFoundError \<and> m' = m \<and> mem_objs m k = None"
  by (auto simp: mem_defs split: option.splits)

lemma mem_range_answers:
  "mem_get_range k start len m = (r, m') \<Longrightarrow> m' = m \<and> range_answers k start len (mem_objs m) r"
  by (auto simp: mem_defs range_answers_def split: option.splits if_splits)

lemma mem_list_answers: "mem_list_prefix p m = (r, m') \<Longrightarrow> m' = m \<and> list_answers p (mem_objs m) r"
  using lookup_keys [of "objects m"]
  by (auto simp: mem_defs list_answers_def distinct_map_filter simp flip: set_map)

lemma metas_answer_rows:
  assumes "distinct (map fst rows)" and rows: "\<And>k ob. (k, ob) \<in> set rows \<longleftrightarrow> h k = Some ob \<and> prefix p k"
  shows "metas_answer p h (Inr (map (\<lambda>(k, ob). \<lparr>meta_key = k, meta_size = length (ob_body ob),
    meta_modified = Some (ob_mtime ob)\<rparr>) rows))"
proof -
  have "fst ` set rows = {k. h k \<noteq> None \<and> prefix p k}"
    by (auto simp: rows image_iff Bex_def)
  moreover have "\<exists>ob'. h k = Some ob' \<and> length (ob_body ob) = length (ob_body ob') \<and> ob_mtime ob = ob_mtime ob'"
    if "(k, ob) \<in> set rows" for k ob
    using that by (simp add: rows)
  ultimately show ?thesis
    using assms(1) by (auto simp: metas_answer_def o_def case_prod_unfold image_image)
qed

lemma mem_metas_answer: "mem_list_meta p m = (r, m') \<Longrightarrow> m' = m \<and> metas_answer p (mem_objs m) r"
proof -
  assume run: "mem_list_meta p m = (r, m')"
  have "metas_answer p (mem_objs m) (Inr (map (\<lambda>(k, ob). \<lparr>meta_key = k, meta_size = length (ob_body ob),
    meta_modified = Some (ob_mtime ob)\<rparr>) (filter (\<lambda>(k, ob). prefix p k) (sort_key fst (DAList.impl_of (objects m))))))"
  proof (rule metas_answer_rows)
    show "distinct (map fst (filter (\<lambda>(k, ob). prefix p k) (sort_key fst (DAList.impl_of (objects m)))))"
      using DAList.impl_of_distinct [of "objects m"] by (intro distinct_map_filter) (auto simp: distinct_map)
  qed (auto simp: lookup_mem_iff mem_objs_def)
  with run show ?thesis by (auto simp: mem_list_meta_def)
qed

text \<open>
  With no one else acting, every operation is its own moment: the contents before it, or after it.
\<close>

lemma mem_object_store: "object_store L mem_store mem_objs"
proof
  fix k b t p start len m m' r r1 r2 r3 r4 q q'
  show "get mem_store k m = (r, m') \<Longrightarrow>
      \<exists>h. heap_evolves L (mem_objs m) h \<and> heap_evolves L h (mem_objs m') \<and> get_answers k h r"
    by (auto simp: mem_store_def dest!: mem_get_answers intro: exI [of _ "mem_objs m"])
  show "head_meta mem_store k m = (r1, m') \<Longrightarrow>
      \<exists>h. heap_evolves L (mem_objs m) h \<and> heap_evolves L h (mem_objs m') \<and> head_answers k h r1"
    by (auto simp: mem_store_def dest!: mem_head_answers intro: exI [of _ "mem_objs m"])
  show "get_range mem_store k start len m = (r2, m') \<Longrightarrow>
      \<exists>h. heap_evolves L (mem_objs m) h \<and> heap_evolves L h (mem_objs m') \<and> range_answers k start len h r2"
    by (auto simp: mem_store_def dest!: mem_range_answers intro: exI [of _ "mem_objs m"])
  show "list_prefix mem_store p m = (r3, m') \<Longrightarrow>
      \<exists>h. heap_evolves L (mem_objs m) h \<and> heap_evolves L h (mem_objs m') \<and> list_answers p h r3"
    by (auto simp: mem_store_def dest!: mem_list_answers intro: exI [of _ "mem_objs m"])
  show "list_meta mem_store p m = (r4, m') \<Longrightarrow>
      \<exists>h. heap_evolves L (mem_objs m) h \<and> heap_evolves L h (mem_objs m') \<and> metas_answer p h r4"
    by (auto simp: mem_store_def dest!: mem_metas_answer intro: exI [of _ "mem_objs m"])
  show "heap_evolves L (mem_objs m) (mem_objs m') \<and>
      (case q of
         Inr e \<Rightarrow> \<exists>h ob. heap_evolves L (mem_objs m) h \<and> h k = None \<and> ob_body ob = b \<and> etag_text (ob_etag ob) = e \<and>
                    heap_evolves L (h(k \<mapsto> ob)) (mem_objs m')
       | Inl e \<Rightarrow> e \<in> create_errors \<and>
           (e = PreconditionFailedError \<longrightarrow>
              (\<exists>h. heap_evolves L (mem_objs m) h \<and> h k \<noteq> None \<and> heap_evolves L h (mem_objs m'))))"
    if run: "put_if_absent mem_store k b m = (q, m')" and safe: "safe_create L (mem_objs m) k b"
  proof (cases "mem_objs m k")
    case None
    with run have "mem_write k b m = (q, m')"
      by (simp add: mem_store_def mem_put_if_absent_def mem_objs_def)
    from mem_write_objs [OF this] obtain e ob where "q = Inr e" "ob_body ob = b" "etag_text (ob_etag ob) = e"
      "mem_objs m' = (mem_objs m)(k \<mapsto> ob)" by blast
    with None safe evolves_create [OF None safe] show ?thesis
      by (auto intro!: exI [of _ "mem_objs m"] exI [of _ ob])
  next
    case (Some ob)
    with run have "q = Inl PreconditionFailedError" and "m' = m"
      by (auto simp: mem_store_def mem_put_if_absent_def mem_objs_def)
    with Some show ?thesis by (auto simp: create_errors_def intro!: exI [of _ "mem_objs m"])
  qed
  show "heap_evolves L (mem_objs m) (mem_objs m') \<and>
      (case q of
         Inr e \<Rightarrow> \<exists>h ob. heap_evolves L (mem_objs m) h \<and> ob_body ob = b \<and> etag_text (ob_etag ob) = e \<and>
                    heap_evolves L (h(k \<mapsto> ob)) (mem_objs m')
       | Inl e \<Rightarrow> e = ExternalServiceError)"
    if "put mem_store k b m = (q, m')" and "\<not> prefix ROOTS_PREFIX k"
    using that evolves_frame [OF that(2)]
    by (auto simp: mem_store_def mem_put_def dest!: mem_write_objs intro!: exI [of _ "mem_objs m"])
       (metis heap_evolves_refl)
  show "heap_evolves L (mem_objs m) (mem_objs m') \<and>
      (case q of
         Inr e \<Rightarrow> \<exists>h ob0 ob. heap_evolves L (mem_objs m) h \<and> h k = Some ob0 \<and> etag_text (ob_etag ob0) = t \<and>
                    ob_body ob = b \<and> etag_text (ob_etag ob) = e \<and> heap_evolves L (h(k \<mapsto> ob)) (mem_objs m')
       | Inl e \<Rightarrow> e \<in> create_errors)"
    if run: "put_if_match mem_store k b t m = (q, m')" and root: "\<not> prefix ROOTS_PREFIX k"
  proof (cases "mem_objs m k")
    case None
    with run show ?thesis
      by (auto simp: mem_store_def mem_put_if_match_def mem_objs_def create_errors_def)
  next
    case (Some ob0)
    show ?thesis
    proof (cases "etag_text (ob_etag ob0) = t")
      case True
      with run Some have "mem_write k b m = (q, m')"
        by (simp add: mem_store_def mem_put_if_match_def mem_objs_def)
      from mem_write_objs [OF this] obtain e ob where "q = Inr e" "ob_body ob = b" "etag_text (ob_etag ob) = e"
        "mem_objs m' = (mem_objs m)(k \<mapsto> ob)" by blast
      with Some True evolves_frame [OF root, of L "mem_objs m" "Some ob"] show ?thesis
        by simp (metis heap_evolves_refl)
    next
      case False
      with run Some show ?thesis
        by (auto simp: mem_store_def mem_put_if_match_def mem_objs_def create_errors_def)
    qed
  qed
  show "heap_evolves L (mem_objs m) (mem_objs m') \<and>
      (case q' of Inr _ \<Rightarrow> True | Inl e \<Rightarrow> e \<in> {ExternalServiceError, BotoCoreError})"
    if "delete mem_store k m = (q', m')" and "\<not> prefix ROOTS_PREFIX k"
    using that by (auto simp: mem_store_def mem_delete_def mem_objs_def intro: evolves_frame)
qed

interpretation mem: reliable_store L mem_store mem_objs for L
  by (intro reliable_store.intro reliable_store_axioms.intro mem_object_store) (simp add: mem_store_def)

section \<open>A shared bucket behind a lossy connection\<close>

text \<open>
  \<open>net_client\<close> instantiates the boto3 parameter of \<open>s3_store\<close>. Its bucket is the in-memory store;
  before each request, the next \<open>event\<close> of a script says how much time has passed, which requests of
  other processes the bucket served in the meantime, and what becomes of ours: an answer, or a
  failure that, for a write, may come after the bucket has already applied it. Other processes run
  the same library, so they create markers only for the generation after an existing one, and never
  write or delete another key under \<^verbatim>\<open>roots/\<close> (that this library's own operations keep to this is
  shown component by component); any other request of theirs is arbitrary.
\<close>

datatype rival =
    RivalMarker bytes
  | RivalCreate key bytes
  | RivalPut key bytes
  | RivalDelete key

definition apply_rival :: "lib \<Rightarrow> rival \<Rightarrow> mem \<Rightarrow> mem" where
  "apply_rival L r m = (case r of
     RivalMarker b \<Rightarrow>
       (case root_from_json_bytes L b of
          None \<Rightarrow> m
        | Some d \<Rightarrow>
            if valid_generation (generation d) \<and> (generation d = 0 \<or> has_marker (mem_objs m) (generation d - 1))
            then snd (mem_put_if_absent (marker_key_text (generation d)) b m) else m)
   | RivalCreate k b \<Rightarrow> if prefix ROOTS_PREFIX k then m else snd (mem_put_if_absent k b m)
   | RivalPut k b \<Rightarrow> if prefix ROOTS_PREFIX k then m else snd (mem_put k b m)
   | RivalDelete k \<Rightarrow> if prefix ROOTS_PREFIX k then m else snd (mem_delete k m))"

datatype fault =
    NoFault
  | ServerError bool      \<comment> \<open>5xx; whether a write was applied all the same\<close>
  | SlowDown bool         \<comment> \<open>throttled\<close>
  | ConflictFault         \<comment> \<open>409, not applied\<close>
  | DeniedFault           \<comment> \<open>403, not applied\<close>
  | TransportFault bool   \<comment> \<open>no response\<close>

definition fault_exc :: "fault \<Rightarrow> boto_exc option" where
  "fault_exc f = (case f of
     NoFault \<Rightarrow> None
   | ServerError _ \<Rightarrow> Some (ClientError ''InternalError'' 500)
   | SlowDown _ \<Rightarrow> Some (ClientError ''SlowDown'' 503)
   | ConflictFault \<Rightarrow> Some (ClientError ''ConditionalRequestConflict'' 409)
   | DeniedFault \<Rightarrow> Some (ClientError ''AccessDenied'' 403)
   | TransportFault _ \<Rightarrow> Some BotoCore)"

definition fault_landed :: "fault \<Rightarrow> bool" where
  "fault_landed f = (case f of ServerError b \<Rightarrow> b | SlowDown b \<Rightarrow> b | TransportFault b \<Rightarrow> b | _ \<Rightarrow> False)"

record event =
  ticks :: nat
  rivals :: "rival list"
  fault :: fault
  no_mtime :: bool

definition quiet :: event where
  "quiet = \<lparr>ticks = 0, rivals = [], fault = NoFault, no_mtime = False\<rparr>"

record net =
  cell :: mem
  script :: "event list"

definition net_objs :: "net \<Rightarrow> contents" where
  "net_objs n = mem_objs (cell n)"

definition tick_mem :: "nat \<Rightarrow> mem \<Rightarrow> mem" where
  "tick_mem t m = m\<lparr>clock := clock m + int t\<rparr>"

definition net_begin :: "lib \<Rightarrow> net \<Rightarrow> event \<times> net" where
  "net_begin L n = (case script n of
     [] \<Rightarrow> (quiet, n)
   | ev # rest \<Rightarrow>
       (ev, \<lparr>cell = fold (apply_rival L) (rivals ev) (tick_mem (ticks ev) (cell n)), script = rest\<rparr>))"

definition quoted :: "string \<Rightarrow> string" where
  "quoted e = CHR 0x22 # e @ [CHR 0x22]"

definition boto_of :: "error \<Rightarrow> boto_exc" where
  "boto_of e = (if e = PreconditionFailedError then ClientError ''PreconditionFailed'' 412
                else ClientError ''NoSuchKey'' 404)"

definition stamp :: "event \<Rightarrow> int option \<Rightarrow> int option" where
  "stamp ev t = (if no_mtime ev then None else t)"

definition net_get_object :: "lib \<Rightarrow> key \<Rightarrow> (int \<times> int) option \<Rightarrow> net \<Rightarrow> (boto_exc + get_response) \<times> net" where
  "net_get_object L k rng n = (let (ev, n') = net_begin L n in
     case fault_exc (fault ev) of
       Some x \<Rightarrow> (Inl x, n')
     | None \<Rightarrow>
        (case fst (mem_get k (cell n')) of
           Inl e \<Rightarrow> (Inl (boto_of e), n')
         | Inr g \<Rightarrow>
            (let resp = \<lparr>resp_body = body g, resp_etag = quoted (etag g), resp_modified = stamp ev (last_modified g)\<rparr> in
             case rng of
               None \<Rightarrow> (Inr resp, n')
             | Some (lo, hi) \<Rightarrow>
                 (if int (length (body g)) \<le> lo then (Inl (ClientError ''InvalidRange'' 416), n')
                  else (Inr (resp\<lparr>resp_body := byte_slice (body g) (nat lo) (nat (hi - lo + 1))\<rparr>), n')))))"

definition put_effect :: "put_condition \<Rightarrow> key \<Rightarrow> bytes \<Rightarrow> (mem, string) io" where
  "put_effect cond k b m = (case cond of
     Unconditional \<Rightarrow> mem_put k b m
   | IfNoneMatch \<Rightarrow> mem_put_if_absent k b m
   | IfMatch e \<Rightarrow> mem_put_if_match k b e m)"

definition net_put_object :: "lib \<Rightarrow> key \<Rightarrow> bytes \<Rightarrow> put_condition \<Rightarrow> net \<Rightarrow> (boto_exc + string) \<times> net" where
  "net_put_object L k b cond n = (let (ev, n') = net_begin L n;
       (r, m) = put_effect cond k b (cell n') in
     case fault_exc (fault ev) of
       Some x \<Rightarrow> (Inl x, if fault_landed (fault ev) then n'\<lparr>cell := m\<rparr> else n')
     | None \<Rightarrow> (case r of Inl e \<Rightarrow> (Inl (boto_of e), n') | Inr e \<Rightarrow> (Inr (quoted e), n'\<lparr>cell := m\<rparr>)))"

definition net_list_pages :: "lib \<Rightarrow> string \<Rightarrow> net \<Rightarrow> (boto_exc + list_row list list) \<times> net" where
  "net_list_pages L p n = (let (ev, n') = net_begin L n in
     case fault_exc (fault ev) of
       Some x \<Rightarrow> (Inl x, n')
     | None \<Rightarrow>
        (case fst (mem_list_meta p (cell n')) of
           Inl e \<Rightarrow> (Inl (boto_of e), n')
         | Inr ms \<Rightarrow>
            (Inr [map (\<lambda>m. \<lparr>row_key = Some (meta_key m), row_size = meta_size m,
                             row_modified = stamp ev (meta_modified m)\<rparr>) ms], n')))"

definition net_head_object :: "lib \<Rightarrow> key \<Rightarrow> net \<Rightarrow> (boto_exc + (nat \<times> int option)) \<times> net" where
  "net_head_object L k n = (let (ev, n') = net_begin L n in
     case fault_exc (fault ev) of
       Some x \<Rightarrow> (Inl x, n')
     | None \<Rightarrow>
        (case fst (mem_head_meta k (cell n')) of
           Inl e \<Rightarrow> (Inl (boto_of e), n')
         | Inr m \<Rightarrow> (Inr (meta_size m, stamp ev (meta_modified m)), n')))"

definition net_delete_object :: "lib \<Rightarrow> key \<Rightarrow> net \<Rightarrow> (boto_exc + unit) \<times> net" where
  "net_delete_object L k n = (let (ev, n') = net_begin L n; m = snd (mem_delete k (cell n')) in
     case fault_exc (fault ev) of
       Some x \<Rightarrow> (Inl x, if fault_landed (fault ev) then n'\<lparr>cell := m\<rparr> else n')
     | None \<Rightarrow> (Inr (), n'\<lparr>cell := m\<rparr>))"

definition net_client :: "lib \<Rightarrow> net client" where
  "net_client L = \<lparr>get_object = net_get_object L, put_object = net_put_object L, list_pages = net_list_pages L,
     head_object = net_head_object L, delete_object = net_delete_object L\<rparr>"

definition net_store :: "lib \<Rightarrow> net store" where
  "net_store L = s3_store (net_client L) ''''"

section \<open>The shared bucket meets the contract\<close>

lemma mem_create_evolves:
  "safe_create L (mem_objs m) k b \<Longrightarrow> heap_evolves L (mem_objs m) (mem_objs (snd (mem_put_if_absent k b m)))"
  using mem.create_law [of k b m "fst (mem_put_if_absent k b m)" "snd (mem_put_if_absent k b m)" L]
  by (simp add: mem_store_def)

lemma mem_put_evolves:
  "\<not> prefix ROOTS_PREFIX k \<Longrightarrow> heap_evolves L (mem_objs m) (mem_objs (snd (mem_put k b m)))"
  using mem.put_law [of k b m "fst (mem_put k b m)" "snd (mem_put k b m)" L]
  by (simp add: mem_store_def)

lemma mem_match_evolves:
  "\<not> prefix ROOTS_PREFIX k \<Longrightarrow> heap_evolves L (mem_objs m) (mem_objs (snd (mem_put_if_match k b e m)))"
  using mem.match_law [of k b e m "fst (mem_put_if_match k b e m)" "snd (mem_put_if_match k b e m)" L]
  by (simp add: mem_store_def)

lemma mem_delete_evolves:
  "\<not> prefix ROOTS_PREFIX k \<Longrightarrow> heap_evolves L (mem_objs m) (mem_objs (snd (mem_delete k m)))"
  by (simp add: mem_delete_def mem_objs_def evolves_frame)

lemma apply_rival_evolves: "heap_evolves L (mem_objs m) (mem_objs (apply_rival L r m))"
  by (auto simp: apply_rival_def mem_put_evolves mem_delete_evolves safe_create_def
      intro!: mem_create_evolves split: rival.splits option.splits)

lemma rivals_evolve: "heap_evolves L (mem_objs m) (mem_objs (fold (apply_rival L) rs m))"
proof (induction rs arbitrary: m)
  case (Cons r rs)
  have "heap_evolves L (mem_objs (apply_rival L r m)) (mem_objs (fold (apply_rival L) (r # rs) m))"
    using Cons.IH [of "apply_rival L r m"] by simp
  with apply_rival_evolves show ?case by (rule heap_evolves_trans)
qed simp

lemma net_begin_evolves: "net_begin L n = (ev, n') \<Longrightarrow> heap_evolves L (net_objs n) (net_objs n')"
proof -
  assume "net_begin L n = (ev, n')"
  moreover have "mem_objs (tick_mem t m) = mem_objs m" for t m
    by (simp add: mem_objs_def tick_mem_def)
  ultimately show ?thesis
    using rivals_evolve [of L "tick_mem (ticks ev) (cell n)" "rivals ev"]
    by (auto simp: net_begin_def net_objs_def split: list.splits)
qed

lemma dropWhile_id: "xs = [] \<or> \<not> P (hd xs) \<Longrightarrow> dropWhile P xs = xs"
  by (cases xs) auto

lemma strip_quoted:
  assumes "e \<noteq> []" and "hd e \<noteq> CHR 0x22" and "last e \<noteq> CHR 0x22"
  shows "strip_quotes (quoted e) = e"
proof -
  have "lstrip (CHR 0x22) (quoted e) = e @ [CHR 0x22]"
    using assms(1,2) by (simp add: lstrip_def quoted_def dropWhile_id hd_append)
  moreover have "rstrip (CHR 0x22) (e @ [CHR 0x22]) = e"
    using assms(1,3) by (simp add: rstrip_def dropWhile_id hd_rev)
  ultimately show ?thesis by (simp add: strip_quotes_def)
qed

lemma strip_quoted_etag [simp]: "strip_quotes (quoted (etag_text n)) = etag_text n"
proof (rule strip_quoted)
  have "pad8 n \<noteq> []" by (simp add: pad8_def Let_def)
  then have "is_digit (last (pad8 n))" using pad8_digits [of n] by (simp add: list_all_iff)
  with \<open>pad8 n \<noteq> []\<close> show "last (etag_text n) \<noteq> CHR 0x22"
    by (auto simp: etag_text_def is_digit_def)
qed (simp_all add: etag_text_def)

lemma etag_text_inject [simp]: "etag_text m = etag_text n \<longleftrightarrow> m = n"
  by (simp add: etag_text_def pad8_inject)

lemma s3_prefix_empty [simp]: "s3_prefix '''' = ''''"
  by (simp add: s3_prefix_def)

named_theorems net_defs "the shared bucket behind S3ObjectStore, unfolded"

lemmas net_op_defs [net_defs] =
  net_store_def s3_store_def net_client_def boto_call_def Let_def
  s3_get_def s3_get_range_def s3_put_if_absent_def s3_put_if_match_def s3_put_def s3_list_prefix_def
  s3_list_meta_def s3_delete_def s3_head_meta_def
  net_get_object_def net_put_object_def net_list_pages_def net_head_object_def net_delete_object_def

text \<open>
  A request meets the bucket at the moment \<open>net_begin\<close> leaves it in; the five lemmas below read the
  contract off the client for each kind of request.
\<close>

lemma net_get_law:
  assumes "get (net_store L) k n = (r, n')"
  shows "heap_evolves L (net_objs n) (net_objs n') \<and> get_answers k (net_objs n') r"
proof -
  obtain ev n1 where b: "net_begin L n = (ev, n1)" by fastforce
  obtain q m where g: "mem_get k (cell n1) = (q, m)" by fastforce
  from assms b g have "n' = n1"
    by (auto simp: net_defs split: option.splits sum.splits)
  moreover have "get_answers k (net_objs n') r"
    using assms b g mem_get_answers [OF g]
    by (cases "fault ev")
       (auto simp: net_defs get_answers_def get_error_def is_missing_def boto_of_def fault_exc_def stamp_def
          net_objs_def split: sum.splits)
  ultimately show ?thesis using net_begin_evolves [OF b] by simp
qed

lemma net_range_law:
  assumes "get_range (net_store L) k start len n = (r, n')"
  shows "heap_evolves L (net_objs n) (net_objs n') \<and> range_answers k start len (net_objs n') r"
proof (cases "start < 0 \<or> len \<le> 0")
  case True
  with assms show ?thesis by (auto simp: net_defs range_answers_def split: if_splits)
next
  case False
  obtain ev n1 where b: "net_begin L n = (ev, n1)" by fastforce
  obtain q m where g: "mem_get k (cell n1) = (q, m)" by fastforce
  from assms b g False have "n' = n1"
    by (auto simp: net_defs split: option.splits sum.splits if_splits boto_exc.splits)
  moreover have "range_answers k start len (net_objs n') r"
    using assms b g mem_get_answers [OF g] False
    by (cases "fault ev")
       (auto simp: net_defs get_answers_def range_answers_def is_missing_def boto_of_def fault_exc_def
          net_objs_def byte_slice_def split: sum.splits if_splits)
  ultimately show ?thesis using net_begin_evolves [OF b] by simp
qed

lemma net_head_law:
  assumes "head_meta (net_store L) k n = (r, n')"
  shows "heap_evolves L (net_objs n) (net_objs n') \<and> head_answers k (net_objs n') r"
proof -
  obtain ev n1 where b: "net_begin L n = (ev, n1)" by fastforce
  obtain q m where g: "mem_head_meta k (cell n1) = (q, m)" by fastforce
  from assms b g have "n' = n1"
    by (auto simp: net_defs split: option.splits sum.splits)
  moreover have "head_answers k (net_objs n') r"
    using assms b g mem_head_answers [OF g]
    by (cases "fault ev")
       (auto simp: net_defs head_answers_def head_error_def is_missing_def boto_of_def fault_exc_def stamp_def
          net_objs_def split: sum.splits)
  ultimately show ?thesis using net_begin_evolves [OF b] by simp
qed

lemma removeprefix_nil [simp]: "removeprefix [] = (\<lambda>s. s)"
  by (simp add: removeprefix_def fun_eq_iff)

lemma map_filter_rows:
  "List.map_filter row_key (map (\<lambda>m. \<lparr>row_key = Some (f m), row_size = a m, row_modified = t m\<rparr>) ms) = map f ms"
  "List.map_filter (\<lambda>row. map_option (\<lambda>k. \<lparr>meta_key = k, meta_size = row_size row,
      meta_modified = row_modified row\<rparr>) (row_key row))
     (map (\<lambda>m. \<lparr>row_key = Some (f m), row_size = a m, row_modified = t m\<rparr>) ms) =
   map (\<lambda>m. \<lparr>meta_key = f m, meta_size = a m, meta_modified = t m\<rparr>) ms"
  by (induction ms) (simp_all add: List.map_filter_simps removeprefix_def)

lemma net_list_law:
  assumes "list_prefix (net_store L) p n = (r, n')"
  shows "heap_evolves L (net_objs n) (net_objs n') \<and> list_answers p (net_objs n') r"
proof -
  obtain ev n1 where b: "net_begin L n = (ev, n1)" by fastforce
  obtain q m where g: "mem_list_meta p (cell n1) = (q, m)" by fastforce
  from assms b g have "n' = n1"
    by (auto simp: net_defs split: option.splits sum.splits)
  moreover have "list_answers p (net_objs n') r"
    using assms b g mem_metas_answer [OF g]
    by (cases "fault ev")
       (auto simp: net_defs list_answers_def metas_answer_def list_error_def boto_of_def fault_exc_def
          map_filter_rows net_objs_def split: sum.splits)
  ultimately show ?thesis using net_begin_evolves [OF b] by simp
qed

lemma metas_answer_stamp:
  assumes "metas_answer p h (Inr ms)"
  shows "metas_answer p h (Inr (map (\<lambda>m. \<lparr>meta_key = meta_key m, meta_size = meta_size m,
    meta_modified = stamp ev (meta_modified m)\<rparr>) ms))"
proof -
  from assms have d: "distinct (map meta_key ms)" and i: "meta_key ` set ms = {k. h k \<noteq> None \<and> prefix p k}"
    and a: "\<forall>m \<in> set ms. \<exists>ob. h (meta_key m) = Some ob \<and> meta_size m = length (ob_body ob) \<and>
          meta_modified m \<in> {None, Some (ob_mtime ob)}"
    by (simp_all add: metas_answer_def)
  from a have "\<forall>m \<in> set ms. \<exists>ob. h (meta_key m) = Some ob \<and> meta_size m = length (ob_body ob) \<and>
          stamp ev (meta_modified m) \<in> {None, Some (ob_mtime ob)}"
    by (fastforce simp: stamp_def)
  with d i show ?thesis by (simp add: metas_answer_def o_def image_image)
qed

lemma net_metas_law:
  assumes "list_meta (net_store L) p n = (r, n')"
  shows "heap_evolves L (net_objs n) (net_objs n') \<and> metas_answer p (net_objs n') r"
proof -
  obtain ev n1 where b: "net_begin L n = (ev, n1)" by fastforce
  obtain q m where g: "mem_list_meta p (cell n1) = (q, m)" by fastforce
  from assms b g have "n' = n1"
    by (auto simp: net_defs split: option.splits sum.splits)
  moreover have "metas_answer p (net_objs n') r"
  proof (cases "fault_exc (fault ev)")
    case None
    from g obtain ms where "q = Inr ms" by (auto simp: mem_list_meta_def)
    with None show ?thesis
      using assms b g mem_metas_answer [OF g]
      by (auto simp: net_defs map_filter_rows net_objs_def intro: metas_answer_stamp)
  next
    case (Some x)
    then show ?thesis
      using assms b by (auto simp: net_defs metas_answer_def list_error_def split: boto_exc.splits)
  qed
  ultimately show ?thesis using net_begin_evolves [OF b] by simp
qed

text \<open>A write is the bucket's own write, or nothing, with the answer kept or lost.\<close>

lemma net_put_cases:
  assumes b: "net_begin L n = (ev, n1)"
    and w: "put_effect cond k x (cell n1) = (w, m)"
    and run: "boto_call onexc strip_quotes (net_put_object L k x cond n) = (r, n')"
  obtains (answered) e where "w = Inr e" "r = Inr (strip_quotes (quoted e))" "net_objs n' = mem_objs m"
  | (refused) e where "w = Inl e" "r = Inl (onexc (boto_of e))" "n' = n1"
  | (lost) f where "fault_exc (fault ev) = Some f" "r = Inl (onexc f)" "net_objs n' = mem_objs m \<or> n' = n1"
proof (cases "fault_exc (fault ev)")
  case None
  then show thesis
    using b w run answered refused
    by (cases w) (auto simp: net_put_object_def boto_call_def net_objs_def Let_def)
next
  case (Some f)
  then show thesis
    using b w run lost
    by (auto simp: net_put_object_def boto_call_def net_objs_def Let_def split: if_splits)
qed

lemma fault_conditional_error:
  "fault_exc f = Some x \<Longrightarrow>
     conditional_error x \<in> {ConditionalConflictError, AmbiguousCasError, ExternalServiceError}"
  by (cases f) (auto simp: fault_exc_def conditional_error_def raise_conditional_def is_missing_def)

lemma boto_of_conditional [simp]:
  "conditional_error (boto_of e) =
     (if e = PreconditionFailedError then PreconditionFailedError else ObjectNotFoundError)"
  by (simp add: boto_of_def conditional_error_def raise_conditional_def is_missing_def)

lemma net_create_law:
  assumes run: "put_if_absent (net_store L) k b n = (q, n')" and safe: "safe_create L (net_objs n) k b"
  shows "heap_evolves L (net_objs n) (net_objs n') \<and>
      (case q of
         Inr e \<Rightarrow> \<exists>h ob. heap_evolves L (net_objs n) h \<and> h k = None \<and> ob_body ob = b \<and> etag_text (ob_etag ob) = e \<and>
                    heap_evolves L (h(k \<mapsto> ob)) (net_objs n')
       | Inl e \<Rightarrow> e \<in> create_errors \<and>
           (e = PreconditionFailedError \<longrightarrow>
              (\<exists>h. heap_evolves L (net_objs n) h \<and> h k \<noteq> None \<and> heap_evolves L h (net_objs n'))))"
proof -
  obtain ev n1 where bg: "net_begin L n = (ev, n1)" by fastforce
  obtain w m where w: "put_effect IfNoneMatch k b (cell n1) = (w, m)" by fastforce
  have e1: "heap_evolves L (net_objs n) (net_objs n1)" using bg by (rule net_begin_evolves)
  have safe1: "safe_create L (mem_objs (cell n1)) k b"
    using safe_create_evolves [OF e1 safe] by (simp add: net_objs_def)
  then have e2: "heap_evolves L (net_objs n1) (mem_objs m)"
    using mem_create_evolves [of L "cell n1" k b] w by (simp add: net_objs_def put_effect_def)
  have e3: "heap_evolves L (net_objs n) (mem_objs m)" using e1 e2 by (rule heap_evolves_trans)
  have run': "boto_call conditional_error strip_quotes (net_put_object L k b IfNoneMatch n) = (q, n')"
    using run by (simp add: net_store_def s3_store_def net_client_def s3_put_if_absent_def Let_def)
  from bg w run' show ?thesis
  proof (cases rule: net_put_cases)
    case (answered e)
    with w obtain ob where ob: "mem_objs (cell n1) k = None" "ob_body ob = b" "e = etag_text (ob_etag ob)"
      "mem_objs m = (mem_objs (cell n1))(k \<mapsto> ob)"
      by (auto simp: put_effect_def mem_put_if_absent_def mem_objs_def dest!: mem_write_objs split: if_splits)
    then show ?thesis
      using answered e1 e3 by (auto simp: net_objs_def intro!: exI [of _ "mem_objs (cell n1)"] exI [of _ ob])
  next
    case (refused e)
    with w have "e = PreconditionFailedError" and "net_objs n1 k \<noteq> None"
      by (auto simp: put_effect_def mem_put_if_absent_def net_objs_def mem_objs_def mem_write_run split: if_splits)
    then show ?thesis
      using refused e1 by (auto simp: create_errors_def intro!: exI [of _ "net_objs n1"])
  next
    case (lost f)
    then show ?thesis
      using e1 e3 fault_conditional_error [OF lost(1)] by (auto simp: create_errors_def)
  qed
qed

lemma net_put_law:
  assumes run: "put (net_store L) k b n = (q, n')" and root: "\<not> prefix ROOTS_PREFIX k"
  shows "heap_evolves L (net_objs n) (net_objs n') \<and>
      (case q of
         Inr e \<Rightarrow> \<exists>h ob. heap_evolves L (net_objs n) h \<and> ob_body ob = b \<and> etag_text (ob_etag ob) = e \<and>
                    heap_evolves L (h(k \<mapsto> ob)) (net_objs n')
       | Inl e \<Rightarrow> e = ExternalServiceError)"
proof -
  obtain ev n1 where bg: "net_begin L n = (ev, n1)" by fastforce
  obtain w m where w: "put_effect Unconditional k b (cell n1) = (w, m)" by fastforce
  have e1: "heap_evolves L (net_objs n) (net_objs n1)" using bg by (rule net_begin_evolves)
  have e2: "heap_evolves L (net_objs n1) (mem_objs m)"
    using mem_put_evolves [OF root, of L "cell n1" b] w by (simp add: net_objs_def put_effect_def)
  have e3: "heap_evolves L (net_objs n) (mem_objs m)" using e1 e2 by (rule heap_evolves_trans)
  have run': "boto_call (\<lambda>_. ExternalServiceError) strip_quotes (net_put_object L k b Unconditional n) = (q, n')"
    using run by (simp add: net_store_def s3_store_def net_client_def s3_put_def Let_def)
  from bg w run' show ?thesis
  proof (cases rule: net_put_cases)
    case (answered e)
    with w obtain ob where ob: "ob_body ob = b" "e = etag_text (ob_etag ob)"
      "mem_objs m = (mem_objs (cell n1))(k \<mapsto> ob)"
      by (auto simp: put_effect_def mem_put_def dest!: mem_write_objs)
    then show ?thesis
      using answered e1 e3 by (auto simp: net_objs_def intro!: exI [of _ "mem_objs (cell n1)"] exI [of _ ob])
  next
    case (refused e)
    with w show ?thesis by (simp add: put_effect_def mem_put_def mem_write_run)
  next
    case (lost f)
    then show ?thesis using e1 e3 by auto
  qed
qed

lemma net_match_law:
  assumes run: "put_if_match (net_store L) k b t n = (q, n')" and root: "\<not> prefix ROOTS_PREFIX k"
  shows "heap_evolves L (net_objs n) (net_objs n') \<and>
      (case q of
         Inr e \<Rightarrow> \<exists>h ob0 ob. heap_evolves L (net_objs n) h \<and> h k = Some ob0 \<and> etag_text (ob_etag ob0) = t \<and>
                    ob_body ob = b \<and> etag_text (ob_etag ob) = e \<and> heap_evolves L (h(k \<mapsto> ob)) (net_objs n')
       | Inl e \<Rightarrow> e \<in> create_errors)"
proof -
  obtain ev n1 where bg: "net_begin L n = (ev, n1)" by fastforce
  obtain w m where w: "put_effect (IfMatch t) k b (cell n1) = (w, m)" by fastforce
  have e1: "heap_evolves L (net_objs n) (net_objs n1)" using bg by (rule net_begin_evolves)
  have e2: "heap_evolves L (net_objs n1) (mem_objs m)"
    using mem_match_evolves [OF root, of L "cell n1" b t] w by (simp add: net_objs_def put_effect_def)
  have e3: "heap_evolves L (net_objs n) (mem_objs m)" using e1 e2 by (rule heap_evolves_trans)
  have run': "boto_call conditional_error strip_quotes (net_put_object L k b (IfMatch t) n) = (q, n')"
    using run by (simp add: net_store_def s3_store_def net_client_def s3_put_if_match_def Let_def)
  from bg w run' show ?thesis
  proof (cases rule: net_put_cases)
    case (answered e)
    with w obtain ob0 ob where ob: "mem_objs (cell n1) k = Some ob0" "etag_text (ob_etag ob0) = t"
      "ob_body ob = b" "e = etag_text (ob_etag ob)" "mem_objs m = (mem_objs (cell n1))(k \<mapsto> ob)"
      by (auto simp: put_effect_def mem_put_if_match_def mem_objs_def dest!: mem_write_objs split: option.splits if_splits)
    then show ?thesis
      using answered e1 e3 by (simp add: net_objs_def) (metis heap_evolves_refl)
  next
    case (refused e)
    then show ?thesis using e1 by (simp add: create_errors_def)
  next
    case (lost f)
    then show ?thesis
      using e1 e3 fault_conditional_error [OF lost(1)] by (auto simp: create_errors_def)
  qed
qed

lemma net_delete_law:
  assumes run: "delete (net_store L) k n = (q, n')" and root: "\<not> prefix ROOTS_PREFIX k"
  shows "heap_evolves L (net_objs n) (net_objs n') \<and>
      (case q of Inr _ \<Rightarrow> True | Inl e \<Rightarrow> e \<in> {ExternalServiceError, BotoCoreError})"
proof -
  obtain ev n1 where bg: "net_begin L n = (ev, n1)" by fastforce
  have e1: "heap_evolves L (net_objs n) (net_objs n1)" using bg by (rule net_begin_evolves)
  have "heap_evolves L (net_objs n1) (mem_objs (snd (mem_delete k (cell n1))))"
    using mem_delete_evolves [OF root, of L "cell n1"] by (simp add: net_objs_def)
  with e1 have e3: "heap_evolves L (net_objs n) (mem_objs (snd (mem_delete k (cell n1))))"
    by (rule heap_evolves_trans)
  show ?thesis
    using run bg e1 e3
    by (auto simp: net_defs net_objs_def list_error_def split: option.splits if_splits boto_exc.splits)
qed

lemma net_object_store: "object_store L (net_store L) net_objs"
  by unfold_locales
     (blast dest: net_get_law net_head_law net_range_law net_list_law net_metas_law
        net_create_law net_put_law net_match_law net_delete_law intro: heap_evolves_refl)+

interpretation net: object_store L "net_store L" net_objs for L
  by (rule net_object_store)

section \<open>The two backends agree\<close>

definition on_cell :: "(mem, 'a) io \<Rightarrow> (net, 'a) io" where
  "on_cell f n = (case f (cell n) of (r, m) \<Rightarrow> (r, n\<lparr>cell := m\<rparr>))"

lemma net_begin_quiet [simp]: "script n = [] \<Longrightarrow> net_begin L n = (quiet, n)"
  by (simp add: net_begin_def)

lemma quiet_sel [simp]: "fault quiet = NoFault" "no_mtime quiet = False" "rivals quiet = []" "ticks quiet = 0"
  by (simp_all add: quiet_def)

lemma stamp_quiet [simp]: "stamp quiet t = t"
  by (simp add: stamp_def)

lemma no_fault [simp]: "fault_exc NoFault = None"
  by (simp add: fault_exc_def)

lemma quiet_get:
  "script n = [] \<Longrightarrow> get (net_store L) k n = on_cell (mem_get k) n"
  by (cases "DAList.lookup (objects (cell n)) k")
     (simp_all add: net_defs on_cell_def mem_get_def get_error_def boto_of_def is_missing_def)

lemma quiet_range:
  "script n = [] \<Longrightarrow> 0 < len \<or> start < 0 \<or> net_objs n k \<noteq> None \<Longrightarrow>
     get_range (net_store L) k start len n = on_cell (mem_get_range k start len) n"
  by (cases "DAList.lookup (objects (cell n)) k")
     (simp_all add: net_defs on_cell_def mem_get_def mem_get_range_def boto_of_def is_missing_def net_objs_def
        mem_objs_def byte_slice_def, auto)

lemma quiet_range_all:
  assumes "script n = []"
  shows "get_range (net_store L) k start len n =
    (if len \<le> 0 \<and> 0 \<le> start \<and> net_objs n k = None then (Inr [], n) else on_cell (mem_get_range k start len) n)"
proof (cases "len \<le> 0 \<and> 0 \<le> start \<and> net_objs n k = None")
  case True
  then show ?thesis by (simp add: net_defs)
next
  case False
  then have "0 < len \<or> start < 0 \<or> net_objs n k \<noteq> None" by linarith
  from quiet_range [OF assms this] False show ?thesis by (simp only: if_False)
qed

lemma quiet_create: "script n = [] \<Longrightarrow> put_if_absent (net_store L) k b n = on_cell (mem_put_if_absent k b) n"
  by (auto simp: net_defs on_cell_def put_effect_def mem_put_if_absent_def mem_write_run)

lemma quiet_match: "script n = [] \<Longrightarrow> put_if_match (net_store L) k b t n = on_cell (mem_put_if_match k b t) n"
  by (auto simp: net_defs on_cell_def put_effect_def mem_put_if_match_def mem_write_run split: option.splits)

lemma quiet_put: "script n = [] \<Longrightarrow> put (net_store L) k b n = on_cell (mem_put k b) n"
  by (auto simp: net_defs on_cell_def put_effect_def mem_put_def mem_write_run)

lemma quiet_metas: "script n = [] \<Longrightarrow> list_meta (net_store L) p n = on_cell (mem_list_meta p) n"
  by (simp add: net_defs on_cell_def mem_list_meta_def map_filter_rows del: map_map)
     (simp add: case_prod_unfold)

lemma sort_rows:
  assumes "distinct (map fst xs)"
  shows "map fst (filter (\<lambda>(k, ob). prefix p k) (sort_key fst xs)) = sort (filter (prefix p) (map fst xs))"
proof (rule sorted_distinct_set_unique)
  have "sorted (map fst (sort_key fst xs))" by simp
  then show "sorted (map fst (filter (\<lambda>(k, ob). prefix p k) (sort_key fst xs)))"
    by (rule sorted_filter)
  show "distinct (map fst (filter (\<lambda>(k, ob). prefix p k) (sort_key fst xs)))"
    using assms by (intro distinct_map_filter) (simp add: distinct_map)
  show "distinct (sort (filter (prefix p) (map fst xs)))" using assms by simp
qed auto

lemma quiet_list: "script n = [] \<Longrightarrow> list_prefix (net_store L) p n = on_cell (mem_list_prefix p) n"
proof -
  assume "script n = []"
  moreover have "distinct (map fst (DAList.impl_of (objects (cell n))))" by simp
  ultimately show ?thesis
    by (simp add: net_defs on_cell_def mem_list_meta_def mem_list_prefix_def map_filter_rows
        sort_rows [symmetric] case_prod_unfold del: map_map) (simp add: o_def)
qed

lemma quiet_head: "script n = [] \<Longrightarrow> head_meta (net_store L) k n = on_cell (mem_head_meta k) n"
  by (cases "DAList.lookup (objects (cell n)) k")
     (simp_all add: net_defs on_cell_def mem_head_meta_def head_error_def boto_of_def is_missing_def)

lemma quiet_delete: "script n = [] \<Longrightarrow> delete (net_store L) k n = on_cell (mem_delete k) n"
  by (simp add: net_defs on_cell_def mem_delete_def)

text \<open>
  Claim C38. The two backends are the same store: over a bucket that nobody else touches and whose
  answers arrive, every method of \<^verbatim>\<open>S3ObjectStore\<close> gives the result and the new contents of the same
  method of \<^verbatim>\<open>InMemoryObjectStore\<close>, errors included, for all arguments, with a single exception: a ranged read of no bytes
  from a missing object is empty over S3, where the in-memory store raises.
\<close>
theorem backends_agree:
  assumes "script n = []"
  shows "get (net_store L) k n = on_cell (get mem_store k) n \<and>
    put_if_absent (net_store L) k b n = on_cell (put_if_absent mem_store k b) n \<and>
    put_if_match (net_store L) k b t n = on_cell (put_if_match mem_store k b t) n \<and>
    put (net_store L) k b n = on_cell (put mem_store k b) n \<and>
    list_prefix (net_store L) p n = on_cell (list_prefix mem_store p) n \<and>
    list_meta (net_store L) p n = on_cell (list_meta mem_store p) n \<and>
    head_meta (net_store L) k n = on_cell (head_meta mem_store k) n \<and>
    delete (net_store L) k n = on_cell (delete mem_store k) n \<and>
    get_range (net_store L) k start len n =
      (if len \<le> 0 \<and> 0 \<le> start \<and> net_objs n k = None then (Inr [], n) else on_cell (get_range mem_store k start len) n)"
  using assms
  by (simp add: mem_store_def quiet_get quiet_range_all quiet_create quiet_match quiet_put quiet_list
      quiet_metas quiet_head quiet_delete)

theorem backends_agree_witness:
  "\<forall>L. get (net_store L) ''k'' \<lparr>cell = empty_mem, script = []\<rparr> = (Inl ObjectNotFoundError, \<lparr>cell = empty_mem, script = []\<rparr>)"
  using backends_agree [of "\<lparr>cell = empty_mem, script = []\<rparr>" _ "''k''"]
  by (simp add: on_cell_def mem_store_def mem_get_def empty_mem_def)

text \<open>
  They differ on an empty range: the in-memory class looks the object up before it looks
  at the length, the S3 class returns no bytes without a request, so a missing object is an error
  of the first and an empty answer of the second.
\<close>
theorem empty_range_of_missing_object:
  "get_range mem_store k 0 0 empty_mem = (Inl ObjectNotFoundError, empty_mem) \<and>
   get_range (net_store L) k 0 0 \<lparr>cell = empty_mem, script = es\<rparr> = (Inr [], \<lparr>cell = empty_mem, script = es\<rparr>)"
  by (simp add: mem_store_def mem_get_range_def empty_mem_def net_defs)

end
