(* ===== verification/Sample_Library.thy ===== *)
theory Sample_Library
  imports Store_Instances
begin

text \<open>
  One concrete instance of the parameter \<open>lib\<close> with a proof that it satisfies \<open>lib_ok\<close>, and small
  lakes built with it. The program is proved for every \<open>lib\<close>; this one shows that the hypotheses of
  those theorems can be met, and it is what the witnesses compute with. JSON values are written as
  tagged, length-prefixed text; the hash is the value of the bytes in base 256, in hexadecimal, so it
  tells apart any two contents shorter than 31 bytes.
\<close>

section \<open>A text form of JSON values\<close>

definition put_num :: "nat \<Rightarrow> string" where
  "put_num n = dec n @ ''.''"

definition take_num :: "string \<Rightarrow> (nat \<times> string) option" where
  "take_num s = (let ds = takeWhile is_digit s in
     case drop (length ds) s of
       c # rest \<Rightarrow> if c = CHR ''.'' then Some (text_num 10 ds, rest) else None
     | [] \<Rightarrow> None)"

definition put_str :: "string \<Rightarrow> string" where
  "put_str s = put_num (length s) @ s"

definition take_str :: "string \<Rightarrow> (string \<times> string) option" where
  "take_str s = (case take_num s of None \<Rightarrow> None | Some (n, rest) \<Rightarrow> Some (take n rest, drop n rest))"

definition put_int :: "int \<Rightarrow> string" where
  "put_int i = (if i < 0 then CHR ''-'' else CHR ''+'') # put_num (nat \<bar>i\<bar>)"

definition take_int :: "string \<Rightarrow> (int \<times> string) option" where
  "take_int s = (case s of [] \<Rightarrow> None | c # r \<Rightarrow>
     (case take_num r of None \<Rightarrow> None
      | Some (n, rest) \<Rightarrow> Some (if c = CHR ''-'' then - int n else int n, rest)))"

fun put_json :: "json \<Rightarrow> string" where
  "put_json JNull = ''n''"
| "put_json (JBool b) = (if b then ''t'' else ''f'')"
| "put_json (JInt i) = CHR ''i'' # put_int i"
| "put_json (JStr s) = CHR ''s'' # put_str s"
| "put_json (JList js) = CHR ''l'' # concat (map (\<lambda>j. CHR '','' # put_json j) js) @ '';''"
| "put_json (JObj kvs) = CHR ''o'' # concat (map (\<lambda>(k, j). CHR '','' # put_str k @ put_json j) kvs) @ '';''"

text \<open>The first argument bounds the number of calls; the length of the text is enough.\<close>

fun take_json :: "nat \<Rightarrow> string \<Rightarrow> (json \<times> string) option"
  and take_elems :: "nat \<Rightarrow> string \<Rightarrow> (json list \<times> string) option"
  and take_fields :: "nat \<Rightarrow> string \<Rightarrow> ((string \<times> json) list \<times> string) option" where
  "take_json 0 s = None"
| "take_json (Suc n) s = (case s of [] \<Rightarrow> None | c # r \<Rightarrow>
     if c = CHR ''n'' then Some (JNull, r)
     else if c = CHR ''t'' then Some (JBool True, r)
     else if c = CHR ''f'' then Some (JBool False, r)
     else if c = CHR ''i'' then map_option (\<lambda>(i, rest). (JInt i, rest)) (take_int r)
     else if c = CHR ''s'' then map_option (\<lambda>(t, rest). (JStr t, rest)) (take_str r)
     else if c = CHR ''l'' then map_option (\<lambda>(js, rest). (JList js, rest)) (take_elems n r)
     else if c = CHR ''o'' then map_option (\<lambda>(kvs, rest). (JObj kvs, rest)) (take_fields n r)
     else None)"
| "take_elems 0 s = None"
| "take_elems (Suc n) s = (case s of [] \<Rightarrow> None | c # r \<Rightarrow>
     if c = CHR '';'' then Some ([], r)
     else (case take_json n r of None \<Rightarrow> None | Some (j, r1) \<Rightarrow>
       map_option (\<lambda>(js, rest). (j # js, rest)) (take_elems n r1)))"
| "take_fields 0 s = None"
| "take_fields (Suc n) s = (case s of [] \<Rightarrow> None | c # r \<Rightarrow>
     if c = CHR '';'' then Some ([], r)
     else (case take_str r of None \<Rightarrow> None | Some (k, r1) \<Rightarrow>
       (case take_json n r1 of None \<Rightarrow> None | Some (j, r2) \<Rightarrow>
         map_option (\<lambda>(kvs, rest). ((k, j) # kvs, rest)) (take_fields n r2))))"

lemma take_put_num [simp]: "take_num (put_num n @ rest) = Some (n, rest)"
proof -
  have "takeWhile is_digit (dec n @ CHR ''.'' # rest) = dec n"
    by (subst takeWhile_append2) (auto dest: dec_digit simp: is_digit_def)
  then show ?thesis by (simp add: take_num_def put_num_def Let_def)
qed

lemma take_put_str [simp]: "take_str (put_str s @ rest) = Some (s, rest)"
  by (simp add: take_str_def put_str_def)

lemma take_put_int [simp]: "take_int (put_int i @ rest) = Some (i, rest)"
  by (simp add: take_int_def put_int_def)

lemma take_elems_put:
  assumes "\<And>j n rest. j \<in> set js \<Longrightarrow> length (put_json j) \<le> n \<Longrightarrow> take_json n (put_json j @ rest) = Some (j, rest)"
    and "length (concat (map (\<lambda>j. CHR '','' # put_json j) js)) + 1 \<le> n"
  shows "take_elems n (concat (map (\<lambda>j. CHR '','' # put_json j) js) @ CHR '';'' # rest) = Some (js, rest)"
  using assms
proof (induction js arbitrary: n)
  case Nil
  then show ?case by (cases n) auto
next
  case (Cons j js)
  from Cons.prems(2) obtain m where m: "n = Suc m" "length (put_json j) \<le> m"
    "length (concat (map (\<lambda>j. CHR '','' # put_json j) js)) + 1 \<le> m" by (cases n) auto
  have "take_elems m (concat (map (\<lambda>j. CHR '','' # put_json j) js) @ CHR '';'' # rest) = Some (js, rest)"
    using m(3) Cons.prems(1) by (intro Cons.IH) auto
  with m Cons.prems(1) [of j m] show ?case by simp
qed

lemma take_fields_put:
  assumes "\<And>k j n rest. (k, j) \<in> set kvs \<Longrightarrow> length (put_json j) \<le> n \<Longrightarrow> take_json n (put_json j @ rest) = Some (j, rest)"
    and "length (concat (map (\<lambda>(k, j). CHR '','' # put_str k @ put_json j) kvs)) + 1 \<le> n"
  shows "take_fields n (concat (map (\<lambda>(k, j). CHR '','' # put_str k @ put_json j) kvs) @ CHR '';'' # rest) = Some (kvs, rest)"
  using assms
proof (induction kvs arbitrary: n)
  case Nil
  then show ?case by (cases n) auto
next
  case (Cons kv kvs)
  obtain k j where kv: "kv = (k, j)" by fastforce
  from Cons.prems(2) kv obtain m where m: "n = Suc m" "length (put_json j) \<le> m"
    "length (concat (map (\<lambda>(k, j). CHR '','' # put_str k @ put_json j) kvs)) + 1 \<le> m" by (cases n) auto
  have "take_fields m (concat (map (\<lambda>(k, j). CHR '','' # put_str k @ put_json j) kvs) @ CHR '';'' # rest) = Some (kvs, rest)"
    using m(3) Cons.prems(1) by (intro Cons.IH) auto
  with m kv Cons.prems(1) [of k j m] show ?case by simp
qed

lemma take_put_json: "length (put_json j) \<le> n \<Longrightarrow> take_json n (put_json j @ rest) = Some (j, rest)"
proof (induction j arbitrary: n rest)
  case (JList js)
  then obtain m where "n = Suc m" by (cases n) auto
  with JList take_elems_put [of js m rest] show ?case by simp
next
  case (JObj kvs)
  then obtain m where m: "n = Suc m" by (cases n) auto
  have "take_json i (put_json j @ r) = Some (j, r)" if "(k, j) \<in> set kvs" "length (put_json j) \<le> i" for k j i r
    using JObj.IH [of "(k, j)" j i r] that by (auto simp: snds.simps)
  with m JObj.prems take_fields_put [of kvs m rest] show ?case by simp
qed (auto split: if_splits; (case_tac n; auto))+

section \<open>The instance\<close>

definition sample_loads :: "bytes \<Rightarrow> json option" where
  "sample_loads b = (case take_json (length b) b of
     Some (j, []) \<Rightarrow> if json_wf j then Some j else None
   | _ \<Rightarrow> None)"

definition sample_time :: "string \<Rightarrow> int option" where
  "sample_time s = (case take_int s of Some (t, []) \<Rightarrow> Some t | _ \<Rightarrow> None)"

definition sample_hash :: "bytes \<Rightarrow> string" where
  "sample_hash b = num_text 16 64 (value_of 256 (1 # map of_char b))"

definition sample_lib :: lib where
  "sample_lib = \<lparr>json_dumps = put_json, json_loads = sample_loads, iso_text = put_int,
     as_int = (\<lambda>j. case j of JInt i \<Rightarrow> Some i | _ \<Rightarrow> None),
     as_uuid = (\<lambda>j. case j of JStr s \<Rightarrow> if match_hex_groups uuid_groups s then Some (uuid_of_str s) else None | _ \<Rightarrow> None),
     as_datetime = (\<lambda>j. case j of JStr s \<Rightarrow> sample_time s | _ \<Rightarrow> None),
     sha256 = sample_hash\<rparr>"

lemma sample_lib_ok [simp]: "lib_ok sample_lib"
  unfolding lib_ok_def
proof (intro conjI allI impI)
  show "json_loads sample_lib (json_dumps sample_lib j) = Some j" if "json_wf j" for j
    using that take_put_json [of j _ "[]"] by (simp add: sample_lib_def sample_loads_def)
  show "json_wf j" if "json_loads sample_lib b = Some j" for b j
    using that by (auto simp: sample_lib_def sample_loads_def split: option.splits list.splits if_splits)
  show "as_datetime sample_lib (JStr (iso_text sample_lib t)) = Some t" for t
    using take_put_int [of t "[]"] by (simp add: sample_lib_def sample_time_def)
  show "is_sha256_hex (sha256 sample_lib b)" for b
    by (auto simp: sample_lib_def sample_hash_def is_sha256_hex_def list_all_iff dest: num_text_hex)
qed (simp_all add: sample_lib_def match_uuid_str)

section \<open>Sample lakes\<close>

definition sample_doc :: "int \<Rightarrow> uuid \<Rightarrow> root_doc" where
  "sample_doc g u = \<lparr>generation = g, payload_uuid = u, created_at = 0,
     writer = \<lparr>lib_version = ''1'', host = ''h'', pid = 1\<rparr>, pins = [], transport_of = Whole, payload_size = 3\<rparr>"

lemma sample_doc_valid [simp]: "valid_generation g \<Longrightarrow> doc_valid (sample_doc g u)"
  by (simp add: sample_doc_def doc_valid_def)

lemma sample_doc_sel [simp]: "generation (sample_doc g u) = g" "payload_uuid (sample_doc g u) = u"
    "transport_of (sample_doc g u) = Whole" "payload_size (sample_doc g u) = 3" "pins (sample_doc g u) = []"
  by (simp_all add: sample_doc_def)

text \<open>A lake in memory holding the markers of generations \<open>0, 1, \<dots>\<close> with the given uuids, first to last.\<close>

definition add_marker :: "root_doc \<Rightarrow> mem \<Rightarrow> mem" where
  "add_marker d m = snd (mem_put_if_absent (marker_key_text (generation d)) (root_to_json_bytes sample_lib d) m)"

fun add_markers :: "int \<Rightarrow> uuid list \<Rightarrow> mem \<Rightarrow> mem" where
  "add_markers g [] m = m"
| "add_markers g (u # us) m = add_markers (g + 1) us (add_marker (sample_doc g u) m)"

definition sample_mem :: "uuid list \<Rightarrow> mem" where
  "sample_mem us = add_markers 0 us empty_mem"

definition sample_net :: "uuid list \<Rightarrow> event list \<Rightarrow> net" where
  "sample_net us es = \<lparr>cell = sample_mem us, script = es\<rparr>"

lemma sample_net_sel [simp]: "cell (sample_net us es) = sample_mem us" "script (sample_net us es) = es"
    "net_objs (sample_net us es) = mem_objs (sample_mem us)"
  by (simp_all add: sample_net_def net_objs_def)

lemma empty_mem_objs [simp]: "mem_objs empty_mem = Map.empty"
  by (simp add: mem_objs_def empty_mem_def fun_eq_iff)

lemma lake_ok_empty [simp]: "lake_ok L Map.empty"
  by (simp add: lake_ok_def has_marker_def)

lemma add_marker_evolves:
  assumes "doc_valid d" and "generation d = 0 \<or> has_marker (mem_objs m) (generation d - 1)"
  shows "heap_evolves sample_lib (mem_objs m) (mem_objs (add_marker d m))"
  using assms mem_create_evolves [OF safe_create_marker [OF sample_lib_ok]] by (simp add: add_marker_def)

lemma add_marker_has: "doc_valid d \<Longrightarrow> has_marker (mem_objs (add_marker d m)) (generation d)"
  by (auto simp: add_marker_def has_marker_def doc_valid_def mem_put_if_absent_def mem_write_run mem_objs_def)

lemma add_markers_ok:
  assumes "lake_ok sample_lib (mem_objs m)" and "g = 0 \<or> has_marker (mem_objs m) (g - 1)"
    and "0 \<le> g" and "g + int (length us) \<le> MAX_GENERATION"
  shows "lake_ok sample_lib (mem_objs (add_markers g us m))"
  using assms
proof (induction us arbitrary: g m)
  case (Cons u us)
  then have v: "valid_generation g" by (simp add: valid_generation_def)
  let ?m = "add_marker (sample_doc g u) m"
  have "lake_ok sample_lib (mem_objs ?m)"
    using add_marker_evolves [of "sample_doc g u" m] Cons.prems v by (auto intro: evolves_lake_ok)
  moreover have "has_marker (mem_objs ?m) g"
    using add_marker_has [of "sample_doc g u" m] v by simp
  ultimately show ?case using Cons.prems Cons.IH [of ?m "g + 1"] by simp
qed simp

lemma sample_mem_ok [simp]: "int (length us) \<le> MAX_GENERATION \<Longrightarrow> lake_ok sample_lib (mem_objs (sample_mem us))"
  unfolding sample_mem_def by (rule add_markers_ok) auto

lemma sample_reads [simp]:
  "valid_generation g \<Longrightarrow> root_from_json_bytes sample_lib (root_to_json_bytes sample_lib (sample_doc g u)) = Some (sample_doc g u)"
  by (rule root_doc_roundtrip_lemma) simp_all

text \<open>Evaluation of the sample lakes.\<close>

named_theorems sample_eval "evaluation of runs on sample lakes"

lemma add_marker_run [sample_eval]:
  "mem_objs m (marker_key_text (generation d)) = None \<Longrightarrow>
     add_marker d m = m\<lparr>etag_counter := Suc (etag_counter m),
       objects := DAList.update (marker_key_text (generation d))
         \<lparr>ob_body = root_to_json_bytes sample_lib d, ob_etag = Suc (etag_counter m), ob_mtime = clock m\<rparr> (objects m)\<rparr>"
  by (simp add: add_marker_def mem_put_if_absent_def mem_write_run mem_objs_def)

lemma lookup_eval [sample_eval]: "mem_objs m k = DAList.lookup (objects m) k"
  by (simp add: mem_objs_def)

lemma valid_generation_eval [sample_eval]: "valid_generation g \<longleftrightarrow> 0 \<le> g \<and> g \<le> 99999999"
  by (simp add: valid_generation_def MAX_GENERATION_def)

lemmas sample_mem_eval [sample_eval] = sample_mem_def empty_mem_def on_cell_def mem_get_def mem_put_if_absent_def
  mem_write_run mem_put_def mem_objs_def

lemma add_marker_objs:
  "mem_objs (add_marker d m) k = (if k = marker_key_text (generation d) \<and> mem_objs m k = None
     then Some \<lparr>ob_body = root_to_json_bytes sample_lib d, ob_etag = Suc (etag_counter m), ob_mtime = clock m\<rparr>
     else mem_objs m k)"
  by (auto simp: add_marker_def mem_put_if_absent_def mem_write_run mem_objs_def)

lemma add_markers_keep: "mem_objs m k = Some ob \<Longrightarrow> mem_objs (add_markers g us m) k = Some ob"
  by (induction us arbitrary: g m) (simp_all add: add_marker_objs)

lemma add_markers_below: "0 \<le> j \<Longrightarrow> j < g \<Longrightarrow> mem_objs (add_markers g us m) (marker_key_text j) = mem_objs m (marker_key_text j)"
  by (induction us arbitrary: g m) (simp_all add: add_marker_objs)

lemma add_markers_other: "\<not> prefix ROOTS_PREFIX k \<Longrightarrow> mem_objs (add_markers g us m) k = mem_objs m k"
  by (induction us arbitrary: g m) (auto simp: add_marker_objs)

lemma add_markers_at:
  "0 \<le> g \<Longrightarrow> (\<And>j. g \<le> j \<Longrightarrow> mem_objs m (marker_key_text j) = None) \<Longrightarrow>
     map_option ob_body (mem_objs (add_markers g us m) (marker_key_text (g + int i))) =
       (if i < length us then Some (root_to_json_bytes sample_lib (sample_doc (g + int i) (us ! i))) else None)"
proof (induction us arbitrary: g m i)
  case (Cons u us)
  let ?m = "add_marker (sample_doc g u) m"
  show ?case
  proof (cases i)
    case 0
    with Cons.prems show ?thesis by (simp add: add_markers_below add_marker_objs)
  next
    case (Suc j)
    have "mem_objs ?m (marker_key_text h) = None" if "g + 1 \<le> h" for h
      using that Cons.prems by (simp add: add_marker_objs)
    with Cons.IH [of "g + 1" ?m j] Cons.prems(1) Suc show ?thesis by (simp add: algebra_simps)
  qed
qed simp

lemma sample_mem_marker:
  assumes "0 \<le> g"
  shows "map_option ob_body (mem_objs (sample_mem us) (marker_key_text g)) =
    (if nat g < length us then Some (root_to_json_bytes sample_lib (sample_doc g (us ! nat g))) else None)"
  using assms add_markers_at [of 0 empty_mem us "nat g"] by (simp add: sample_mem_def)

lemma sample_mem_other [simp]: "\<not> prefix ROOTS_PREFIX k \<Longrightarrow> mem_objs (sample_mem us) k = None"
  by (simp add: sample_mem_def add_markers_other)

lemma sample_has_marker [simp]:
  "has_marker (mem_objs (sample_mem us)) g \<longleftrightarrow> valid_generation g \<and> nat g < length us"
proof (cases "valid_generation g")
  case True
  then have "0 \<le> g" by (simp add: valid_generation_def)
  from sample_mem_marker [OF this, of us] True show ?thesis
    by (cases "mem_objs (sample_mem us) (marker_key_text g)") (auto simp: has_marker_def split: if_splits)
qed (simp add: has_marker_def)

section \<open>The hash tells short contents apart\<close>

lemma value_of_marked:
  "value_of 256 (1 # map of_char b) = 256 ^ length b + value_of 256 (map of_char b)"
  "value_of 256 (map of_char b) < 256 ^ length (b :: bytes)"
  using value_of_less [of "map of_char b" 256] by (auto simp: of_char_def)

lemma value_of_marked_bounds:
  "256 ^ length b \<le> value_of 256 (1 # map of_char b)"
  "value_of 256 (1 # map of_char b) < 256 ^ Suc (length (b :: bytes))"
  using value_of_marked [of b] by simp_all

lemma value_of_marked_inject:
  assumes "value_of 256 (1 # map of_char b) = value_of 256 (1 # map of_char (c :: bytes))"
  shows "b = c"
proof -
  have len: "\<not> length x < length y"
    if "value_of 256 (1 # map of_char x) = value_of 256 (1 # map of_char y)" for x y :: bytes
  proof
    assume "length x < length y"
    then have "(256::nat) ^ Suc (length x) \<le> 256 ^ length y" by (intro power_increasing) auto
    with that value_of_marked_bounds(2) [of x] value_of_marked_bounds(1) [of y] show False by linarith
  qed
  have l: "length b = length c" using len [of b c] len [of c b] assms by simp
  have "digits_of 256 (length b) (value_of 256 (map of_char b)) = map of_char b" for b :: bytes
    using digits_of_value_of [of "map of_char b" 256] by (auto simp: of_char_def)
  moreover have "value_of 256 (map of_char b) = value_of 256 (map of_char c :: nat list)"
    using assms value_of_marked(1) [of b] value_of_marked(1) [of c] l by simp
  ultimately have "map of_char b = (map of_char c :: nat list)" using l by metis
  then show ?thesis by (simp add: inj_map_eq_map inj_def)
qed

lemma sample_hash_inject:
  assumes "length b \<le> 31" and "length c \<le> 31" and "sample_hash b = sample_hash c"
  shows "b = c"
proof -
  have "text_num 16 (sample_hash x) = value_of 256 (1 # map of_char x)" if "length x \<le> 31" for x
  proof -
    have "(256::nat) ^ Suc (length x) \<le> 256 ^ 32" using that by (intro power_increasing) auto
    with value_of_marked_bounds(2) [of x] have "value_of 256 (1 # map of_char x) < 16 ^ 64" by simp
    then show ?thesis by (simp add: sample_hash_def text_num_text del: value_of.simps)
  qed
  with assms show ?thesis by (intro value_of_marked_inject) metis
qed

lemma sample_sha_inj: "(\<And>b. b \<in> X \<Longrightarrow> length b \<le> 31) \<Longrightarrow> inj_on (sha256 sample_lib) X"
  by (auto simp: inj_on_def sample_lib_def intro: sample_hash_inject)

end
