(* ===== verification/Store_Probes.thy ===== *)
theory Store_Probes
  imports Store_Instances
begin

text \<open>
  The backend probes of \<^verbatim>\<open>objectstore.py\<close> and the gate of \<^verbatim>\<open>commit.py\<close> built on them. The contending
  threads are run as a sequence of requests: the store sees some order of them, and the count of winners
  does not depend on which. The random uuids in the probe keys are arguments.
\<close>

section \<open>Operations\<close>

definition verify_conditional_writes :: "'s store \<Rightarrow> key \<Rightarrow> ('s, unit) io" where
  "verify_conditional_writes S k =
     bind_io (put_if_absent S k ''probe-1'') (\<lambda>tag.
     finally_io
       (bind_io (try_io (put_if_absent S k ''probe-2'')) (\<lambda>r.
        bind_io (case r of Inl e \<Rightarrow> if e = PreconditionFailedError then ret () else raise e
                 | Inr _ \<Rightarrow> raise ExternalServiceError) (\<lambda>_.
        bind_io (put_if_match S k ''probe-3'' tag) (\<lambda>_.
        bind_io (try_io (put_if_match S k ''probe-4'' tag)) (\<lambda>q.
          case q of Inl e \<Rightarrow> if e = PreconditionFailedError then ret () else raise e
          | Inr _ \<Rightarrow> raise ExternalServiceError)))))
       (delete S k))"

record capabilities =
  atomic_create :: bool
  atomic_cas :: bool

definition can_host_lake :: "capabilities \<Rightarrow> bool" where
  "can_host_lake c = atomic_create c"

text \<open>\<open>run_racers f ids\<close>: the number of winners, and the errors, of the contenders in \<open>ids\<close>.\<close>

fun run_racers :: "(nat \<Rightarrow> ('s, 'a) io) \<Rightarrow> nat list \<Rightarrow> ('s, nat \<times> error list) io" where
  "run_racers f [] = ret (0, [])"
| "run_racers f (i # ids) = bind_io (try_io (f i)) (\<lambda>r. bind_io (run_racers f ids) (\<lambda>(wins, errs).
     case r of
       Inr _ \<Rightarrow> ret (Suc wins, errs)
     | Inl e \<Rightarrow> (if e = PreconditionFailedError \<or> e = ConditionalConflictError then ret (wins, errs)
                else ret (wins, e # errs))))"

definition count_concurrent_winners :: "nat \<Rightarrow> (nat \<Rightarrow> ('s, 'a) io) \<Rightarrow> ('s, nat) io" where
  "count_concurrent_winners racers f =
     bind_io (run_racers f [0..<racers]) (\<lambda>(wins, errs).
       if errs \<noteq> [] then raise ExternalServiceError else ret wins)"

definition racer_body :: "nat \<Rightarrow> bytes" where
  "racer_body i = ''w'' @ dec i"

definition count_create_winners :: "'s store \<Rightarrow> key \<Rightarrow> nat \<Rightarrow> ('s, nat) io" where
  "count_create_winners S k racers = count_concurrent_winners racers (\<lambda>i. put_if_absent S k (racer_body i))"

definition count_cas_winners :: "'s store \<Rightarrow> key \<Rightarrow> nat \<Rightarrow> ('s, nat) io" where
  "count_cas_winners S k racers =
     bind_io (put_if_absent S k ''seed'') (\<lambda>tag.
       count_concurrent_winners racers (\<lambda>i. put_if_match S k (racer_body i) tag))"

definition probe_key :: "string \<Rightarrow> string \<Rightarrow> uuid \<Rightarrow> key" where
  "probe_key p kind u = p @ ''/'' @ kind @ ''-'' @ uuid_str u"

definition probe_atomic_create :: "'s store \<Rightarrow> nat \<Rightarrow> string \<Rightarrow> uuid \<Rightarrow> ('s, bool) io" where
  "probe_atomic_create S racers p u =
     (let k = probe_key p ''create'' u in
      finally_io (bind_io (count_create_winners S k racers) (\<lambda>n. ret (n = 1))) (delete S k))"

definition probe_capabilities :: "'s store \<Rightarrow> nat \<Rightarrow> string \<Rightarrow> uuid \<Rightarrow> uuid \<Rightarrow> ('s, capabilities) io" where
  "probe_capabilities S racers p u v =
     (let create_key = probe_key p ''create'' u; cas_key = probe_key p ''cas'' v in
      finally_io
        (bind_io (count_create_winners S create_key racers) (\<lambda>c.
         bind_io (count_cas_winners S cas_key racers) (\<lambda>m.
           ret \<lparr>atomic_create = (c = 1), atomic_cas = (m = 1)\<rparr>)))
        (bind_io (delete S create_key) (\<lambda>_. delete S cas_key)))"

definition DEFAULT_RACERS :: nat where
  "DEFAULT_RACERS = 6"

definition require_atomic_create :: "'s store \<Rightarrow> uuid \<Rightarrow> uuid \<Rightarrow> uuid \<Rightarrow> ('s, unit) io" where
  "require_atomic_create S u v w =
     bind_io (probe_atomic_create S DEFAULT_RACERS ''cap-probe'' u) (\<lambda>ok.
       if ok then ret ()
       else bind_io (probe_capabilities S DEFAULT_RACERS ''cap-probe'' v w) (\<lambda>_. raise BackendUnsafeError))"

section \<open>An atomic store passes\<close>

lemma finally_run: "m s = (r, s') \<Longrightarrow> fin s' = (Inr (), s'') \<Longrightarrow> finally_io m fin s = (r, s'')"
  by (simp add: finally_io_def)

lemma create_race_taken:
  "mem_objs m k \<noteq> None \<Longrightarrow> run_racers (\<lambda>i. put_if_absent mem_store k (racer_body i)) ids m = (Inr (0, []), m)"
  by (induction ids) (auto simp: mem_store_def mem_put_if_absent_def mem_objs_def bind_io_def try_io_def)

lemma create_race_free:
  assumes "mem_objs m k = None" and "0 < racers"
  shows "\<exists>ob m'. run_racers (\<lambda>i. put_if_absent mem_store k (racer_body i)) [0..<racers] m = (Inr (1, []), m') \<and>
    mem_objs m' = (mem_objs m)(k \<mapsto> ob)"
proof -
  obtain n where n: "[0..<racers] = 0 # [1..<racers]" using assms(2) by (simp add: upt_conv_Cons)
  obtain r m' where w: "mem_write k (racer_body 0) m = (r, m')" by fastforce
  from mem_write_objs [OF w] obtain e ob where e: "r = Inr e" "mem_objs m' = (mem_objs m)(k \<mapsto> ob)" by blast
  then have "mem_objs m' k \<noteq> None" by simp
  from create_race_taken [OF this] w e(1) assms(1)
  have "run_racers (\<lambda>i. put_if_absent mem_store k (racer_body i)) [0..<racers] m = (Inr (1, []), m')"
    by (simp add: n) (simp add: mem_store_def mem_put_if_absent_def mem_objs_def bind_io_def try_io_def)
  with e(2) show ?thesis by blast
qed

lemma count_create_mem:
  assumes "mem_objs m k = None" and "0 < racers"
  shows "\<exists>ob m'. count_create_winners mem_store k racers m = (Inr 1, m') \<and> mem_objs m' = (mem_objs m)(k \<mapsto> ob)"
  using create_race_free [OF assms] by (auto simp: count_create_winners_def count_concurrent_winners_def bind_io_def)

lemma mem_delete_objs: "delete mem_store k m = (Inr (), m\<lparr>objects := DAList.delete k (objects m)\<rparr>) \<and>
    mem_objs (m\<lparr>objects := DAList.delete k (objects m)\<rparr>) = (mem_objs m)(k := None)"
  by (auto simp: mem_store_def mem_delete_def mem_objs_def)

text \<open>
  The gate accepts the in-memory store, which is atomic: with any positive number of racers
  exactly one wins, and the probe leaves the contents as they were.
\<close>
theorem atomic_store_passes_the_gate:
  assumes "mem_objs m (probe_key ''cap-probe'' ''create'' u) = None"
  shows "\<exists>m'. require_atomic_create mem_store u v w m = (Inr (), m') \<and> mem_objs m' = mem_objs m"
proof -
  let ?k = "probe_key ''cap-probe'' ''create'' u"
  from count_create_mem [OF assms, of DEFAULT_RACERS] obtain ob m1 where
    m1: "count_create_winners mem_store ?k DEFAULT_RACERS m = (Inr 1, m1)" "mem_objs m1 = (mem_objs m)(?k \<mapsto> ob)"
    by (auto simp: DEFAULT_RACERS_def)
  let ?m = "m1\<lparr>objects := DAList.delete ?k (objects m1)\<rparr>"
  have "probe_atomic_create mem_store DEFAULT_RACERS ''cap-probe'' u m = (Inr True, ?m)"
    unfolding probe_atomic_create_def Let_def
    by (rule finally_run [where s' = m1]) (use m1(1) mem_delete_objs [of ?k m1] in \<open>auto simp: bind_io_def\<close>)
  moreover have "mem_objs ?m = mem_objs m"
    using mem_delete_objs [of ?k m1] m1(2) assms by (auto simp: fun_eq_iff)
  ultimately show ?thesis by (simp add: require_atomic_create_def)
qed

theorem atomic_store_passes_the_gate_witness:
  "\<exists>m'. require_atomic_create mem_store 1 2 3 empty_mem = (Inr (), m') \<and> mem_objs m' = mem_objs empty_mem"
  by (rule atomic_store_passes_the_gate) (simp add: mem_objs_def empty_mem_def)

section \<open>A store that ignores the condition is refused\<close>

text \<open>The backends the module warns of: conditional headers are accepted and not enforced.\<close>

definition lax_store :: "mem store" where
  "lax_store = mem_store\<lparr>put_if_absent := mem_put, put_if_match := (\<lambda>k b t. mem_put k b)\<rparr>"

lemma lax_put: "put_if_absent lax_store = mem_write" "put_if_match lax_store k b t = mem_write k b"
    "delete lax_store = delete mem_store"
  by (simp_all add: lax_store_def mem_put_def fun_eq_iff mem_store_def)

lemma racers_all_win:
  assumes "\<And>i m. \<exists>x m'. f i m = (Inr x, m')"
  shows "\<exists>m'. run_racers f ids m = (Inr (length ids, []), m')"
proof (induction ids arbitrary: m)
  case (Cons i ids)
  from assms obtain x m1 where "f i m = (Inr x, m1)" by blast
  with Cons.IH [of m1] show ?case by auto
qed simp

lemma count_all_win:
  assumes "\<And>i m. \<exists>x m'. f i m = (Inr x, m')"
  shows "\<exists>m'. count_concurrent_winners racers f m = (Inr racers, m')"
proof -
  from racers_all_win [of f, OF assms] obtain m' where "run_racers f [0..<racers] m = (Inr (length [0..<racers], []), m')" by blast
  then show ?thesis by (simp add: count_concurrent_winners_def)
qed

lemma write_runs: "\<exists>x m'. mem_write k b m = (Inr x, m')"
  by (simp add: mem_write_run)

lemma lax_count:
  "\<exists>m'. count_create_winners lax_store k racers m = (Inr racers, m')"
  "\<exists>m'. count_cas_winners lax_store k racers m = (Inr racers, m')"
proof -
  show "\<exists>m'. count_create_winners lax_store k racers m = (Inr racers, m')"
    unfolding count_create_winners_def lax_put by (rule count_all_win) (rule write_runs)
  obtain x m' where w: "mem_write k ''seed'' m = (Inr x, m')" using write_runs by blast
  have "\<exists>m''. count_concurrent_winners racers (\<lambda>i. mem_write k (racer_body i)) m' = (Inr racers, m'')"
    by (rule count_all_win) (rule write_runs)
  with w show "\<exists>m'. count_cas_winners lax_store k racers m = (Inr racers, m')"
    unfolding count_cas_winners_def lax_put by simp
qed

text \<open>
  The gate refuses a store that accepts \<^verbatim>\<open>If-None-Match\<close> without enforcing it: all six
  contenders win, and \<^verbatim>\<open>require_atomic_create\<close> raises \<^verbatim>\<open>BackendUnsafeError\<close>.
\<close>
theorem lax_store_is_refused:
  "fst (require_atomic_create lax_store u v w m) = Inl BackendUnsafeError"
proof -
  let ?k = "probe_key ''cap-probe'' ''create'' u" and ?c = "probe_key ''cap-probe'' ''create'' v"
    and ?d = "probe_key ''cap-probe'' ''cas'' w"
  have del: "\<exists>m'. delete lax_store k m = (Inr (), m')" for k m
    using mem_delete_objs [of k m] by (auto simp: lax_put)
  obtain m1 where m1: "count_create_winners lax_store ?k DEFAULT_RACERS m = (Inr DEFAULT_RACERS, m1)"
    using lax_count by blast
  obtain m2 where m2: "delete lax_store ?k m1 = (Inr (), m2)" using del by blast
  have "probe_atomic_create lax_store DEFAULT_RACERS ''cap-probe'' u m = (Inr (DEFAULT_RACERS = 1), m2)"
    unfolding probe_atomic_create_def Let_def by (rule finally_run [where s' = m1]) (simp_all add: m1 m2)
  then have p: "probe_atomic_create lax_store DEFAULT_RACERS ''cap-probe'' u m = (Inr False, m2)"
    by (simp add: DEFAULT_RACERS_def)
  obtain m3 where m3: "count_create_winners lax_store ?c DEFAULT_RACERS m2 = (Inr DEFAULT_RACERS, m3)"
    using lax_count by blast
  obtain m4 where m4: "count_cas_winners lax_store ?d DEFAULT_RACERS m3 = (Inr DEFAULT_RACERS, m4)"
    using lax_count by blast
  obtain m5 where m5: "delete lax_store ?c m4 = (Inr (), m5)" using del by blast
  obtain m6 where m6: "delete lax_store ?d m5 = (Inr (), m6)" using del by blast
  have "\<exists>caps. probe_capabilities lax_store DEFAULT_RACERS ''cap-probe'' v w m2 = (Inr caps, m6)"
    unfolding probe_capabilities_def Let_def
    by (rule exI, rule finally_run [where s' = m4]) (simp_all add: m3 m4 m5 m6)
  with p show ?thesis by (auto simp: require_atomic_create_def bind_io_def)
qed

lemma mem_store_put: "put_if_absent mem_store = mem_put_if_absent" "put_if_match mem_store = mem_put_if_match"
  by (simp_all add: mem_store_def)

lemma mem_put_if_absent_run:
  "mem_objs m k = None \<Longrightarrow> mem_put_if_absent k b m = mem_write k b m"
  "mem_objs m k = Some ob \<Longrightarrow> mem_put_if_absent k b m = (Inl PreconditionFailedError, m)"
  by (simp_all add: mem_put_if_absent_def mem_objs_def)

lemma mem_put_if_match_run:
  "mem_objs m k = Some ob \<Longrightarrow>
     mem_put_if_match k b t m = (if etag_text (ob_etag ob) \<noteq> t then (Inl PreconditionFailedError, m) else mem_write k b m)"
  by (simp add: mem_put_if_match_def mem_objs_def)

text \<open>
  \<^verbatim>\<open>verify_conditional_writes\<close> separates the two stores: it passes on the in-memory store and
  leaves no residue, and it raises on a store that ignores the conditions.
\<close>
theorem verify_conditional_writes_separates:
  assumes "mem_objs m k = None"
  shows "(\<exists>m'. verify_conditional_writes mem_store k m = (Inr (), m') \<and> mem_objs m' = mem_objs m) \<and>
    fst (verify_conditional_writes lax_store k m) = Inl ExternalServiceError"
proof
  let ?n = "etag_counter m"
  obtain m1 where w1: "mem_write k ''probe-1'' m = (Inr (etag_text (Suc ?n)), m1)"
    and o1: "mem_objs m1 = (mem_objs m)(k \<mapsto> \<lparr>ob_body = ''probe-1'', ob_etag = Suc ?n, ob_mtime = clock m\<rparr>)"
    and c1: "etag_counter m1 = Suc ?n"
    by (simp add: mem_write_run mem_objs_def)
  obtain x2 m2 where w2: "mem_write k ''probe-3'' m1 = (Inr x2, m2)"
    and o2: "mem_objs m2 = (mem_objs m1)(k \<mapsto> \<lparr>ob_body = ''probe-3'', ob_etag = Suc (Suc ?n), ob_mtime = clock m1\<rparr>)"
    using c1 by (simp add: mem_write_run mem_objs_def)
  let ?m = "m2\<lparr>objects := DAList.delete k (objects m2)\<rparr>"
  have "verify_conditional_writes mem_store k m = (Inr (), ?m)"
    unfolding verify_conditional_writes_def mem_store_put
    using assms w1 w2 o1 o2 mem_delete_objs [of k m2]
    by (simp add: mem_put_if_absent_run finally_run [where s' = m2] mem_put_if_match_run)
  moreover have "mem_objs ?m = mem_objs m"
    using mem_delete_objs [of k m2] o1 o2 assms by (auto simp: fun_eq_iff)
  ultimately show "\<exists>m'. verify_conditional_writes mem_store k m = (Inr (), m') \<and> mem_objs m' = mem_objs m" by blast
  obtain y m3 where w3: "mem_write k ''probe-2'' m1 = (Inr y, m3)" using write_runs by blast
  show "fst (verify_conditional_writes lax_store k m) = Inl ExternalServiceError"
    unfolding verify_conditional_writes_def lax_put
    using w1 w3 mem_delete_objs [of k m3] by (simp add: finally_run [where s' = m3])
qed

theorem verify_conditional_writes_separates_witness:
  "\<exists>m'. verify_conditional_writes mem_store ''cas-probe'' empty_mem = (Inr (), m')"
  using verify_conditional_writes_separates [of empty_mem "''cas-probe''"]
  by (auto simp: mem_objs_def empty_mem_def)

end
