(* ===== verification/Root_Protocol.thy ===== *)
theory Root_Protocol
  imports Sample_Library
begin

text \<open>
  \<^verbatim>\<open>root.py\<close>: creating and reading generation markers, resolving an uncertain create, the advisory
  hint, and the discovery of the head. The lemmas are proved once from the store contract and the
  properties are their instances for the shared bucket \<open>net_store\<close>.
\<close>

section \<open>Operations\<close>

definition ROOT_HINT_KEY :: key where
  "ROOT_HINT_KEY = ''root-hint''"

definition PROBE_CAP :: nat where
  "PROBE_CAP = 4096"

definition GALLOP_CAP :: int where
  "GALLOP_CAP = 1024"

datatype marker_outcome = WON | LOST | ABSENT

definition read_marker :: "lib \<Rightarrow> 's store \<Rightarrow> int \<Rightarrow> ('s, root_doc) io" where
  "read_marker L S g =
     bind_io (lift_io (format_marker_key g)) (\<lambda>k.
     bind_io (get S k) (\<lambda>result.
       case root_from_json_bytes L (body result) of
         None \<Rightarrow> raise ExternalServiceError
       | Some doc \<Rightarrow> (if generation doc \<noteq> g then raise ExternalServiceError else ret doc)))"

definition create_marker :: "lib \<Rightarrow> 's store \<Rightarrow> root_doc \<Rightarrow> ('s, unit) io" where
  "create_marker L S doc =
     bind_io (lift_io (marker_key doc)) (\<lambda>k.
     bind_io (put_if_absent S k (root_to_json_bytes L doc)) (\<lambda>_. ret ()))"

definition resolve_marker :: "lib \<Rightarrow> 's store \<Rightarrow> int \<Rightarrow> uuid \<Rightarrow> ('s, marker_outcome) io" where
  "resolve_marker L S g our_uuid =
     bind_io (try_io (read_marker L S g)) (\<lambda>r. case r of
         Inl e \<Rightarrow> (if e = ObjectNotFoundError then ret ABSENT else raise e)
       | Inr doc \<Rightarrow> ret (if payload_uuid doc = our_uuid then WON else LOST))"

definition write_hint :: "lib \<Rightarrow> 's store \<Rightarrow> int \<Rightarrow> ('s, unit) io" where
  "write_hint L S g =
     bind_io (try_io (put S ROOT_HINT_KEY (hint_to_json_bytes L g))) (\<lambda>r. case r of
         Inl e \<Rightarrow> (if e = ExternalServiceError then ret () else raise e)
       | Inr _ \<Rightarrow> ret ())"

definition hint_generation :: "lib \<Rightarrow> 's store \<Rightarrow> ('s, int option) io" where
  "hint_generation L S =
     bind_io (try_io (get S ROOT_HINT_KEY)) (\<lambda>r. case r of
         Inl e \<Rightarrow> (if e = ObjectNotFoundError \<or> e = ExternalServiceError then ret None else raise e)
       | Inr result \<Rightarrow> ret (hint_from_json_bytes L (body result)))"

text \<open>
  The exponential phase of \<^verbatim>\<open>_gallop_discover\<close>: \<open>lo\<close> is known present and the next step is \<open>2 ^ i\<close>
  (\<^verbatim>\<open>step\<close> starts at 1 and doubles). It returns the bracket \<open>(lo, hi)\<close>.
\<close>

lemma step_below: "\<not> MAX_GENERATION < lo + 2 ^ i \<Longrightarrow> lo < MAX_GENERATION"
  using zero_less_power [of "2::int" i] by linarith

function gallop_bracket :: "lib \<Rightarrow> 's store \<Rightarrow> int \<Rightarrow> nat \<Rightarrow> ('s, int \<times> int) io" where
  "gallop_bracket L S lo i =
     (let probe = lo + 2 ^ i in
      if probe > MAX_GENERATION then ret (lo, MAX_GENERATION + 1)
      else bind_io (try_io (read_marker L S probe)) (\<lambda>r. case r of
          Inl e \<Rightarrow> (if e = ObjectNotFoundError then ret (lo, probe) else raise e)
        | Inr _ \<Rightarrow> gallop_bracket L S probe (Suc i)))"
  by pat_completeness auto
termination
  by (relation "measure (\<lambda>(L, S, lo, i). nat (MAX_GENERATION - lo))")
     (auto simp: step_below)

text \<open>The binary search for the last present generation.\<close>

function gallop_search :: "lib \<Rightarrow> 's store \<Rightarrow> int \<Rightarrow> int \<Rightarrow> int \<Rightarrow> ('s, int) io" where
  "gallop_search L S found left right =
     (if left \<le> right then
        (let mid = (left + right) div 2 in
         bind_io (try_io (read_marker L S mid)) (\<lambda>r. case r of
            Inl e \<Rightarrow> (if e = ObjectNotFoundError then gallop_search L S found left (mid - 1) else raise e)
          | Inr _ \<Rightarrow> gallop_search L S mid (mid + 1) right))
      else ret found)"
  by pat_completeness auto
termination
  by (relation "measure (\<lambda>(L, S, found, left, right). nat (right - left + 1))") auto

declare gallop_bracket.simps [simp del] gallop_search.simps [simp del]

definition gallop_discover :: "lib \<Rightarrow> 's store \<Rightarrow> ('s, root_doc) io" where
  "gallop_discover L S =
     bind_io (try_io (read_marker L S 0)) (\<lambda>r. case r of
         Inl e \<Rightarrow> raise (if e = ObjectNotFoundError then LakeNotInitializedError else e)
       | Inr low_doc \<Rightarrow>
           bind_io (gallop_bracket L S 0 0) (\<lambda>(lo, hi).
           bind_io (gallop_search L S lo (lo + 1) (hi - 1)) (\<lambda>found.
             if found = 0 then ret low_doc else read_marker L S found)))"

text \<open>
  The forward probe of \<^verbatim>\<open>resolve_head\<close>; the first number is how many probes are left.
\<close>

fun forward_probe :: "lib \<Rightarrow> 's store \<Rightarrow> nat \<Rightarrow> root_doc \<Rightarrow> int \<Rightarrow> int \<Rightarrow> ('s, root_doc \<times> int) io" where
  "forward_probe L S 0 doc g step = ret (doc, g)"
| "forward_probe L S (Suc n) doc g step =
     (let target = g + step in
      if target > MAX_GENERATION then
        (if step = 1 then ret (doc, g) else forward_probe L S n doc g 1)
      else bind_io (try_io (read_marker L S target)) (\<lambda>r. case r of
          Inl e \<Rightarrow>
            (if e = ObjectNotFoundError
             then (if step = 1 then ret (doc, g) else forward_probe L S n doc g 1)
             else raise e)
        | Inr nxt \<Rightarrow> forward_probe L S n nxt (g + step) (min (step * 2) GALLOP_CAP)))"

definition head_start :: "lib \<Rightarrow> 's store \<Rightarrow> int option \<Rightarrow> ('s, root_doc) io" where
  "head_start L S hint = (case hint of
     None \<Rightarrow> gallop_discover L S
   | Some h \<Rightarrow>
       bind_io (try_io (read_marker L S h)) (\<lambda>r. case r of
           Inl e \<Rightarrow> (if e = ObjectNotFoundError then gallop_discover L S else raise e)
         | Inr doc \<Rightarrow> ret doc))"

definition resolve_head :: "lib \<Rightarrow> 's store \<Rightarrow> ('s, root_doc \<times> int) io" where
  "resolve_head L S =
     bind_io (hint_generation L S) (\<lambda>hint.
     bind_io (head_start L S hint) (\<lambda>doc.
       forward_probe L S PROBE_CAP doc (generation doc) 1))"

lemma hint_key_not_root [simp]: "\<not> prefix ROOTS_PREFIX ROOT_HINT_KEY"
  by (simp add: ROOT_HINT_KEY_def ROOTS_PREFIX_def)

section \<open>Reading and creating markers, from the contract\<close>

lemma lake_ok_above:
  "lake_ok L h \<Longrightarrow> \<not> has_marker h g \<Longrightarrow> 0 \<le> g \<Longrightarrow> has_marker h k \<Longrightarrow> k < g"
  using lake_ok_dense [of L h k g] by force

lemma has_marker_valid: "has_marker h g \<Longrightarrow> valid_generation g"
  by (simp add: has_marker_def)

lemma absent_before: "heap_evolves L h h' \<Longrightarrow> \<not> has_marker h' g \<Longrightarrow> \<not> has_marker h g"
  by (blast dest: evolves_has_marker)

text \<open>
  What a create needs to be a legal step of the lake: the generation's parent exists.
\<close>

definition may_create :: "contents \<Rightarrow> root_doc \<Rightarrow> bool" where
  "may_create h d \<longleftrightarrow> doc_valid d \<and> (generation d = 0 \<or> has_marker h (generation d - 1))"

lemma may_create_evolves: "heap_evolves L h h' \<Longrightarrow> may_create h d \<Longrightarrow> may_create h' d"
  by (auto simp: may_create_def dest: evolves_has_marker)

context object_store
begin

lemma read_marker_Inr:
  assumes "read_marker L S g s = (Inr d, s')"
  shows "marker_at L (objs s') g d"
proof -
  from assms obtain r k where k: "format_marker_key g = Inr k" and g: "get S k s = (Inr r, s')"
    and d: "root_from_json_bytes L (body r) = Some d" "generation d = g"
    by (auto simp: read_marker_def io_simps split: option.splits if_splits)
  from get_law [OF g] obtain h ob where h: "h k = Some ob" "body r = ob_body ob"
    "heap_evolves L h (objs s')"
    by (auto simp: get_answers_def)
  moreover have "valid_generation g" and "k = marker_key_text g"
    using k by (auto simp: format_marker_key_Inr)
  ultimately have "marker_at L h g d" using d by (simp add: marker_at_def)
  with h(3) show ?thesis by (rule evolves_marker_at)
qed

lemma read_marker_absent:
  assumes "read_marker L S g s = (Inl ObjectNotFoundError, s')"
  shows "valid_generation g \<and> \<not> has_marker (objs s) g"
proof -
  from assms obtain k where k: "format_marker_key g = Inr k" and g: "get S k s = (Inl ObjectNotFoundError, s')"
    by (auto simp: read_marker_def io_simps format_marker_key_def check_generation_def
        split: option.splits if_splits sum.splits)
  from get_law [OF g] obtain h where h: "h k = None" "heap_evolves L (objs s) h"
    by (auto simp: get_answers_def)
  from k have v: "valid_generation g" "k = marker_key_text g" by (auto simp: format_marker_key_Inr)
  with h(1) have "\<not> has_marker h g" by (simp add: has_marker_def)
  with absent_before [OF h(2)] v show ?thesis by blast
qed

lemma guar_read_marker [guar_intros]: "guar evolves (read_marker L S g)"
  unfolding read_marker_def by (intro guar_intros) (auto split: option.splits intro: guar_intros)

lemma guar_resolve_marker [guar_intros]: "guar evolves (resolve_marker L S g u)"
  unfolding resolve_marker_def by (intro guar_intros) (auto split: sum.splits intro: guar_intros)

lemma guar_write_hint [guar_intros]: "guar evolves (write_hint L S g)"
  unfolding write_hint_def by (intro guar_intros) (auto split: sum.splits intro: guar_intros)

lemma guar_hint_generation [guar_intros]: "guar evolves (hint_generation L S)"
  unfolding hint_generation_def by (intro guar_intros) (auto split: sum.splits intro: guar_intros)

lemma resolve_marker_result:
  assumes "resolve_marker L S g u s = (Inr out, s')"
  shows "case out of
      WON \<Rightarrow> \<exists>d. marker_at L (objs s') g d \<and> payload_uuid d = u
    | LOST \<Rightarrow> \<exists>d. marker_at L (objs s') g d \<and> payload_uuid d \<noteq> u
    | ABSENT \<Rightarrow> valid_generation g \<and> \<not> has_marker (objs s) g"
proof -
  obtain r t where r: "read_marker L S g s = (r, t)" by fastforce
  with assms have out: "(case r of Inl e \<Rightarrow> (if e = ObjectNotFoundError then ret ABSENT else raise e)
       | Inr doc \<Rightarrow> ret (if payload_uuid doc = u then WON else LOST)) t = (Inr out, s')"
    by (simp add: resolve_marker_def)
  show ?thesis
  proof (cases r)
    case (Inl e)
    with out have "e = ObjectNotFoundError" and "out = ABSENT" by (auto split: if_splits)
    with r Inl show ?thesis by (auto dest: read_marker_absent)
  next
    case (Inr d)
    with out have "t = s'" and "out = (if payload_uuid d = u then WON else LOST)" by auto
    with r Inr read_marker_Inr [of g s d t] show ?thesis by auto
  qed
qed

lemma create_marker_law:
  assumes "lib_ok L" and "may_create (objs s) d" and "create_marker L S d s = (r, s')"
  shows "evolves s s' \<and>
    (case r of Inr _ \<Rightarrow> marker_at L (objs s') (generation d) d
     | Inl e \<Rightarrow> e \<in> create_errors \<and>
         (e = PreconditionFailedError \<longrightarrow> has_marker (objs s') (generation d)))"
proof -
  let ?k = "marker_key_text (generation d)"
  from assms(2) have d: "doc_valid d" and v: "valid_generation (generation d)"
    by (auto simp: may_create_def doc_valid_def)
  have safe: "safe_create L (objs s) ?k (root_to_json_bytes L d)"
    using assms(1,2) by (intro safe_create_marker) (auto simp: may_create_def)
  obtain q where q: "put_if_absent S ?k (root_to_json_bytes L d) s = (q, s')"
    and r: "r = (case q of Inl e \<Rightarrow> Inl e | Inr _ \<Rightarrow> Inr ())"
    using assms(3) d by (cases "put_if_absent S ?k (root_to_json_bytes L d) s")
      (auto simp: create_marker_def bind_io_def split: sum.splits)
  note law = create_law [OF q safe]
  show ?thesis
  proof (cases q)
    case (Inr e)
    with law obtain h ob where h: "heap_evolves L (h(?k \<mapsto> ob)) (objs s')"
      "ob_body ob = root_to_json_bytes L d" by auto
    have "marker_at L (h(?k \<mapsto> ob)) (generation d) d"
      using v h(2) root_doc_roundtrip_lemma [OF assms(1) d] by (simp add: marker_at_def)
    with h(1) law Inr r show ?thesis by (auto dest: evolves_marker_at)
  next
    case (Inl e)
    have "has_marker (objs s') (generation d)" if "e = PreconditionFailedError"
      using law Inl that v by (auto simp: has_marker_def dest: evolves_marker)
    with law Inl r show ?thesis by simp
  qed
qed

end

section \<open>Discovery of the head, from the contract\<close>

text \<open>
  Why a probe can fail: some read of a marker in range failed, and not because the marker is absent.
\<close>

context object_store
begin

definition read_fails :: "'s \<Rightarrow> error \<Rightarrow> bool" where
  "read_fails s e \<longleftrightarrow> e \<noteq> ObjectNotFoundError \<and>
     (\<exists>g t t'. evolves s t \<and> valid_generation g \<and> read_marker L S g t = (Inl e, t'))"

lemma read_fails_evolves: "evolves s t \<Longrightarrow> read_fails t e \<Longrightarrow> read_fails s e"
  unfolding read_fails_def by (blast intro: heap_evolves_trans)

lemma read_fails_I:
  "evolves s t \<Longrightarrow> valid_generation g \<Longrightarrow> read_marker L S g t = (Inl e, t') \<Longrightarrow>
     e \<noteq> ObjectNotFoundError \<Longrightarrow> read_fails s e"
  unfolding read_fails_def by blast

lemma read_marker_errors:
  assumes "read_marker L S g s = (Inl e, s')" and "valid_generation g"
  shows "e \<in> {ObjectNotFoundError, ExternalServiceError, BotoCoreError}"
  using assms
  by (auto simp: read_marker_def io_simps get_answers_def dest!: get_law split: option.splits if_splits)

lemma read_fails_errors: "read_fails s e \<Longrightarrow> e \<in> {ExternalServiceError, BotoCoreError}"
  unfolding read_fails_def using read_marker_errors by blast

text \<open>One probe: it finds the marker, or shows that it was absent, or fails.\<close>

lemma probe_cases:
  assumes run: "bind_io (try_io (read_marker L S g)) (\<lambda>r. case r of
      Inl e \<Rightarrow> (if e = ObjectNotFoundError then A else raise e) | Inr d \<Rightarrow> B d) s = (q, s')"
    and g: "valid_generation g" and ok: "lake_ok L (objs s)"
  obtains (absent) t where "evolves s t" "\<And>k. has_marker (objs s) k \<Longrightarrow> k < g" "A t = (q, s')"
  | (present) d t where "evolves s t" "marker_at L (objs t) g d" "B d t = (q, s')"
  | (failed) e where "q = Inl e" "read_fails s e" "evolves s s'"
proof -
  obtain r t where r: "read_marker L S g s = (r, t)" by fastforce
  have st: "evolves s t" using guar_read_marker r by (rule guarD)
  show thesis
  proof (cases r)
    case (Inr d)
    with r run st show thesis by (intro present [of t d]) (auto dest: read_marker_Inr)
  next
    case (Inl e)
    show thesis
    proof (cases "e = ObjectNotFoundError")
      case True
      with r Inl run st show thesis
        using lake_ok_above [OF ok] by (intro absent [of t]) (auto dest!: read_marker_absent simp: valid_generation_def)
    next
      case False
      with r Inl run st g show thesis by (intro failed [of e]) (auto intro: read_fails_I [OF heap_evolves_refl])
    qed
  qed
qed

text \<open>The shape of every discovery result: time passed, and a failed read or a value with a property.\<close>

definition reads_to :: "'s \<Rightarrow> (error + 'a) \<Rightarrow> 's \<Rightarrow> ('a \<Rightarrow> bool) \<Rightarrow> bool" where
  "reads_to s r s' P \<longleftrightarrow> evolves s s' \<and> (case r of Inl e \<Rightarrow> read_fails s e | Inr x \<Rightarrow> P x)"

lemma reads_to_trans: "reads_to t r s' P \<Longrightarrow> evolves s t \<Longrightarrow> (\<And>x. P x \<Longrightarrow> Q x) \<Longrightarrow> reads_to s r s' Q"
  unfolding reads_to_def by (auto split: sum.splits intro: heap_evolves_trans read_fails_evolves)

lemma gallop_bracket_law:
  assumes "gallop_bracket L S lo i s = (r, s')" and "lake_ok L (objs s)" and "has_marker (objs s) lo"
  shows "reads_to s r s' (\<lambda>(lo', hi). lo \<le> lo' \<and> lo' < hi \<and> hi \<le> MAX_GENERATION + 1 \<and>
    has_marker (objs s') lo' \<and> (\<forall>k. has_marker (objs s) k \<longrightarrow> k < hi))"
  using assms
proof (induction "nat (MAX_GENERATION - lo)" arbitrary: lo i s rule: less_induct)
  case less
  let ?g = "lo + 2 ^ i"
  have lo: "0 \<le> lo" "lo \<le> MAX_GENERATION"
    using less.prems(3) by (auto simp: has_marker_def valid_generation_def)
  show ?case
  proof (cases "?g > MAX_GENERATION")
    case True
    with less.prems(1) have "r = Inr (lo, MAX_GENERATION + 1)" and "s' = s"
      by (auto simp: gallop_bracket.simps [of L S lo])
    with lo less.prems show ?thesis
      by (auto simp: reads_to_def has_marker_def valid_generation_def)
  next
    case False
    have up: "lo < ?g" by simp
    with lo False have g: "valid_generation ?g" by (simp add: valid_generation_def)
    have smaller: "nat (MAX_GENERATION - ?g) < nat (MAX_GENERATION - lo)" using up False by linarith
    from less.prems(1) False have run: "bind_io (try_io (read_marker L S ?g)) (\<lambda>r. case r of
          Inl e \<Rightarrow> (if e = ObjectNotFoundError then ret (lo, ?g) else raise e)
        | Inr _ \<Rightarrow> gallop_bracket L S ?g (Suc i)) s = (r, s')"
      by (simp add: gallop_bracket.simps [of L S lo] Let_def)
    from run g less.prems(2) show ?thesis
    proof (cases rule: probe_cases)
      case (absent t)
      then have "r = Inr (lo, ?g)" and "s' = t" by auto
      with absent up False less.prems(3) show ?thesis by (auto simp: reads_to_def dest: evolves_has_marker)
    next
      case (present d t)
      with less.prems(2) have "lake_ok L (objs t)" and "has_marker (objs t) ?g"
        by (auto dest: evolves_lake_ok marker_at_has)
      from less.hyps [OF smaller present(3) this] present(1) show ?thesis
        by (rule reads_to_trans)
          (auto intro: order_trans [OF less_imp_le [OF up]] evolves_has_marker [OF present(1)])
    next
      case (failed e)
      then show ?thesis by (simp add: reads_to_def)
    qed
  qed
qed

text \<open>\<open>base\<close> is the moment the search is asked about; the search itself takes time.\<close>

lemma gallop_search_law:
  assumes "gallop_search L S found (found + 1) right s = (r, s')" and "evolves base s"
    and "lake_ok L (objs base)"
    and "has_marker (objs s) found" and "right \<le> MAX_GENERATION" and "found \<le> right"
    and "\<And>k. has_marker (objs base) k \<Longrightarrow> k \<le> right"
  shows "reads_to s r s' (\<lambda>n. has_marker (objs s') n \<and> (\<forall>k. has_marker (objs base) k \<longrightarrow> k \<le> n))"
  using assms
proof (induction "nat (right - found)" arbitrary: found right s rule: less_induct)
  case less
  have ok: "lake_ok L (objs s)" using less.prems(2,3) by (rule evolves_lake_ok)
  show ?case
  proof (cases "found = right")
    case True
    with less.prems show ?thesis by (auto simp: reads_to_def gallop_search.simps [of L S right])
  next
    case False
    let ?m = "(found + 1 + right) div 2"
    have m: "found < ?m" "?m \<le> right" using False less.prems(6) by auto
    have "0 \<le> found" using less.prems(4) by (simp add: has_marker_def valid_generation_def)
    with m less.prems(5) have g: "valid_generation ?m" by (simp add: valid_generation_def)
    from less.prems(1) m have run: "bind_io (try_io (read_marker L S ?m)) (\<lambda>r. case r of
          Inl e \<Rightarrow> (if e = ObjectNotFoundError then gallop_search L S found (found + 1) (?m - 1) else raise e)
        | Inr _ \<Rightarrow> gallop_search L S ?m (?m + 1) right) s = (r, s')"
      by (simp add: gallop_search.simps [of L S found] Let_def)
    from run g ok show ?thesis
    proof (cases rule: probe_cases)
      case (absent t)
      have smaller: "nat (?m - 1 - found) < nat (right - found)" using m by linarith
      have "k \<le> ?m - 1" if "has_marker (objs base) k" for k
        using absent(2) [OF evolves_has_marker [OF less.prems(2) that]] by linarith
      from less.hyps [OF smaller absent(3) heap_evolves_trans [OF less.prems(2) absent(1)] less.prems(3)
          evolves_has_marker [OF absent(1) less.prems(4)] _ _ this] absent(1) m less.prems(5)
      show ?thesis by (auto intro: reads_to_trans)
    next
      case (present d t)
      have smaller: "nat (right - ?m) < nat (right - found)" using m by linarith
      from less.hyps [OF smaller present(3) heap_evolves_trans [OF less.prems(2) present(1)] less.prems(3)
          marker_at_has [OF present(2)] less.prems(5) m(2) less.prems(7)] present(1)
      show ?thesis by (auto intro: reads_to_trans)
    next
      case (failed e)
      then show ?thesis by (simp add: reads_to_def)
    qed
  qed
qed

lemma reads_to_bind:
  assumes run: "bind_io m f s = (r, s')"
    and m: "\<And>q t. m s = (q, t) \<Longrightarrow> reads_to s q t (P t)"
    and f: "\<And>x t. m s = (Inr x, t) \<Longrightarrow> evolves s t \<Longrightarrow> P t x \<Longrightarrow> f x t = (r, s') \<Longrightarrow> reads_to t r s' Q"
  shows "reads_to s r s' Q"
proof -
  obtain q t where q: "m s = (q, t)" by fastforce
  note law = m [OF q]
  show ?thesis
  proof (cases q)
    case (Inl e)
    with q run law show ?thesis by (auto simp: reads_to_def)
  next
    case (Inr x)
    with law have "evolves s t" and "P t x" by (auto simp: reads_to_def)
    moreover from this have "reads_to t r s' Q" using f q Inr run by simp
    ultimately show ?thesis by (auto intro: reads_to_trans)
  qed
qed

lemma gallop_frontier_law:
  assumes run: "bind_io (gallop_bracket L S 0 0) (\<lambda>(lo, hi).
      bind_io (gallop_search L S lo (lo + 1) (hi - 1)) (\<lambda>found.
        if found = 0 then ret d0 else read_marker L S found)) s = (r, s')"
    and d0: "marker_at L (objs s) 0 d0" and ok: "lake_ok L (objs s)"
  shows "reads_to s r s' (\<lambda>d. marker_at L (objs s') (generation d) d \<and>
    (\<forall>k. has_marker (objs s) k \<longrightarrow> k \<le> generation d))"
  using run
proof (rule reads_to_bind [where P = "\<lambda>t (lo, hi). 0 \<le> lo \<and> lo < hi \<and> hi \<le> MAX_GENERATION + 1 \<and>
    has_marker (objs t) lo \<and> (\<forall>k. has_marker (objs s) k \<longrightarrow> k < hi)"])
  show "reads_to s q t (\<lambda>(lo, hi). 0 \<le> lo \<and> lo < hi \<and> hi \<le> MAX_GENERATION + 1 \<and>
      has_marker (objs t) lo \<and> (\<forall>k. has_marker (objs s) k \<longrightarrow> k < hi))"
    if "gallop_bracket L S 0 0 s = (q, t)" for q t
    using that ok marker_at_has [OF d0] by (rule gallop_bracket_law)
next
  fix b t
  assume e1: "evolves s t"
    and b: "case b of (lo, hi) \<Rightarrow> 0 \<le> lo \<and> lo < hi \<and> hi \<le> MAX_GENERATION + 1 \<and>
      has_marker (objs t) lo \<and> (\<forall>k. has_marker (objs s) k \<longrightarrow> k < hi)"
    and rest: "(case b of (lo, hi) \<Rightarrow> bind_io (gallop_search L S lo (lo + 1) (hi - 1)) (\<lambda>found.
        if found = 0 then ret d0 else read_marker L S found)) t = (r, s')"
  obtain lo hi where lh: "b = (lo, hi)" by fastforce
  from rest lh have rest': "bind_io (gallop_search L S lo (lo + 1) (hi - 1)) (\<lambda>found.
        if found = 0 then ret d0 else read_marker L S found) t = (r, s')" by simp
  then show "reads_to t r s' (\<lambda>d. marker_at L (objs s') (generation d) d \<and>
    (\<forall>k. has_marker (objs s) k \<longrightarrow> k \<le> generation d))"
  proof (rule reads_to_bind [where P = "\<lambda>t n. has_marker (objs t) n \<and> (\<forall>k. has_marker (objs s) k \<longrightarrow> k \<le> n)"])
    show "reads_to t q u (\<lambda>n. has_marker (objs u) n \<and> (\<forall>k. has_marker (objs s) k \<longrightarrow> k \<le> n))"
      if "gallop_search L S lo (lo + 1) (hi - 1) t = (q, u)" for q u
      using b lh by (intro gallop_search_law [OF that e1 ok]) auto
  next
    fix n u
    assume e2: "evolves t u" and n: "has_marker (objs u) n \<and> (\<forall>k. has_marker (objs s) k \<longrightarrow> k \<le> n)"
      and fin: "(if n = 0 then ret d0 else read_marker L S n) u = (r, s')"
    from e1 e2 have e: "evolves s u" by (rule heap_evolves_trans)
    then have oku: "lake_ok L (objs u)" using ok by (rule evolves_lake_ok)
    show "reads_to u r s' (\<lambda>d. marker_at L (objs s') (generation d) d \<and>
      (\<forall>k. has_marker (objs s) k \<longrightarrow> k \<le> generation d))"
    proof (cases "n = 0")
      case True
      with fin n e d0 show ?thesis
        using evolves_marker_at [OF e d0] marker_at_generation [OF d0] by (auto simp: reads_to_def)
    next
      case False
      with fin have rd: "read_marker L S n u = (r, s')" by simp
      have e3: "evolves u s'" using guar_read_marker rd by (rule guarD)
      show ?thesis
      proof (cases r)
        case (Inl e)
        with rd n have "e \<noteq> ObjectNotFoundError" by (auto dest: read_marker_absent)
        with rd n Inl e3 show ?thesis
          by (auto simp: reads_to_def intro: read_fails_I [OF heap_evolves_refl has_marker_valid])
      next
        case (Inr d)
        with rd have "marker_at L (objs s') n d" by (auto dest: read_marker_Inr)
        with n e3 Inr show ?thesis by (auto simp: reads_to_def dest: marker_at_generation)
      qed
    qed
  qed
qed

lemma gallop_discover_law:
  assumes run: "gallop_discover L S s = (r, s')" and ok: "lake_ok L (objs s)"
  shows "(r = Inl LakeNotInitializedError \<and> evolves s s' \<and> (\<forall>k. \<not> has_marker (objs s) k)) \<or>
    reads_to s r s' (\<lambda>d. marker_at L (objs s') (generation d) d \<and>
      (\<forall>k. has_marker (objs s) k \<longrightarrow> k \<le> generation d))"
proof -
  obtain r0 s0 where r0: "read_marker L S 0 s = (r0, s0)" by fastforce
  have e0: "evolves s s0" using guar_read_marker r0 by (rule guarD)
  have v0: "valid_generation 0" by (simp add: valid_generation_def MAX_GENERATION_def)
  show ?thesis
  proof (cases r0)
    case (Inl e)
    show ?thesis
    proof (cases "e = ObjectNotFoundError")
      case True
      with r0 Inl have "\<not> has_marker (objs s) 0" by (auto dest: read_marker_absent)
      with lake_ok_above [OF ok this] have "\<not> has_marker (objs s) k" for k
        by (force simp: has_marker_def valid_generation_def)
      moreover have "r = Inl LakeNotInitializedError" and "s' = s0"
        using True run r0 Inl by (simp_all add: gallop_discover_def)
      ultimately show ?thesis using e0 by simp
    next
      case False
      with run r0 Inl have "r = Inl e" and "s' = s0" by (simp_all add: gallop_discover_def)
      with False r0 Inl e0 show ?thesis
        by (auto simp: reads_to_def intro: read_fails_I [OF heap_evolves_refl v0])
    qed
  next
    case (Inr d0)
    with r0 run have "bind_io (gallop_bracket L S 0 0) (\<lambda>(lo, hi).
      bind_io (gallop_search L S lo (lo + 1) (hi - 1)) (\<lambda>found.
        if found = 0 then ret d0 else read_marker L S found)) s0 = (r, s')"
      by (simp add: gallop_discover_def)
    moreover have "marker_at L (objs s0) 0 d0" using r0 Inr by (auto dest: read_marker_Inr)
    ultimately have "reads_to s0 r s' (\<lambda>d. marker_at L (objs s') (generation d) d \<and>
        (\<forall>k. has_marker (objs s0) k \<longrightarrow> k \<le> generation d))"
      using evolves_lake_ok [OF e0 ok] by (rule gallop_frontier_law)
    with e0 show ?thesis by (auto intro: reads_to_trans dest: evolves_has_marker)
  qed
qed

end

text \<open>
  The probe budget. With step \<open>2 ^ i\<close> and \<open>D\<close> generations still to go, \<open>probes_needed i D\<close> probes
  are enough: while the step is still doubling it is small, at the cap each probe gains 1024.
  \<open>fine_probes i c\<close> is the count once the overshoot is known to come before step \<open>2 ^ c\<close>.
\<close>

definition fine_probes :: "nat \<Rightarrow> nat \<Rightarrow> nat" where
  "fine_probes i c = (c - i) + 1 + c * (c + 1) div 2"

definition probes_enough :: "nat \<Rightarrow> nat \<Rightarrow> int \<Rightarrow> bool" where
  "probes_enough n i D \<longleftrightarrow> D \<le> 0 \<or>
     (\<exists>c \<le> 10. i \<le> c \<and> D + 2 ^ i - 1 < 2 ^ c \<and> fine_probes i c \<le> n) \<or>
     (i \<le> 10 \<and> (10 - i) + nat D div 1024 + 67 \<le> n)"

lemma triangle_step: "i < c \<Longrightarrow> i * (i + 1) div 2 + c \<le> c * (c + 1) div (2::nat)"
proof -
  assume "i < c"
  then obtain k where k: "c = Suc (i + k)" by (metis less_iff_Suc_add)
  have "i * (i + 1) + 2 * c \<le> c * (c + 1)" by (simp add: k algebra_simps)
  then show ?thesis by linarith
qed

lemma probes_enough_zero: "probes_enough 0 i D \<Longrightarrow> D \<le> 0"
  by (auto simp: probes_enough_def fine_probes_def)

lemma probes_enough_advance:
  assumes "probes_enough (Suc n) i D" and "i \<le> 10"
  shows "probes_enough n (min (Suc i) 10) (D - 2 ^ i)"
proof (cases "D - 2 ^ i \<le> 0")
  case True
  then show ?thesis by (simp add: probes_enough_def)
next
  case False
  have pos: "\<not> D \<le> 0" using False zero_less_power [of "2::int" i] by linarith
  with assms(1) consider (fine) c where "c \<le> 10" "i \<le> c" "D + 2 ^ i - 1 < 2 ^ c" "fine_probes i c \<le> Suc n"
    | (far) "(10 - i) + nat D div 1024 + 67 \<le> Suc n"
    unfolding probes_enough_def by blast
  then show ?thesis
  proof cases
    case fine
    then have "(2::int) ^ i < 2 ^ c" using pos by linarith
    then have "i < c" by simp
    moreover have "(D - 2 ^ i) + 2 ^ Suc i - 1 < 2 ^ c" using fine(3) by simp
    ultimately show ?thesis
      using fine by (auto simp: probes_enough_def fine_probes_def min_def intro!: exI [of _ c])
  next
    case far
    show ?thesis
    proof (cases "i = 10")
      case True
      with False have "nat D = nat (D - 1024) + 1024" by simp
      then have "nat D div 1024 = nat (D - 1024) div 1024 + 1" by simp
      with far True show ?thesis by (auto simp: probes_enough_def)
    next
      case small: False
      have "nat (D - 2 ^ i) div 1024 \<le> nat D div 1024" by (intro div_le_mono nat_mono) simp
      then have "10 - Suc i + nat (D - 2 ^ i) div 1024 + 67 \<le> n" using far small assms(2) by linarith
      with small assms(2) show ?thesis by (simp add: probes_enough_def min_def)
    qed
  qed
qed

lemma probes_enough_reset:
  assumes "probes_enough (Suc n) i D" and "i \<le> 10" and "0 < i" and "D < 2 ^ i"
  shows "probes_enough n 0 D"
proof (cases "D \<le> 0")
  case True
  then show ?thesis by (simp add: probes_enough_def)
next
  case False
  with assms(1) consider (fine) c where "c \<le> 10" "i \<le> c" "D + 2 ^ i - 1 < 2 ^ c" "fine_probes i c \<le> Suc n"
    | (far) "(10 - i) + nat D div 1024 + 67 \<le> Suc n"
    unfolding probes_enough_def by blast
  then show ?thesis
  proof cases
    case fine
    then have "(2::int) ^ i < 2 ^ c" using False by linarith
    then have ic: "i < c" by simp
    have "fine_probes 0 i \<le> n"
      using fine(4) ic triangle_step [OF ic] by (simp add: fine_probes_def)
    with assms show ?thesis by (auto simp: probes_enough_def intro!: exI [of _ i])
  next
    case far
    have "(2::int) ^ i \<le> 2 ^ 10" using assms(2) by (intro power_increasing) auto
    with assms(4) have "D < 1024" by simp
    with far show ?thesis by (auto simp: probes_enough_def fine_probes_def intro!: exI [of _ 10])
  qed
qed

lemma gallop_step: "i \<le> 10 \<Longrightarrow> min (2 ^ i * 2) GALLOP_CAP = 2 ^ min (Suc i) 10"
proof -
  assume "i \<le> 10"
  then consider "i = 10" | "Suc i \<le> 10" by linarith
  then show ?thesis
  proof cases
    case 2
    then have "(2::int) ^ Suc i \<le> 2 ^ 10" by (intro power_increasing) auto
    with 2 show ?thesis by (simp add: GALLOP_CAP_def min_def)
  qed (simp add: GALLOP_CAP_def)
qed

context object_store
begin

lemma forward_probe_law:
  assumes "forward_probe L S n d g (2 ^ i) s = (r, s')" and "marker_at L (objs s) g d"
    and "i \<le> 10" and "lake_ok L (objs base)" and "evolves base s"
  shows "reads_to s r s' (\<lambda>(d', g'). marker_at L (objs s') g' d' \<and> g \<le> g' \<and>
    (\<forall>k. has_marker (objs base) k \<longrightarrow> probes_enough n i (k - g) \<longrightarrow> k \<le> g'))"
  using assms
proof (induction n arbitrary: d g i s)
  case 0
  have "k \<le> g" if "probes_enough 0 i (k - g)" for k using probes_enough_zero [OF that] by simp
  with 0 show ?case by (auto simp: reads_to_def)
next
  case (Suc n)
  let ?t = "g + 2 ^ i"
  let ?P = "\<lambda>(d', g'). marker_at L (objs s') g' d' \<and> g \<le> g' \<and>
    (\<forall>k. has_marker (objs base) k \<longrightarrow> probes_enough (Suc n) i (k - g) \<longrightarrow> k \<le> g')"
  have ok: "lake_ok L (objs s)" using Suc.prems(5,4) by (rule evolves_lake_ok)
  have gap: "reads_to s r s' ?P"
    if st: "evolves s t" and above: "\<And>k. has_marker (objs base) k \<Longrightarrow> k < ?t"
      and run: "(if (2::int) ^ i = 1 then ret (d, g) else forward_probe L S n d g 1) t = (r, s')" for t
  proof (cases "i = 0")
    case True
    with run have "r = Inr (d, g)" and "t = s'" by auto
    moreover have "k \<le> g" if "has_marker (objs base) k" for k using above [OF that] True by simp
    ultimately show ?thesis
      using evolves_marker_at [OF st Suc.prems(2)] st by (simp add: reads_to_def)
  next
    case False
    then have "(1::int) < 2 ^ i" by (simp add: one_less_power)
    with run have run': "forward_probe L S n d g (2 ^ 0) t = (r, s')" by simp
    have "k \<le> g'" if k: "has_marker (objs base) k" "probes_enough (Suc n) i (k - g)"
      and ih: "\<forall>k. has_marker (objs base) k \<longrightarrow> probes_enough n 0 (k - g) \<longrightarrow> k \<le> g'" for k g'
      using probes_enough_reset [OF k(2) Suc.prems(3)] above [OF k(1)] False k(1) ih by simp
    with Suc.IH [OF run' evolves_marker_at [OF st Suc.prems(2)] _ Suc.prems(4) heap_evolves_trans [OF Suc.prems(5) st]] st
    show ?thesis by (auto intro: reads_to_trans)
  qed
  show ?case
  proof (cases "?t > MAX_GENERATION")
    case True
    have "k < ?t" if "has_marker (objs base) k" for k
      using has_marker_valid [OF that] True by (simp add: valid_generation_def)
    moreover have "(if (2::int) ^ i = 1 then ret (d, g) else forward_probe L S n d g 1) s = (r, s')"
      using Suc.prems(1) True by simp
    ultimately show ?thesis by (intro gap [of s]) auto
  next
    case False
    have "0 \<le> g" using Suc.prems(2) by (auto dest: marker_at_generation simp: valid_generation_def)
    moreover have up: "g < ?t" by simp
    ultimately have v: "valid_generation ?t" using False by (simp add: valid_generation_def)
    from Suc.prems(1) False have run: "bind_io (try_io (read_marker L S ?t)) (\<lambda>r. case r of
          Inl e \<Rightarrow> (if e = ObjectNotFoundError
             then (if (2::int) ^ i = 1 then ret (d, g) else forward_probe L S n d g 1) else raise e)
        | Inr nxt \<Rightarrow> forward_probe L S n nxt ?t (min (2 ^ i * 2) GALLOP_CAP)) s = (r, s')"
      by (simp add: Let_def)
    from run v ok show ?thesis
    proof (cases rule: probe_cases)
      case (absent t)
      then show ?thesis using evolves_has_marker [OF Suc.prems(5)] by (intro gap [of t]) auto
    next
      case (present e t)
      from present(3) have run': "forward_probe L S n e ?t (2 ^ min (Suc i) 10) t = (r, s')"
        by (simp only: gallop_step [OF Suc.prems(3)])
      have ih: "reads_to t r s' (\<lambda>(d', g'). marker_at L (objs s') g' d' \<and> ?t \<le> g' \<and>
          (\<forall>k. has_marker (objs base) k \<longrightarrow> probes_enough n (min (Suc i) 10) (k - ?t) \<longrightarrow> k \<le> g'))"
        using Suc.prems(4) heap_evolves_trans [OF Suc.prems(5) present(1)]
        by (intro Suc.IH [OF run' present(2)]) auto
      have "probes_enough n (min (Suc i) 10) (k - ?t)" if "probes_enough (Suc n) i (k - g)" for k
        using probes_enough_advance [OF that Suc.prems(3)] by (simp add: algebra_simps)
      then have "?P x" if "case x of (d', g') \<Rightarrow> marker_at L (objs s') g' d' \<and> ?t \<le> g' \<and>
          (\<forall>k. has_marker (objs base) k \<longrightarrow> probes_enough n (min (Suc i) 10) (k - ?t) \<longrightarrow> k \<le> g')" for x
        using that up by (cases x) (simp add: order_trans [OF less_imp_le [OF up]])
      then show ?thesis by (rule reads_to_trans [OF ih present(1)])
    next
      case (failed e)
      then show ?thesis by (simp add: reads_to_def)
    qed
  qed
qed

end

text \<open>\<open>resolve_head\<close> with 4096 probes reaches every generation less than this far beyond the one it starts from.\<close>

abbreviation (input) fresh_bound :: int where
  "fresh_bound \<equiv> 4116480"

text \<open>
  The generations a search that read \<open>hint\<close> is sure to reach: all of them, unless the hint names a marker, which is then
  where the search starts.
\<close>

definition within_reach :: "contents \<Rightarrow> int option \<Rightarrow> int \<Rightarrow> bool" where
  "within_reach h hint k \<longleftrightarrow> (case hint of None \<Rightarrow> True | Some v \<Rightarrow> has_marker h v \<longrightarrow> k < v + 4116480)"

lemma probe_cap_enough: "k < fresh_bound + g \<Longrightarrow> probes_enough PROBE_CAP 0 (k - g)"
  by (auto simp: probes_enough_def PROBE_CAP_def)

context object_store
begin

lemma hint_generation_law:
  assumes "hint_generation L S s = (r, s')"
  shows "evolves s s' \<and> (case r of Inl e \<Rightarrow> e = BotoCoreError | Inr None \<Rightarrow> True | Inr (Some h) \<Rightarrow> valid_generation h)"
proof -
  obtain q t where q: "get S ROOT_HINT_KEY s = (q, t)" by fastforce
  from get_law [OF q] have "q = Inl e \<Longrightarrow> e \<in> {ObjectNotFoundError, ExternalServiceError, BotoCoreError}" for e
    by (auto simp: get_answers_def)
  with assms q have "case r of Inl e \<Rightarrow> e = BotoCoreError | Inr None \<Rightarrow> True | Inr (Some h) \<Rightarrow> valid_generation h"
    by (cases q) (auto simp: hint_generation_def split: if_splits option.splits dest: hint_valid)
  then show ?thesis using guar_hint_generation assms by (blast dest: guarD)
qed

lemma head_start_law:
  assumes run: "head_start L S hint s = (r, s')" and ok: "lake_ok L (objs s)"
    and h: "\<And>h. hint = Some h \<Longrightarrow> valid_generation h"
  shows "(r = Inl LakeNotInitializedError \<and> evolves s s' \<and> (\<forall>k. \<not> has_marker (objs s) k)) \<or>
    reads_to s r s' (\<lambda>d. marker_at L (objs s') (generation d) d \<and>
      (hint = Some (generation d) \<or> (\<forall>k. has_marker (objs s) k \<longrightarrow> k \<le> generation d)))"
proof -
  have gal: ?thesis if "gallop_discover L S t = (r, s')" and "evolves s t" for t
    using gallop_discover_law [OF that(1) evolves_lake_ok [OF that(2) ok]]
  proof
    assume "r = Inl LakeNotInitializedError \<and> evolves t s' \<and> (\<forall>k. \<not> has_marker (objs t) k)"
    with that(2) show ?thesis by (blast intro: heap_evolves_trans dest: evolves_has_marker)
  next
    assume "reads_to t r s' (\<lambda>d. marker_at L (objs s') (generation d) d \<and> (\<forall>k. has_marker (objs t) k \<longrightarrow> k \<le> generation d))"
    then show ?thesis using evolves_has_marker [OF that(2)] by - (rule disjI2, erule reads_to_trans [OF _ that(2)], auto)
  qed
  show ?thesis
  proof (cases hint)
    case None
    with run show ?thesis by (intro gal [of s]) (auto simp: head_start_def)
  next
    case (Some h)
    with run have "bind_io (try_io (read_marker L S h)) (\<lambda>r. case r of
           Inl e \<Rightarrow> (if e = ObjectNotFoundError then gallop_discover L S else raise e)
         | Inr doc \<Rightarrow> ret doc) s = (r, s')" by (simp add: head_start_def)
    from this assms(3) [OF Some] ok show ?thesis
    proof (cases rule: probe_cases)
      case (absent t)
      then show ?thesis by (intro gal)
    next
      case (present d t)
      then show ?thesis using marker_at_generation [OF present(2)] Some by (auto simp: reads_to_def)
    next
      case (failed e)
      then show ?thesis by (simp add: reads_to_def)
    qed
  qed
qed

lemma resolve_head_reach:
  assumes run: "resolve_head L S s = (r, s')" and ok: "lake_ok L (objs s)"
  shows "evolves s s' \<and> (case r of
      Inl e \<Rightarrow> e = BotoCoreError \<or> read_fails s e \<or> (e = LakeNotInitializedError \<and> (\<forall>k. \<not> has_marker (objs s) k))
    | Inr (d, g) \<Rightarrow> marker_at L (objs s') g d \<and>
        (\<exists>hint t. hint_generation L S s = (Inr hint, t) \<and>
           (\<forall>k. has_marker (objs s) k \<longrightarrow> within_reach (objs s') hint k \<longrightarrow> k \<le> g)))"
proof -
  obtain q t where q: "hint_generation L S s = (q, t)" by fastforce
  note hint = hint_generation_law [OF q]
  then have st: "evolves s t" by simp
  show ?thesis
  proof (cases q)
    case (Inl e)
    with run q hint show ?thesis by (auto simp: resolve_head_def)
  next
    case (Inr h)
    obtain w u where w: "head_start L S h t = (w, u)" by fastforce
    have "valid_generation x" if "h = Some x" for x using hint Inr that by simp
    with head_start_law [OF w evolves_lake_ok [OF st ok]]
    have start: "(w = Inl LakeNotInitializedError \<and> evolves t u \<and> (\<forall>k. \<not> has_marker (objs t) k)) \<or>
      reads_to t w u (\<lambda>d. marker_at L (objs u) (generation d) d \<and>
        (h = Some (generation d) \<or> (\<forall>k. has_marker (objs t) k \<longrightarrow> k \<le> generation d)))" by blast
    show ?thesis
    proof (cases w)
      case (Inl e)
      with run q Inr w have "r = Inl e" and "s' = u" by (simp_all add: resolve_head_def)
      with start Inl st show ?thesis
        by (auto simp: reads_to_def intro: heap_evolves_trans read_fails_evolves dest: evolves_has_marker)
    next
      case (Inr d)
      with run q \<open>q = Inr h\<close> w have fp: "forward_probe L S PROBE_CAP d (generation d) (2 ^ 0) u = (r, s')"
        by (simp add: resolve_head_def)
      from start Inr have d: "marker_at L (objs u) (generation d) d" and tu: "evolves t u"
        and from_hint: "h = Some (generation d) \<or> (\<forall>k. has_marker (objs t) k \<longrightarrow> k \<le> generation d)"
        by (auto simp: reads_to_def)
      have su: "evolves s u" using st tu by (rule heap_evolves_trans)
      from forward_probe_law [OF fp d _ ok su] have probe: "reads_to u r s' (\<lambda>(d', g'). marker_at L (objs s') g' d' \<and> generation d \<le> g' \<and>
          (\<forall>k. has_marker (objs s) k \<longrightarrow> probes_enough PROBE_CAP 0 (k - generation d) \<longrightarrow> k \<le> g'))" by simp
      then have us: "evolves u s'" by (simp add: reads_to_def)
      have reach: "probes_enough PROBE_CAP 0 (k - generation d) \<or> k \<le> generation d"
        if k: "has_marker (objs s) k" "within_reach (objs s') h k" for k
        using from_hint
      proof
        assume "h = Some (generation d)"
        moreover have "has_marker (objs s') (generation d)" using evolves_marker_at [OF us d] by (rule marker_at_has)
        ultimately show ?thesis using k(2) by (intro disjI1 probe_cap_enough) (simp add: within_reach_def)
      next
        assume "\<forall>k. has_marker (objs t) k \<longrightarrow> k \<le> generation d"
        with evolves_has_marker [OF st k(1)] show ?thesis by blast
      qed
      show ?thesis
      proof (cases r)
        case (Inl e)
        with probe su us show ?thesis by (auto simp: reads_to_def intro: heap_evolves_trans read_fails_evolves)
      next
        case (Inr x)
        obtain d' g' where x: "x = (d', g')" by fastforce
        from probe Inr x have at: "marker_at L (objs s') g' d'" and up: "generation d \<le> g'"
          and far: "\<And>k. has_marker (objs s) k \<Longrightarrow> probes_enough PROBE_CAP 0 (k - generation d) \<Longrightarrow> k \<le> g'"
          by (simp_all add: reads_to_def)
        have "k \<le> g'" if "has_marker (objs s) k" "within_reach (objs s') h k" for k
          using reach [OF that] far [OF that(1)] up by linarith
        then have "\<exists>hint t. hint_generation L S s = (Inr hint, t) \<and>
            (\<forall>k. has_marker (objs s) k \<longrightarrow> within_reach (objs s') hint k \<longrightarrow> k \<le> g')" using q \<open>q = Inr h\<close> by blast
        with at heap_evolves_trans [OF su us] show ?thesis by (simp add: Inr x)
      qed
    qed
  qed
qed

lemma resolve_head_law:
  assumes run: "resolve_head L S s = (r, s')" and ok: "lake_ok L (objs s)"
  shows "evolves s s' \<and> (case r of
      Inl e \<Rightarrow> e = BotoCoreError \<or> read_fails s e \<or> (e = LakeNotInitializedError \<and> (\<forall>k. \<not> has_marker (objs s) k))
    | Inr (d, g) \<Rightarrow> marker_at L (objs s') g d \<and>
        (\<forall>k. has_marker (objs s) k \<longrightarrow> k < fresh_bound \<longrightarrow> k \<le> g))"
proof -
  note law = resolve_head_reach [OF run ok]
  have "k \<le> g" if "r = Inr (d, g)" "has_marker (objs s) k" "k < fresh_bound" for d g k
  proof -
    from law that(1) obtain hint t where hint: "hint_generation L S s = (Inr hint, t)"
      and far: "has_marker (objs s) k \<longrightarrow> within_reach (objs s') hint k \<longrightarrow> k \<le> g" by auto
    have "within_reach (objs s') hint k"
      using hint_generation_law [OF hint] that(3) by (auto simp: within_reach_def valid_generation_def split: option.splits)
    with far that(2) show ?thesis by blast
  qed
  with law show ?thesis by (auto split: sum.splits)
qed

end

section \<open>Discovery on a store whose reads are answered\<close>

context reliable_store
begin

lemma read_marker_reliable:
  assumes run: "read_marker L S g s = (Inl e, s')" and g: "valid_generation g" and ok: "lake_ok L (objs s)"
  shows "e = ObjectNotFoundError"
proof -
  obtain q t where q: "get S (marker_key_text g) s = (q, t)" by fastforce
  from get_law [OF q] obtain h where h: "heap_evolves L (objs s) h" "get_answers (marker_key_text g) h q" by blast
  have okh: "lake_ok L h" using h(1) ok by (rule evolves_lake_ok)
  show ?thesis
  proof (cases q)
    case (Inl x)
    with get_reliable q have "x = ObjectNotFoundError" by simp
    with run q Inl g show ?thesis by (simp add: read_marker_def)
  next
    case (Inr r)
    with h(2) obtain ob where ob: "h (marker_key_text g) = Some ob" "body r = ob_body ob"
      by (auto simp: get_answers_def)
    with g have "has_marker h g" by (simp add: has_marker_def)
    with okh obtain d where "marker_at L h g d" unfolding lake_ok_def by blast
    with ob have "root_from_json_bytes L (body r) = Some d" and "generation d = g"
      by (simp_all add: marker_at_def)
    with run q Inr g show ?thesis by (simp add: read_marker_def)
  qed
qed

lemma no_read_fails: "lake_ok L (objs s) \<Longrightarrow> \<not> read_fails s e"
  unfolding read_fails_def by (blast dest: read_marker_reliable evolves_lake_ok)

lemma hint_generation_reliable: "hint_generation L S s \<noteq> (Inl e, s')"
proof
  assume run: "hint_generation L S s = (Inl e, s')"
  obtain q t where q: "get S ROOT_HINT_KEY s = (q, t)" by fastforce
  with get_answered [OF q] run show False
    by (auto simp: hint_generation_def)
qed

lemma resolve_head_reliable:
  assumes run: "resolve_head L S s = (Inl e, s')" and ok: "lake_ok L (objs s)"
  shows "e = LakeNotInitializedError \<and> (\<forall>k. \<not> has_marker (objs s) k)"
proof -
  obtain q t where q: "hint_generation L S s = (q, t)" by fastforce
  with hint_generation_reliable obtain h where h: "q = Inr h" by (cases q) auto
  note hint = hint_generation_law [OF q]
  then have st: "evolves s t" by simp
  then have okt: "lake_ok L (objs t)" using ok by (rule evolves_lake_ok)
  obtain w u where w: "head_start L S h t = (w, u)" by fastforce
  have "valid_generation x" if "h = Some x" for x using hint h that by simp
  note start = head_start_law [OF w okt this]
  show ?thesis
  proof (cases w)
    case (Inl x)
    with run q h w have "x = e" by (simp add: resolve_head_def)
    with start Inl no_read_fails [OF okt] show ?thesis
      by (auto simp: reads_to_def dest: evolves_has_marker [OF st])
  next
    case (Inr d)
    with run q h w have fp: "forward_probe L S PROBE_CAP d (generation d) (2 ^ 0) u = (Inl e, s')"
      by (simp add: resolve_head_def)
    from start Inr have d: "marker_at L (objs u) (generation d) d" and "evolves t u"
      by (auto simp: reads_to_def)
    then have oku: "lake_ok L (objs u)" using okt by (blast intro: evolves_lake_ok)
    from forward_probe_law [OF fp d _ oku] have "read_fails u e" by (simp add: reads_to_def)
    with no_read_fails [OF oku] show ?thesis by blast
  qed
qed

end

text \<open>Discovery only reads: it moves the world only as far as its reads do.\<close>

locale reader = step_relation R for R :: "'s \<Rightarrow> 's \<Rightarrow> bool" +
  fixes S :: "'s store"
  assumes get_step [guar_intros]: "guar R (get S k)"
begin

lemma reader_read_marker [guar_intros]: "guar R (read_marker L S g)"
  unfolding read_marker_def by (intro guar_intros) (auto split: option.splits intro: guar_intros)

lemma reader_hint [guar_intros]: "guar R (hint_generation L S)"
  unfolding hint_generation_def by (intro guar_intros) (auto split: sum.splits intro: guar_intros)

lemma reader_bracket [guar_intros]: "guar R (gallop_bracket L S lo i)"
proof (induction "nat (MAX_GENERATION - lo)" arbitrary: lo i rule: less_induct)
  case less
  show ?case
    by (subst gallop_bracket.simps)
       (auto simp: Let_def step_below split: sum.splits intro!: guar_intros less)
qed

lemma reader_search [guar_intros]: "guar R (gallop_search L S found left right)"
proof (induction "nat (right - left + 1)" arbitrary: found left right rule: less_induct)
  case less
  show ?case
    by (subst gallop_search.simps)
       (auto simp: Let_def split: sum.splits intro!: guar_intros less)
qed

lemma reader_discover [guar_intros]: "guar R (gallop_discover L S)"
  unfolding gallop_discover_def by (intro guar_intros) (auto split: sum.splits intro!: guar_intros)

lemma reader_probe [guar_intros]: "guar R (forward_probe L S n d g step)"
proof (induction n arbitrary: d g step)
  case (Suc n)
  then show ?case by (auto simp: Let_def split: sum.splits intro!: guar_intros)
qed (simp add: guar_intros)

lemma reader_head_start [guar_intros]: "guar R (head_start L S hint)"
  unfolding head_start_def by (auto split: option.splits sum.splits intro!: guar_intros)

lemma reader_resolve_head [guar_intros]: "guar R (resolve_head L S)"
  unfolding resolve_head_def by (intro guar_intros)

end

interpretation mem_reader: reader "(=)" mem_store
  by unfold_locales (auto simp: mem_store_def mem_get_def guar_def split: option.splits)

section \<open>Properties\<close>

lemma quiet_read_sample:
  assumes "valid_generation g"
  shows "read_marker sample_lib (net_store sample_lib) g (sample_net us []) =
    (if nat g < length us then Inr (sample_doc g (us ! nat g)) else Inl ObjectNotFoundError, sample_net us [])"
proof -
  from assms have "0 \<le> g" by (simp add: valid_generation_def)
  from sample_mem_marker [OF this, of us] assms show ?thesis
    by (cases "mem_objs (sample_mem us) (marker_key_text g)")
       (auto simp: read_marker_def bind_io_def quiet_get on_cell_def mem_get_def mem_objs_def split: if_splits)
qed

lemma quiet_no_hint:
  "hint_generation sample_lib (net_store sample_lib) (sample_net us []) = (Inr None, sample_net us [])"
proof -
  have "mem_objs (sample_mem us) ROOT_HINT_KEY = None" by simp
  then show ?thesis
    by (simp add: hint_generation_def bind_io_def try_io_def quiet_get on_cell_def mem_get_def mem_objs_def)
qed

lemma forward_probe_pos:
  "0 < n \<Longrightarrow> forward_probe L S n doc g step =
     (let target = g + step in
      if target > MAX_GENERATION then
        (if step = 1 then ret (doc, g) else forward_probe L S (n - 1) doc g 1)
      else bind_io (try_io (read_marker L S target)) (\<lambda>r. case r of
          Inl e \<Rightarrow>
            (if e = ObjectNotFoundError
             then (if step = 1 then ret (doc, g) else forward_probe L S (n - 1) doc g 1)
             else raise e)
        | Inr nxt \<Rightarrow> forward_probe L S (n - 1) nxt (g + step) (min (step * 2) GALLOP_CAP)))"
proof -
  assume "0 < n"
  then obtain m where n: "n = Suc m" by (cases n) auto
  show ?thesis unfolding n diff_Suc_1 by (rule forward_probe.simps(2))
qed

lemma sample_head:
  "resolve_head sample_lib (net_store sample_lib) (sample_net [10, 11] []) = (Inr (sample_doc 1 11, 1), sample_net [10, 11] [])"
  by (simp add: resolve_head_def quiet_no_hint head_start_def gallop_discover_def gallop_bracket.simps
      gallop_search.simps Let_def quiet_read_sample sample_eval forward_probe_pos PROBE_CAP_def MAX_GENERATION_def
      bind_io_def try_io_def)

text \<open>
  Claim C7. \<^verbatim>\<open>resolve_head\<close> against a shared bucket with a lossy connection, whatever the advisory
  hint holds and whatever other processes do meanwhile: a head it returns is a committed marker,
  and it is no older than any marker that existed when the call started. The one exception is the cap on the forward
  probe: from a hint that names a marker it looks no further than 4116479 generations beyond it.
  It fails only with a store failure, or with \<^verbatim>\<open>LakeNotInitializedError\<close> on a lake without markers.
\<close>
theorem resolve_head_committed_and_fresh:
  assumes "lake_ok L (net_objs n)"
  shows "case resolve_head L (net_store L) n of (r, n') \<Rightarrow> (case r of
      Inr (d, g) \<Rightarrow> marker_at L (net_objs n') g d \<and>
        (\<exists>hint n1. hint_generation L (net_store L) n = (Inr hint, n1) \<and>
          (\<forall>k. has_marker (net_objs n) k \<longrightarrow> within_reach (net_objs n') hint k \<longrightarrow> k \<le> g))
    | Inl e \<Rightarrow> e \<in> {BotoCoreError, ExternalServiceError} \<or>
        (e = LakeNotInitializedError \<and> (\<forall>k. \<not> has_marker (net_objs n) k)))"
proof -
  obtain r n' where run: "resolve_head L (net_store L) n = (r, n')" by fastforce
  from net.resolve_head_reach [OF run assms] show ?thesis
    using net.read_fails_errors by (auto simp: run split: sum.splits)
qed

theorem resolve_head_committed_and_fresh_witness:
  "resolve_head sample_lib (net_store sample_lib) (sample_net [10, 11] []) = (Inr (sample_doc 1 11, 1), sample_net [10, 11] []) \<and>
   marker_at sample_lib (mem_objs (sample_mem [10, 11])) 1 (sample_doc 1 11)"
  using resolve_head_committed_and_fresh [of sample_lib "sample_net [10, 11] []"]
  by (simp add: sample_head MAX_GENERATION_def)

text \<open>
  Claim C39. On every store of the contract whose reads are answered, \<^verbatim>\<open>resolve_head\<close> always returns a committed marker of
  an initialised lake. It is the newest there was when the call started, or, when the hint names a marker, at least as new
  as every marker less than 4116480 generations beyond the hint. The call leaves the markers as they are.
\<close>
theorem resolve_head_total:
  assumes "reliable_store L S objs" and "lake_ok L (objs s)" and "has_marker (objs s) 0"
  shows "\<exists>d g s' hint t. resolve_head L S s = (Inr (d, g), s') \<and> marker_at L (objs s') g d \<and> heap_evolves L (objs s) (objs s') \<and>
    hint_generation L S s = (Inr hint, t) \<and>
    (\<forall>k. has_marker (objs s) k \<longrightarrow> within_reach (objs s') hint k \<longrightarrow> k \<le> g)"
proof -
  obtain r s' where run: "resolve_head L S s = (r, s')" by fastforce
  from assms(1) have store: "object_store L S objs" by (rule reliable_store.axioms)
  show ?thesis
  proof (cases r)
    case (Inl e)
    with reliable_store.resolve_head_reliable [OF assms(1) _ assms(2), of e s'] run assms(3) show ?thesis by blast
  next
    case (Inr x)
    with run object_store.resolve_head_reach [OF store run assms(2)] show ?thesis by (cases x) auto
  qed
qed

theorem resolve_head_total_witness:
  "\<exists>d g. resolve_head sample_lib mem_store (sample_mem [10, 11]) = (Inr (d, g), sample_mem [10, 11]) \<and> 1 \<le> g"
proof -
  have no_hint: "hint_generation sample_lib mem_store (sample_mem [10, 11]) = (Inr None, sample_mem [10, 11])"
  proof -
    have "mem_objs (sample_mem [10, 11]) ROOT_HINT_KEY = None" by simp
    then show ?thesis by (simp add: hint_generation_def mem_store_def mem_get_def mem_objs_def bind_io_def try_io_def)
  qed
  have ok: "lake_ok sample_lib (mem_objs (sample_mem [10, 11]))" "has_marker (mem_objs (sample_mem [10, 11])) 0"
    "has_marker (mem_objs (sample_mem [10, 11])) 1" by (simp_all add: valid_generation_def MAX_GENERATION_def)
  obtain d g s' where run: "resolve_head sample_lib mem_store (sample_mem [10, 11]) = (Inr (d, g), s')" and "1 \<le> g"
    using resolve_head_total [OF mem.reliable_store_axioms ok(1,2)] ok(3) no_hint by (auto simp: within_reach_def)
  moreover have "s' = sample_mem [10, 11]" using guarD [OF mem_reader.reader_resolve_head run] by simp
  ultimately show ?thesis by blast
qed

text \<open>
  The verdict of \<^verbatim>\<open>resolve_marker\<close> on a present marker is final and exclusive: after \<open>WON\<close>
  for one uuid, any later call, by anyone, answers \<open>WON\<close> for exactly that uuid and \<open>LOST\<close> for every
  other; after \<open>LOST\<close>, the same uuid stays lost; \<open>ABSENT\<close> is never answered again.
\<close>
theorem marker_verdict_is_final:
  assumes "resolve_marker L (net_store L) g u n1 = (Inr v1, n1')" and "v1 \<noteq> ABSENT"
    and "heap_evolves L (net_objs n1') (net_objs n2)"
    and "resolve_marker L (net_store L) g w n2 = (Inr v2, n2')"
  shows "(v1 = WON \<longrightarrow> v2 = (if w = u then WON else LOST)) \<and> (v1 = LOST \<longrightarrow> v2 \<noteq> ABSENT \<and> (w = u \<longrightarrow> v2 = LOST))"
proof -
  from net.resolve_marker_result [OF assms(1)] assms(2) obtain d where
    d: "marker_at L (net_objs n1') g d" "v1 = (if payload_uuid d = u then WON else LOST)"
    by (cases v1) auto
  have d2: "marker_at L (net_objs n2) g d" using assms(3) d(1) by (rule evolves_marker_at)
  then have "v2 \<noteq> ABSENT"
    using net.resolve_marker_result [OF assms(4)] marker_at_has by fastforce
  with net.resolve_marker_result [OF assms(4)] obtain e where
    e: "marker_at L (net_objs n2') g e" "v2 = (if payload_uuid e = w then WON else LOST)"
    by (cases v2) auto
  have "heap_evolves L (net_objs n2) (net_objs n2')"
    using net.guar_resolve_marker assms(4) by (rule guarD)
  from evolves_marker_at [OF this d2] e(1) have "e = d" by (metis marker_at_unique)
  with d(2) e(2) assms(2) show ?thesis by auto
qed

lemma sample_resolve:
  "resolve_marker sample_lib (net_store sample_lib) 1 u (sample_net [10, 11] []) =
     (Inr (if u = 11 then WON else LOST), sample_net [10, 11] [])"
  by (simp add: resolve_marker_def bind_io_def try_io_def quiet_read_sample sample_eval)

theorem marker_verdict_is_final_witness:
  "resolve_marker sample_lib (net_store sample_lib) 1 11 (sample_net [10, 11] []) = (Inr WON, sample_net [10, 11] []) \<and>
   fst (resolve_marker sample_lib (net_store sample_lib) 1 12 (sample_net [10, 11] [])) = Inr LOST"
  using marker_verdict_is_final [of sample_lib 1 11 "sample_net [10, 11] []" WON "sample_net [10, 11] []"
      "sample_net [10, 11] []" 12 LOST "sample_net [10, 11] []"]
  by (simp add: sample_resolve)

text \<open>
  \<^verbatim>\<open>create_marker\<close> is the commit point: when it returns, the marker of that generation is the
  document given; when it raises, the error is one of the conditional-write errors and a
  \<^verbatim>\<open>PreconditionFailedError\<close> means that the generation is taken. In every case markers that existed
  are untouched and the lake stays dense and readable.
\<close>
theorem create_marker_commits:
  assumes "lib_ok L" and "lake_ok L (net_objs n)" and "may_create (net_objs n) d"
  shows "case create_marker L (net_store L) d n of (r, n') \<Rightarrow>
    lake_ok L (net_objs n') \<and> (\<forall>k e. marker_at L (net_objs n) k e \<longrightarrow> marker_at L (net_objs n') k e) \<and>
    (case r of Inr _ \<Rightarrow> marker_at L (net_objs n') (generation d) d
     | Inl e \<Rightarrow> e \<in> create_errors \<and> (e = PreconditionFailedError \<longrightarrow> has_marker (net_objs n') (generation d)))"
proof -
  obtain r n' where run: "create_marker L (net_store L) d n = (r, n')" by fastforce
  from net.create_marker_law [OF assms(1,3) run] assms(2) show ?thesis
    by (auto simp: run dest: evolves_lake_ok evolves_marker_at)
qed

lemma sample_create:
  "\<exists>n'. create_marker sample_lib (net_store sample_lib) (sample_doc 2 12) (sample_net [10, 11] []) = (Inr (), n')"
proof -
  have "mem_objs (sample_mem [10, 11]) (marker_key_text 2) = None"
    using sample_mem_marker [of 2 "[10, 11]"] by simp
  then have "put_if_absent (net_store sample_lib) (marker_key_text 2) b (sample_net [10, 11] []) =
      on_cell (mem_write (marker_key_text 2) b) (sample_net [10, 11] [])" for b
    by (simp add: quiet_create on_cell_def mem_put_if_absent_def mem_objs_def)
  then show ?thesis
    by (simp add: create_marker_def bind_io_def sample_eval)
qed

theorem create_marker_commits_witness:
  "\<exists>n'. create_marker sample_lib (net_store sample_lib) (sample_doc 2 12) (sample_net [10, 11] []) = (Inr (), n') \<and>
     marker_at sample_lib (net_objs n') 2 (sample_doc 2 12)"
  using create_marker_commits [of sample_lib "sample_net [10, 11] []" "sample_doc 2 12"] sample_create
  by (auto simp: may_create_def valid_generation_eval MAX_GENERATION_def)

text \<open>
  A failed read of the advisory hint can fail head resolution, against the comment of
  \<^verbatim>\<open>_hint_generation\<close>: a connection failure is botocore's exception, which \<^verbatim>\<open>get\<close> does not translate,
  so it is not among the exceptions that read as a missing hint.
\<close>
theorem hint_transport_failure_escapes:
  "fst (resolve_head L (net_store L)
     \<lparr>cell = m, script = \<lparr>ticks = 0, rivals = [], fault = TransportFault False, no_mtime = False\<rparr> # es\<rparr>) =
   Inl BotoCoreError"
  by (simp add: resolve_head_def hint_generation_def bind_io_def try_io_def net_defs net_begin_def fault_exc_def
      get_error_def)

text \<open>
  An error answer to the hint read is forgiven: the head is then found by galloping, as on
  a store without a hint.
\<close>
theorem hint_error_answer_is_forgiven:
  "hint_generation L (net_store L)
     \<lparr>cell = m, script = \<lparr>ticks = 0, rivals = [], fault = ServerError b, no_mtime = False\<rparr> # es\<rparr> =
   (Inr None, \<lparr>cell = tick_mem 0 m, script = es\<rparr>)"
  by (simp add: hint_generation_def bind_io_def try_io_def net_defs net_begin_def fault_exc_def
      get_error_def is_missing_def)

end
