(* ===== verification/Chunk_Manifest.thy ===== *)
theory Chunk_Manifest
  imports Sample_Library
begin

text \<open>
  The pure part of \<^verbatim>\<open>chunk.py\<close>: pack keys, manifests and their serialized form, the choice of the
  chunk size, and \<open>build_manifest\<close>, which cuts a payload into chunks, reuses those the base manifest
  has, and gathers the others into packs. A payload file is its bytes.
\<close>

section \<open>Pack keys\<close>

definition PACKS_PREFIX :: string where
  "PACKS_PREFIX = ''packs/''"

definition format_pack_key :: "string \<Rightarrow> key" where
  "format_pack_key pack_sha = PACKS_PREFIX @ pack_sha"

definition parse_pack_key :: "string \<Rightarrow> error + string" where
  "parse_pack_key k = (let rest = removeprefix PACKS_PREFIX k in
     if rest = k \<or> \<not> is_sha256_hex rest then Inl InputValidationError else Inr rest)"

lemma format_pack_key_inject [simp]: "format_pack_key a = format_pack_key b \<longleftrightarrow> a = b"
  by (simp add: format_pack_key_def)

lemma pack_key_not_roots [simp]: "\<not> prefix ROOTS_PREFIX (format_pack_key a)"
  by (simp add: format_pack_key_def PACKS_PREFIX_def ROOTS_PREFIX_def)

lemma prefix_pack_key [simp]: "prefix PACKS_PREFIX (format_pack_key a)"
  by (simp add: format_pack_key_def)

lemma parse_pack_key_iff:
  "parse_pack_key k = Inr h \<longleftrightarrow> is_sha256_hex h \<and> k = format_pack_key h"
proof (cases "prefix PACKS_PREFIX k")
  case True
  then obtain r where "k = PACKS_PREFIX @ r" by (auto simp: prefix_def)
  moreover have "r \<noteq> PACKS_PREFIX @ r" by (simp add: PACKS_PREFIX_def)
  ultimately show ?thesis by (auto simp: parse_pack_key_def format_pack_key_def Let_def)
next
  case False
  then have "removeprefix PACKS_PREFIX k = k" by (simp add: removeprefix_def)
  with False show ?thesis by (auto simp: parse_pack_key_def format_pack_key_def)
qed

text \<open>
  \<^verbatim>\<open>parse_pack_key\<close> is the exact inverse of \<^verbatim>\<open>format_pack_key\<close> on content hashes: it accepts
  a text if and only if it is the key of the hash it returns, and that hash is 64 lower-case
  hexadecimal digits.
\<close>
theorem pack_key_roundtrip:
  "parse_pack_key k = Inr h \<longleftrightarrow> is_sha256_hex h \<and> k = format_pack_key h"
  by (rule parse_pack_key_iff)

lemma parse_format_pack_key [simp]: "is_sha256_hex h \<Longrightarrow> parse_pack_key (format_pack_key h) = Inr h"
  by (simp add: parse_pack_key_iff)

section \<open>Manifests\<close>

definition MANIFEST_MAGIC :: bytes where
  "MANIFEST_MAGIC = ''DLSM1'' @ [newline]"

definition DEFAULT_CHUNK_SIZE :: int where
  "DEFAULT_CHUNK_SIZE = 64 * 1024"

definition DEFAULT_PACK_TARGET :: int where
  "DEFAULT_PACK_TARGET = 8 * 1024 * 1024"

definition MAX_ENTRIES :: int where
  "MAX_ENTRIES = 2 ^ 17"

definition MAX_MANIFEST_BYTES :: nat where
  "MAX_MANIFEST_BYTES = 256 * 1024 * 1024"

record manifest_entry =
  chunk_sha256 :: string
  pack_sha256 :: string
  pack_offset :: int
  entry_length :: int

record manifest =
  chunk_size :: int
  total_size :: int
  file_sha256 :: string
  entries :: "manifest_entry list"

text \<open>The field constraints of the two classes.\<close>

definition entry_valid :: "manifest_entry \<Rightarrow> bool" where
  "entry_valid e \<longleftrightarrow> is_sha256_hex (chunk_sha256 e) \<and> is_sha256_hex (pack_sha256 e) \<and>
     0 \<le> pack_offset e \<and> 0 < entry_length e"

definition manifest_valid :: "manifest \<Rightarrow> bool" where
  "manifest_valid M \<longleftrightarrow> 0 < chunk_size M \<and> 0 \<le> total_size M \<and> is_sha256_hex (file_sha256 M) \<and>
     list_all entry_valid (entries M)"

definition manifest_schema :: string where
  "manifest_schema = ''ducklake-serverless-manifest/1''"

definition as_sha :: "json \<Rightarrow> string option" where
  "as_sha j = (case as_str j of None \<Rightarrow> None | Some s \<Rightarrow> if is_sha256_hex s then Some s else None)"

definition gt0 :: "lib \<Rightarrow> json \<Rightarrow> int option" where
  "gt0 L j = (case as_int L j of None \<Rightarrow> None | Some n \<Rightarrow> if n > 0 then Some n else None)"

definition entry_to_json :: "manifest_entry \<Rightarrow> json" where
  "entry_to_json e = JObj [(''chunk_sha256'', JStr (chunk_sha256 e)), (''pack_sha256'', JStr (pack_sha256 e)),
     (''pack_offset'', JInt (pack_offset e)), (''length'', JInt (entry_length e))]"

definition entry_of_json :: "lib \<Rightarrow> json \<Rightarrow> manifest_entry option" where
  "entry_of_json L j =
     (case as_obj j of None \<Rightarrow> None | Some kvs \<Rightarrow>
      if \<not> only_fields [''chunk_sha256'', ''pack_sha256'', ''pack_offset'', ''length''] kvs then None else
      (case required kvs ''chunk_sha256'' as_sha of None \<Rightarrow> None | Some c \<Rightarrow>
      (case required kvs ''pack_sha256'' as_sha of None \<Rightarrow> None | Some p \<Rightarrow>
      (case required kvs ''pack_offset'' (ge0 L) of None \<Rightarrow> None | Some off \<Rightarrow>
      (case required kvs ''length'' (gt0 L) of None \<Rightarrow> None | Some n \<Rightarrow>
         Some \<lparr>chunk_sha256 = c, pack_sha256 = p, pack_offset = off, entry_length = n\<rparr>)))))"

definition entries_of_json :: "lib \<Rightarrow> json \<Rightarrow> manifest_entry list option" where
  "entries_of_json L j = (case j of JList js \<Rightarrow> those (map (entry_of_json L) js) | _ \<Rightarrow> None)"

definition manifest_to_json :: "manifest \<Rightarrow> json" where
  "manifest_to_json M = JObj [(''schema'', JStr manifest_schema), (''chunk_size'', JInt (chunk_size M)),
     (''total_size'', JInt (total_size M)), (''file_sha256'', JStr (file_sha256 M)),
     (''compression'', JStr ''none''), (''entries'', JList (map entry_to_json (entries M)))]"

definition manifest_of_json :: "lib \<Rightarrow> json \<Rightarrow> manifest option" where
  "manifest_of_json L j =
     (case as_obj j of None \<Rightarrow> None | Some kvs \<Rightarrow>
      if \<not> only_fields [''schema'', ''chunk_size'', ''total_size'', ''file_sha256'', ''compression'', ''entries''] kvs
      then None else
      (case defaulted kvs ''schema'' (literal manifest_schema) () of None \<Rightarrow> None | Some _ \<Rightarrow>
      (case required kvs ''chunk_size'' (gt0 L) of None \<Rightarrow> None | Some c \<Rightarrow>
      (case required kvs ''total_size'' (ge0 L) of None \<Rightarrow> None | Some t \<Rightarrow>
      (case required kvs ''file_sha256'' as_sha of None \<Rightarrow> None | Some f \<Rightarrow>
      (case defaulted kvs ''compression'' (literal ''none'') () of None \<Rightarrow> None | Some _ \<Rightarrow>
      (case required kvs ''entries'' (entries_of_json L) of None \<Rightarrow> None | Some es \<Rightarrow>
         Some \<lparr>chunk_size = c, total_size = t, file_sha256 = f, entries = es\<rparr>)))))))"

definition manifest_to_bytes :: "lib \<Rightarrow> manifest \<Rightarrow> error + bytes" where
  "manifest_to_bytes L M = (let b = MANIFEST_MAGIC @ json_dumps L (manifest_to_json M) in
     if length b > MAX_MANIFEST_BYTES then Inl CatalogHygieneError else Inr b)"

definition manifest_from_bytes :: "lib \<Rightarrow> bytes \<Rightarrow> error + manifest" where
  "manifest_from_bytes L data =
     (if \<not> prefix MANIFEST_MAGIC data then Inl InputValidationError
      else case json_loads L (drop (length MANIFEST_MAGIC) data) of
        None \<Rightarrow> Inl InputValidationError
      | Some j \<Rightarrow> (case manifest_of_json L j of None \<Rightarrow> Inl InputValidationError | Some M \<Rightarrow> Inr M))"

definition sniff_manifest :: "lib \<Rightarrow> bytes \<Rightarrow> manifest option" where
  "sniff_manifest L data = (case manifest_from_bytes L data of Inl _ \<Rightarrow> None | Inr M \<Rightarrow> Some M)"

definition pack_keys :: "manifest \<Rightarrow> key set" where
  "pack_keys M = (\<lambda>e. format_pack_key (pack_sha256 e)) ` set (entries M)"

text \<open>A dict comprehension: the last entry with a hash wins.\<close>

definition chunk_index :: "manifest \<Rightarrow> string \<Rightarrow> manifest_entry option" where
  "chunk_index M = map_of (rev (map (\<lambda>e. (chunk_sha256 e, e)) (entries M)))"

lemma entry_json_inverse: "lib_ok L \<Longrightarrow> entry_valid e \<Longrightarrow> entry_of_json L (entry_to_json e) = Some e"
  by (simp add: entry_of_json_def entry_to_json_def json_defs as_sha_def gt0_def entry_valid_def)

lemma entries_json_inverse:
  "lib_ok L \<Longrightarrow> list_all entry_valid es \<Longrightarrow> those (map (entry_of_json L) (map entry_to_json es)) = Some es"
  by (induction es) (simp_all add: entry_json_inverse)

lemma manifest_json_inverse: "lib_ok L \<Longrightarrow> manifest_valid M \<Longrightarrow> manifest_of_json L (manifest_to_json M) = Some M"
  by (simp add: manifest_of_json_def manifest_to_json_def json_defs as_sha_def gt0_def manifest_valid_def
      entries_of_json_def entries_json_inverse del: map_map)

lemma entry_json_wf: "json_wf (entry_to_json e)"
  by (simp add: entry_to_json_def)

lemma manifest_json_wf: "json_wf (manifest_to_json M)"
  by (simp add: manifest_to_json_def list_all_iff entry_json_wf)

lemma manifest_bytes_inverse:
  "lib_ok L \<Longrightarrow> manifest_valid M \<Longrightarrow> manifest_to_bytes L M = Inr b \<Longrightarrow> manifest_from_bytes L b = Inr M"
  by (auto simp: manifest_to_bytes_def manifest_from_bytes_def manifest_json_wf manifest_json_inverse Let_def
      split: if_splits)

text \<open>
  A manifest the engine writes always reads back as itself: \<^verbatim>\<open>from_bytes\<close> inverts
  \<^verbatim>\<open>to_bytes\<close>, and the garbage collector's \<^verbatim>\<open>sniff_manifest\<close> has no false negatives on it.
\<close>
theorem manifest_roundtrip:
  assumes "lib_ok L" and "manifest_valid M" and "manifest_to_bytes L M = Inr b"
  shows "manifest_from_bytes L b = Inr M \<and> sniff_manifest L b = Some M"
  using manifest_bytes_inverse [OF assms] by (simp add: sniff_manifest_def)

section \<open>The chunk size\<close>

text \<open>
  The doubling loop. The guard \<open>0 < size\<close> always holds: a manifest's chunk size is validated to be
  positive and the default is.
\<close>

function scale_chunk_size :: "int \<Rightarrow> int \<Rightarrow> int" where
  "scale_chunk_size payload sz =
     (if 0 < sz \<and> payload > sz * MAX_ENTRIES then scale_chunk_size payload (sz * 2) else sz)"
  by pat_completeness auto
termination
proof (relation "measure (\<lambda>(payload, sz). nat (payload - sz))")
  fix payload sz :: int
  assume "0 < sz \<and> payload > sz * MAX_ENTRIES"
  moreover from this have "sz * 2 \<le> sz * MAX_ENTRIES" by (simp add: MAX_ENTRIES_def)
  ultimately have "sz < payload" and "0 < sz" by linarith+
  then show "((payload, sz * 2), payload, sz) \<in> measure (\<lambda>(payload, sz). nat (payload - sz))" by simp
qed simp

declare scale_chunk_size.simps [simp del]

definition choose_chunk_size :: "int \<Rightarrow> manifest option \<Rightarrow> int" where
  "choose_chunk_size payload base = (case base of
     Some M \<Rightarrow> if payload \<le> chunk_size M * MAX_ENTRIES then chunk_size M else scale_chunk_size payload (chunk_size M)
   | None \<Rightarrow> scale_chunk_size payload DEFAULT_CHUNK_SIZE)"

lemma scale_chunk_size_law:
  assumes "0 < sz"
  shows "payload \<le> scale_chunk_size payload sz * MAX_ENTRIES \<and>
    (\<exists>k. scale_chunk_size payload sz = sz * 2 ^ k \<and> (0 < k \<longrightarrow> payload > sz * 2 ^ (k - 1) * MAX_ENTRIES))"
  using assms
proof (induction payload sz rule: scale_chunk_size.induct)
  case (1 payload sz)
  show ?case
  proof (cases "payload > sz * MAX_ENTRIES")
    case True
    have "0 < sz \<and> payload > sz * MAX_ENTRIES" "0 < sz * 2" using True "1.prems" by auto
    from "1.IH" [OF this] obtain k where k: "scale_chunk_size payload (sz * 2) = sz * 2 * 2 ^ k"
      "0 < k \<longrightarrow> payload > sz * 2 * 2 ^ (k - 1) * MAX_ENTRIES"
      "payload \<le> scale_chunk_size payload (sz * 2) * MAX_ENTRIES" by blast
    have "payload > sz * 2 ^ k * MAX_ENTRIES"
      using k(2) True by (cases k) (simp_all add: ac_simps)
    with k True 1(2) show ?thesis
      by (simp add: scale_chunk_size.simps [of payload sz] exI [of _ "Suc k"] ac_simps)
  next
    case False
    then show ?thesis
      by (simp add: scale_chunk_size.simps [of payload sz] exI [of _ 0])
  qed
qed

text \<open>Where the doubling starts.\<close>

definition start_chunk_size :: "manifest option \<Rightarrow> int" where
  "start_chunk_size base = (case base of Some M \<Rightarrow> chunk_size M | None \<Rightarrow> DEFAULT_CHUNK_SIZE)"

lemma choose_chunk_size_lemma:
  assumes "0 < start_chunk_size base"
  shows "payload \<le> choose_chunk_size payload base * MAX_ENTRIES \<and>
    (\<exists>k. choose_chunk_size payload base = start_chunk_size base * 2 ^ k \<and>
       (0 < k \<longrightarrow> payload > start_chunk_size base * 2 ^ (k - 1) * MAX_ENTRIES))"
  using scale_chunk_size_law [OF assms, of payload]
  by (cases base) (auto simp: choose_chunk_size_def start_chunk_size_def exI [of _ 0])

text \<open>
  \<^verbatim>\<open>choose_chunk_size\<close> keeps the base's chunk sz whenever the payload fits under the entry
  cap with it, and otherwise returns the least doubling of the starting sz under which it does;
  in either case at most \<^verbatim>\<open>MAX_ENTRIES\<close> chunks of that sz cover the payload.
\<close>
theorem choose_chunk_size_law:
  assumes "0 < start_chunk_size base"
  shows "payload \<le> choose_chunk_size payload base * MAX_ENTRIES \<and>
    (\<exists>k. choose_chunk_size payload base = start_chunk_size base * 2 ^ k \<and>
       (0 < k \<longrightarrow> payload > start_chunk_size base * 2 ^ (k - 1) * MAX_ENTRIES))"
  using choose_chunk_size_lemma [OF assms] .

theorem choose_chunk_size_law_witness:
  "2 ^ 40 \<le> choose_chunk_size (2 ^ 40) None * MAX_ENTRIES"
  using choose_chunk_size_law [of None "2 ^ 40"] by (simp add: start_chunk_size_def DEFAULT_CHUNK_SIZE_def)

section \<open>Building a manifest\<close>

text \<open>
  \<^verbatim>\<open>for off in range(0, len(data), size): chunk = data[off : off + size]\<close>, for a list of anything: the
  reconstruction walks its packs in windows the same way.
\<close>

function range_slices :: "nat \<Rightarrow> 'a list \<Rightarrow> 'a list list" where
  "range_slices sz data = (if sz = 0 \<or> data = [] then [] else take sz data # range_slices sz (drop sz data))"
  by pat_completeness auto
termination
  by (relation "measure (\<lambda>(sz, data). length data)") auto

declare range_slices.simps [simp del]

text \<open>
  The local variables of the function. \<open>pending\<close> holds the chunks that await a pack with their
  hashes, \<open>pending_at\<close> maps an index into \<open>pending\<close> to an index into the entries.
\<close>

record build =
  built_entries :: "manifest_entry list"
  built_packs :: "(string \<times> bytes) list"
  pending :: "(string \<times> bytes) list"
  pending_bytes :: int
  pending_at :: "nat \<rightharpoonup> nat"

definition build_start :: build where
  "build_start = \<lparr>built_entries = [], built_packs = [], pending = [], pending_bytes = 0, pending_at = Map.empty\<rparr>"

text \<open>The \<^verbatim>\<open>enumerate(pending)\<close> loop of \<^verbatim>\<open>flush_pack\<close>: from index \<open>i\<close> and offset \<open>off\<close> on.\<close>

fun place_pending :: "(nat \<rightharpoonup> nat) \<Rightarrow> string \<Rightarrow> nat \<Rightarrow> nat \<Rightarrow> (string \<times> bytes) list \<Rightarrow>
    manifest_entry list \<Rightarrow> manifest_entry list" where
  "place_pending at pack_sha i off [] es = es"
| "place_pending at pack_sha i off ((chunk_sha, chunk) # ps) es =
     place_pending at pack_sha (Suc i) (off + length chunk) ps
       (es[the (at i) := \<lparr>chunk_sha256 = chunk_sha, pack_sha256 = pack_sha, pack_offset = int off,
                           entry_length = int (length chunk)\<rparr>])"

definition flush_pack :: "lib \<Rightarrow> build \<Rightarrow> build" where
  "flush_pack L st =
     (if pending st = [] then st
      else (let pack_bytes = concat (map snd (pending st)); pack_sha = sha256 L pack_bytes in
        \<lparr>built_entries = place_pending (pending_at st) pack_sha 0 0 (pending st) (built_entries st),
         built_packs = built_packs st @ [(pack_sha, pack_bytes)],
         pending = [], pending_bytes = 0, pending_at = Map.empty\<rparr>))"

definition reuse_entry :: "(string \<Rightarrow> manifest_entry option) \<Rightarrow> string \<Rightarrow> bytes \<Rightarrow> manifest_entry option" where
  "reuse_entry base_index chunk_sha chunk = (case base_index chunk_sha of
     None \<Rightarrow> None
   | Some e \<Rightarrow> if entry_length e = int (length chunk) then Some e else None)"

definition add_pending :: "string \<Rightarrow> bytes \<Rightarrow> build \<Rightarrow> build" where
  "add_pending chunk_sha chunk st =
     st\<lparr>built_entries := built_entries st @ [\<lparr>chunk_sha256 = chunk_sha, pack_sha256 = replicate 64 (CHR ''0''),
          pack_offset = 0, entry_length = int (length chunk)\<rparr>],
        pending := pending st @ [(chunk_sha, chunk)],
        pending_bytes := pending_bytes st + int (length chunk),
        pending_at := (pending_at st)(length (pending st) \<mapsto> length (built_entries st))\<rparr>"

definition build_step :: "lib \<Rightarrow> (string \<Rightarrow> manifest_entry option) \<Rightarrow> int \<Rightarrow> bytes \<Rightarrow> build \<Rightarrow> build" where
  "build_step L base_index pack_target chunk st =
     (let chunk_sha = sha256 L chunk in
      case reuse_entry base_index chunk_sha chunk of
        Some e \<Rightarrow> st\<lparr>built_entries := built_entries st @ [e]\<rparr>
      | None \<Rightarrow> add_pending chunk_sha chunk
          (if pending_bytes st + int (length chunk) > pack_target \<and> pending st \<noteq> [] then flush_pack L st else st))"

definition base_index_of :: "manifest option \<Rightarrow> int \<Rightarrow> string \<Rightarrow> manifest_entry option" where
  "base_index_of base sz = (case base of
     Some M \<Rightarrow> if chunk_size M = sz then chunk_index M else Map.empty
   | None \<Rightarrow> Map.empty)"

text \<open>
  A zero size makes \<^verbatim>\<open>range\<close> raise \<^verbatim>\<open>ValueError\<close>, a negative one is refused by the manifest's
  validation (a \<^verbatim>\<open>ValueError\<close> too).
\<close>

definition build_manifest :: "lib \<Rightarrow> bytes \<Rightarrow> manifest option \<Rightarrow> int option \<Rightarrow> int \<Rightarrow>
    error + (manifest \<times> (string \<times> bytes) list)" where
  "build_manifest L data base chunk_size_arg pack_target =
     (let sz = (case chunk_size_arg of Some c \<Rightarrow> c | None \<Rightarrow> choose_chunk_size (int (length data)) base) in
      if sz \<le> 0 then Inl PyValueError
      else (let st = flush_pack L (fold (build_step L (base_index_of base sz) pack_target)
                       (range_slices (nat sz) data) build_start) in
        Inr (\<lparr>chunk_size = sz, total_size = int (length data), file_sha256 = sha256 L data,
              entries = built_entries st\<rparr>, built_packs st)))"

definition novel_pack_index :: "(string \<times> bytes) list \<Rightarrow> string \<Rightarrow> bytes option" where
  "novel_pack_index packs = map_of (rev packs)"

subsection \<open>The chunks\<close>

lemma concat_range_slices [simp]: "0 < sz \<Longrightarrow> concat (range_slices sz data) = data"
  by (induction sz data rule: range_slices.induct) (subst range_slices.simps, auto)

lemma range_slices_bounds: "c \<in> set (range_slices sz data) \<Longrightarrow> c \<noteq> [] \<and> length c \<le> sz"
  by (induction sz data rule: range_slices.induct) (subst (asm) (2) range_slices.simps, auto split: if_splits)

lemma length_range_slices: "0 < sz \<Longrightarrow> length data \<le> sz * n \<Longrightarrow> length (range_slices sz data) \<le> n"
proof (induction n arbitrary: data)
  case 0
  then show ?case by (simp add: range_slices.simps)
next
  case (Suc n)
  then have "length (range_slices sz (drop sz data)) \<le> n" by (intro Suc.IH) auto
  then show ?case by (subst range_slices.simps) simp
qed

subsection \<open>What entries denote\<close>

text \<open>
  \<open>P\<close> is a set of packs: the bytes stored under each content hash. An entry denotes a slice of its pack.
\<close>

definition entry_slice :: "bytes \<Rightarrow> manifest_entry \<Rightarrow> bytes" where
  "entry_slice pack e = byte_slice pack (nat (pack_offset e)) (nat (entry_length e))"

definition entry_denotes :: "lib \<Rightarrow> (string \<rightharpoonup> bytes) \<Rightarrow> manifest_entry \<Rightarrow> bytes \<Rightarrow> bool" where
  "entry_denotes L P e chunk \<longleftrightarrow> entry_valid e \<and> chunk_sha256 e = sha256 L chunk \<and> entry_length e = int (length chunk) \<and>
     (\<exists>pack. P (pack_sha256 e) = Some pack \<and> entry_slice pack e = chunk)"

definition packs_sound :: "lib \<Rightarrow> (string \<rightharpoonup> bytes) \<Rightarrow> manifest \<Rightarrow> bool" where
  "packs_sound L P M \<longleftrightarrow> (\<forall>e \<in> set (entries M). \<exists>chunk. entry_denotes L P e chunk)"

lemma place_pending_nth:
  assumes "\<And>p. p < length ps \<Longrightarrow> \<exists>j. at (i + p) = Some j \<and> j < length es"
    and "\<And>p q. p < length ps \<Longrightarrow> q < length ps \<Longrightarrow> at (i + p) = at (i + q) \<Longrightarrow> p = q"
  shows "length (place_pending at sha i off ps es) = length es \<and>
    (\<forall>j. (\<forall>p < length ps. at (i + p) \<noteq> Some j) \<longrightarrow> place_pending at sha i off ps es ! j = es ! j) \<and>
    (\<forall>p < length ps. place_pending at sha i off ps es ! the (at (i + p)) =
       \<lparr>chunk_sha256 = fst (ps ! p), pack_sha256 = sha,
        pack_offset = int (off + length (concat (map snd (take p ps)))), entry_length = int (length (snd (ps ! p)))\<rparr>)"
  using assms
proof (induction ps arbitrary: i off es)
  case (Cons pc ps)
  obtain c x where pc: "pc = (c, x)" by fastforce
  from Cons.prems(1) [of 0] obtain j0 where j0: "at i = Some j0" "j0 < length es" by auto
  let ?e = "\<lparr>chunk_sha256 = c, pack_sha256 = sha, pack_offset = int off, entry_length = int (length x)\<rparr>"
  let ?es = "es[j0 := ?e]"
  have "\<exists>j. at (Suc i + p) = Some j \<and> j < length ?es" if "p < length ps" for p
    using Cons.prems(1) [of "Suc p"] that by simp
  moreover have "p = q" if "p < length ps" "q < length ps" "at (Suc i + p) = at (Suc i + q)" for p q
    using Cons.prems(2) [of "Suc p" "Suc q"] that by simp
  ultimately have ih: "length (place_pending at sha (Suc i) (off + length x) ps ?es) = length ?es"
    "\<And>j. \<forall>p < length ps. at (Suc i + p) \<noteq> Some j \<Longrightarrow> place_pending at sha (Suc i) (off + length x) ps ?es ! j = ?es ! j"
    "\<And>p. p < length ps \<Longrightarrow> place_pending at sha (Suc i) (off + length x) ps ?es ! the (at (Suc i + p)) =
       \<lparr>chunk_sha256 = fst (ps ! p), pack_sha256 = sha,
        pack_offset = int (off + length x + length (concat (map snd (take p ps)))), entry_length = int (length (snd (ps ! p)))\<rparr>"
    using Cons.IH [of "Suc i" ?es "off + length x"] by blast+
  have later: "at (Suc i + p) \<noteq> Some j0" if "p < length ps" for p
    using Cons.prems(2) [of "Suc p" 0] that j0 by auto
  have step: "place_pending at sha i off (pc # ps) es = place_pending at sha (Suc i) (off + length x) ps ?es"
    by (simp add: pc j0)
  show ?case
  proof (intro conjI allI impI)
    show "length (place_pending at sha i off (pc # ps) es) = length es" using ih(1) step by simp
  next
    fix j
    assume j: "\<forall>p < length (pc # ps). at (i + p) \<noteq> Some j"
    then have "\<forall>p < length ps. at (Suc i + p) \<noteq> Some j" by (metis Suc_less_eq add_Suc_shift length_Cons)
    moreover have "j \<noteq> j0" using j j0 by fastforce
    ultimately show "place_pending at sha i off (pc # ps) es ! j = es ! j" using ih(2) step by simp
  next
    fix p
    assume p: "p < length (pc # ps)"
    show "place_pending at sha i off (pc # ps) es ! the (at (i + p)) =
       \<lparr>chunk_sha256 = fst ((pc # ps) ! p), pack_sha256 = sha,
        pack_offset = int (off + length (concat (map snd (take p (pc # ps))))),
        entry_length = int (length (snd ((pc # ps) ! p)))\<rparr>"
    proof (cases p)
      case 0
      with ih(2) [of j0] later j0 step pc show ?thesis by simp
    next
      case (Suc q)
      with ih(3) [of q] p step pc show ?thesis by (simp add: algebra_simps)
    qed
  qed
qed simp

subsection \<open>The loop invariant\<close>

lemma slice_concat:
  "p < length xs \<Longrightarrow> byte_slice (concat xs) (length (concat (take p xs))) (length (xs ! p)) = xs ! p"
proof (induction xs arbitrary: p)
  case (Cons x xs)
  then show ?case by (cases p) (simp_all add: byte_slice_def)
qed simp

text \<open>Where a finished entry comes from: the base's index, or a slice of a pack just built.\<close>

definition entry_from :: "lib \<Rightarrow> (string \<Rightarrow> manifest_entry option) \<Rightarrow> (string \<times> bytes) list \<Rightarrow> manifest_entry \<Rightarrow> bytes \<Rightarrow> bool" where
  "entry_from L bi packs e chunk \<longleftrightarrow> entry_length e = int (length chunk) \<and>
     (bi (sha256 L chunk) = Some e \<or>
      (chunk_sha256 e = sha256 L chunk \<and> 0 \<le> pack_offset e \<and>
       (\<exists>b. (pack_sha256 e, b) \<in> set packs \<and> entry_slice b e = chunk)))"

lemma entry_from_mono: "entry_from L bi packs e c \<Longrightarrow> set packs \<subseteq> set packs' \<Longrightarrow> entry_from L bi packs' e c"
  by (auto simp: entry_from_def)

definition build_inv :: "lib \<Rightarrow> (string \<Rightarrow> manifest_entry option) \<Rightarrow> build \<Rightarrow> bytes list \<Rightarrow> bool" where
  "build_inv L bi st cs \<longleftrightarrow>
     length (built_entries st) = length cs \<and>
     dom (pending_at st) = {..<length (pending st)} \<and>
     inj_on (pending_at st) (dom (pending_at st)) \<and>
     (\<forall>p j. pending_at st p = Some j \<longrightarrow> j < length cs \<and> pending st ! p = (sha256 L (cs ! j), cs ! j)) \<and>
     (\<forall>j < length cs. j \<notin> ran (pending_at st) \<longrightarrow> entry_from L bi (built_packs st) (built_entries st ! j) (cs ! j)) \<and>
     (\<forall>(s, b) \<in> set (built_packs st). s = sha256 L b)"

lemma build_inv_D:
  assumes "build_inv L bi st cs"
  shows "length (built_entries st) = length cs"
    and "dom (pending_at st) = {..<length (pending st)}"
    and "inj_on (pending_at st) (dom (pending_at st))"
    and "pending_at st p = Some j \<Longrightarrow> j < length cs \<and> pending st ! p = (sha256 L (cs ! j), cs ! j)"
    and "j < length cs \<Longrightarrow> j \<notin> ran (pending_at st) \<Longrightarrow> entry_from L bi (built_packs st) (built_entries st ! j) (cs ! j)"
    and "(s, b) \<in> set (built_packs st) \<Longrightarrow> s = sha256 L b"
  using assms unfolding build_inv_def by blast+

lemma build_inv_start: "build_inv L bi build_start []"
  by (simp add: build_inv_def build_start_def)

lemma build_inv_reuse:
  assumes inv: "build_inv L bi st cs" and e: "reuse_entry bi (sha256 L c) c = Some e"
  shows "build_inv L bi (st\<lparr>built_entries := built_entries st @ [e]\<rparr>) (cs @ [c])"
proof -
  from e have "entry_from L bi (built_packs st) e c"
    by (auto simp: reuse_entry_def entry_from_def split: option.splits if_splits)
  then show ?thesis
    using build_inv_D [OF inv] unfolding build_inv_def
    by (auto simp: nth_append less_Suc_eq)
qed

lemma build_inv_add:
  assumes inv: "build_inv L bi st cs"
  shows "build_inv L bi (add_pending (sha256 L c) c st) (cs @ [c])"
proof -
  let ?n = "length (pending st)" and ?m = "length cs"
  note D = build_inv_D [OF inv]
  have new: "?n \<notin> dom (pending_at st)" using D(2) by simp
  have "?m \<notin> ran (pending_at st)" using D(4) by (fastforce simp: ran_def)
  then have "inj_on ((pending_at st)(?n \<mapsto> ?m)) (insert ?n (dom (pending_at st)))"
    using D(3) new by (auto simp: inj_on_def ran_def dom_def)
  moreover have "ran ((pending_at st)(?n \<mapsto> ?m)) = insert ?m (ran (pending_at st))"
    using new by (simp add: ran_map_upd domIff)
  moreover have "p < ?n" if "pending_at st p = Some j" for p j
    using D(2) that by auto
  ultimately show ?thesis
    using D unfolding build_inv_def
    by (auto simp: add_pending_def nth_append less_Suc_eq dest: D(4))
qed

lemma build_inv_flush:
  assumes inv: "build_inv L bi st cs" and some: "pending st \<noteq> []"
  shows "build_inv L bi (flush_pack L st) cs"
proof -
  let ?at = "pending_at st" and ?ps = "pending st" and ?es = "built_entries st"
  let ?pack = "concat (map snd ?ps)"
  let ?es' = "place_pending ?at (sha256 L ?pack) 0 0 ?ps ?es"
  let ?packs' = "built_packs st @ [(sha256 L ?pack, ?pack)]"
  note D = build_inv_D [OF inv]
  have at: "\<exists>j. ?at (0 + p) = Some j \<and> j < length ?es" if "p < length ?ps" for p
    using D(1,2) D(4) [of p] that by (metis add_0 domD lessThan_iff)
  have inj: "p = q" if "p < length ?ps" "q < length ?ps" "?at (0 + p) = ?at (0 + q)" for p q
    using D(2,3) that by (auto simp: inj_on_def)
  note place = place_pending_nth [of ?ps ?at 0 ?es "sha256 L ?pack" 0, OF at inj]
  have filled: "entry_from L bi ?packs' (?es' ! j) (cs ! j)" if j: "j < length cs" for j
  proof (cases "j \<in> ran ?at")
    case True
    then obtain p where p: "?at p = Some j" by (auto simp: ran_def)
    then have pl: "p < length ?ps" using D(2) by auto
    have ps: "?ps ! p = (sha256 L (cs ! j), cs ! j)" using D(4) [OF p] by simp
    have "?es' ! j = \<lparr>chunk_sha256 = fst (?ps ! p), pack_sha256 = sha256 L ?pack,
        pack_offset = int (length (concat (map snd (take p ?ps)))), entry_length = int (length (snd (?ps ! p)))\<rparr>"
      using place pl p by force
    moreover have "byte_slice ?pack (length (concat (map snd (take p ?ps)))) (length (snd (?ps ! p))) = snd (?ps ! p)"
      using slice_concat [of p "map snd ?ps"] pl by (simp add: take_map)
    ultimately show ?thesis using ps by (auto simp: entry_from_def entry_slice_def)
  next
    case False
    then have "?es' ! j = ?es ! j" using place by (auto simp: ran_def)
    with D(5) [OF j False] show ?thesis by (auto intro: entry_from_mono)
  qed
  show ?thesis
    unfolding build_inv_def using some place D(1,6) filled by (auto simp: flush_pack_def Let_def)
qed

lemma build_inv_step:
  assumes "build_inv L bi st cs"
  shows "build_inv L bi (build_step L bi tgt c st) (cs @ [c])"
  using assms
  by (auto simp: build_step_def Let_def build_inv_add build_inv_flush build_inv_reuse split: option.splits)

lemma build_inv_fold: "build_inv L bi st cs \<Longrightarrow> build_inv L bi (fold (build_step L bi tgt) ds st) (cs @ ds)"
proof (induction ds arbitrary: st cs)
  case (Cons d ds)
  from Cons.IH [OF build_inv_step [OF Cons.prems]] show ?case by simp
qed simp

text \<open>What the whole loop leaves, once the last pack is flushed.\<close>

lemma build_entries:
  assumes st: "st = flush_pack L (fold (build_step L bi tgt) ds build_start)"
  shows "length (built_entries st) = length ds \<and>
    (\<forall>j < length ds. entry_from L bi (built_packs st) (built_entries st ! j) (ds ! j)) \<and>
    (\<forall>(s, b) \<in> set (built_packs st). s = sha256 L b)"
proof -
  let ?st = "fold (build_step L bi tgt) ds build_start"
  have inv: "build_inv L bi ?st ds" using build_inv_fold [OF build_inv_start, of L bi tgt ds] by simp
  have "build_inv L bi st ds \<and> ran (pending_at st) = {}"
  proof (cases "pending ?st = []")
    case True
    then have "ran (pending_at ?st) = {}" using build_inv_D(2) [OF inv] by (auto simp: ran_def dom_def)
    with True inv show ?thesis by (simp add: st flush_pack_def)
  next
    case False
    with build_inv_flush [OF inv False] show ?thesis by (simp add: st flush_pack_def Let_def)
  qed
  then show ?thesis using build_inv_D [of L bi st ds] by auto
qed

subsection \<open>What a manifest denotes\<close>

text \<open>
  The abstract content of a manifest: the concatenation of the slices its entries name, if every pack
  is there. Neither windows nor back-references occur in it.
\<close>

definition entry_bytes :: "(string \<rightharpoonup> bytes) \<Rightarrow> manifest_entry \<Rightarrow> bytes option" where
  "entry_bytes P e = map_option (\<lambda>b. entry_slice b e) (P (pack_sha256 e))"

definition payload_of :: "(string \<rightharpoonup> bytes) \<Rightarrow> manifest \<Rightarrow> bytes option" where
  "payload_of P M = map_option concat (those (map (entry_bytes P) (entries M)))"

definition base_chunks :: "(string \<rightharpoonup> bytes) \<Rightarrow> manifest option \<Rightarrow> bytes set" where
  "base_chunks P base = (case base of None \<Rightarrow> {}
   | Some M \<Rightarrow> {c. \<exists>e \<in> set (entries M). entry_bytes P e = Some c})"

lemma entry_denotes_bytes: "entry_denotes L P e c \<Longrightarrow> entry_bytes P e = Some c"
  by (auto simp: entry_denotes_def entry_bytes_def)

lemma base_index_Some:
  "base_index_of base sz h = Some e \<Longrightarrow> \<exists>M. base = Some M \<and> e \<in> set (entries M) \<and> chunk_sha256 e = h"
  by (auto simp: base_index_of_def chunk_index_def split: option.splits if_splits dest!: map_of_SomeD)

lemma entry_from_denotes:
  assumes ok: "lib_ok L" and src: "entry_from L (base_index_of base sz) packs e c" and ne: "c \<noteq> []"
    and packs: "\<And>s b. (s, b) \<in> set packs \<Longrightarrow> s = sha256 L b \<and> P s = Some b"
    and base: "\<And>M. base = Some M \<Longrightarrow> packs_sound L P M"
    and inj: "inj_on (sha256 L) X" and X: "c \<in> X" "base_chunks P base \<subseteq> X"
  shows "entry_denotes L P e c"
  using src unfolding entry_from_def
proof (elim conjE disjE exE)
  assume "base_index_of base sz (sha256 L c) = Some e"
  then obtain M where M: "base = Some M" "e \<in> set (entries M)" "chunk_sha256 e = sha256 L c"
    using base_index_Some by blast
  with base obtain c' where c': "entry_denotes L P e c'" unfolding packs_sound_def by blast
  then have "c' \<in> base_chunks P base" using M by (auto simp: base_chunks_def dest: entry_denotes_bytes)
  moreover have "sha256 L c' = sha256 L c" using c' M(3) by (simp add: entry_denotes_def)
  ultimately have "c' = c" using inj X by (meson inj_on_def subsetD)
  with c' show ?thesis by simp
next
  fix b
  assume "entry_length e = int (length c)" "chunk_sha256 e = sha256 L c" "0 \<le> pack_offset e"
    "(pack_sha256 e, b) \<in> set packs" "entry_slice b e = c"
  with packs [of "pack_sha256 e" b] ok ne show ?thesis by (auto simp: entry_denotes_def entry_valid_def)
qed

lemma those_all: "length es = length ds \<Longrightarrow> (\<And>j. j < length ds \<Longrightarrow> f (es ! j) = Some (ds ! j)) \<Longrightarrow> those (map f es) = Some ds"
proof (induction es arbitrary: ds)
  case (Cons e es)
  then obtain d ds' where ds: "ds = d # ds'" by (cases ds) auto
  with Cons.prems(2) [of 0] have "f e = Some d" by simp
  moreover have "f (es ! j) = Some (ds' ! j)" if "j < length ds'" for j
    using Cons.prems(2) [of "Suc j"] that ds by simp
  then have "those (map f es) = Some ds'" using Cons.prems(1) ds by (intro Cons.IH) auto
  ultimately show ?case using ds by simp
qed simp

lemma build_manifest_Inr:
  assumes "build_manifest L data base arg tgt = Inr (M, packs)"
  shows "0 < chunk_size M \<and> total_size M = int (length data) \<and> file_sha256 M = sha256 L data \<and>
    (arg = None \<longrightarrow> chunk_size M = choose_chunk_size (int (length data)) base) \<and>
    (let ds = range_slices (nat (chunk_size M)) data in length (entries M) = length ds \<and>
      (\<forall>j < length ds. entry_from L (base_index_of base (chunk_size M)) packs (entries M ! j) (ds ! j))) \<and>
    (\<forall>(s, b) \<in> set packs. s = sha256 L b)"
proof -
  define sz where "sz = (case arg of Some c \<Rightarrow> c | None \<Rightarrow> choose_chunk_size (int (length data)) base)"
  define st where "st = flush_pack L (fold (build_step L (base_index_of base sz) tgt)
                       (range_slices (nat sz) data) build_start)"
  from assms have "0 < sz" and "M = \<lparr>chunk_size = sz, total_size = int (length data), file_sha256 = sha256 L data,
              entries = built_entries st\<rparr>" and "packs = built_packs st"
    by (auto simp: build_manifest_def Let_def simp flip: sz_def st_def split: if_splits)
  with build_entries [OF st_def] show ?thesis by (auto simp: Let_def sz_def)
qed

lemma build_manifest_denotes:
  assumes ok: "lib_ok L" and build: "build_manifest L data base arg tgt = Inr (M, packs)"
    and packs: "\<And>s b. (s, b) \<in> set packs \<Longrightarrow> P s = Some b"
    and base: "\<And>B. base = Some B \<Longrightarrow> packs_sound L P B"
    and inj: "inj_on (sha256 L) (set (range_slices (nat (chunk_size M)) data) \<union> base_chunks P base)"
  shows "manifest_valid M \<and> packs_sound L P M \<and> payload_of P M = Some data \<and>
    base_chunks P (Some M) \<subseteq> set (range_slices (nat (chunk_size M)) data)"
proof -
  let ?ds = "range_slices (nat (chunk_size M)) data"
  note B = build_manifest_Inr [OF build]
  have len: "length (entries M) = length ?ds" and sz: "0 < chunk_size M" using B by (auto simp: Let_def)
  have den: "entry_denotes L P (entries M ! j) (?ds ! j)" if "j < length ?ds" for j
  proof (rule entry_from_denotes [OF ok _ _ _ base inj])
    show "entry_from L (base_index_of base (chunk_size M)) packs (entries M ! j) (?ds ! j)"
      using B that by (auto simp: Let_def)
    show "?ds ! j \<noteq> []" using range_slices_bounds [OF nth_mem [OF that]] by simp
    show "s = sha256 L b \<and> P s = Some b" if "(s, b) \<in> set packs" for s b using B packs that by (auto simp: Let_def)
  qed (use that in auto)
  have "list_all entry_valid (entries M)"
    using den len by (auto simp: list_all_length entry_denotes_def)
  then have "manifest_valid M" using B sz ok by (simp add: manifest_valid_def Let_def)
  moreover have "packs_sound L P M"
    unfolding packs_sound_def using den len by (metis in_set_conv_nth)
  moreover have "base_chunks P (Some M) \<subseteq> set ?ds"
  proof
    fix c
    assume "c \<in> base_chunks P (Some M)"
    then obtain j where j: "j < length ?ds" "entry_bytes P (entries M ! j) = Some c"
      using len by (auto simp: base_chunks_def in_set_conv_nth)
    with entry_denotes_bytes [OF den [OF j(1)]] have "c = ?ds ! j" by simp
    with j(1) show "c \<in> set ?ds" by simp
  qed
  moreover have "those (map (entry_bytes P) (entries M)) = Some ?ds"
    using den len by (intro those_all) (auto intro: entry_denotes_bytes)
  ultimately show ?thesis using sz by (simp add: payload_of_def)
qed

text \<open>
  \<^verbatim>\<open>build_manifest\<close> is correct: the manifest it returns is valid and, over any collection of
  packs that has the packs it returns and those of its base, denotes exactly the payload; every entry
  names its pack directly and hashes to its chunk, so the result is again a sound base. Needed: SHA-256
  does not collide on the chunks of the payload and of the base.
\<close>
theorem build_manifest_correct:
  assumes "lib_ok L" and "build_manifest L data base arg tgt = Inr (M, packs)"
    and "\<And>s b. (s, b) \<in> set packs \<Longrightarrow> P s = Some b"
    and "\<And>B. base = Some B \<Longrightarrow> packs_sound L P B"
    and "inj_on (sha256 L) (set (range_slices (nat (chunk_size M)) data) \<union> base_chunks P base)"
  shows "manifest_valid M \<and> packs_sound L P M \<and> payload_of P M = Some data"
  using build_manifest_denotes [OF assms] by simp

subsection \<open>Sizes\<close>

definition pack_bounds :: "int \<Rightarrow> build \<Rightarrow> bool" where
  "pack_bounds m st \<longleftrightarrow> (\<forall>(s, b) \<in> set (built_packs st). int (length b) \<le> m) \<and>
     pending_bytes st = int (length (concat (map snd (pending st)))) \<and> pending_bytes st \<le> m"

lemma pack_bounds_flush: "pack_bounds m st \<Longrightarrow> 0 \<le> m \<Longrightarrow> pack_bounds m (flush_pack L st)"
  by (auto simp: pack_bounds_def flush_pack_def Let_def)

lemma pack_bounds_add:
  "pack_bounds m st \<Longrightarrow> pending_bytes st + int (length c) \<le> m \<Longrightarrow> pack_bounds m (add_pending h c st)"
  by (auto simp: pack_bounds_def add_pending_def)

lemma flush_pending [simp]: "pending (flush_pack L st) = []"
  by (simp add: flush_pack_def Let_def)

lemma pack_bounds_empty: "pack_bounds m st \<Longrightarrow> pending st = [] \<Longrightarrow> pending_bytes st = 0"
  by (simp add: pack_bounds_def)

lemma pack_bounds_reuse: "pack_bounds m st \<Longrightarrow> pack_bounds m (st\<lparr>built_entries := es\<rparr>)"
  by (simp add: pack_bounds_def)

lemma pack_bounds_step:
  assumes b: "pack_bounds (max tgt sz) st" and c: "int (length c) \<le> sz"
  shows "pack_bounds (max tgt sz) (build_step L bi tgt c st)"
proof -
  let ?st = "if pending_bytes st + int (length c) > tgt \<and> pending st \<noteq> [] then flush_pack L st else st"
  have m: "0 \<le> max tgt sz" using c by linarith
  have b': "pack_bounds (max tgt sz) ?st" using b pack_bounds_flush [OF b m] by simp
  have "pending_bytes ?st + int (length c) \<le> max tgt sz"
  proof (cases "pending_bytes st + int (length c) > tgt \<and> pending st \<noteq> []")
    case True
    have "pending_bytes (flush_pack L st) = 0"
      using pack_bounds_empty [OF pack_bounds_flush [OF b m, of L]] by simp
    with True c show ?thesis by simp
  next
    case False
    with c pack_bounds_empty [OF b] show ?thesis by (cases "pending st = []") auto
  qed
  with b' have "pack_bounds (max tgt sz) (add_pending (sha256 L c) c ?st)" by (rule pack_bounds_add)
  with b show ?thesis
    by (auto simp: build_step_def Let_def pack_bounds_reuse split: option.splits if_split_asm)
qed

lemma pack_bounds_fold:
  "pack_bounds (max tgt sz) st \<Longrightarrow> \<forall>d \<in> set ds. int (length d) \<le> sz \<Longrightarrow> 0 \<le> sz \<Longrightarrow>
     pack_bounds (max tgt sz) (flush_pack L (fold (build_step L bi tgt) ds st))"
  by (induction ds arbitrary: st) (simp_all add: pack_bounds_flush pack_bounds_step)

lemma build_manifest_packs_bound:
  assumes build: "build_manifest L data base arg tgt = Inr (M, packs)"
  shows "\<forall>(s, b) \<in> set packs. int (length b) \<le> max tgt (chunk_size M)"
proof -
  have sz: "0 < chunk_size M" using build_manifest_Inr [OF build] by simp
  have "\<forall>d \<in> set (range_slices (nat (chunk_size M)) data). int (length d) \<le> chunk_size M"
    using range_slices_bounds [of _ "nat (chunk_size M)" data] sz by fastforce
  moreover have "pack_bounds (max tgt (chunk_size M)) build_start"
    using sz by (simp add: build_start_def pack_bounds_def)
  ultimately have "pack_bounds (max tgt (chunk_size M)) (flush_pack L (fold
      (build_step L (base_index_of base (chunk_size M)) tgt) (range_slices (nat (chunk_size M)) data) build_start))"
    using sz by (intro pack_bounds_fold) auto
  moreover have "packs = built_packs (flush_pack L (fold
      (build_step L (base_index_of base (chunk_size M)) tgt) (range_slices (nat (chunk_size M)) data) build_start))"
    using build by (auto simp: build_manifest_def Let_def split: if_splits)
  ultimately show ?thesis by (simp add: pack_bounds_def)
qed

lemma length_range_slices_div: "0 < sz \<Longrightarrow> length (range_slices sz data) = (length data + sz - 1) div sz"
proof (induction sz data rule: range_slices.induct)
  case (1 sz data)
  show ?case
  proof (cases "data = []")
    case False
    have "length (range_slices sz data) = Suc (length (range_slices sz (drop sz data)))"
      using False 1(2) by (subst range_slices.simps) simp
    also have "\<dots> = Suc ((length data - sz + sz - 1) div sz)" using 1 False by simp
    also have "(length data - sz + sz - 1) div sz = (length data - 1) div sz"
    proof (cases "sz \<le> length data")
      case less: False
      then have "length data - sz + sz - 1 = sz - 1" "length data - 1 < sz" by auto
      then show ?thesis using 1(2) by (simp only: div_less diff_less zero_less_one)
    qed simp
    also have "Suc ((length data - 1) div sz) = (length data - 1 + sz) div sz" using 1(2) by (simp only: div_add_self2 Suc_eq_plus1)
    also have "length data - 1 + sz = length data + sz - 1" using False by (cases data) simp_all
    finally show ?thesis .
  next
    case True
    then have "length (range_slices sz data) = 0" by (simp add: range_slices.simps)
    with True 1(2) show ?thesis by simp
  qed
qed

text \<open>
  Claim C40. The sizes of a build, for every payload, base, chunk size and pack target: the number of entries is the
  payload's size divided by the chunk size, rounded up, and no pack is larger than the pack target or one chunk, whichever is
  greater. When the function chooses the chunk size itself, there are at most \<^verbatim>\<open>MAX_ENTRIES\<close> entries; an explicit chunk size
  is taken as it is, and the limit is not enforced.
\<close>
theorem build_manifest_bounds:
  assumes "build_manifest L data base arg tgt = Inr (M, packs)"
  shows "int (length (entries M)) = (int (length data) + chunk_size M - 1) div chunk_size M \<and>
    (arg = None \<longrightarrow> 0 < start_chunk_size base \<longrightarrow> int (length (entries M)) \<le> MAX_ENTRIES) \<and>
    (\<forall>(s, b) \<in> set packs. int (length b) \<le> max tgt (chunk_size M))"
proof (intro conjI impI)
  note B = build_manifest_Inr [OF assms]
  let ?sz = "nat (chunk_size M)"
  have sz: "0 < chunk_size M" "0 < ?sz" "int ?sz = chunk_size M" using B by auto
  have len: "length (entries M) = length (range_slices ?sz data)" using B by (simp add: Let_def)
  show "int (length (entries M)) = (int (length data) + chunk_size M - 1) div chunk_size M"
    unfolding len length_range_slices_div [OF sz(2)] using sz by (simp add: zdiv_int of_nat_diff)
  show "int (length (entries M)) \<le> MAX_ENTRIES" if "arg = None" "0 < start_chunk_size base"
  proof -
    have "chunk_size M = choose_chunk_size (int (length data)) base" using B that(1) by auto
    then have "int (length data) \<le> chunk_size M * MAX_ENTRIES"
      using choose_chunk_size_lemma [OF that(2), of "int (length data)"] by simp
    then have "int (length data) \<le> int (?sz * nat MAX_ENTRIES)" using sz by (simp add: MAX_ENTRIES_def)
    then have "length data \<le> ?sz * nat MAX_ENTRIES" by linarith
    then have "length (range_slices ?sz data) \<le> nat MAX_ENTRIES" using sz by (intro length_range_slices) auto
    then show ?thesis by (simp add: len MAX_ENTRIES_def)
  qed
qed (rule build_manifest_packs_bound [OF assms])

subsection \<open>Deduplication\<close>

lemma build_all_reused:
  "\<forall>d \<in> set ds. reuse_entry bi (sha256 L d) d \<noteq> None \<Longrightarrow> pending st = [] \<Longrightarrow>
     built_packs (flush_pack L (fold (build_step L bi tgt) ds st)) = built_packs st"
proof (induction ds arbitrary: st)
  case Nil
  then show ?case by (simp add: flush_pack_def)
next
  case (Cons d ds)
  then obtain e where "reuse_entry bi (sha256 L d) d = Some e" by auto
  then have "build_step L bi tgt d st = st\<lparr>built_entries := built_entries st @ [e]\<rparr>"
    by (simp add: build_step_def)
  with Cons.prems Cons.IH [of "st\<lparr>built_entries := built_entries st @ [e]\<rparr>"] show ?case by simp
qed

lemma chunk_index_hit:
  assumes "e \<in> set (entries M)"
  shows "\<exists>e'. chunk_index M (chunk_sha256 e) = Some e'"
  using assms by (cases "chunk_index M (chunk_sha256 e)") (auto simp: chunk_index_def map_of_eq_None_iff image_image)

text \<open>
  Deduplication: committing the same payload again on top of its own chunked generation keeps
  the chunk size and produces no pack at all, whatever pack target either commit used.
\<close>
theorem unchanged_payload_publishes_no_pack:
  assumes "build_manifest L data base None tgt = Inr (M, packs)" and "0 < start_chunk_size base"
    and "inj_on (sha256 L) (set (range_slices (nat (chunk_size M)) data))"
  shows "\<exists>M'. build_manifest L data (Some M) None tgt' = Inr (M', []) \<and> chunk_size M' = chunk_size M"
proof -
  let ?ds = "range_slices (nat (chunk_size M)) data"
  note B = build_manifest_Inr [OF assms(1)]
  have sz: "0 < chunk_size M" and len: "length (entries M) = length ?ds" using B by (auto simp: Let_def)
  have same: "choose_chunk_size (int (length data)) (Some M) = chunk_size M"
    using choose_chunk_size_lemma [OF assms(2), of "int (length data)"] B by (simp add: choose_chunk_size_def)
  have e: "chunk_sha256 (entries M ! j) = sha256 L (?ds ! j) \<and> entry_length (entries M ! j) = int (length (?ds ! j))"
    if "j < length ?ds" for j
    using B that by (auto simp: Let_def entry_from_def dest!: base_index_Some)
  have "reuse_entry (base_index_of (Some M) (chunk_size M)) (sha256 L d) d \<noteq> None" if d: "d \<in> set ?ds" for d
  proof -
    obtain j where j: "j < length ?ds" "?ds ! j = d" using d by (auto simp: in_set_conv_nth)
    with e chunk_index_hit [of "entries M ! j" M] len obtain e' where
      e': "chunk_index M (sha256 L d) = Some e'" by auto
    then have "e' \<in> set (entries M)" "chunk_sha256 e' = sha256 L d"
      by (auto simp: chunk_index_def dest!: map_of_SomeD)
    then obtain i where i: "i < length ?ds" "e' = entries M ! i" using len by (auto simp: in_set_conv_nth)
    with e [OF i(1)] \<open>chunk_sha256 e' = sha256 L d\<close> assms(3) d have "?ds ! i = d"
      by (metis inj_on_def nth_mem)
    with e [OF i(1)] i e' show ?thesis by (simp add: reuse_entry_def base_index_of_def)
  qed
  then have "built_packs (flush_pack L (fold (build_step L (base_index_of (Some M) (chunk_size M)) tgt') ?ds build_start)) = []"
    by (subst build_all_reused) (auto simp: build_start_def)
  with sz same show ?thesis by (simp add: build_manifest_def Let_def)
qed

section \<open>Samples\<close>

lemma build_manifest_runs: "0 < c \<Longrightarrow> \<exists>M packs. build_manifest L data base (Some c) tgt = Inr (M, packs)"
  by (simp add: build_manifest_def Let_def)

lemma build_manifest_runs_default: "0 < start_chunk_size base \<Longrightarrow> \<exists>M packs. build_manifest L data base None tgt = Inr (M, packs)"
  using choose_chunk_size_lemma [of base "int (length data)"]
  by (auto simp: build_manifest_def Let_def) (metis mult_pos_pos not_less zero_less_numeral zero_less_power)

lemma range_slices_length: "c \<in> set (range_slices sz data) \<Longrightarrow> length c \<le> length data"
  by (induction sz data rule: range_slices.induct)
     (subst (asm) (2) range_slices.simps, auto split: if_splits intro: order_trans)

text \<open>Ten bytes in chunks of four and packs of eight, over the packs that the build itself returns.\<close>

lemma sample_packs_map:
  assumes "build_manifest sample_lib data base arg tgt = Inr (M, packs)" and "tgt \<le> 31" and "chunk_size M \<le> 31"
    and "(s, b) \<in> set packs"
  shows "map_of packs s = Some b"
proof -
  have b: "length x \<le> 31 \<and> h = sha256 sample_lib x" if "(h, x) \<in> set packs" for h x
    using build_manifest_packs_bound [OF assms(1)] build_manifest_Inr [OF assms(1)] assms(2,3) that
    by (fastforce simp: Let_def)
  from assms(4) obtain b' where b': "map_of packs s = Some b'" by (metis map_of_eq_None_iff not_None_eq fst_conv image_eqI)
  then have "(s, b') \<in> set packs" by (rule map_of_SomeD)
  with b [OF this] b [OF assms(4)] have "b' = b"
    using sample_sha_inj [of "{b, b'}"] by (auto simp: inj_on_def)
  with b' show ?thesis by simp
qed

theorem build_manifest_correct_witness:
  "\<exists>M packs. build_manifest sample_lib ''abcdefghij'' None (Some 4) 8 = Inr (M, packs) \<and>
     payload_of (map_of packs) M = Some ''abcdefghij''"
proof -
  obtain M packs where b: "build_manifest sample_lib ''abcdefghij'' None (Some 4) 8 = Inr (M, packs)"
    using build_manifest_runs [of 4] by fastforce
  have "chunk_size M = 4" using b by (auto simp: build_manifest_def Let_def)
  with build_manifest_correct [OF sample_lib_ok b, of "map_of packs"] sample_packs_map [OF b]
    sample_sha_inj [of "set (range_slices 4 ''abcdefghij'')"] range_slices_length [of _ 4 "''abcdefghij''"]
  show ?thesis using b by (fastforce simp: base_chunks_def)
qed

theorem build_manifest_bounds_witness:
  "\<exists>M packs. build_manifest sample_lib ''abcdefghij'' None None 8 = Inr (M, packs) \<and> int (length (entries M)) \<le> MAX_ENTRIES"
proof -
  have pos: "0 < start_chunk_size None" by (simp add: start_chunk_size_def DEFAULT_CHUNK_SIZE_def)
  obtain M packs where b: "build_manifest sample_lib ''abcdefghij'' None None 8 = Inr (M, packs)"
    using build_manifest_runs_default [OF pos] by fastforce
  with build_manifest_bounds [OF b] pos show ?thesis by blast
qed

theorem unchanged_payload_publishes_no_pack_witness:
  "\<exists>M packs M'. build_manifest sample_lib ''abcdefghij'' None None 8 = Inr (M, packs) \<and>
     build_manifest sample_lib ''abcdefghij'' (Some M) None 16 = Inr (M', [])"
proof -
  have pos: "0 < start_chunk_size None" by (simp add: start_chunk_size_def DEFAULT_CHUNK_SIZE_def)
  obtain M packs where b: "build_manifest sample_lib ''abcdefghij'' None None 8 = Inr (M, packs)"
    using build_manifest_runs_default [OF pos] by fastforce
  have "inj_on (sha256 sample_lib) (set (range_slices (nat (chunk_size M)) ''abcdefghij''))"
    using range_slices_length [of _ "nat (chunk_size M)" "''abcdefghij''"] by (intro sample_sha_inj) fastforce
  from unchanged_payload_publishes_no_pack [OF b pos this, of 16] b show ?thesis by blast
qed

definition sample_manifest :: manifest where
  "sample_manifest = \<lparr>chunk_size = 4, total_size = 3, file_sha256 = sample_hash ''abc'',
     entries = [\<lparr>chunk_sha256 = sample_hash ''abc'', pack_sha256 = sample_hash ''abc'', pack_offset = 0, entry_length = 3\<rparr>]\<rparr>"

lemma sample_hash_hex: "is_sha256_hex (sample_hash b)"
  using lib_ok_D(5) [OF sample_lib_ok, of b] by (simp add: sample_lib_def)

lemma sample_manifest_valid: "manifest_valid sample_manifest"
  by (simp add: manifest_valid_def sample_manifest_def entry_valid_def sample_hash_hex)

lemma length_dec_numeral:
  "length (dec (numeral k)) = (if (numeral k :: nat) < 10 then 1 else Suc (length (dec (numeral k div 10))))"
  "length (dec 0) = 1"
  "length (dec (Suc n)) = (if Suc n < 10 then 1 else Suc (length (dec (Suc n div 10))))"
  by (subst dec.simps, simp)+

lemma length_sample_hash: "length (sample_hash b) = 64"
  by (simp add: sample_hash_def)

lemma sample_manifest_bytes: "\<exists>b. manifest_to_bytes sample_lib sample_manifest = Inr b"
  by (simp add: manifest_to_bytes_def Let_def sample_manifest_def sample_lib_def manifest_to_json_def entry_to_json_def
      put_str_def put_num_def put_int_def MANIFEST_MAGIC_def MAX_MANIFEST_BYTES_def manifest_schema_def
      length_sample_hash length_dec_numeral del: dec.simps)

theorem manifest_roundtrip_witness:
  "\<exists>b. manifest_to_bytes sample_lib sample_manifest = Inr b \<and> manifest_from_bytes sample_lib b = Inr sample_manifest"
  using manifest_roundtrip [OF sample_lib_ok sample_manifest_valid] sample_manifest_bytes by blast

end
