(* ===== verification/Pack_Transport.thy ===== *)
theory Pack_Transport
  imports Chunk_Manifest
begin

text \<open>
  The store side of \<^verbatim>\<open>chunk.py\<close>: publishing and verifying packs, and rebuilding a payload from its
  manifest through windows of packs. Calls that the code hands to a thread pool act on distinct keys;
  they are run in the order of submission, all of them, and then the first failure is raised. What a
  function leaves in a local file is its result: on an error the code removes the file.
\<close>

section \<open>Operations\<close>

fun run_all :: "('a \<Rightarrow> ('s, unit) io) \<Rightarrow> 'a list \<Rightarrow> ('s, unit) io" where
  "run_all f [] = ret ()"
| "run_all f (x # xs) = bind_io (try_io (f x)) (\<lambda>r. bind_io (try_io (run_all f xs)) (\<lambda>q.
     lift_io (case r of Inl e \<Rightarrow> Inl e | Inr _ \<Rightarrow> q)))"

text \<open>The last argument is how many attempts are left.\<close>

fun put_pack :: "'s store \<Rightarrow> string \<Rightarrow> bytes \<Rightarrow> nat \<Rightarrow> ('s, unit) io" where
  "put_pack S pack_sha b 0 = raise ExternalServiceError"
| "put_pack S pack_sha b (Suc n) =
     bind_io (try_io (put_if_absent S (format_pack_key pack_sha) b)) (\<lambda>r. case r of
         Inr _ \<Rightarrow> ret ()
       | Inl e \<Rightarrow>
           if e = PreconditionFailedError \<or> e = ConditionalConflictError then ret ()
           else if e = AmbiguousCasError then
             bind_io (try_io (head_meta S (format_pack_key pack_sha))) (\<lambda>q. case q of
                 Inr _ \<Rightarrow> ret ()
               | Inl e' \<Rightarrow> if e' = ObjectNotFoundError then put_pack S pack_sha b n else raise e')
           else raise e)"

definition PUT_PACK_ATTEMPTS :: nat where
  "PUT_PACK_ATTEMPTS = 5"

definition publish_packs :: "'s store \<Rightarrow> (string \<times> bytes) list \<Rightarrow> ('s, unit) io" where
  "publish_packs S packs =
     (if packs = [] then ret () else run_all (\<lambda>(sha, b). put_pack S sha b PUT_PACK_ATTEMPTS) packs)"

definition REFRESH_PUT_ATTEMPTS :: nat where
  "REFRESH_PUT_ATTEMPTS = 5"

fun refresh_put :: "'s store \<Rightarrow> key \<Rightarrow> bytes \<Rightarrow> nat \<Rightarrow> ('s, unit) io" where
  "refresh_put S k b 0 = ret ()"
| "refresh_put S k b (Suc attempts_left) =
     bind_io (try_io (put S k b)) (\<lambda>r. case r of
         Inr _ \<Rightarrow> ret ()
       | Inl e \<Rightarrow> if e = ExternalServiceError \<and> attempts_left \<noteq> 0 then refresh_put S k b attempts_left else raise e)"

definition check_pack :: "lib \<Rightarrow> 's store \<Rightarrow> (string \<Rightarrow> bytes option) \<Rightarrow> key \<Rightarrow> ('s, unit) io" where
  "check_pack L S novel k =
     bind_io (lift_io (parse_pack_key k)) (\<lambda>sha. case novel sha of
         Some b \<Rightarrow> (if sha256 L b \<noteq> sha then raise ExternalServiceError else refresh_put S k b REFRESH_PUT_ATTEMPTS)
       | None \<Rightarrow> bind_io (try_io (head_meta S k)) (\<lambda>r. case r of
             Inr _ \<Rightarrow> ret ()
           | Inl e \<Rightarrow> raise (if e = ObjectNotFoundError then ExternalServiceError else e)))"

definition verify_packs :: "lib \<Rightarrow> 's store \<Rightarrow> manifest \<Rightarrow> (string \<Rightarrow> bytes option) \<Rightarrow> ('s, unit) io" where
  "verify_packs L S M novel =
     (let keys = sorted_list_of_set (pack_keys M) in
      if keys = [] then ret () else run_all (check_pack L S novel) keys)"

definition RECONSTRUCT_WINDOW_PACKS :: nat where
  "RECONSTRUCT_WINDOW_PACKS = 32"

definition note_pack :: "manifest_entry \<Rightarrow> string list \<times> (string \<rightharpoonup> nat) \<Rightarrow> string list \<times> (string \<rightharpoonup> nat)" where
  "note_pack e op = (case op of (ordered, position) \<Rightarrow>
     (if position (pack_sha256 e) = None
      then (ordered @ [pack_sha256 e], position(pack_sha256 e \<mapsto> length ordered))
      else (ordered, position)))"

definition fetch_pack :: "lib \<Rightarrow> 's store \<Rightarrow> string \<Rightarrow> ('s, bytes) io" where
  "fetch_pack L S sha =
     bind_io (get S (format_pack_key sha)) (\<lambda>r.
       if sha256 L (body r) \<noteq> sha then raise ExternalServiceError else ret (body r))"

definition cut_piece :: "bytes \<Rightarrow> manifest_entry \<Rightarrow> ('s, bytes) io" where
  "cut_piece b e = (let piece = entry_slice b e in
     if int (length piece) \<noteq> entry_length e then raise ExternalServiceError else ret piece)"

text \<open>
  The inner \<^verbatim>\<open>while\<close> loop of a window: \<open>limit\<close> is \<^verbatim>\<open>start + len(window)\<close>. It returns the entries not yet
  written, the one-slot memo of the last back-reference, and the bytes written so far.
\<close>

fun write_entries :: "lib \<Rightarrow> 's store \<Rightarrow> (string \<rightharpoonup> nat) \<Rightarrow> nat \<Rightarrow> (string \<rightharpoonup> bytes) \<Rightarrow> manifest_entry list \<Rightarrow>
    (string \<times> bytes) option \<Rightarrow> bytes \<Rightarrow> ('s, manifest_entry list \<times> (string \<times> bytes) option \<times> bytes) io" where
  "write_entries L S position limit bodies [] back_ref out = ret ([], back_ref, out)"
| "write_entries L S position limit bodies (e # es) back_ref out =
     (case bodies (pack_sha256 e) of
        Some b \<Rightarrow> bind_io (cut_piece b e) (\<lambda>piece. write_entries L S position limit bodies es back_ref (out @ piece))
      | None \<Rightarrow>
          if the (position (pack_sha256 e)) \<ge> limit then ret (e # es, back_ref, out)
          else bind_io (case back_ref of
                 Some (sha, b) \<Rightarrow> if sha = pack_sha256 e then ret b else fetch_pack L S (pack_sha256 e)
               | None \<Rightarrow> fetch_pack L S (pack_sha256 e)) (\<lambda>b.
            bind_io (cut_piece b e) (\<lambda>piece.
              write_entries L S position limit bodies es (Some (pack_sha256 e, b)) (out @ piece))))"

fun write_windows :: "lib \<Rightarrow> 's store \<Rightarrow> (string \<rightharpoonup> nat) \<Rightarrow> nat \<Rightarrow> string list list \<Rightarrow> manifest_entry list \<Rightarrow>
    (string \<times> bytes) option \<Rightarrow> bytes \<Rightarrow> ('s, bytes) io" where
  "write_windows L S position start [] es back_ref out = ret out"
| "write_windows L S position start (w # ws) es back_ref out =
     bind_io (map_io (\<lambda>sha. bind_io (fetch_pack L S sha) (\<lambda>b. ret (sha, b))) w) (\<lambda>fetched.
     bind_io (write_entries L S position (start + length w) (map_of (rev fetched)) es back_ref out) (\<lambda>(es', back_ref', out').
       write_windows L S position (start + length w) ws es' back_ref' out'))"

definition reconstruct :: "lib \<Rightarrow> 's store \<Rightarrow> manifest \<Rightarrow> ('s, bytes) io" where
  "reconstruct L S M =
     (let (ordered, position) = fold note_pack (entries M) ([], Map.empty) in
      bind_io (write_windows L S position 0 (range_slices RECONSTRUCT_WINDOW_PACKS ordered) (entries M) None []) (\<lambda>out.
        if sha256 L out \<noteq> file_sha256 M then raise ExternalServiceError else ret out))"

definition load_manifest :: "lib \<Rightarrow> 's store \<Rightarrow> key \<Rightarrow> ('s, manifest) io" where
  "load_manifest L S k =
     bind_io (head_meta S k) (\<lambda>m.
       if meta_size m > MAX_MANIFEST_BYTES then raise InputValidationError
       else bind_io (get S k) (\<lambda>r. lift_io (manifest_from_bytes L (body r))))"

section \<open>Running a batch\<close>

lemma run_all_ok: "f x s = (Inr (), s') \<Longrightarrow> run_all f (x # xs) s = run_all f xs s'"
  by (cases "run_all f xs s'") simp

lemma run_all_Cons_Inr:
  "run_all f (x # xs) s = (Inr (), s') \<longleftrightarrow> (\<exists>t. f x s = (Inr (), t) \<and> run_all f xs t = (Inr (), s'))"
proof -
  obtain r t where "f x s = (r, t)" by fastforce
  then show ?thesis by (cases r) (auto simp: io_simps)
qed

context step_relation
begin

lemma guar_run_all [guar_intros]: "(\<And>x. guar R (f x)) \<Longrightarrow> guar R (run_all f xs)"
  by (induction xs) (auto intro!: guar_intros)

lemma run_all_Inr:
  assumes "run_all f xs s = (Inr (), s')" and "\<And>x. guar R (f x)" and "x \<in> set xs"
  shows "\<exists>t t'. R s t \<and> f x t = (Inr (), t') \<and> R t' s'"
  using assms(1,3)
proof (induction xs arbitrary: s)
  case (Cons y ys)
  then obtain t where y: "f y s = (Inr (), t)" and ys: "run_all f ys t = (Inr (), s')"
    unfolding run_all_Cons_Inr by blast
  have "R s t" using assms(2) y by (rule guarD)
  moreover have "R t s'" using guar_run_all [OF assms(2)] ys by (rule guarD)
  ultimately show ?case using Cons.prems(2) Cons.IH [OF ys] y by (auto intro: R_trans R_refl)
qed simp

end

section \<open>What publishing touches\<close>

text \<open>
  Publishing and verifying only write pack keys: whatever relation those writes respect, they respect.
\<close>

lemma parse_pack_key_not_roots: "parse_pack_key k = Inr sha \<Longrightarrow> \<not> prefix ROOTS_PREFIX k"
  by (simp add: parse_pack_key_iff)

locale pack_writer = step_relation R for R :: "'s \<Rightarrow> 's \<Rightarrow> bool" +
  fixes S :: "'s store"
  assumes pack_create [guar_intros]: "guar R (put_if_absent S (format_pack_key sha) b)"
    and pack_put [guar_intros]: "guar R (put S (format_pack_key sha) b)"
    and pack_head [guar_intros]: "guar R (head_meta S k)"
begin

lemma guar_put_pack [guar_intros]: "guar R (put_pack S sha b n)"
proof (induction n)
  case 0
  show ?case by (subst put_pack.simps) (rule guar_raise)
next
  case (Suc n)
  then show ?case by (auto split: sum.splits intro!: guar_intros)
qed

lemma guar_publish_packs [guar_intros]: "guar R (publish_packs S packs)"
  unfolding publish_packs_def by (auto intro!: guar_intros)

lemma guar_refresh_put [guar_intros]: "guar R (refresh_put S (format_pack_key sha) b n)"
proof (induction n)
  case 0
  show ?case by (subst refresh_put.simps) (rule guar_ret)
next
  case (Suc n)
  then show ?case by (auto split: sum.splits intro!: guar_intros)
qed

lemma guar_check_pack [guar_intros]: "guar R (check_pack L S novel k)"
proof (cases "parse_pack_key k")
  case (Inl e)
  then show ?thesis by (simp add: check_pack_def guar_def bind_io_def R_refl)
next
  case (Inr sha)
  then have k: "k = format_pack_key sha" by (simp add: parse_pack_key_iff)
  have "check_pack L S novel k = (case novel sha of
         Some b \<Rightarrow> (if sha256 L b \<noteq> sha then raise ExternalServiceError else refresh_put S k b REFRESH_PUT_ATTEMPTS)
       | None \<Rightarrow> bind_io (try_io (head_meta S k)) (\<lambda>r. case r of
             Inr _ \<Rightarrow> ret ()
           | Inl e \<Rightarrow> raise (if e = ObjectNotFoundError then ExternalServiceError else e)))"
    using Inr by (simp add: check_pack_def bind_io_def fun_eq_iff)
  then show ?thesis
    by (auto simp: k split: option.splits sum.splits intro!: guar_intros)
qed

lemma guar_verify_packs [guar_intros]: "guar R (verify_packs L S M novel)"
  unfolding verify_packs_def by (auto simp: Let_def intro!: guar_intros)

end

definition same_but_packs :: "mem \<Rightarrow> mem \<Rightarrow> bool" where
  "same_but_packs m m' \<longleftrightarrow> (\<forall>k. \<not> prefix PACKS_PREFIX k \<longrightarrow> mem_objs m' k = mem_objs m k)"

interpretation mem_packs: pack_writer same_but_packs mem_store
proof
  show "same_but_packs m m''" if "same_but_packs m m'" "same_but_packs m' m''" for m m' m''
    using that by (simp add: same_but_packs_def)
  have w: "same_but_packs m m'" if w: "mem_write (format_pack_key sha) b m = (r, m')" for sha b m r m'
  proof -
    from mem_write_objs [OF w] obtain ob where "mem_objs m' = (mem_objs m)(format_pack_key sha \<mapsto> ob)" by blast
    then show ?thesis by (auto simp: same_but_packs_def)
  qed
  show "guar same_but_packs (put mem_store (format_pack_key sha) b)" for sha b
    by (rule guarI) (auto simp: mem_store_def mem_put_def dest: w)
  show "guar same_but_packs (put_if_absent mem_store (format_pack_key sha) b)" for sha b
    by (rule guarI) (auto simp: mem_store_def mem_put_if_absent_def same_but_packs_def split: if_splits
        dest: w [unfolded same_but_packs_def])
  show "guar same_but_packs (head_meta mem_store k)" for k
    by (rule guarI) (auto simp: mem_store_def mem_head_meta_def same_but_packs_def split: option.splits)
qed (simp add: same_but_packs_def)

section \<open>Verification before the manifest lands, from the contract\<close>

context object_store
begin

sublocale pack_writer evolves S
  by unfold_locales (auto intro: guar_intros)

lemma guar_load_manifest [guar_intros]: "guar evolves (load_manifest L S k)"
  unfolding load_manifest_def by (auto intro!: guar_intros)

lemma refresh_put_Inr:
  assumes "refresh_put S k b n s = (Inr (), s')" and "0 < n" and "\<not> prefix ROOTS_PREFIX k"
  shows "\<exists>h ob. heap_evolves L (objs s) h \<and> h k = Some ob \<and> ob_body ob = b \<and> heap_evolves L h (objs s')"
  using assms(1,2)
proof (induction n arbitrary: s)
  case (Suc n)
  obtain r t where r: "put S k b s = (r, t)" by fastforce
  note law = put_law [OF r assms(3)]
  show ?case
  proof (cases r)
    case (Inr e)
    with law obtain h ob where "heap_evolves L (objs s) h" "ob_body ob = b" "heap_evolves L (h(k \<mapsto> ob)) (objs t)"
      by auto
    moreover from this(1) have "heap_evolves L (objs s) (h(k \<mapsto> ob))"
      using evolves_frame [OF assms(3)] by (rule heap_evolves_trans)
    moreover have "t = s'" using Suc.prems(1) r Inr by simp
    ultimately show ?thesis by (metis fun_upd_same)
  next
    case (Inl e)
    with Suc.prems(1) r have "refresh_put S k b n t = (Inr (), s')" and "0 < n"
      by (auto split: if_splits)
    from Suc.IH [OF this] law show ?thesis by (blast intro: heap_evolves_trans)
  qed
qed simp

text \<open>
  A pack that passed its check was there at some moment of the check, and was rewritten in it with
  the very bytes in hand when the writer has them.
\<close>

lemma check_pack_Inr:
  assumes "check_pack L S novel k s = (Inr (), s')"
  shows "\<exists>h ob. heap_evolves L (objs s) h \<and> heap_evolves L h (objs s') \<and> h k = Some ob \<and>
    (\<forall>sha b. k = format_pack_key sha \<longrightarrow> novel sha = Some b \<longrightarrow> ob_body ob = b \<and> sha256 L b = sha)"
proof -
  from assms obtain sha where sha: "parse_pack_key k = Inr sha"
    by (auto simp: check_pack_def io_simps)
  then have k: "k = format_pack_key sha" by (simp add: parse_pack_key_iff)
  show ?thesis
  proof (cases "novel sha")
    case (Some b)
    with assms sha have "sha256 L b = sha" and "refresh_put S k b REFRESH_PUT_ATTEMPTS s = (Inr (), s')"
      by (auto simp: check_pack_def io_simps split: if_splits)
    with refresh_put_Inr [of k b REFRESH_PUT_ATTEMPTS s s'] k Some show ?thesis
      by (auto simp: REFRESH_PUT_ATTEMPTS_def)
  next
    case None
    obtain r t where r: "head_meta S k s = (r, t)" by fastforce
    with assms sha None obtain m where "r = Inr m" "t = s'"
      by (cases r) (auto simp: check_pack_def bind_io_def)
    with head_law [OF r] None k show ?thesis by (auto simp: head_answers_def)
  qed
qed

lemma verify_packs_Inr:
  assumes "verify_packs L S M novel s = (Inr (), s')" and "e \<in> set (entries M)"
  shows "\<exists>h ob. heap_evolves L (objs s) h \<and> heap_evolves L h (objs s') \<and> h (format_pack_key (pack_sha256 e)) = Some ob \<and>
    (\<forall>b. novel (pack_sha256 e) = Some b \<longrightarrow> ob_body ob = b \<and> sha256 L b = pack_sha256 e)"
proof -
  let ?k = "format_pack_key (pack_sha256 e)"
  have "finite (pack_keys M)" by (simp add: pack_keys_def)
  moreover have "?k \<in> pack_keys M" using assms(2) by (simp add: pack_keys_def)
  ultimately have "?k \<in> set (sorted_list_of_set (pack_keys M))" by simp
  with assms(1) have "run_all (check_pack L S novel) (sorted_list_of_set (pack_keys M)) s = (Inr (), s')"
    by (auto simp: verify_packs_def Let_def split: if_splits)
  from run_all_Inr [OF this guar_check_pack \<open>?k \<in> set _\<close>] obtain t t' where
    t: "evolves s t" "check_pack L S novel ?k t = (Inr (), t')" "evolves t' s'" by blast
  from check_pack_Inr [OF t(2)] t(1,3) show ?thesis by (auto intro: heap_evolves_trans)
qed

end

text \<open>
  When \<^verbatim>\<open>verify_packs\<close> returns, against a shared bucket with faults and rivals: every pack the
  manifest names was present at some moment during the call, and a pack the writer built was at that
  moment the writer's own bytes, which hash to its key. So a manifest is published only after each of
  its packs has been seen, even if the garbage collector had swept them before.
\<close>
theorem verify_packs_sees_every_pack:
  assumes "verify_packs L (net_store L) M novel n = (Inr (), n')" and "e \<in> set (entries M)"
  shows "\<exists>h ob. heap_evolves L (net_objs n) h \<and> heap_evolves L h (net_objs n') \<and>
    h (format_pack_key (pack_sha256 e)) = Some ob \<and>
    (\<forall>b. novel (pack_sha256 e) = Some b \<longrightarrow> ob_body ob = b \<and> sha256 L b = pack_sha256 e)"
  using assms by (rule net.verify_packs_Inr)

section \<open>Reconstruction\<close>

subsection \<open>The order of first use\<close>

definition position_ok :: "string list \<times> (string \<rightharpoonup> nat) \<Rightarrow> bool" where
  "position_ok st \<longleftrightarrow> (\<forall>sha i. snd st sha = Some i \<longleftrightarrow> i < length (fst st) \<and> fst st ! i = sha)"

lemma position_ok_note: "position_ok st \<Longrightarrow> position_ok (note_pack e st)"
proof -
  assume ok: "position_ok st"
  obtain ordered position where st: "st = (ordered, position)" by fastforce
  show ?thesis
  proof (cases "position (pack_sha256 e)")
    case None
    have "ordered ! i \<noteq> pack_sha256 e" if "i < length ordered" for i
    proof
      assume "ordered ! i = pack_sha256 e"
      with that ok st have "position (pack_sha256 e) = Some i" by (simp add: position_ok_def)
      with None show False by simp
    qed
    with None ok st show ?thesis by (auto simp: position_ok_def note_pack_def nth_append less_Suc_eq)
  qed (use ok st in \<open>simp add: note_pack_def\<close>)
qed

lemma position_ok_fold: "position_ok st \<Longrightarrow> position_ok (fold note_pack es st)"
  by (induction es arbitrary: st) (simp_all add: position_ok_note)

lemma note_pack_keeps: "snd st sha \<noteq> None \<Longrightarrow> snd (note_pack e st) sha \<noteq> None"
  by (cases st) (auto simp: note_pack_def)

lemma fold_note_keeps: "snd st sha \<noteq> None \<Longrightarrow> snd (fold note_pack es st) sha \<noteq> None"
  by (induction es arbitrary: st) (simp_all add: note_pack_keeps del: not_None_eq)

lemma fold_note_covers: "e \<in> set es \<Longrightarrow> snd (fold note_pack es st) (pack_sha256 e) \<noteq> None"
proof (induction es arbitrary: st)
  case (Cons d es)
  have "snd (note_pack d st) (pack_sha256 d) \<noteq> None" by (cases st) (auto simp: note_pack_def)
  with Cons fold_note_keeps show ?case by (cases "e = d") auto
qed simp

subsection \<open>Windows against the abstract payload\<close>

text \<open>
  \<open>P\<close> is what the store holds; every fetch answers from it and the entries' slices are complete. Then the
  windowed loop, with its prefetching and its memo, writes the slices in order.
\<close>

definition fetches :: "lib \<Rightarrow> 's store \<Rightarrow> (string \<rightharpoonup> bytes) \<Rightarrow> 's \<Rightarrow> bool" where
  "fetches L S P s \<longleftrightarrow> (\<forall>sha b. P sha = Some b \<longrightarrow> fetch_pack L S sha s = (Inr b, s))"

definition entry_full :: "(string \<rightharpoonup> bytes) \<Rightarrow> manifest_entry \<Rightarrow> bool" where
  "entry_full P e \<longleftrightarrow> (\<exists>b. P (pack_sha256 e) = Some b \<and> int (length (entry_slice b e)) = entry_length e)"

definition memo_ok :: "(string \<rightharpoonup> bytes) \<Rightarrow> (string \<times> bytes) option \<Rightarrow> bool" where
  "memo_ok P memo \<longleftrightarrow> (\<forall>sha b. memo = Some (sha, b) \<longrightarrow> P sha = Some b)"

abbreviation slices_of :: "(string \<rightharpoonup> bytes) \<Rightarrow> manifest_entry list \<Rightarrow> bytes" where
  "slices_of P es \<equiv> concat (map (\<lambda>e. the (entry_bytes P e)) es)"

lemma write_entries_run:
  assumes f: "fetches L S P s" and bodies: "\<And>sha b. bodies sha = Some b \<Longrightarrow> P sha = Some b"
    and "list_all (entry_full P) es" and "memo_ok P memo"
  shows "\<exists>n memo'. write_entries L S position limit bodies es memo out s =
      (Inr (drop n es, memo', out @ slices_of P (take n es)), s) \<and> n \<le> length es \<and> memo_ok P memo' \<and>
      (n < length es \<longrightarrow> limit \<le> the (position (pack_sha256 (es ! n))))"
  using assms(3,4)
proof (induction es arbitrary: memo out)
  case Nil
  then show ?case by (intro exI [of _ 0] exI [of _ memo]) simp
next
  case (Cons e es)
  from Cons.prems(1) obtain b where b: "P (pack_sha256 e) = Some b" "int (length (entry_slice b e)) = entry_length e"
    by (auto simp: entry_full_def)
  then have piece: "cut_piece b e s = (Inr (entry_slice b e), s)" and eb: "entry_bytes P e = Some (entry_slice b e)"
    by (simp_all add: cut_piece_def Let_def entry_bytes_def)
  have go: "\<exists>n memo'. write_entries L S position limit bodies es memo'' (out @ entry_slice b e) s =
      (Inr (drop n (e # es), memo', out @ slices_of P (take n (e # es))), s) \<and> n \<le> length (e # es) \<and> memo_ok P memo' \<and>
      (n < length (e # es) \<longrightarrow> limit \<le> the (position (pack_sha256 ((e # es) ! n))))"
    if m: "memo_ok P memo''" for memo''
  proof -
    from Cons.IH [of memo'' "out @ entry_slice b e"] Cons.prems(1) m obtain n memo' where
      "write_entries L S position limit bodies es memo'' (out @ entry_slice b e) s =
        (Inr (drop n es, memo', (out @ entry_slice b e) @ slices_of P (take n es)), s)" "n \<le> length es" "memo_ok P memo'"
      "n < length es \<longrightarrow> limit \<le> the (position (pack_sha256 (es ! n)))" by auto
    then show ?thesis by (intro exI [of _ "Suc n"] exI [of _ memo']) (simp add: eb)
  qed
  show ?case
  proof (cases "bodies (pack_sha256 e)")
    case (Some b')
    with bodies b have "b' = b" by fastforce
    with Some go [OF Cons.prems(2)] piece show ?thesis by simp
  next
    case None
    show ?thesis
    proof (cases "the (position (pack_sha256 e)) \<ge> limit")
      case True
      with None Cons.prems(2) show ?thesis by (intro exI [of _ 0] exI [of _ memo]) simp
    next
      case False
      have "(case memo of Some (sha, b) \<Rightarrow> if sha = pack_sha256 e then ret b else fetch_pack L S (pack_sha256 e)
               | None \<Rightarrow> fetch_pack L S (pack_sha256 e)) s = (Inr b, s)"
        using f b(1) Cons.prems(2) by (auto simp: fetches_def memo_ok_def split: option.splits)
      with None False piece have "write_entries L S position limit bodies (e # es) memo out s =
          write_entries L S position limit bodies es (Some (pack_sha256 e, b)) (out @ entry_slice b e) s"
        by simp
      moreover have "memo_ok P (Some (pack_sha256 e, b))" using b(1) by (simp add: memo_ok_def)
      ultimately show ?thesis using go by simp
    qed
  qed
qed

lemma fetch_window_run:
  "fetches L S P s \<Longrightarrow> (\<And>sha. sha \<in> set w \<Longrightarrow> P sha \<noteq> None) \<Longrightarrow>
     map_io (\<lambda>sha. bind_io (fetch_pack L S sha) (\<lambda>b. ret (sha, b))) w s = (Inr (map (\<lambda>sha. (sha, the (P sha))) w), s)"
proof (induction w)
  case (Cons sha w)
  obtain b where b: "P sha = Some b" using Cons.prems(2) [of sha] by auto
  then have "fetch_pack L S sha s = (Inr b, s)" using Cons.prems(1) by (simp add: fetches_def)
  then have first: "bind_io (fetch_pack L S sha) (\<lambda>b. ret (sha, b)) s = (Inr (sha, b), s)" by simp
  have others: "map_io (\<lambda>sha. bind_io (fetch_pack L S sha) (\<lambda>b. ret (sha, b))) w s =
      (Inr (map (\<lambda>sha. (sha, the (P sha))) w), s)"
    using Cons.prems by (intro Cons.IH) auto
  show ?case
    unfolding map_io.simps bind_ok [where m = "bind_io (fetch_pack L S sha) (\<lambda>b. ret (sha, b))" and s = s, OF first]
      bind_ok [where m = "map_io (\<lambda>sha. bind_io (fetch_pack L S sha) (\<lambda>b. ret (sha, b))) w" and s = s, OF others]
    by (simp add: b)
qed simp

lemma write_windows_run:
  assumes f: "fetches L S P s"
    and "list_all (entry_full P) es" and "memo_ok P memo"
    and "\<And>e. e \<in> set es \<Longrightarrow> the (position (pack_sha256 e)) < start + length (concat ws)"
    and "es = [] \<or> start < start + length (concat ws)"
    and "\<And>w sha. w \<in> set ws \<Longrightarrow> sha \<in> set w \<Longrightarrow> P sha \<noteq> None"
  shows "write_windows L S position start ws es memo out s = (Inr (out @ slices_of P es), s)"
  using assms(2-6)
proof (induction ws arbitrary: start es memo out)
  case Nil
  then show ?case by simp
next
  case (Cons w ws)
  let ?bodies = "map_of (rev (map (\<lambda>sha. (sha, the (P sha))) w))"
  let ?lim = "start + length w"
  have bodies: "P sha = Some b" if "?bodies sha = Some b" for sha b
  proof -
    from that have "sha \<in> set w" "b = the (P sha)" by (auto dest!: map_of_SomeD)
    with Cons.prems(5) [of w sha] show ?thesis by (cases "P sha") auto
  qed
  from write_entries_run [OF f bodies Cons.prems(1,2)] obtain n memo' where
    run: "write_entries L S position ?lim ?bodies es memo out s =
      (Inr (drop n es, memo', out @ slices_of P (take n es)), s)" and n: "n \<le> length es" and m: "memo_ok P memo'"
    and stop: "n < length es \<longrightarrow> ?lim \<le> the (position (pack_sha256 (es ! n)))" by blast
  have "drop n es = [] \<or> ?lim < ?lim + length (concat ws)"
  proof (cases "n < length es")
    case True
    then have "the (position (pack_sha256 (es ! n))) < start + length (concat (w # ws))"
      using Cons.prems(3) by simp
    then have "the (position (pack_sha256 (es ! n))) < start + (length w + length (concat ws))" by simp
    with stop True show ?thesis by linarith
  qed (use n in simp)
  moreover have "list_all (entry_full P) (drop n es)"
    using Cons.prems(1) by (auto simp: list_all_iff dest: in_set_dropD)
  moreover have "the (position (pack_sha256 e)) < ?lim + length (concat ws)" if "e \<in> set (drop n es)" for e
    using Cons.prems(3) [of e] that by (auto dest: in_set_dropD)
  ultimately have "write_windows L S position ?lim ws (drop n es) memo' (out @ slices_of P (take n es)) s =
      (Inr ((out @ slices_of P (take n es)) @ slices_of P (drop n es)), s)"
    using m Cons.prems(5) by (intro Cons.IH) auto
  moreover have "slices_of P (take n es) @ slices_of P (drop n es) = slices_of P es"
    by (metis append_take_drop_id concat_append map_append)
  moreover have "map_io (\<lambda>sha. bind_io (fetch_pack L S sha) (\<lambda>b. ret (sha, b))) w s =
      (Inr (map (\<lambda>sha. (sha, the (P sha))) w), s)"
    using Cons.prems(5) by (intro fetch_window_run [OF f]) auto
  ultimately show ?case using run by simp
qed

lemma those_slices: "those (map (entry_bytes P) es) = Some cs \<Longrightarrow> concat cs = slices_of P es"
  by (induction es arbitrary: cs) (auto split: option.splits)

lemma reconstruct_run:
  assumes f: "fetches L S P s" and full: "list_all (entry_full P) (entries M)"
    and pay: "payload_of P M = Some data" and sha: "file_sha256 M = sha256 L data"
  shows "reconstruct L S M s = (Inr data, s)"
proof -
  obtain ordered position where st: "fold note_pack (entries M) ([], Map.empty) = (ordered, position)" by fastforce
  have ok: "position_ok (ordered, position)"
    using position_ok_fold [of "([], Map.empty)" "entries M"] by (simp add: st position_ok_def)
  have cat: "concat (range_slices RECONSTRUCT_WINDOW_PACKS ordered) = ordered"
    by (simp add: RECONSTRUCT_WINDOW_PACKS_def)
  have pos: "the (position (pack_sha256 e)) < length ordered" if e: "e \<in> set (entries M)" for e
  proof -
    obtain i where "position (pack_sha256 e) = Some i"
      using fold_note_covers [OF e, of "([], Map.empty)"] st by auto
    moreover from this have "i < length ordered" using ok unfolding position_ok_def fst_conv snd_conv by blast
    ultimately show ?thesis by simp
  qed
  have have_pack: "P x \<noteq> None" if x: "x \<in> set ordered" for x
  proof -
    have sub: "set (fst (fold note_pack es st)) \<subseteq> set (fst st) \<union> pack_sha256 ` set es" for es st
      by (induction es arbitrary: st) (auto simp: note_pack_def split: prod.splits if_splits, force+)
    from x sub [of "entries M" "([], Map.empty)"] st obtain e where "e \<in> set (entries M)" "x = pack_sha256 e" by auto
    with full show ?thesis by (auto simp: list_all_iff entry_full_def)
  qed
  have "write_windows L S position 0 (range_slices RECONSTRUCT_WINDOW_PACKS ordered) (entries M) None [] s =
      (Inr ([] @ slices_of P (entries M)), s)"
  proof (rule write_windows_run [OF f full])
    show "entries M = [] \<or> 0 < 0 + length (concat (range_slices RECONSTRUCT_WINDOW_PACKS ordered))"
      using pos [OF nth_mem, of 0] cat by (cases "entries M") fastforce+
    show "P x \<noteq> None" if "w \<in> set (range_slices RECONSTRUCT_WINDOW_PACKS ordered)" "x \<in> set w" for w x
    proof -
      from that have "x \<in> set (concat (range_slices RECONSTRUCT_WINDOW_PACKS ordered))" by auto
      then show ?thesis unfolding cat by (rule have_pack)
    qed
  qed (use pos cat in \<open>auto simp: memo_ok_def\<close>)
  moreover have "slices_of P (entries M) = data"
    using pay those_slices by (auto simp: payload_of_def)
  ultimately show ?thesis using sha by (simp add: reconstruct_def st)
qed

section \<open>A chunked publish in memory\<close>

text \<open>The packs that the contents of a store hold; \<open>packs_in\<close>: under their own hashes, and from a set \<open>U\<close>.\<close>

definition pack_of :: "contents \<Rightarrow> string \<Rightarrow> bytes option" where
  "pack_of h sha = map_option ob_body (h (format_pack_key sha))"

definition packs_in :: "lib \<Rightarrow> bytes set \<Rightarrow> contents \<Rightarrow> bool" where
  "packs_in L U h \<longleftrightarrow> (\<forall>sha b. pack_of h sha = Some b \<longrightarrow> sha256 L b = sha \<and> b \<in> U)"

lemma pack_of_update:
  "pack_of (h(format_pack_key sha \<mapsto> ob)) = (pack_of h)(sha \<mapsto> ob_body ob)"
  by (simp add: pack_of_def fun_eq_iff)

lemma fetch_pack_mem:
  assumes "packs_in L U (mem_objs m)"
  shows "fetches L mem_store (pack_of (mem_objs m)) m"
  unfolding fetches_def
proof (intro allI impI)
  fix sha b
  assume b: "pack_of (mem_objs m) sha = Some b"
  with assms have "sha256 L b = sha" unfolding packs_in_def by blast
  with b show "fetch_pack L mem_store sha m = (Inr b, m)"
    by (auto simp: fetch_pack_def pack_of_def bind_io_def mem_store_def mem_get_def mem_objs_def)
qed

text \<open>
  Writing packs keeps the store's packs, adds its own, and keeps them content-addressed: with no
  collision in \<open>U\<close>, a key that is taken already holds the same bytes.
\<close>

definition packs_grow :: "mem \<Rightarrow> mem \<Rightarrow> bool" where
  "packs_grow m m' \<longleftrightarrow> (\<forall>sha b. pack_of (mem_objs m) sha = Some b \<longrightarrow> pack_of (mem_objs m') sha = Some b)"

lemma packs_grow_trans: "packs_grow a b \<Longrightarrow> packs_grow b c \<Longrightarrow> packs_grow a c"
  by (simp add: packs_grow_def)

lemma write_pack_mem:
  assumes pin: "packs_in L U (mem_objs m)" and inj: "inj_on (sha256 L) U" and b: "b \<in> U" "sha256 L b = sha"
    and w: "mem_write (format_pack_key sha) b m = (r, m')"
  shows "(\<exists>e. r = Inr e) \<and> packs_in L U (mem_objs m') \<and> packs_grow m m' \<and> pack_of (mem_objs m') sha = Some b"
proof -
  from mem_write_objs [OF w] obtain e ob where e: "r = Inr e" "ob_body ob = b"
    "mem_objs m' = (mem_objs m)(format_pack_key sha \<mapsto> ob)" by blast
  then have P: "pack_of (mem_objs m') = (pack_of (mem_objs m))(sha \<mapsto> b)" by (simp add: pack_of_update)
  have "c = b" if "pack_of (mem_objs m) sha = Some c" for c
    using pin that b inj unfolding packs_in_def inj_on_def by blast
  with e P pin b show ?thesis by (auto simp: packs_in_def packs_grow_def)
qed

lemma put_pack_mem:
  assumes pin: "packs_in L U (mem_objs m)" and inj: "inj_on (sha256 L) U" and b: "b \<in> U" "sha256 L b = sha"
    and n: "0 < n"
  shows "\<exists>m'. put_pack mem_store sha b n m = (Inr (), m') \<and> packs_in L U (mem_objs m') \<and> packs_grow m m' \<and>
    pack_of (mem_objs m') sha = Some b"
proof -
  obtain k where k: "n = Suc k" using n by (cases n) auto
  show ?thesis
  proof (cases "mem_objs m (format_pack_key sha)")
    case None
    obtain r m' where w: "mem_write (format_pack_key sha) b m = (r, m')" by fastforce
    from write_pack_mem [OF pin inj b w] obtain e where e: "r = Inr e" "packs_in L U (mem_objs m')"
      "packs_grow m m'" "pack_of (mem_objs m') sha = Some b" by blast
    from None w e(1) have "put_pack mem_store sha b n m = (Inr (), m')"
      by (simp add: k mem_store_def mem_put_if_absent_def mem_objs_def bind_io_def try_io_def)
    with e show ?thesis by blast
  next
    case (Some ob)
    then have "pack_of (mem_objs m) sha = Some (ob_body ob)" by (simp add: pack_of_def)
    moreover from this have "ob_body ob = b" using pin b inj unfolding packs_in_def inj_on_def by blast
    moreover have "put_pack mem_store sha b n m = (Inr (), m)"
      using Some by (simp add: k mem_store_def mem_put_if_absent_def mem_objs_def bind_io_def try_io_def)
    ultimately show ?thesis using pin by (simp add: packs_grow_def)
  qed
qed

lemma run_all_mem:
  assumes "packs_in L U (mem_objs m)"
    and step: "\<And>x m. x \<in> set xs \<Longrightarrow> packs_in L U (mem_objs m) \<Longrightarrow> packs_grow m0 m \<Longrightarrow>
      \<exists>m'. f x m = (Inr (), m') \<and> packs_in L U (mem_objs m') \<and> packs_grow m m' \<and> Q x m'"
    and "packs_grow m0 m"
    and keep: "\<And>x m m'. Q x m \<Longrightarrow> packs_grow m m' \<Longrightarrow> Q x m'"
  shows "\<exists>m'. run_all f xs m = (Inr (), m') \<and> packs_in L U (mem_objs m') \<and> packs_grow m m' \<and> (\<forall>x \<in> set xs. Q x m')"
  using assms(1-3)
proof (induction xs arbitrary: m)
  case Nil
  then show ?case by (auto simp: packs_grow_def)
next
  case (Cons x xs)
  have "x \<in> set (x # xs)" by simp
  from Cons.prems(2) [OF this Cons.prems(1,3)] obtain m1 where
    m1: "f x m = (Inr (), m1)" "packs_in L U (mem_objs m1)" "packs_grow m m1" "Q x m1" by blast
  have g: "packs_grow m0 m1" using Cons.prems(3) m1(3) by (rule packs_grow_trans)
  have rest: "y \<in> set xs \<Longrightarrow> y \<in> set (x # xs)" for y by simp
  from Cons.IH [OF m1(2) Cons.prems(2) [OF rest] g] obtain m' where
    "run_all f xs m1 = (Inr (), m')" "packs_in L U (mem_objs m')" "packs_grow m1 m'" "\<forall>x \<in> set xs. Q x m'" by blast
  note m' = this
  from m1(1) m'(1) have "run_all f (x # xs) m = (Inr (), m')" unfolding run_all_Cons_Inr by blast
  moreover have "packs_grow m m'" using m1(3) m'(3) by (rule packs_grow_trans)
  moreover have "Q x m'" using m1(4) m'(3) by (rule keep)
  ultimately show ?case using m'(2,4) by auto
qed

lemma check_pack_mem:
  assumes pin: "packs_in L U (mem_objs m)" and inj: "inj_on (sha256 L) U" and hex: "is_sha256_hex sha"
    and novel: "\<And>b. novel sha = Some b \<Longrightarrow> b \<in> U \<and> sha256 L b = sha"
    and base: "novel sha = None \<Longrightarrow> pack_of (mem_objs m) sha \<noteq> None"
  shows "\<exists>m'. check_pack L mem_store novel (format_pack_key sha) m = (Inr (), m') \<and> packs_in L U (mem_objs m') \<and>
    packs_grow m m'"
proof (cases "novel sha")
  case (Some b)
  obtain r m' where w: "mem_write (format_pack_key sha) b m = (r, m')" by fastforce
  from write_pack_mem [OF pin inj _ _ w] novel [OF Some] obtain e where
    e: "r = Inr e" "packs_in L U (mem_objs m')" "packs_grow m m'" by blast
  have "refresh_put mem_store (format_pack_key sha) b (Suc k) m = (Inr (), m')" for k
    using w e(1) by (simp add: mem_store_def mem_put_def bind_io_def try_io_def)
  then have "refresh_put mem_store (format_pack_key sha) b REFRESH_PUT_ATTEMPTS m = (Inr (), m')"
    by (simp only: REFRESH_PUT_ATTEMPTS_def eval_nat_numeral)
  with Some novel [OF Some] hex have "check_pack L mem_store novel (format_pack_key sha) m = (Inr (), m')"
    by (simp add: check_pack_def bind_io_def)
  with e show ?thesis by blast
next
  case None
  with base obtain ob where "mem_objs m (format_pack_key sha) = Some ob" by (auto simp: pack_of_def)
  then have "check_pack L mem_store novel (format_pack_key sha) m = (Inr (), m)"
    using None hex
    by (simp add: check_pack_def bind_io_def try_io_def mem_store_def mem_head_meta_def mem_objs_def)
  with pin show ?thesis by (auto simp: packs_grow_def)
qed

lemma novel_index_Some: "novel_pack_index packs sha = Some b \<Longrightarrow> (sha, b) \<in> set packs"
  by (auto simp: novel_pack_index_def dest: map_of_SomeD)

lemma publish_packs_mem:
  assumes pin: "packs_in L U (mem_objs m)" and inj: "inj_on (sha256 L) U"
    and packs: "\<And>s b. (s, b) \<in> set packs \<Longrightarrow> b \<in> U \<and> sha256 L b = s"
  shows "\<exists>m'. publish_packs mem_store packs m = (Inr (), m') \<and> packs_in L U (mem_objs m') \<and> packs_grow m m' \<and>
    (\<forall>(s, b) \<in> set packs. pack_of (mem_objs m') s = Some b)"
proof -
  let ?Q = "\<lambda>(s, b) m. pack_of (mem_objs m) s = Some b"
  have "\<exists>m'. run_all (\<lambda>(sha, b). put_pack mem_store sha b PUT_PACK_ATTEMPTS) packs m = (Inr (), m') \<and>
      packs_in L U (mem_objs m') \<and> packs_grow m m' \<and> (\<forall>x \<in> set packs. ?Q x m')"
  proof (rule run_all_mem [OF pin])
    fix x m
    assume x: "x \<in> set packs" and pm: "packs_in L U (mem_objs m)"
    obtain s b where sb: "x = (s, b)" by fastforce
    with x packs have "b \<in> U" "sha256 L b = s" by blast+
    from put_pack_mem [OF pm inj this, of PUT_PACK_ATTEMPTS] sb
    show "\<exists>m'. (case x of (sha, b) \<Rightarrow> put_pack mem_store sha b PUT_PACK_ATTEMPTS) m = (Inr (), m') \<and>
        packs_in L U (mem_objs m') \<and> packs_grow m m' \<and> ?Q x m'"
      by (simp add: PUT_PACK_ATTEMPTS_def del: put_pack.simps)
  qed (auto simp: packs_grow_def)
  then obtain m' where "run_all (\<lambda>(sha, b). put_pack mem_store sha b PUT_PACK_ATTEMPTS) packs m = (Inr (), m')"
    "packs_in L U (mem_objs m')" "packs_grow m m'" "\<forall>x \<in> set packs. ?Q x m'" by blast
  then show ?thesis by (cases "packs = []") (auto simp: publish_packs_def)
qed

lemma verify_packs_mem:
  assumes pin: "packs_in L U (mem_objs m)" and inj: "inj_on (sha256 L) U" and M: "manifest_valid M"
    and novel: "\<And>s b. novel s = Some b \<Longrightarrow> b \<in> U \<and> sha256 L b = s"
    and base: "\<And>e. e \<in> set (entries M) \<Longrightarrow> pack_of (mem_objs m) (pack_sha256 e) \<noteq> None"
  shows "\<exists>m'. verify_packs L mem_store M novel m = (Inr (), m') \<and> packs_in L U (mem_objs m') \<and> packs_grow m m'"
proof -
  let ?keys = "sorted_list_of_set (pack_keys M)"
  have "\<exists>m'. run_all (check_pack L mem_store novel) ?keys m = (Inr (), m') \<and>
      packs_in L U (mem_objs m') \<and> packs_grow m m' \<and> (\<forall>k \<in> set ?keys. True)"
  proof (rule run_all_mem [OF pin])
    fix k m1
    assume k: "k \<in> set ?keys" and pm: "packs_in L U (mem_objs m1)" and g: "packs_grow m m1"
    have "finite (pack_keys M)" by (simp add: pack_keys_def)
    with k obtain e where e: "e \<in> set (entries M)" "k = format_pack_key (pack_sha256 e)"
      by (auto simp: pack_keys_def)
    then have "is_sha256_hex (pack_sha256 e)" using M by (auto simp: manifest_valid_def entry_valid_def list_all_iff)
    moreover have "pack_of (mem_objs m1) (pack_sha256 e) \<noteq> None" using base [OF e(1)] g by (auto simp: packs_grow_def)
    ultimately show "\<exists>m'. check_pack L mem_store novel k m1 = (Inr (), m') \<and> packs_in L U (mem_objs m') \<and>
        packs_grow m1 m' \<and> True"
      using check_pack_mem [OF pm inj, of "pack_sha256 e" novel] novel e(2) by blast
  qed (auto simp: packs_grow_def)
  then show ?thesis
    using pin by (auto simp: verify_packs_def Let_def packs_grow_def)
qed

lemma build_manifest_hashes:
  assumes "build_manifest L data base arg tgt = Inr (M, packs)" and "(s, b) \<in> set packs"
  shows "sha256 L b = s"
proof -
  have "\<forall>(s, b) \<in> set packs. s = sha256 L b"
    using build_manifest_Inr [OF assms(1)] by (elim conjE)
  with assms(2) show ?thesis by auto
qed

lemma entry_denotes_full: "entry_denotes L P e c \<Longrightarrow> entry_full P e"
  by (auto simp: entry_denotes_def entry_full_def)

lemma packs_sound_full: "packs_sound L P M \<Longrightarrow> list_all (entry_full P) (entries M)"
  by (auto simp: packs_sound_def list_all_iff intro: entry_denotes_full)

lemma payload_of_mono:
  assumes "payload_of P M = Some d" and "\<And>s b. P s = Some b \<Longrightarrow> Q s = Some b"
  shows "payload_of Q M = Some d"
proof -
  have "those (map (entry_bytes P) es) = Some cs \<Longrightarrow> those (map (entry_bytes Q) es) = Some cs" for es cs
    by (induction es arbitrary: cs) (auto simp: entry_bytes_def assms(2) split: option.splits)
  with assms(1) show ?thesis by (auto simp: payload_of_def)
qed

lemma packs_sound_mono: "packs_sound L P M \<Longrightarrow> (\<And>s b. P s = Some b \<Longrightarrow> Q s = Some b) \<Longrightarrow> packs_sound L Q M"
  unfolding packs_sound_def entry_denotes_def by blast

text \<open>
  \<^verbatim>\<open>reconstruct\<close> implements the abstract content of a manifest: over a store whose packs are
  stored under their own hashes and hold every slice in full, the windowed loop (prefetching 32 packs at a
  time, re-fetching back-references, one memo slot) returns exactly the concatenation of the slices.
\<close>
theorem reconstruct_refines_payload_of:
  assumes "packs_in L U (mem_objs m)" and "packs_sound L (pack_of (mem_objs m)) M"
    and "payload_of (pack_of (mem_objs m)) M = Some data" and "file_sha256 M = sha256 L data"
  shows "reconstruct L mem_store M m = (Inr data, m)"
  using fetch_pack_mem [OF assms(1)] packs_sound_full [OF assms(2)] assms(3,4) by (rule reconstruct_run)

lemma base_chunks_mono:
  assumes "packs_sound L P M" and "\<And>s b. P s = Some b \<Longrightarrow> Q s = Some b"
  shows "base_chunks Q (Some M) = base_chunks P (Some M)"
proof -
  have "entry_bytes Q e = entry_bytes P e" if "e \<in> set (entries M)" for e
    using assms that by (force simp: packs_sound_def entry_denotes_def entry_bytes_def)
  then show ?thesis by (simp add: base_chunks_def)
qed

lemma chunked_publish_mem:
  assumes "lib_ok L" and "build_manifest L data base arg tgt = Inr (M, packs)"
    and "packs_in L U (mem_objs m)" and "inj_on (sha256 L) U"
    and "\<And>B. base = Some B \<Longrightarrow> packs_sound L (pack_of (mem_objs m)) B"
    and "snd ` set packs \<subseteq> U" and "set (range_slices (nat (chunk_size M)) data) \<subseteq> U"
    and "base_chunks (pack_of (mem_objs m)) base \<subseteq> U"
  shows "\<exists>m1 m2. publish_packs mem_store packs m = (Inr (), m1) \<and>
    verify_packs L mem_store M (novel_pack_index packs) m1 = (Inr (), m2) \<and>
    packs_in L U (mem_objs m2) \<and> packs_grow m m2 \<and> manifest_valid M \<and>
    packs_sound L (pack_of (mem_objs m2)) M \<and> payload_of (pack_of (mem_objs m2)) M = Some data \<and>
    base_chunks (pack_of (mem_objs m2)) (Some M) \<subseteq> U"
proof -
  have packs: "b \<in> U \<and> sha256 L b = s" if "(s, b) \<in> set packs" for s b
    using build_manifest_hashes [OF assms(2) that] assms(6) that by auto
  from publish_packs_mem [OF assms(3,4) packs] obtain m1 where
    m1: "publish_packs mem_store packs m = (Inr (), m1)" "packs_in L U (mem_objs m1)" "packs_grow m m1"
      "\<And>s b. (s, b) \<in> set packs \<Longrightarrow> pack_of (mem_objs m1) s = Some b" by blast
  let ?P = "pack_of (mem_objs m1)"
  have base: "packs_sound L ?P B" if "base = Some B" for B
    using assms(5) [OF that] m1(3) by (auto simp: packs_grow_def intro: packs_sound_mono)
  have "base_chunks ?P base = base_chunks (pack_of (mem_objs m)) base"
  proof (cases base)
    case (Some B)
    then show ?thesis
      using base_chunks_mono [OF assms(5) [OF Some], of ?P] m1(3) by (simp add: packs_grow_def)
  qed (simp add: base_chunks_def)
  then have bc: "base_chunks ?P base \<subseteq> U" using assms(8) by simp
  have "inj_on (sha256 L) (set (range_slices (nat (chunk_size M)) data) \<union> base_chunks ?P base)"
    using assms(4,7) bc by (auto intro: inj_on_subset)
  from build_manifest_denotes [OF assms(1,2) m1(4) base this]
  have M: "manifest_valid M" "packs_sound L ?P M" "payload_of ?P M = Some data" "base_chunks ?P (Some M) \<subseteq> U"
    using assms(7) by auto
  have "pack_of (mem_objs m1) (pack_sha256 e) \<noteq> None" if "e \<in> set (entries M)" for e
    using M(2) that by (auto simp: packs_sound_def entry_denotes_def)
  with verify_packs_mem [OF m1(2) assms(4) M(1), of "novel_pack_index packs"] packs novel_index_Some
  obtain m2 where m2: "verify_packs L mem_store M (novel_pack_index packs) m1 = (Inr (), m2)"
    "packs_in L U (mem_objs m2)" "packs_grow m1 m2" by blast
  then have grow: "\<And>s b. ?P s = Some b \<Longrightarrow> pack_of (mem_objs m2) s = Some b" by (simp add: packs_grow_def)
  have "packs_sound L (pack_of (mem_objs m2)) M" "payload_of (pack_of (mem_objs m2)) M = Some data"
    using packs_sound_mono [OF M(2) grow] payload_of_mono [OF M(3) grow] by auto
  moreover have "base_chunks (pack_of (mem_objs m2)) (Some M) \<subseteq> U"
    using base_chunks_mono [OF M(2) grow] M(4) by simp
  moreover have "packs_grow m m2" using m1(3) m2(3) by (rule packs_grow_trans)
  ultimately show ?thesis using m1(1) m2 M(1) by blast
qed

text \<open>
  Claim C37. The chunked transport end to end, in memory: building a manifest, publishing its packs,
  verifying them and reconstructing returns the payload byte for byte, with no error on the way,
  whatever the base, the chunk size and the pack target, provided SHA-256 does not collide on the
  chunks and packs involved.
\<close>
theorem chunked_publish_then_reconstruct:
  assumes "lib_ok L" and "build_manifest L data base arg tgt = Inr (M, packs)"
    and "packs_in L U (mem_objs m)" and "inj_on (sha256 L) U"
    and "\<And>B. base = Some B \<Longrightarrow> packs_sound L (pack_of (mem_objs m)) B"
    and "snd ` set packs \<subseteq> U" and "set (range_slices (nat (chunk_size M)) data) \<subseteq> U"
    and "base_chunks (pack_of (mem_objs m)) base \<subseteq> U"
  shows "\<exists>m1 m2. publish_packs mem_store packs m = (Inr (), m1) \<and>
    verify_packs L mem_store M (novel_pack_index packs) m1 = (Inr (), m2) \<and>
    reconstruct L mem_store M m2 = (Inr data, m2)"
proof -
  from chunked_publish_mem [OF assms(1-4) assms(5-8)] obtain m1 m2 where
    m: "publish_packs mem_store packs m = (Inr (), m1)"
      "verify_packs L mem_store M (novel_pack_index packs) m1 = (Inr (), m2)" "packs_in L U (mem_objs m2)"
      "packs_sound L (pack_of (mem_objs m2)) M" "payload_of (pack_of (mem_objs m2)) M = Some data" by blast
  have "reconstruct L mem_store M m2 = (Inr data, m2)"
    using fetch_pack_mem [OF m(3)] packs_sound_full [OF m(4)] m(5) build_manifest_Inr [OF assms(2)]
    by (intro reconstruct_run) auto
  with m show ?thesis by blast
qed

section \<open>Samples\<close>

definition sample_pack :: bytes where
  "sample_pack = ''abc''"

lemma sample_pack_sha: "sha256 sample_lib sample_pack = sample_hash ''abc''"
  by (simp add: sample_lib_def sample_pack_def)

lemma sample_verify:
  "\<exists>n'. verify_packs sample_lib (net_store sample_lib) sample_manifest
     (novel_pack_index [(sample_hash ''abc'', sample_pack)]) (sample_net [] []) = (Inr (), n')"
proof -
  have keys: "pack_keys sample_manifest = {format_pack_key (sample_hash ''abc'')}"
    by (simp add: pack_keys_def sample_manifest_def)
  have "\<exists>n'. refresh_put (net_store sample_lib) k b (Suc i) (sample_net [] []) = (Inr (), n')" for k b i
    by (simp add: bind_io_def try_io_def quiet_put on_cell_def mem_put_def mem_write_run)
  then have "\<exists>n'. refresh_put (net_store sample_lib) k b REFRESH_PUT_ATTEMPTS (sample_net [] []) = (Inr (), n')" for k b
    by (simp only: REFRESH_PUT_ATTEMPTS_def eval_nat_numeral)
  then obtain n' where n': "refresh_put (net_store sample_lib) (format_pack_key (sample_hash ''abc'')) sample_pack
      REFRESH_PUT_ATTEMPTS (sample_net [] []) = (Inr (), n')" by blast
  then have "check_pack sample_lib (net_store sample_lib) (novel_pack_index [(sample_hash ''abc'', sample_pack)])
      (format_pack_key (sample_hash ''abc'')) (sample_net [] []) = (Inr (), n')"
    by (simp add: check_pack_def bind_io_def sample_hash_hex novel_pack_index_def sample_pack_sha)
  then show ?thesis
    by (auto simp: verify_packs_def keys run_all_Cons_Inr simp del: run_all.simps(2))
qed

theorem verify_packs_sees_every_pack_witness:
  "\<exists>n' h ob. verify_packs sample_lib (net_store sample_lib) sample_manifest
     (novel_pack_index [(sample_hash ''abc'', sample_pack)]) (sample_net [] []) = (Inr (), n') \<and>
     heap_evolves sample_lib h (net_objs n') \<and> h (format_pack_key (sample_hash ''abc'')) = Some ob \<and> ob_body ob = sample_pack"
proof -
  obtain n' where n': "verify_packs sample_lib (net_store sample_lib) sample_manifest
     (novel_pack_index [(sample_hash ''abc'', sample_pack)]) (sample_net [] []) = (Inr (), n')"
    using sample_verify by blast
  from verify_packs_sees_every_pack [OF n', of "hd (entries sample_manifest)"] n' show ?thesis
    by (auto simp: sample_manifest_def novel_pack_index_def)
qed

lemma packs_in_empty: "packs_in L U (mem_objs empty_mem)"
  by (simp add: packs_in_def pack_of_def)

theorem chunked_publish_then_reconstruct_witness:
  "\<exists>M packs m1 m2. build_manifest sample_lib ''abcdefghij'' None (Some 4) 8 = Inr (M, packs) \<and>
     publish_packs mem_store packs empty_mem = (Inr (), m1) \<and>
     verify_packs sample_lib mem_store M (novel_pack_index packs) m1 = (Inr (), m2) \<and>
     reconstruct sample_lib mem_store M m2 = (Inr ''abcdefghij'', m2)"
proof -
  obtain M packs where b: "build_manifest sample_lib ''abcdefghij'' None (Some 4) 8 = Inr (M, packs)"
    using build_manifest_runs [of 4] by fastforce
  have cs: "chunk_size M = 4" using b by (auto simp: build_manifest_def Let_def)
  let ?U = "{x :: bytes. length x \<le> 31}"
  have "snd ` set packs \<subseteq> ?U" using build_manifest_packs_bound [OF b] cs by auto
  moreover have "set (range_slices (nat (chunk_size M)) ''abcdefghij'') \<subseteq> ?U"
    using range_slices_length [of _ 4 "''abcdefghij''"] cs by fastforce
  ultimately show ?thesis
    using chunked_publish_then_reconstruct [OF sample_lib_ok b packs_in_empty, of ?U] b sample_sha_inj [of ?U]
    by (auto simp: base_chunks_def)
qed

theorem reconstruct_refines_payload_of_witness:
  "\<exists>m. reconstruct sample_lib mem_store sample_manifest m = (Inr ''abc'', m)"
proof -
  obtain r m where w: "mem_write (format_pack_key (sample_hash ''abc'')) sample_pack empty_mem = (r, m)" by fastforce
  have U: "inj_on (sha256 sample_lib) {sample_pack}" by simp
  from write_pack_mem [OF packs_in_empty U _ _ w] have
    m: "packs_in sample_lib {sample_pack} (mem_objs m)" "pack_of (mem_objs m) (sample_hash ''abc'') = Some sample_pack"
    by (auto simp: sample_pack_sha)
  have slice: "entry_slice sample_pack (hd (entries sample_manifest)) = ''abc''"
    by (simp add: sample_manifest_def entry_slice_def byte_slice_def sample_pack_def)
  have "entry_denotes sample_lib (pack_of (mem_objs m)) (hd (entries sample_manifest)) ''abc''"
    using m(2) slice sample_manifest_valid
    by (simp add: entry_denotes_def sample_manifest_def manifest_valid_def sample_lib_def)
  then have "packs_sound sample_lib (pack_of (mem_objs m)) sample_manifest"
    by (auto simp: packs_sound_def sample_manifest_def)
  moreover have "payload_of (pack_of (mem_objs m)) sample_manifest = Some ''abc''"
    using m(2) slice by (simp add: payload_of_def sample_manifest_def entry_bytes_def)
  moreover have "file_sha256 sample_manifest = sha256 sample_lib ''abc''"
    by (simp add: sample_manifest_def sample_lib_def)
  ultimately show ?thesis using reconstruct_refines_payload_of [OF m(1)] by blast
qed

end
