(* ===== verification/Commit_Driver.thy ===== *)
theory Commit_Driver
  imports Root_Protocol Pack_Transport
begin

text \<open>
  \<^verbatim>\<open>commit.py\<close>: publishing a payload, creating its marker with ambiguity resolved, and the state machine
  that drives attempts until the marker is won or the commit aborts. A work file is a handle of any type
  (a path), which the field \<open>contents\<close> of the hooks reads; the rest of the hooks is the class \<^verbatim>\<open>CommitContext\<close>. The
  random uuids, the clock and the process identity are an \<open>environment\<close>, read once per attempt. The sleeping itself
  has no effect on the state.
\<close>

section \<open>Operations\<close>

record transport_policy =
  chunk_threshold :: "int option"
  base_manifest :: "manifest option"
  pack_target :: int

record ('s, 'w) commit_hooks =
  validate :: "'w \<Rightarrow> root_doc \<Rightarrow> ('s, unit) io"
  decide :: "int \<Rightarrow> int \<Rightarrow> rebase_decision"
  replay :: "'w \<Rightarrow> ('s, root_doc \<times> 'w) io"
  policy_for :: "root_doc \<Rightarrow> ('s, transport_policy) io"
  contents :: "'w \<Rightarrow> ('s, bytes) io"

record environment =
  uuid4 :: "int \<Rightarrow> uuid"
  now :: "int \<Rightarrow> int"
  writer_info_of :: writer_info

datatype 'w phase =
    Attempt root_doc 'w int
  | Committed commit_result
  | Aborted abort_reason

datatype publish_outcome =
    PublishedWhole int
  | PublishedChunked int
  | NotLanded

text \<open>
  The wait before a retry is a random part of \<open>backoff_delay\<close>, here in milliseconds. \<^verbatim>\<open>2.0**attempt\<close> is computed
  before the minimum is taken, and no float is as large as \<open>2 ^ 1024\<close>.
\<close>

definition BACKOFF_BASE_MS :: int where
  "BACKOFF_BASE_MS = 50"

definition BACKOFF_CAP_MS :: int where
  "BACKOFF_CAP_MS = 2000"

definition backoff_delay :: "int \<Rightarrow> error + int" where
  "backoff_delay attempt =
     (if attempt \<ge> 1024 then Inl PyOverflowError else Inr (min BACKOFF_CAP_MS (BACKOFF_BASE_MS * 2 ^ nat attempt)))"

definition backoff :: "int \<Rightarrow> ('s, unit) io" where
  "backoff attempt = bind_io (lift_io (backoff_delay attempt)) (\<lambda>delay. ret ())"

lemma backoff_delay_Inr: "backoff_delay a = Inr t \<longleftrightarrow> a < 1024 \<and> t = min 2000 (50 * 2 ^ nat a)"
  by (auto simp: backoff_delay_def BACKOFF_BASE_MS_def BACKOFF_CAP_MS_def)

lemma backoff_delay_bounds: "backoff_delay a = Inr t \<Longrightarrow> BACKOFF_BASE_MS \<le> t \<and> t \<le> BACKOFF_CAP_MS"
  unfolding backoff_delay_Inr by (auto simp: BACKOFF_BASE_MS_def BACKOFF_CAP_MS_def)

lemma backoff_delay_grows:
  assumes "a \<le> b" and "backoff_delay a = Inr t" and "backoff_delay b = Inr u"
  shows "t \<le> u"
proof -
  have "(2 :: int) ^ nat a \<le> 2 ^ nat b" using assms(1) by (intro power_increasing) auto
  then have "min 2000 (50 * (2 :: int) ^ nat a) \<le> min 2000 (50 * 2 ^ nat b)" by (intro min.mono mult_left_mono) auto
  with assms(2,3) show ?thesis unfolding backoff_delay_Inr by blast
qed

lemma backoff_run: "backoff a s = (if 1024 \<le> a then (Inl PyOverflowError, s) else (Inr (), s))"
  by (simp add: backoff_def backoff_delay_def)

lemma bind_backoff [simp]: "bind_io (backoff a) f s = (if 1024 \<le> a then (Inl PyOverflowError, s) else f () s)"
  by (simp add: bind_io_def backoff_run)

lemma triple_backoff [triple_intros]: "triple I (backoff a) (\<lambda>_. True)"
  by (simp add: triple_def backoff_run)

context step_relation
begin

lemma guar_backoff [guar_intros]: "guar R (backoff a)"
  unfolding backoff_def by (intro guar_intros)

end

definition stage_payload :: "lib \<Rightarrow> 's store \<Rightarrow> bytes \<Rightarrow> transport_policy \<Rightarrow> ('s, bytes \<times> publish_outcome) io" where
  "stage_payload L S work policy =
     (if (case chunk_threshold policy of None \<Rightarrow> False | Some t \<Rightarrow> int (length work) \<ge> t) then
        bind_io (lift_io (build_manifest L work (base_manifest policy) None (pack_target policy))) (\<lambda>(M, packs).
        bind_io (publish_packs S packs) (\<lambda>_.
        bind_io (verify_packs L S M (novel_pack_index packs)) (\<lambda>_.
        bind_io (lift_io (manifest_to_bytes L M)) (\<lambda>b.
          ret (b, PublishedChunked (int (length work)))))))
      else ret (work, PublishedWhole (int (length work))))"

definition publish_resolved :: "lib \<Rightarrow> 's store \<Rightarrow> bytes \<Rightarrow> int \<Rightarrow> uuid \<Rightarrow> int \<Rightarrow> int \<Rightarrow> transport_policy \<Rightarrow>
    ('s, publish_outcome) io" where
  "publish_resolved L S work g new_uuid attempt max_attempts policy =
     bind_io (lift_io (format_payload_key g new_uuid)) (\<lambda>k.
     bind_io (stage_payload L S work policy) (\<lambda>(b, landed).
     bind_io (try_io (put_if_absent S k b)) (\<lambda>r. case r of
         Inr _ \<Rightarrow> ret landed
       | Inl e \<Rightarrow>
           if e = AmbiguousCasError then
             bind_io (try_io (get S k)) (\<lambda>q. case q of
                 Inr _ \<Rightarrow> ret landed
               | Inl e' \<Rightarrow>
                   if e' = ObjectNotFoundError then
                     (if attempt + 1 \<ge> max_attempts
                      then raise (ConflictAbortError (PayloadUploadKeptFailing max_attempts))
                      else ret NotLanded)
                   else raise e')
           else raise e)))"

text \<open>The counter is \<^verbatim>\<open>base_attempt + local_attempt\<close>.\<close>

function create_marker_resolving :: "lib \<Rightarrow> 's store \<Rightarrow> root_doc \<Rightarrow> uuid \<Rightarrow> int \<Rightarrow> int \<Rightarrow> ('s, marker_outcome) io" where
  "create_marker_resolving L S doc u a max_attempts =
     bind_io (try_io (create_marker L S doc)) (\<lambda>r. case r of
         Inr _ \<Rightarrow> ret WON
       | Inl e \<Rightarrow>
           if e \<in> {PreconditionFailedError, ConditionalConflictError, AmbiguousCasError} then
             bind_io (resolve_marker L S (generation doc) u) (\<lambda>out.
               if out \<noteq> ABSENT then ret out
               else if a + 1 \<ge> max_attempts then raise ExternalServiceError
               else bind_io (backoff (a + 1)) (\<lambda>_. create_marker_resolving L S doc u (a + 1) max_attempts))
           else raise e)"
  by pat_completeness auto
termination
  by (relation "measure (\<lambda>(L, S, doc, u, a, m). nat (m - a))") auto

declare create_marker_resolving.simps [simp del]

definition try_create_marker :: "lib \<Rightarrow> 's store \<Rightarrow> root_doc \<Rightarrow> uuid \<Rightarrow> int \<Rightarrow> int \<Rightarrow> ('s, commit_result option) io" where
  "try_create_marker L S new_doc new_uuid attempt max_attempts =
     bind_io (create_marker_resolving L S new_doc new_uuid attempt max_attempts) (\<lambda>out. case out of
         WON \<Rightarrow> bind_io (write_hint L S (generation new_doc)) (\<lambda>_.
           ret (Some \<lparr>result_generation = generation new_doc, result_uuid = new_uuid, attempts = attempt + 1\<rparr>))
       | LOST \<Rightarrow> ret None
       | ABSENT \<Rightarrow> raise PyAssertionError)"

text \<open>\<^verbatim>\<open>base.model_copy(update=...)\<close>: everything but the pins is replaced.\<close>

definition next_doc :: "environment \<Rightarrow> root_doc \<Rightarrow> int \<Rightarrow> transport \<Rightarrow> int \<Rightarrow> root_doc" where
  "next_doc env base attempt tr size_of =
     base\<lparr>generation := generation base + 1, payload_uuid := uuid4 env attempt, created_at := now env attempt,
          writer := writer_info_of env, transport_of := tr, payload_size := size_of\<rparr>"

definition create_and_rebase :: "lib \<Rightarrow> 's store \<Rightarrow> ('s, 'w) commit_hooks \<Rightarrow> int \<Rightarrow> root_doc \<Rightarrow> 'w \<Rightarrow> int \<Rightarrow> ('s, 'w phase) io" where
  "create_and_rebase L S ctx max_attempts new_doc work attempt =
     bind_io (try_create_marker L S new_doc (payload_uuid new_doc) attempt max_attempts) (\<lambda>result. case result of
         Some res \<Rightarrow> ret (Committed res)
       | None \<Rightarrow>
           (case decide ctx (attempt + 1) max_attempts of
              Abort reason \<Rightarrow> ret (Aborted reason)
            | Replay \<Rightarrow> bind_io (backoff (attempt + 1)) (\<lambda>_.
                bind_io (replay ctx work) (\<lambda>(base, work'). ret (Attempt base work' (attempt + 1))))))"

definition advance :: "lib \<Rightarrow> 's store \<Rightarrow> environment \<Rightarrow> ('s, 'w) commit_hooks \<Rightarrow> int \<Rightarrow> root_doc \<Rightarrow> 'w \<Rightarrow> int \<Rightarrow> ('s, 'w phase) io" where
  "advance L S env ctx max_attempts base work attempt =
     bind_io (validate ctx work base) (\<lambda>_.
     bind_io (policy_for ctx base) (\<lambda>policy.
     bind_io (contents ctx work) (\<lambda>data.
     bind_io (publish_resolved L S data (generation base + 1) (uuid4 env attempt) attempt max_attempts policy) (\<lambda>outcome.
       case outcome of
         NotLanded \<Rightarrow> bind_io (backoff (attempt + 1)) (\<lambda>_. ret (Attempt base work (attempt + 1)))
       | PublishedWhole n \<Rightarrow> create_and_rebase L S ctx max_attempts (next_doc env base attempt Whole n) work attempt
       | PublishedChunked n \<Rightarrow> create_and_rebase L S ctx max_attempts (next_doc env base attempt Chunked n) work attempt))))"

text \<open>
  The driver's \<^verbatim>\<open>while True\<close> over the step \<open>advance\<close>. Whether it ends depends on the hooks, so not
  returning is \<open>None\<close>.
\<close>

partial_function (option) run_phases :: "(root_doc \<Rightarrow> 'w \<Rightarrow> int \<Rightarrow> ('s, 'w phase) io) \<Rightarrow> 'w phase \<Rightarrow> 's \<Rightarrow>
    ((error + commit_result) \<times> 's) option" where
  "run_phases step ph s = (case ph of
     Committed res \<Rightarrow> Some (Inr res, s)
   | Aborted reason \<Rightarrow> Some (Inl (ConflictAbortError reason), s)
   | Attempt base work attempt \<Rightarrow>
       (case step base work attempt s of (r, s') \<Rightarrow>
         (case r of Inl e \<Rightarrow> Some (Inl e, s') | Inr ph' \<Rightarrow> run_phases step ph' s')))"

lemma run_phases_simps [simp]:
  "run_phases step (Committed res) s = Some (Inr res, s)"
  "run_phases step (Aborted reason) s = Some (Inl (ConflictAbortError reason), s)"
  "run_phases step (Attempt base work a) s = (case step base work a s of (r, s') \<Rightarrow>
     (case r of Inl e \<Rightarrow> Some (Inl e, s') | Inr ph' \<Rightarrow> run_phases step ph' s'))"
  by (simp_all add: run_phases.simps)

definition run_commit :: "lib \<Rightarrow> 's store \<Rightarrow> environment \<Rightarrow> root_doc \<Rightarrow> 'w \<Rightarrow> ('s, 'w) commit_hooks \<Rightarrow> int \<Rightarrow> 's \<Rightarrow>
    ((error + commit_result) \<times> 's) option" where
  "run_commit L S env base work ctx max_attempts s =
     run_phases (advance L S env ctx max_attempts) (Attempt base work 0) s"

section \<open>Termination\<close>

lemma stage_payload_outcome:
  "stage_payload L S work policy s = (Inr (b, landed), s') \<Longrightarrow>
     landed = PublishedWhole (int (length work)) \<or> landed = PublishedChunked (int (length work))"
  by (auto simp: stage_payload_def io_simps split: if_splits option.splits)

text \<open>What the create-only PUT of the payload leads to.\<close>

lemma publish_put_cases:
  assumes "publish_resolved L S work g u a m policy s = (Inr out, s')"
  obtains k b landed t r t' where "format_payload_key g u = Inr k" "stage_payload L S work policy s = (Inr (b, landed), t)"
    "put_if_absent S k b t = (r, t')" "\<exists>tag. r = Inr tag \<and> out = landed \<and> s' = t'"
  | k b landed t t' q where "format_payload_key g u = Inr k" "stage_payload L S work policy s = (Inr (b, landed), t)"
    "put_if_absent S k b t = (Inl AmbiguousCasError, t')" "get S k t' = (q, s')"
    "(\<exists>x. q = Inr x \<and> out = landed) \<or> (q = Inl ObjectNotFoundError \<and> out = NotLanded \<and> a + 1 < m)"
proof -
  from assms obtain k b landed t where k: "format_payload_key g u = Inr k"
    "stage_payload L S work policy s = (Inr (b, landed), t)"
    by (auto simp: publish_resolved_def io_simps)
  obtain r t' where r: "put_if_absent S k b t = (r, t')" by fastforce
  obtain q t'' where q: "get S k t' = (q, t'')" by fastforce
  show thesis
  proof (cases r)
    case (Inr tag)
    with assms k r show thesis by (intro that(1) [of k b landed t r t']) (auto simp: publish_resolved_def)
  next
    case (Inl e)
    with assms k r q show thesis
      by (intro that(2) [of k b landed t t' q])
         (cases q; auto simp: publish_resolved_def split: if_splits)+
  qed
qed

lemma publish_resolved_NotLanded:
  assumes "publish_resolved L S work g u a m policy s = (Inr NotLanded, s')"
  shows "a + 1 < m"
  using assms by (cases rule: publish_put_cases) (auto dest!: stage_payload_outcome)

lemma create_and_rebase_Attempt:
  assumes "create_and_rebase L S ctx m d work a s = (Inr (Attempt b w a'), s')"
  shows "a' = a + 1 \<and> decide ctx a' m = Replay"
proof -
  from assms obtain result t where "try_create_marker L S d (payload_uuid d) a m s = (Inr result, t)"
    by (auto simp: create_and_rebase_def io_simps)
  with assms show ?thesis
    by (cases result; cases "decide ctx (a + 1) m") (auto simp: create_and_rebase_def io_simps split: if_splits)
qed

lemma advance_Attempt:
  assumes "advance L S env ctx m base work a s = (Inr (Attempt b w a'), s')"
  shows "a' = a + 1 \<and> (a' < m \<or> decide ctx a' m = Replay)"
proof -
  from assms obtain t policy t' data u out t'' where
    "validate ctx work base s = (Inr (), t)" "policy_for ctx base t = (Inr policy, t')" "contents ctx work t' = (Inr data, u)"
    and p: "publish_resolved L S data (generation base + 1) (uuid4 env a) a m policy u = (Inr out, t'')"
    by (auto simp: advance_def io_simps)
  with assms show ?thesis
    using publish_resolved_NotLanded [of L S data "generation base + 1" "uuid4 env a" a m policy u t'']
    by (cases out) (auto simp: advance_def dest!: create_and_rebase_Attempt split: if_splits)
qed

lemma run_phases_returns:
  assumes "\<And>a. m \<le> a \<Longrightarrow> decide ctx a m \<noteq> Replay"
  shows "\<exists>r s'. run_phases (advance L S env ctx m) ph s = Some (r, s')"
proof -
  have "\<exists>r s'. run_phases (advance L S env ctx m) (Attempt base work a) s = Some (r, s')" for base work a s
  proof (induction "nat (m - a)" arbitrary: base work a s rule: less_induct)
    case less
    obtain q t where q: "advance L S env ctx m base work a s = (q, t)" by fastforce
    show ?case
    proof (cases "\<exists>b w a'. q = Inr (Attempt b w a')")
      case True
      then obtain b w a' where ph: "q = Inr (Attempt b w a')" by blast
      with q have "advance L S env ctx m base work a s = (Inr (Attempt b w a'), t)" by simp
      from advance_Attempt [OF this] have a': "a' = a + 1" "a' < m \<or> decide ctx a' m = Replay" by auto
      with assms [of a'] have "nat (m - a') < nat (m - a)" by force
      from less [OF this, of b w t] q ph show ?thesis by simp
    next
      case False
      show ?thesis
      proof (cases q)
        case (Inr ph)
        with False show ?thesis
          by (cases ph) (simp_all add: q)
      qed (simp add: q)
    qed
  qed
  then show ?thesis by (cases ph) (simp_all del: run_phases_simps(3))
qed

text \<open>
  Claim C36. The commit loop returns: whatever the store answers, if the rebase policy aborts once the
  attempts are used up (as \<^verbatim>\<open>decide_rebase\<close> does), \<^verbatim>\<open>run_commit\<close> ends with a result or an error.
\<close>
theorem run_commit_returns:
  assumes "\<And>a. max_attempts \<le> a \<Longrightarrow> decide ctx a max_attempts \<noteq> Replay"
  shows "\<exists>r s'. run_commit L S env base work ctx max_attempts s = Some (r, s')"
  unfolding run_commit_def by (rule run_phases_returns [OF assms])

section \<open>Safety, from the contract\<close>

context object_store
begin

lemma guar_stage_payload [guar_intros]: "guar evolves (stage_payload L S work policy)"
  unfolding stage_payload_def by (auto split: prod.splits intro!: guar_intros)

lemma guar_create_marker:
  assumes "lib_ok L" and "may_create (objs s) d" and "create_marker L S d s = (r, s')"
  shows "evolves s s'"
  using create_marker_law [OF assms] by simp

lemma guar_publish_resolved [guar_intros]: "guar evolves (publish_resolved L S work g u a m policy)"
proof (cases "valid_generation g")
  case False
  then have "publish_resolved L S work g u a m policy = raise InputValidationError"
    by (simp add: publish_resolved_def format_payload_key_def check_generation_bad bind_io_def raise_def fun_eq_iff)
  then show ?thesis by (simp only: guar_raise)
next
  case True
  have "guar evolves (bind_io (stage_payload L S work policy) (\<lambda>(b, landed).
     bind_io (try_io (put_if_absent S (payload_key_text g u) b)) (\<lambda>r. case r of
         Inr _ \<Rightarrow> ret landed
       | Inl e \<Rightarrow>
           if e = AmbiguousCasError then
             bind_io (try_io (get S (payload_key_text g u))) (\<lambda>q. case q of
                 Inr _ \<Rightarrow> ret landed
               | Inl e' \<Rightarrow>
                   if e' = ObjectNotFoundError then
                     (if a + 1 \<ge> m then raise (ConflictAbortError (PayloadUploadKeptFailing m)) else ret NotLanded)
                   else raise e')
           else raise e)))"
    by (intro guar_intros) (auto split: prod.splits sum.splits intro!: guar_intros)
  with True show ?thesis by (simp add: publish_resolved_def bind_io_def)
qed

lemma publish_resolved_law:
  assumes run: "publish_resolved L S work g u a m policy s = (Inr out, s')" and landed: "out \<noteq> NotLanded"
  shows "(out = PublishedWhole (int (length work)) \<or> out = PublishedChunked (int (length work))) \<and> valid_generation g \<and>
    (\<exists>h. heap_evolves L (objs s) h \<and> h (payload_key_text g u) \<noteq> None \<and> heap_evolves L h (objs s'))"
  using run
proof (cases rule: publish_put_cases)
  case (1 k b landed t r t')
  then have k: "valid_generation g" "k = payload_key_text g u"
    by (cases "valid_generation g"; simp add: format_payload_key_def check_generation_bad)+
  have st: "evolves s t" using guar_stage_payload 1(2) by (rule guarD)
  from 1 obtain tag where tag: "r = Inr tag" "out = landed" "s' = t'" by blast
  with create_law [OF 1(3)] k obtain h ob where "heap_evolves L (objs t) h" "heap_evolves L (h(k \<mapsto> ob)) (objs t')"
    by (auto simp: safe_create_other)
  moreover from this(1) have "heap_evolves L (objs s) (h(k \<mapsto> ob))"
    using st evolves_frame [of k L h "Some ob"] k(2) by (auto intro: heap_evolves_trans)
  ultimately show ?thesis
    using stage_payload_outcome [OF 1(2)] k tag by (metis fun_upd_same option.distinct(1))
next
  case (2 k b l t t' q)
  then have k: "valid_generation g" "k = payload_key_text g u"
    by (cases "valid_generation g"; simp add: format_payload_key_def check_generation_bad)+
  have "evolves s t" using guar_stage_payload 2(2) by (rule guarD)
  moreover have "evolves t t'" using create_law [OF 2(3)] k by (simp add: safe_create_other)
  ultimately have st': "evolves s t'" by (rule heap_evolves_trans)
  from 2(5) landed obtain x where x: "q = Inr x" "out = l" by auto
  with get_law [OF 2(4)] obtain h where "heap_evolves L (objs t') h" "heap_evolves L h (objs s')" "h k \<noteq> None"
    by (auto simp: get_answers_def)
  with st' k stage_payload_outcome [OF 2(2)] x show ?thesis by (blast intro: heap_evolves_trans)
qed

lemma create_marker_resolving_law:
  assumes ok: "lib_ok L" and "may_create (objs s) d" and "payload_uuid d = u"
    and "create_marker_resolving L S d u a m s = (r, s')"
  shows "evolves s s' \<and> (case r of
      Inr WON \<Rightarrow> \<exists>d'. marker_at L (objs s') (generation d) d' \<and> payload_uuid d' = u
    | Inr LOST \<Rightarrow> \<exists>d'. marker_at L (objs s') (generation d) d' \<and> payload_uuid d' \<noteq> u
    | Inr ABSENT \<Rightarrow> False
    | Inl e \<Rightarrow> True)"
  using assms(2-4)
proof (induction "nat (m - a)" arbitrary: a s rule: less_induct)
  case less
  obtain q t where q: "create_marker L S d s = (q, t)" by fastforce
  note law = create_marker_law [OF ok less.prems(1) q]
  then have st: "evolves s t" by simp
  note unfold = create_marker_resolving.simps [of L S d u a m]
  show ?case
  proof (cases q)
    case (Inr x)
    with less.prems(3) q law less.prems(2) show ?thesis by (auto simp: unfold)
  next
    case (Inl e)
    show ?thesis
    proof (cases "e \<in> {PreconditionFailedError, ConditionalConflictError, AmbiguousCasError}")
      case False
      with less.prems(3) q Inl st show ?thesis by (auto simp: unfold)
    next
      case True
      obtain v w where v: "resolve_marker L S (generation d) u t = (v, w)" by fastforce
      have tw: "evolves t w" using guar_resolve_marker v by (rule guarD)
      then have sw: "evolves s w" using st by (blast intro: heap_evolves_trans)
      show ?thesis
      proof (cases v)
        case (Inl e')
        with less.prems(3) q \<open>q = Inl e\<close> True v sw show ?thesis by (auto simp: unfold)
      next
        case (Inr out)
        note res = resolve_marker_result [OF v [unfolded Inr]]
        show ?thesis
        proof (cases "out = ABSENT")
          case False
          with less.prems(3) q \<open>q = Inl e\<close> True v Inr have "r = Inr out" "s' = w" by (auto simp: unfold)
          with res False sw show ?thesis by (cases out) auto
        next
          case absent: True
          show ?thesis
          proof (cases "a + 1 \<ge> m")
            case True
            with less.prems(3) q \<open>q = Inl e\<close> \<open>e \<in> _\<close> v Inr absent sw show ?thesis by (auto simp: unfold)
          next
            case False
            show ?thesis
            proof (cases "1024 \<le> a + 1")
              case late: True
              with less.prems(3) q \<open>q = Inl e\<close> \<open>e \<in> _\<close> v Inr absent False sw show ?thesis by (auto simp: unfold)
            next
              case early: False
              with less.prems(3) q \<open>q = Inl e\<close> True v Inr absent False
              have run: "create_marker_resolving L S d u (a + 1) m w = (r, s')" by (auto simp: unfold)
              from False have "nat (m - (a + 1)) < nat (m - a)" by linarith
              from less.hyps [OF this may_create_evolves [OF sw less.prems(1)] less.prems(2) run] sw
              show ?thesis by (auto intro: heap_evolves_trans)
            qed
          qed
        qed
      qed
    qed
  qed
qed

end

text \<open>
  What the driver relies on in the hooks: they move the world as the library does, and a replay ends on
  a base that has a marker.
\<close>

locale commit_context = object_store +
  fixes ctx :: "('a, 'w) commit_hooks"
  assumes validate_evolves: "guar evolves (validate ctx work base)"
    and policy_evolves: "guar evolves (policy_for ctx base)"
    and contents_evolves: "guar evolves (contents ctx work)"
    and replay_evolves: "guar evolves (replay ctx work)"
    and replay_base: "replay ctx work s = (Inr (b, w), s') \<Longrightarrow> lake_ok L (objs s) \<Longrightarrow>
      marker_at L (objs s') (generation b) b"
begin

lemma next_doc_ok:
  assumes ok: "lib_ok L" and base: "marker_at L h (generation base) base" and v: "valid_generation (generation base + 1)"
    and n: "0 \<le> n"
  shows "may_create h (next_doc env base a tr n)"
proof -
  have "doc_valid base"
    using base root_from_json_bytes_valid [OF ok, of _ base] by (auto simp: marker_at_def split: option.splits)
  then have "doc_valid (next_doc env base a tr n)" using v n by (simp add: doc_valid_def next_doc_def)
  with base show ?thesis by (auto simp: may_create_def next_doc_def dest: marker_at_has)
qed

definition landed :: "'a \<Rightarrow> commit_result \<Rightarrow> 'a \<Rightarrow> bool" where
  "landed s res s' \<longleftrightarrow>
     (\<exists>d. marker_at L (objs s') (result_generation res) d \<and> payload_uuid d = result_uuid res) \<and>
     (\<exists>h. heap_evolves L (objs s) h \<and> h (payload_key_text (result_generation res) (result_uuid res)) \<noteq> None \<and>
        heap_evolves L h (objs s'))"

lemma landed_earlier: "evolves s t \<Longrightarrow> landed t res s' \<Longrightarrow> landed s res s'"
  unfolding landed_def by (blast intro: heap_evolves_trans)

lemma create_and_rebase_law:
  assumes ok: "lib_ok L" and lake: "lake_ok L (objs s)" and d: "may_create (objs s) d"
    and run: "create_and_rebase L S ctx m d work a s = (r, s')"
  shows "evolves s s' \<and> (case r of
      Inr (Committed res) \<Rightarrow> result_generation res = generation d \<and> result_uuid res = payload_uuid d \<and>
        attempts res = a + 1 \<and> (\<exists>d'. marker_at L (objs s') (generation d) d' \<and> payload_uuid d' = payload_uuid d)
    | Inr (Attempt b w a') \<Rightarrow> marker_at L (objs s') (generation b) b
    | Inr (Aborted reason) \<Rightarrow> \<exists>d'. marker_at L (objs s') (generation d) d' \<and> payload_uuid d' \<noteq> payload_uuid d
    | Inl e \<Rightarrow> True)"
proof -
  obtain q t where q: "create_marker_resolving L S d (payload_uuid d) a m s = (q, t)" by fastforce
  note law = create_marker_resolving_law [OF ok d refl q]
  then have st: "evolves s t" by simp
  show ?thesis
  proof (cases q)
    case (Inl e)
    with run q st show ?thesis by (auto simp: create_and_rebase_def try_create_marker_def bind_io_def)
  next
    case (Inr out)
    show ?thesis
    proof (cases out)
      case WON
      obtain x u where x: "write_hint L S (generation d) t = (x, u)" by fastforce
      have tu: "evolves t u" using guar_write_hint x by (rule guarD)
      from law Inr WON obtain d' where "marker_at L (objs t) (generation d) d'" "payload_uuid d' = payload_uuid d" by auto
      with tu have "\<exists>d'. marker_at L (objs u) (generation d) d' \<and> payload_uuid d' = payload_uuid d"
        by (blast intro: evolves_marker_at)
      with Inr WON st tu run q x show ?thesis
        by (cases x) (auto simp: create_and_rebase_def try_create_marker_def bind_io_def intro: heap_evolves_trans)
    next
      case LOST
      with law Inr obtain d' where d': "marker_at L (objs t) (generation d) d'" "payload_uuid d' \<noteq> payload_uuid d" by auto
      show ?thesis
      proof (cases "decide ctx (a + 1) m")
        case (Abort reason)
        with run q Inr LOST have "r = Inr (Aborted reason)" "s' = t"
          by (simp_all add: create_and_rebase_def try_create_marker_def bind_io_def)
        with d' st show ?thesis by auto
      next
        case Replay
        obtain y v where y: "replay ctx work t = (y, v)" by fastforce
        have tv: "evolves t v" using replay_evolves y by (rule guarD)
        have lt: "lake_ok L (objs t)" using st lake by (rule evolves_lake_ok)
        from Replay run q Inr LOST y show ?thesis
          using st tv replay_base [of work t _ _ v] lt
          by (cases y) (auto simp: create_and_rebase_def try_create_marker_def bind_io_def backoff_run intro: heap_evolves_trans
              split: if_splits)
      qed
    next
      case ABSENT
      with law Inr show ?thesis by simp
    qed
  qed
qed

lemma advance_law:
  assumes ok: "lib_ok L" and lake: "lake_ok L (objs s)" and base: "marker_at L (objs s) (generation base) base"
    and run: "advance L S env ctx m base work a s = (r, s')"
  shows "evolves s s' \<and> (case r of
      Inr (Committed res) \<Rightarrow> result_generation res = generation base + 1 \<and> landed s res s'
    | Inr (Attempt b w a') \<Rightarrow> marker_at L (objs s') (generation b) b
    | _ \<Rightarrow> True)"
proof -
  obtain q1 t1 where q1: "validate ctx work base s = (q1, t1)" by fastforce
  have e1: "evolves s t1" using validate_evolves q1 by (rule guarD)
  obtain q2 t2 where q2: "policy_for ctx base t1 = (q2, t2)" by fastforce
  have "evolves t1 t2" using policy_evolves q2 by (rule guarD)
  with e1 have e12: "evolves s t2" by (rule heap_evolves_trans)
  obtain q0 t0 where q0: "contents ctx work t2 = (q0, t0)" by fastforce
  have "evolves t2 t0" using contents_evolves q0 by (rule guarD)
  with e12 have e2: "evolves s t0" by (rule heap_evolves_trans)
  show ?thesis
  proof (cases "\<exists>policy data. q1 = Inr () \<and> q2 = Inr policy \<and> q0 = Inr data")
    case False
    then show ?thesis using run q1 q2 q0 e1 e12 e2
      by (cases q1; cases q2; cases q0) (auto simp: advance_def bind_io_def)
  next
    case True
    then obtain policy data where q: "q1 = Inr ()" "q2 = Inr policy" "q0 = Inr data" by blast
    let ?g = "generation base + 1" and ?u = "uuid4 env a"
    obtain q3 t3 where q3: "publish_resolved L S data ?g ?u a m policy t0 = (q3, t3)" by fastforce
    have e23: "evolves t0 t3" using guar_publish_resolved q3 by (rule guarD)
    with e2 have e3: "evolves s t3" by (rule heap_evolves_trans)
    show ?thesis
    proof (cases q3)
      case (Inl e)
      with run q1 q2 q0 q q3 e3 show ?thesis by (auto simp: advance_def bind_io_def)
    next
      case (Inr out)
      show ?thesis
      proof (cases "out = NotLanded")
        case True
        with run q1 q2 q0 q q3 Inr have "r = Inl PyOverflowError \<or> r = Inr (Attempt base work (a + 1))" "s' = t3"
          by (auto simp: advance_def bind_io_def backoff_run split: if_splits)
        with e3 base show ?thesis by (auto dest: evolves_marker_at)
      next
        case False
        from publish_resolved_law [OF q3 [unfolded Inr] False] obtain h where
          out: "out = PublishedWhole (int (length data)) \<or> out = PublishedChunked (int (length data))" and
          v: "valid_generation ?g" and h: "heap_evolves L (objs t0) h" "h (payload_key_text ?g ?u) \<noteq> None"
            "heap_evolves L h (objs t3)" by blast
        define tr where "tr = (if out = PublishedWhole (int (length data)) then Whole else Chunked)"
        let ?d = "next_doc env base a tr (int (length data))"
        have fin: "create_and_rebase L S ctx m ?d work a t3 = (r, s')"
          using run q1 q2 q0 q q3 Inr out by (auto simp: advance_def bind_io_def tr_def)
        have "may_create (objs t3) ?d"
          using next_doc_ok [OF ok evolves_marker_at [OF e3 base] v] by simp
        from create_and_rebase_law [OF ok evolves_lake_ok [OF e3 lake] this fin]
        have law: "evolves t3 s' \<and> (case r of
            Inr (Committed res) \<Rightarrow> result_generation res = ?g \<and> result_uuid res = ?u \<and>
              (\<exists>d'. marker_at L (objs s') ?g d' \<and> payload_uuid d' = ?u)
          | Inr (Attempt b w a') \<Rightarrow> marker_at L (objs s') (generation b) b
          | _ \<Rightarrow> True)"
          by (auto simp: next_doc_def split: sum.splits phase.splits)
        moreover have "heap_evolves L (objs s) h" using e2 h(1) by (rule heap_evolves_trans)
        moreover have "heap_evolves L h (objs s')" using h(3) law by (blast intro: heap_evolves_trans)
        ultimately show ?thesis
          using e3 h(2) by (auto simp: landed_def intro: heap_evolves_trans split: sum.splits phase.splits)
      qed
    qed
  qed
qed

definition phase_law :: "'w phase \<Rightarrow> 'a \<Rightarrow> (error + commit_result) \<times> 'a \<Rightarrow> bool" where
  "phase_law ph s y \<longleftrightarrow> (case ph of
     Committed res \<Rightarrow> y = (Inr res, s)
   | Aborted reason \<Rightarrow> y = (Inl (ConflictAbortError reason), s)
   | Attempt base work a \<Rightarrow> lake_ok L (objs s) \<longrightarrow> marker_at L (objs s) (generation base) base \<longrightarrow>
       (case y of (r, s') \<Rightarrow> evolves s s' \<and> (case r of Inr res \<Rightarrow> landed s res s' | _ \<Rightarrow> True)))"

lemma run_phases_law:
  assumes ok: "lib_ok L" and run: "run_phases (advance L S env ctx m) ph s = Some y"
  shows "phase_law ph s y"
proof -
  have "step = advance L S env ctx m \<longrightarrow> phase_law ph s y" if "run_phases step ph s = Some y" for step ph s y
    using that
  proof (rule run_phases.raw_induct [rotated])
    fix rec step ph s y
    assume ih: "\<And>step ph s y. rec step ph s = Some y \<Longrightarrow> step = advance L S env ctx m \<longrightarrow> phase_law ph s y"
      and body: "(case ph of
     Attempt base work attempt \<Rightarrow>
       (case step base work attempt s of (r, s') \<Rightarrow>
         (case r of Inl e \<Rightarrow> Some (Inl e, s') | Inr ph' \<Rightarrow> rec step ph' s'))
   | Committed res \<Rightarrow> Some (Inr res, s)
   | Aborted reason \<Rightarrow> Some (Inl (ConflictAbortError reason), s)) = Some y"
    show "step = advance L S env ctx m \<longrightarrow> phase_law ph s y"
    proof
      assume step: "step = advance L S env ctx m"
      show "phase_law ph s y"
      proof (cases ph)
        case (Attempt base work a)
        obtain q t where q: "advance L S env ctx m base work a s = (q, t)" by fastforce
        show ?thesis
          unfolding phase_law_def Attempt phase.case
        proof (intro impI)
          assume lake: "lake_ok L (objs s)" and base: "marker_at L (objs s) (generation base) base"
          note law = advance_law [OF ok lake base q]
          then have st: "evolves s t" by simp
          show "case y of (r, s') \<Rightarrow> evolves s s' \<and> (case r of Inr res \<Rightarrow> landed s res s' | _ \<Rightarrow> True)"
          proof (cases q)
            case (Inl e)
            with body Attempt step q st show ?thesis by auto
          next
            case (Inr ph')
            with body Attempt step q have "rec step ph' t = Some y" by simp
            from ih [OF this] step have P: "phase_law ph' t y" by simp
            show ?thesis
            proof (cases ph')
              case (Attempt b w a')
              with law Inr have "marker_at L (objs t) (generation b) b" by simp
              with P Attempt evolves_lake_ok [OF st lake] st show ?thesis
                by (auto simp: phase_law_def intro: heap_evolves_trans landed_earlier split: prod.splits sum.splits)
            next
              case (Committed res)
              with law Inr P st show ?thesis by (simp add: phase_law_def)
            next
              case (Aborted reason)
              with P st show ?thesis by (simp add: phase_law_def)
            qed
          qed
        qed
      qed (use body in \<open>auto simp: phase_law_def\<close>)
    qed
  qed
  with run show ?thesis by blast
qed

lemma run_commit_law:
  assumes "lib_ok L" and "lake_ok L (objs s)" and "marker_at L (objs s) (generation base) base"
    and "run_commit L S env base work ctx m s = Some (r, s')"
  shows "evolves s s' \<and> (case r of Inr res \<Rightarrow> landed s res s' | _ \<Rightarrow> True)"
  using run_phases_law [OF assms(1) assms(4) [unfolded run_commit_def]] assms(2,3)
  by (simp add: phase_law_def)

end

section \<open>Properties\<close>


text \<open>
  Claim C6. No two commits ever share a generation: if two writers both report success for the same
  generation, at whatever times and with whatever happened between, they are the same commit.
\<close>
theorem no_two_commits_share_a_generation:
  assumes "lib_ok L"
    and "commit_context L (net_store L) net_objs ctx1" and "lake_ok L (net_objs n1)"
    and "marker_at L (net_objs n1) (generation base1) base1"
    and "run_commit L (net_store L) env1 base1 work1 ctx1 max1 n1 = Some (Inr res1, n1')"
    and "commit_context L (net_store L) net_objs ctx2" and "lake_ok L (net_objs n2)"
    and "marker_at L (net_objs n2) (generation base2) base2"
    and "run_commit L (net_store L) env2 base2 work2 ctx2 max2 n2 = Some (Inr res2, n2')"
    and "heap_evolves L (net_objs n1') later" and "heap_evolves L (net_objs n2') later"
    and "result_generation res1 = result_generation res2"
  shows "result_uuid res1 = result_uuid res2"
proof -
  from commit_context.run_commit_law [OF assms(2,1,3-5)] obtain d1 where
    "marker_at L (net_objs n1') (result_generation res1) d1" "payload_uuid d1 = result_uuid res1"
    by (auto simp: commit_context.landed_def [OF assms(2)])
  moreover from commit_context.run_commit_law [OF assms(6,1,7-9)] obtain d2 where
    "marker_at L (net_objs n2') (result_generation res2) d2" "payload_uuid d2 = result_uuid res2"
    by (auto simp: commit_context.landed_def [OF assms(6)])
  ultimately show ?thesis using assms(10-12) by (metis evolves_marker_at marker_at_unique)
qed

text \<open>
  The marker body of a commit inherits the lake's pins from its base and never its transport or
  size: those are the ones of the publish that just succeeded.
\<close>
theorem next_doc_derives_its_fields:
  "let d = next_doc env base attempt tr n in
     generation d = generation base + 1 \<and> pins d = pins base \<and> transport_of d = tr \<and> payload_size d = n \<and>
     payload_uuid d = uuid4 env attempt \<and> created_at d = now env attempt \<and> writer d = writer_info_of env"
  by (simp add: next_doc_def Let_def)

end
