(* ===== verification/Blob_Store.thy ===== *)
theory Blob_Store
  imports Commit_Driver Store_Probes
begin

text \<open>
  \<^verbatim>\<open>blob.py\<close>: one opaque blob under the commit protocol. The hooks are an interpretation of the driver's
  interface; writing and reading back is proved end to end in memory, for both transports.
\<close>

section \<open>Operations\<close>

definition blob_policy :: "lib \<Rightarrow> 's store \<Rightarrow> int option \<Rightarrow> root_doc \<Rightarrow> ('s, transport_policy) io" where
  "blob_policy L S threshold base =
     (if transport_of base = Chunked then
        bind_io (lift_io (payload_key base)) (\<lambda>k.
        bind_io (load_manifest L S k) (\<lambda>M.
          ret \<lparr>chunk_threshold = threshold, base_manifest = Some M, pack_target = DEFAULT_PACK_TARGET\<rparr>))
      else ret \<lparr>chunk_threshold = threshold, base_manifest = None, pack_target = DEFAULT_PACK_TARGET\<rparr>)"

definition blob_hooks :: "lib \<Rightarrow> 's store \<Rightarrow> int option \<Rightarrow> ('s, bytes) commit_hooks" where
  "blob_hooks L S threshold =
     \<lparr>validate = (\<lambda>work base. ret ()),
      decide = (\<lambda>attempt max_attempts. Abort BlobLostRace),
      replay = (\<lambda>stale_work. raise PyAssertionError),
      policy_for = blob_policy L S threshold, contents = ret\<rparr>"

text \<open>The three uuids of the backend probe come first; \<open>verify_backend\<close> is the keyword argument.\<close>

definition blob_bootstrap :: "lib \<Rightarrow> 's store \<Rightarrow> uuid \<times> uuid \<times> uuid \<Rightarrow> environment \<Rightarrow> int \<Rightarrow> bool \<Rightarrow> bytes \<Rightarrow>
    ('s, root_doc) io" where
  "blob_bootstrap L S probes env max_attempts verify_backend initial =
     (case probes of (u, v, w) \<Rightarrow>
     bind_io (if verify_backend then require_atomic_create S u v w else ret ()) (\<lambda>_.
     let blob_uuid = uuid4 env 0 in
     bind_io (lift_io (format_payload_key 0 blob_uuid)) (\<lambda>k.
     bind_io (put_if_absent S k initial) (\<lambda>_.
     let doc = \<lparr>generation = 0, payload_uuid = blob_uuid, created_at = now env 0, writer = writer_info_of env,
                pins = [], transport_of = Whole, payload_size = int (length initial)\<rparr> in
     bind_io (create_marker_resolving L S doc blob_uuid 0 max_attempts) (\<lambda>out. case out of
         WON \<Rightarrow> bind_io (write_hint L S 0) (\<lambda>_. ret doc)
       | LOST \<Rightarrow> read_marker L S 0
       | ABSENT \<Rightarrow> raise PyAssertionError)))))"

definition blob_head :: "lib \<Rightarrow> 's store \<Rightarrow> ('s, root_doc) io" where
  "blob_head L S = bind_io (resolve_head L S) (\<lambda>(base, g). ret base)"

definition fetch_payload :: "lib \<Rightarrow> 's store \<Rightarrow> root_doc \<Rightarrow> ('s, bytes) io" where
  "fetch_payload L S base =
     bind_io (lift_io (payload_key base)) (\<lambda>k.
       case transport_of base of
         Whole \<Rightarrow> bind_io (get S k) (\<lambda>r. ret (body r))
       | Chunked \<Rightarrow> bind_io (load_manifest L S k) (\<lambda>M. reconstruct L S M))"

definition blob_read :: "lib \<Rightarrow> 's store \<Rightarrow> ('s, bytes) io" where
  "blob_read L S = bind_io (resolve_head L S) (\<lambda>(base, g). fetch_payload L S base)"

definition blob_write :: "lib \<Rightarrow> 's store \<Rightarrow> environment \<Rightarrow> int option \<Rightarrow> int \<Rightarrow> bytes \<Rightarrow> 's \<Rightarrow>
    ((error + commit_result) \<times> 's) option" where
  "blob_write L S env threshold max_attempts data s = (case resolve_head L S s of (r, s') \<Rightarrow>
     (case r of
        Inl e \<Rightarrow> Some (Inl e, s')
      | Inr (base, g) \<Rightarrow> run_commit L S env base data (blob_hooks L S threshold) max_attempts s'))"

lemma blob_hooks_sel [simp]:
  "validate (blob_hooks L S t) work base = ret ()" "decide (blob_hooks L S t) a m = Abort BlobLostRace"
  "replay (blob_hooks L S t) work = raise PyAssertionError" "policy_for (blob_hooks L S t) base = blob_policy L S t base"
  "contents (blob_hooks L S t) work = ret work"
  by (simp_all add: blob_hooks_def)

section \<open>The hooks meet the driver's interface\<close>

context object_store
begin

lemma guar_blob_policy [guar_intros]: "guar evolves (blob_policy L S t base)"
  unfolding blob_policy_def by (auto intro!: guar_intros)

lemma blob_context: "commit_context L S objs (blob_hooks L S t)"
proof
  show "guar evolves (validate (blob_hooks L S t) work base)" for work base
    by (simp only: blob_hooks_sel) (intro guar_intros)
  show "guar evolves (policy_for (blob_hooks L S t) base)" for base
    by (simp only: blob_hooks_sel guar_blob_policy)
  show "guar evolves (replay (blob_hooks L S t) work)" for work
    by (simp only: blob_hooks_sel) (intro guar_intros)
  show "guar evolves (contents (blob_hooks L S t) work)" for work
    by (simp only: blob_hooks_sel) (intro guar_intros)
qed simp

end

interpretation net_blob: commit_context L "net_store L" net_objs "blob_hooks L (net_store L) threshold" for L threshold
  by (rule net.blob_context)

interpretation mem_blob: commit_context L mem_store mem_objs "blob_hooks L mem_store threshold" for L threshold
  by (rule mem.blob_context)

text \<open>
  \<^verbatim>\<open>BlobStore.write\<close> always returns, whatever the store answers: a blob never replays, so the
  commit loop is bounded by its attempts.
\<close>
theorem blob_write_returns:
  "\<exists>r s'. blob_write L S env threshold max_attempts data s = Some (r, s')"
  unfolding blob_write_def run_commit_def
  using run_phases_returns [of max_attempts "blob_hooks L S threshold"]
  by (auto split: prod.splits sum.splits)

text \<open>
  \<^verbatim>\<open>BlobStore.bootstrap\<close> against a shared bucket: the document it returns is generation 0 of the
  lake by its uuid, whether this call created it, resolved an ambiguous create, or adopted the one a
  concurrent bootstrap had made.
\<close>
theorem blob_bootstrap_returns_generation_zero:
  assumes "lib_ok L" and "lake_ok L (net_objs n)"
    and "blob_bootstrap L (net_store L) probes env max_attempts False initial n = (Inr doc, n')"
  shows "lake_ok L (net_objs n') \<and> (\<exists>d. marker_at L (net_objs n') 0 d \<and> payload_uuid d = payload_uuid doc)"
proof -
  obtain u v w where p: "probes = (u, v, w)" by (cases probes) auto
  let ?u = "uuid4 env 0" and ?S = "net_store L"
  let ?doc = "\<lparr>generation = 0, payload_uuid = ?u, created_at = now env 0, writer = writer_info_of env,
                pins = [], transport_of = Whole, payload_size = int (length initial)\<rparr>"
  have v0: "valid_generation 0" by (simp add: valid_generation_def MAX_GENERATION_def)
  obtain q n1 where q: "put_if_absent ?S (payload_key_text 0 ?u) initial n = (q, n1)" by fastforce
  with assms(3) p v0 obtain tag where "q = Inr tag" by (cases q) (auto simp: blob_bootstrap_def Let_def)
  have e1: "heap_evolves L (net_objs n) (net_objs n1)"
    using net.guar_create q by (rule guarD) simp
  obtain c n2 where c: "create_marker_resolving L ?S ?doc ?u 0 max_attempts n1 = (c, n2)" by fastforce
  have "may_create (net_objs n1) ?doc" using v0 by (simp add: may_create_def doc_valid_def)
  from net.create_marker_resolving_law [OF assms(1) this _ c]
  have law: "heap_evolves L (net_objs n1) (net_objs n2) \<and> (case c of
      Inr WON \<Rightarrow> \<exists>d'. marker_at L (net_objs n2) 0 d' \<and> payload_uuid d' = ?u
    | Inr LOST \<Rightarrow> \<exists>d'. marker_at L (net_objs n2) 0 d' \<and> payload_uuid d' \<noteq> ?u
    | Inr ABSENT \<Rightarrow> False
    | Inl e \<Rightarrow> True)"
    unfolding root_doc.select_convs by simp
  then have e2: "heap_evolves L (net_objs n) (net_objs n2)" using e1 by (blast intro: heap_evolves_trans)
  obtain x n3 where x: "write_hint L ?S 0 n2 = (x, n3)" by fastforce
  have e3: "heap_evolves L (net_objs n2) (net_objs n3)" using net.guar_write_hint x by (rule guarD)
  obtain y n4 where y: "read_marker L ?S 0 n2 = (y, n4)" by fastforce
  have e4: "heap_evolves L (net_objs n2) (net_objs n4)" using net.guar_read_marker y by (rule guarD)
  from assms(3) p v0 q \<open>q = Inr tag\<close> c obtain out where out: "c = Inr out"
    by (cases c) (auto simp: blob_bootstrap_def Let_def)
  show ?thesis
  proof (cases out)
    case WON
    with assms(3) p v0 q \<open>q = Inr tag\<close> c out x have "doc = ?doc" "n' = n3"
      by (cases x; auto simp: blob_bootstrap_def Let_def)+
    moreover obtain d' where "marker_at L (net_objs n2) 0 d'" "payload_uuid d' = ?u" using law out WON by auto
    ultimately show ?thesis
      using e2 e3 assms(2) by (auto dest: evolves_marker_at evolves_lake_ok)
  next
    case LOST
    with assms(3) p v0 q \<open>q = Inr tag\<close> c out y have "y = Inr doc" "n' = n4"
      by (auto simp: blob_bootstrap_def Let_def)
    with y e2 e4 assms(2) show ?thesis
      by (auto dest: net.read_marker_Inr evolves_lake_ok)
  next
    case ABSENT
    with law out show ?thesis by simp
  qed
qed

section \<open>Samples: a commit over an undisturbed connection\<close>

definition sample_env :: environment where
  "sample_env = \<lparr>uuid4 = (\<lambda>i. 100 + of_int i), now = (\<lambda>i. 0), writer_info_of = \<lparr>lib_version = ''1'', host = ''h'', pid = 1\<rparr>\<rparr>"

lemma quiet_create_run:
  assumes "script n = []" and "net_objs n k = None"
  obtains tag ob n' where "put_if_absent (net_store L) k b n = (Inr tag, n')" "script n' = []" "ob_body ob = b"
    "net_objs n' = (net_objs n)(k \<mapsto> ob)"
proof -
  obtain r m' where r: "mem_write k b (cell n) = (r, m')" by fastforce
  from mem_write_objs [OF this] obtain tag ob where "r = Inr tag" "ob_body ob = b" "mem_objs m' = (mem_objs (cell n))(k \<mapsto> ob)"
    by blast
  with r assms that [of tag "n\<lparr>cell := m'\<rparr>"] show thesis
    by (auto simp: quiet_create on_cell_def mem_put_if_absent_def net_objs_def mem_objs_def)
qed

lemma quiet_put_run:
  assumes "script n = []"
  obtains tag n' where "put (net_store L) k b n = (Inr tag, n')"
proof -
  obtain r m' where r: "mem_write k b (cell n) = (r, m')" by fastforce
  from mem_write_objs [OF this] obtain tag where "r = Inr tag" by blast
  with r assms that show thesis by (auto simp: quiet_put on_cell_def mem_put_def)
qed

lemma quiet_win_marker:
  assumes "script n = []" and "doc_valid d" and "net_objs n (marker_key_text (generation d)) = None"
  obtains n' where "create_marker_resolving L (net_store L) d u a mx n = (Inr WON, n')" "script n' = []"
proof -
  from quiet_create_run [OF assms(1,3), of L "root_to_json_bytes L d"] obtain tag n' where
    "put_if_absent (net_store L) (marker_key_text (generation d)) (root_to_json_bytes L d) n = (Inr tag, n')" "script n' = []"
    by blast
  then have "create_marker L (net_store L) d n = (Inr (), n')" using assms(2) by (simp add: create_marker_def)
  then have "create_marker_resolving L (net_store L) d u a mx n = (Inr WON, n')"
    by (subst create_marker_resolving.simps) (simp add: bind_io_def try_io_def)
  with \<open>script n' = []\<close> that show thesis by blast
qed

lemma quiet_hint:
  assumes "script n = []"
  obtains n' where "write_hint L (net_store L) g n = (Inr (), n')"
proof -
  from quiet_put_run [OF assms] obtain tag n' where
    "put (net_store L) ROOT_HINT_KEY (hint_to_json_bytes L g) n = (Inr tag, n')" by blast
  with that show thesis by (simp add: write_hint_def bind_io_def try_io_def)
qed

abbreviation sample_hooks :: "(net, bytes) commit_hooks" where
  "sample_hooks \<equiv> blob_hooks sample_lib (net_store sample_lib) None"

abbreviation sample_start :: net where
  "sample_start \<equiv> sample_net [10] []"

lemma sample_start_head: "marker_at sample_lib (mem_objs (sample_mem [10])) 0 (sample_doc 0 10)"
  using sample_mem_marker [of 0 "[10]"]
  by (auto simp: marker_at_def valid_generation_def MAX_GENERATION_def split: option.splits)

lemma sample_publishes:
  obtains n1 where "publish_resolved sample_lib (net_store sample_lib) ''abc'' 1 (uuid4 sample_env 0) 0 5
      \<lparr>chunk_threshold = None, base_manifest = None, pack_target = DEFAULT_PACK_TARGET\<rparr> sample_start =
      (Inr (PublishedWhole 3), n1)" "script n1 = []" "net_objs n1 (marker_key_text 1) = None"
proof -
  let ?k = "payload_key_text 1 (uuid4 sample_env 0)"
  have "net_objs sample_start ?k = None" by simp
  have "script sample_start = []" by simp
  from quiet_create_run [OF this \<open>net_objs sample_start ?k = None\<close>, of sample_lib "''abc''"] obtain tag ob n1 where
    n1: "put_if_absent (net_store sample_lib) ?k ''abc'' sample_start = (Inr tag, n1)" "script n1 = []"
      "net_objs n1 = (net_objs sample_start)(?k \<mapsto> ob)" by blast
  have v: "valid_generation 1" by (simp add: valid_generation_def MAX_GENERATION_def)
  have "marker_key_text 1 \<noteq> ?k" using prefix_roots_marker payload_key_not_roots by metis
  moreover have "mem_objs (sample_mem [10]) (marker_key_text 1) = None"
    using sample_mem_marker [of 1 "[10]"] by simp
  ultimately have "net_objs n1 (marker_key_text 1) = None" using n1(3) by simp
  with n1 v that show thesis by (simp add: publish_resolved_def stage_payload_def bind_io_def try_io_def)
qed

lemma sample_commit:
  obtains n' where "run_commit sample_lib (net_store sample_lib) sample_env (sample_doc 0 10) ''abc'' sample_hooks 5 sample_start =
    Some (Inr \<lparr>result_generation = 1, result_uuid = uuid4 sample_env 0, attempts = 1\<rparr>, n')"
proof -
  let ?d = "next_doc sample_env (sample_doc 0 10) 0 Whole 3"
  have d: "doc_valid ?d" "generation ?d = 1" "payload_uuid ?d = uuid4 sample_env 0"
    by (simp_all add: next_doc_def doc_valid_def valid_generation_def MAX_GENERATION_def)
  obtain n1 where n1: "publish_resolved sample_lib (net_store sample_lib) ''abc'' 1 (uuid4 sample_env 0) 0 5
      \<lparr>chunk_threshold = None, base_manifest = None, pack_target = DEFAULT_PACK_TARGET\<rparr> sample_start =
      (Inr (PublishedWhole 3), n1)" "script n1 = []" "net_objs n1 (marker_key_text 1) = None"
    using sample_publishes by blast
  from quiet_win_marker [OF n1(2) d(1), of sample_lib "uuid4 sample_env 0" 0 5] n1(3) d(2) obtain n2 where
    n2: "create_marker_resolving sample_lib (net_store sample_lib) ?d (uuid4 sample_env 0) 0 5 n1 = (Inr WON, n2)" "script n2 = []"
    by auto
  obtain n3 where n3: "write_hint sample_lib (net_store sample_lib) 1 n2 = (Inr (), n3)" using quiet_hint [OF n2(2)] by blast
  have "create_and_rebase sample_lib (net_store sample_lib) sample_hooks 5 ?d ''abc'' 0 n1 =
      (Inr (Committed \<lparr>result_generation = 1, result_uuid = uuid4 sample_env 0, attempts = 1\<rparr>), n3)"
    using n2 n3 d by (simp add: create_and_rebase_def try_create_marker_def bind_io_def)
  with n1 have "advance sample_lib (net_store sample_lib) sample_env sample_hooks 5 (sample_doc 0 10) ''abc'' 0 sample_start =
      (Inr (Committed \<lparr>result_generation = 1, result_uuid = uuid4 sample_env 0, attempts = 1\<rparr>), n3)"
    by (simp add: advance_def blob_policy_def bind_io_def)
  then show thesis by (intro that) (simp add: run_commit_def)
qed

theorem run_commit_returns_witness:
  "\<exists>r n'. run_commit sample_lib (net_store sample_lib) sample_env (sample_doc 0 10) ''abc'' sample_hooks 5 sample_start = Some (r, n')"
  by (rule run_commit_returns) simp


theorem no_two_commits_share_a_generation_witness:
  "\<exists>res1 n1 res2 n2. run_commit sample_lib (net_store sample_lib) sample_env (sample_doc 0 10) ''abc'' sample_hooks 5 sample_start =
     Some (Inr res1, n1) \<and>
     run_commit sample_lib (net_store sample_lib) sample_env (sample_doc 0 10) ''abc'' sample_hooks 5 sample_start =
     Some (Inr res2, n2) \<and> result_uuid res1 = result_uuid res2"
proof -
  obtain n' where n': "run_commit sample_lib (net_store sample_lib) sample_env (sample_doc 0 10) ''abc'' sample_hooks 5 sample_start =
    Some (Inr \<lparr>result_generation = 1, result_uuid = uuid4 sample_env 0, attempts = 1\<rparr>, n')" using sample_commit by blast
  have start: "lake_ok sample_lib (net_objs sample_start)"
    "marker_at sample_lib (net_objs sample_start) (generation (sample_doc 0 10)) (sample_doc 0 10)"
    using sample_start_head by (simp_all add: MAX_GENERATION_def)
  from no_two_commits_share_a_generation [OF sample_lib_ok net.blob_context start n' net.blob_context start n'
      heap_evolves_refl heap_evolves_refl refl] n' show ?thesis by blast
qed

theorem blob_bootstrap_returns_generation_zero_witness:
  "\<exists>doc n'. blob_bootstrap sample_lib (net_store sample_lib) (1, 2, 3) sample_env 5 False ''abc'' (sample_net [] []) = (Inr doc, n') \<and>
     (\<exists>d. marker_at sample_lib (net_objs n') 0 d \<and> payload_uuid d = payload_uuid doc)"
proof -
  let ?k = "payload_key_text 0 (uuid4 sample_env 0)" and ?start = "sample_net [] []"
  let ?d = "\<lparr>generation = 0, payload_uuid = uuid4 sample_env 0, created_at = now sample_env 0,
    writer = writer_info_of sample_env, pins = [], transport_of = Whole, payload_size = 3\<rparr>"
  have v: "valid_generation 0" by (simp add: valid_generation_def MAX_GENERATION_def)
  then have d: "doc_valid ?d" "generation ?d = 0" by (simp_all add: doc_valid_def)
  have "script ?start = []" "net_objs ?start ?k = None" by simp_all
  from quiet_create_run [OF this, of sample_lib "''abc''"] obtain tag ob n1 where
    n1: "put_if_absent (net_store sample_lib) ?k ''abc'' ?start = (Inr tag, n1)" "script n1 = []"
      "net_objs n1 = (net_objs ?start)(?k \<mapsto> ob)" by blast
  have "marker_key_text 0 \<noteq> ?k" using prefix_roots_marker payload_key_not_roots by metis
  moreover have "mem_objs (sample_mem []) (marker_key_text 0) = None" using sample_mem_marker [of 0 "[]"] by simp
  ultimately have "net_objs n1 (marker_key_text (generation ?d)) = None" using n1(3) d(2) by simp
  from quiet_win_marker [OF n1(2) d(1) this, of sample_lib "uuid4 sample_env 0" 0 5] obtain n2 where
    n2: "create_marker_resolving sample_lib (net_store sample_lib) ?d (uuid4 sample_env 0) 0 5 n1 = (Inr WON, n2)" "script n2 = []"
    by blast
  obtain n3 where n3: "write_hint sample_lib (net_store sample_lib) 0 n2 = (Inr (), n3)" using quiet_hint [OF n2(2)] by blast
  have run: "blob_bootstrap sample_lib (net_store sample_lib) (1, 2, 3) sample_env 5 False ''abc'' ?start = (Inr ?d, n3)"
    using n1(1) n2(1) n3 v by (simp add: blob_bootstrap_def Let_def)
  from blob_bootstrap_returns_generation_zero [OF sample_lib_ok _ run] run show ?thesis by (simp add: MAX_GENERATION_def)
qed

end
