(* ===== verification/Versioned_Blob.thy ===== *)
theory Versioned_Blob
  imports Blob_Store
begin

text \<open>
  What \<^verbatim>\<open>blob.py\<close> promises, and that the code keeps it: a lake is the list of all versions ever written,
  bootstrap starts it, write appends to it and read returns its last element. The refinement is over the
  in-memory store, for both transports, down to the bytes of the markers, manifests and packs.
\<close>

section \<open>The abstract contents\<close>

text \<open>
  \<open>payload_holds L U h d data\<close>: the payload object of the marker \<open>d\<close> stands for \<open>data\<close>. The chunked
  case demands a readable manifest whose chunks are found in the packs; \<open>U\<close> bounds the byte strings on
  which SHA-256 has to be collision free.
\<close>

definition manifest_holds :: "lib \<Rightarrow> bytes set \<Rightarrow> contents \<Rightarrow> manifest \<Rightarrow> bytes \<Rightarrow> bool" where
  "manifest_holds L U h M data \<longleftrightarrow> packs_sound L (pack_of h) M \<and> payload_of (pack_of h) M = Some data \<and>
     total_size M = int (length data) \<and> file_sha256 M = sha256 L data \<and> base_chunks (pack_of h) (Some M) \<subseteq> U"

definition stored_manifest :: "lib \<Rightarrow> contents \<Rightarrow> root_doc \<Rightarrow> manifest option" where
  "stored_manifest L h d = (if transport_of d = Whole then None
     else case h (payload_key_text (generation d) (payload_uuid d)) of
       None \<Rightarrow> None
     | Some ob \<Rightarrow> (if length (ob_body ob) > MAX_MANIFEST_BYTES then None else sniff_manifest L (ob_body ob)))"

definition payload_holds :: "lib \<Rightarrow> bytes set \<Rightarrow> contents \<Rightarrow> root_doc \<Rightarrow> bytes \<Rightarrow> bool" where
  "payload_holds L U h d data \<longleftrightarrow> (case transport_of d of
     Whole \<Rightarrow> map_option ob_body (h (payload_key_text (generation d) (payload_uuid d))) = Some data
   | Chunked \<Rightarrow> (case stored_manifest L h d of None \<Rightarrow> False | Some M \<Rightarrow> manifest_holds L U h M data))"

definition versions_at :: "lib \<Rightarrow> bytes set \<Rightarrow> contents \<Rightarrow> bytes list \<Rightarrow> bool" where
  "versions_at L U h vs \<longleftrightarrow> packs_in L U h \<and>
     (\<forall>g. has_marker h g \<longleftrightarrow> 0 \<le> g \<and> g < int (length vs)) \<and>
     (\<forall>i < length vs. \<exists>d. marker_at L h (int i) d \<and> payload_holds L U h d (vs ! i))"

lemma payload_holds_unique: "payload_holds L U h d x \<Longrightarrow> payload_holds L U h d y \<Longrightarrow> x = y"
  by (auto simp: payload_holds_def manifest_holds_def split: transport.splits option.splits)

lemma versions_lake_ok:
  assumes "versions_at L U h vs"
  shows "lake_ok L h"
  unfolding lake_ok_def
proof (intro allI impI)
  fix g
  assume "has_marker h g"
  with assms have g: "0 \<le> g" "g < int (length vs)" by (auto simp: versions_at_def)
  then have "nat g < length vs" by simp
  with assms obtain d where "marker_at L h (int (nat g)) d" unfolding versions_at_def by blast
  with g assms show "(\<exists>d. marker_at L h g d) \<and> (0 < g \<longrightarrow> has_marker h (g - 1))" by (auto simp: versions_at_def)
qed

lemma versions_last:
  assumes "versions_at L U h vs" and "vs \<noteq> []"
  obtains d where "marker_at L h (int (length vs) - 1) d" "payload_holds L U h d (List.last vs)"
    "generation d = int (length vs) - 1"
proof -
  from assms obtain d where d: "marker_at L h (int (length vs - 1)) d" "payload_holds L U h d (vs ! (length vs - 1))"
    unfolding versions_at_def by (metis diff_less length_greater_0_conv zero_less_one)
  have "int (length vs - 1) = int (length vs) - 1" using assms(2) by (cases vs) auto
  with d assms(2) that show thesis by (auto simp: last_conv_nth dest: marker_at_generation)
qed

section \<open>Reads in memory\<close>

lemma mem_get_run:
  "mem_objs m k = Some ob \<Longrightarrow>
     get mem_store k m = (Inr \<lparr>body = ob_body ob, etag = etag_text (ob_etag ob), last_modified = Some (ob_mtime ob)\<rparr>, m)"
  by (simp add: mem_store_def mem_get_def mem_objs_def)

lemma mem_head_meta_run:
  "mem_objs m k = Some ob \<Longrightarrow>
     head_meta mem_store k m = (Inr \<lparr>meta_key = k, meta_size = length (ob_body ob), meta_modified = Some (ob_mtime ob)\<rparr>, m)"
  by (simp add: mem_store_def mem_head_meta_def mem_objs_def)

lemma read_marker_mem:
  assumes "marker_at L (mem_objs m) g d"
  shows "read_marker L mem_store g m = (Inr d, m)"
  using assms by (auto simp: marker_at_def read_marker_def mem_get_run split: option.splits)

lemma mem_create_run:
  assumes "mem_objs m k = None"
  obtains tag ob m' where "put_if_absent mem_store k b m = (Inr tag, m')" "ob_body ob = b"
    "mem_objs m' = (mem_objs m)(k \<mapsto> ob)"
proof -
  have w: "put_if_absent mem_store k b m = mem_write k b m"
    using assms by (simp add: mem_store_def mem_put_if_absent_def mem_objs_def)
  obtain r m' where r: "mem_write k b m = (r, m')" by fastforce
  from mem_write_objs [OF this] obtain e ob where "r = Inr e" "ob_body ob = b" "mem_objs m' = (mem_objs m)(k \<mapsto> ob)"
    by blast
  with w r that show thesis by simp
qed

lemma mem_resolve_head:
  assumes "lake_ok L (mem_objs m)" and "marker_at L (mem_objs m) g d" and "g < 4116480"
    and "\<And>k. has_marker (mem_objs m) k \<Longrightarrow> k \<le> g"
  shows "resolve_head L mem_store m = (Inr (d, g), m)"
proof -
  obtain r m' where run: "resolve_head L mem_store m = (r, m')" by fastforce
  have m: "m' = m" using guarD [OF mem_reader.reader_resolve_head run] by simp
  have has: "has_marker (mem_objs m) g" using assms(2) by (rule marker_at_has)
  show ?thesis
  proof (cases r)
    case (Inl e)
    with run assms(1) has mem.resolve_head_reliable [of L m e m'] show ?thesis by blast
  next
    case (Inr x)
    obtain d' g' where x: "x = (d', g')" by fastforce
    from mem.resolve_head_law [OF run assms(1)] m Inr x
    have "marker_at L (mem_objs m) g' d'" "has_marker (mem_objs m) g \<longrightarrow> g < 4116480 \<longrightarrow> g \<le> g'" by auto
    then have "g' = g" using has assms(3,4) marker_at_has by force
    with \<open>marker_at L (mem_objs m) g' d'\<close> assms(2) have "d' = d" by (auto dest: marker_at_unique)
    with run Inr x m \<open>g' = g\<close> show ?thesis by simp
  qed
qed

lemma versions_head:
  assumes "versions_at L U (mem_objs m) vs" and "vs \<noteq> []" and "length vs \<le> 4116480"
  obtains d where "resolve_head L mem_store m = (Inr (d, generation d), m)" "generation d = int (length vs) - 1"
    "marker_at L (mem_objs m) (generation d) d" "payload_holds L U (mem_objs m) d (List.last vs)"
proof -
  from versions_last [OF assms(1,2)] obtain d where d: "marker_at L (mem_objs m) (int (length vs) - 1) d"
    "payload_holds L U (mem_objs m) d (List.last vs)" "generation d = int (length vs) - 1" by blast
  have "has_marker (mem_objs m) k \<Longrightarrow> k \<le> generation d" for k using assms(1) d(3) by (auto simp: versions_at_def)
  with mem_resolve_head [OF versions_lake_ok [OF assms(1)], of "generation d" d] d assms(3) that show thesis by auto
qed

lemma load_manifest_mem:
  assumes "stored_manifest L (mem_objs m) d = Some M"
  shows "load_manifest L mem_store (payload_key_text (generation d) (payload_uuid d)) m = (Inr M, m)"
proof -
  from assms obtain ob where ob: "mem_objs m (payload_key_text (generation d) (payload_uuid d)) = Some ob"
    "length (ob_body ob) \<le> MAX_MANIFEST_BYTES" "manifest_from_bytes L (ob_body ob) = Inr M"
    by (auto simp: stored_manifest_def sniff_manifest_def split: option.splits if_splits sum.splits)
  then show ?thesis by (simp add: load_manifest_def mem_head_meta_run mem_get_run)
qed

lemma reconstruct_mem:
  assumes "packs_in L U (mem_objs m)" and "manifest_holds L U (mem_objs m) M data"
  shows "reconstruct L mem_store M m = (Inr data, m)"
  using fetch_pack_mem [OF assms(1)] packs_sound_full [of L _ M] assms(2)
  by (intro reconstruct_run) (auto simp: manifest_holds_def)

lemma fetch_payload_mem:
  assumes "payload_holds L U (mem_objs m) d data" and "packs_in L U (mem_objs m)" and "valid_generation (generation d)"
  shows "fetch_payload L mem_store d m = (Inr data, m)"
proof (cases "transport_of d")
  case Whole
  with assms obtain ob where "mem_objs m (payload_key_text (generation d) (payload_uuid d)) = Some ob" "ob_body ob = data"
    by (auto simp: payload_holds_def)
  with Whole assms(3) show ?thesis by (simp add: fetch_payload_def payload_key_def mem_get_run)
next
  case Chunked
  with assms(1) obtain M where M: "stored_manifest L (mem_objs m) d = Some M" "manifest_holds L U (mem_objs m) M data"
    by (auto simp: payload_holds_def split: option.splits)
  from load_manifest_mem [OF M(1)] reconstruct_mem [OF assms(2) M(2)] Chunked assms(3)
  show ?thesis by (simp add: fetch_payload_def payload_key_def)
qed

lemma blob_read_mem:
  assumes "versions_at L U (mem_objs m) vs" and "vs \<noteq> []" and "length vs \<le> 4116480"
  shows "blob_read L mem_store m = (Inr (List.last vs), m)"
proof -
  from versions_head [OF assms] obtain d where d: "resolve_head L mem_store m = (Inr (d, generation d), m)"
    "marker_at L (mem_objs m) (generation d) d" "payload_holds L U (mem_objs m) d (List.last vs)" by blast
  have "packs_in L U (mem_objs m)" using assms(1) by (simp add: versions_at_def)
  from fetch_payload_mem [OF d(3) this] d(1,2) show ?thesis
    by (auto simp: blob_read_def dest: marker_at_generation)
qed

text \<open>
  Claim C2. Reading refines the abstract read: on a lake that stands for the versions \<open>vs\<close>,
  \<^verbatim>\<open>BlobStore.read\<close> returns the last version and changes nothing, whatever the hint says and whichever
  transport the version was published with.
\<close>
theorem blob_read_returns_the_last_version:
  assumes "versions_at L U (mem_objs m) vs" and "vs \<noteq> []" and "length vs \<le> 4116480"
  shows "blob_read L mem_store m = (Inr (List.last vs), m)"
  by (rule blob_read_mem [OF assms])

section \<open>A write in memory\<close>

text \<open>Where the chunks, the packs and the manifest of a chunked write fit.\<close>

definition write_fits :: "lib \<Rightarrow> bytes set \<Rightarrow> manifest option \<Rightarrow> int option \<Rightarrow> bytes \<Rightarrow> bool" where
  "write_fits L U base threshold data \<longleftrightarrow> (case threshold of None \<Rightarrow> True | Some t \<Rightarrow>
     t \<le> int (length data) \<longrightarrow> (case build_manifest L data base None DEFAULT_PACK_TARGET of
         Inl e \<Rightarrow> True
       | Inr (M, packs) \<Rightarrow> (\<exists>b. manifest_to_bytes L M = Inr b) \<and> snd ` set packs \<subseteq> U \<and>
           set (range_slices (nat (chunk_size M)) data) \<subseteq> U))"

lemma manifest_of_json_pos:
  assumes "manifest_of_json L j = Some M"
  shows "0 < chunk_size M"
proof -
  from assms obtain kvs where kvs: "as_obj j = Some kvs"
    by (auto simp: manifest_of_json_def split: option.splits)
  have "\<exists>c. required kvs ''chunk_size'' (gt0 L) = Some c \<and> chunk_size M = c"
    using assms kvs unfolding manifest_of_json_def
    by (simp split: if_split_asm option.split_asm) auto
  then show ?thesis by (auto simp: required_Some gt0_def split: option.splits if_splits)
qed

lemma manifest_from_bytes_pos: "manifest_from_bytes L b = Inr M \<Longrightarrow> 0 < chunk_size M"
  by (auto simp: manifest_from_bytes_def dest: manifest_of_json_pos split: if_splits option.splits)

lemma stored_manifest_pos: "stored_manifest L h d = Some M \<Longrightarrow> 0 < chunk_size M"
  by (auto simp: stored_manifest_def sniff_manifest_def dest: manifest_from_bytes_pos
      split: option.splits if_splits sum.splits)

text \<open>What the staged body becomes, once it is stored under the payload key of \<open>d\<close>.\<close>

definition staged :: "lib \<Rightarrow> bytes set \<Rightarrow> contents \<Rightarrow> bytes \<Rightarrow> publish_outcome \<Rightarrow> bytes \<Rightarrow> bool" where
  "staged L U h b landed data \<longleftrightarrow>
     (landed = PublishedWhole (int (length data)) \<and> b = data) \<or>
     (landed = PublishedChunked (int (length data)) \<and> length b \<le> MAX_MANIFEST_BYTES \<and>
       (\<exists>M. manifest_from_bytes L b = Inr M \<and> manifest_holds L U h M data))"

text \<open>The packs a chunked write adds, and what the staged body is when it has been chunked or not.\<close>

definition novel_keys :: "lib \<Rightarrow> manifest option \<Rightarrow> int option \<Rightarrow> bytes \<Rightarrow> key set" where
  "novel_keys L base threshold data = (case threshold of None \<Rightarrow> {} | Some t \<Rightarrow>
     if t \<le> int (length data) then (case build_manifest L data base None DEFAULT_PACK_TARGET of
         Inl e \<Rightarrow> {}
       | Inr (M, packs) \<Rightarrow> format_pack_key ` fst ` set packs) else {})"

definition draws_on :: "lib \<Rightarrow> manifest option \<Rightarrow> int option \<Rightarrow> bytes \<Rightarrow> publish_outcome \<Rightarrow> bytes \<Rightarrow> bool" where
  "draws_on L base threshold data landed b \<longleftrightarrow> (case landed of
     PublishedChunked n \<Rightarrow> (\<exists>t M packs. threshold = Some t \<and> t \<le> int (length data) \<and>
       build_manifest L data base None DEFAULT_PACK_TARGET = Inr (M, packs) \<and> manifest_from_bytes L b = Inr M)
   | PublishedWhole n \<Rightarrow> \<forall>t. threshold = Some t \<longrightarrow> int (length data) < t
   | NotLanded \<Rightarrow> False)"

lemma build_manifest_sources:
  assumes "build_manifest L data base arg tgt = Inr (M, packs)"
  shows "pack_keys M \<subseteq> (case base of None \<Rightarrow> {} | Some B \<Rightarrow> pack_keys B) \<union> format_pack_key ` fst ` set packs"
proof
  fix k
  assume "k \<in> pack_keys M"
  then obtain e where e: "e \<in> set (entries M)" "k = format_pack_key (pack_sha256 e)" by (auto simp: pack_keys_def)
  with build_manifest_Inr [OF assms] obtain c where "entry_from L (base_index_of base (chunk_size M)) packs e c"
    by (auto simp: Let_def in_set_conv_nth)
  then consider B where "base = Some B" "e \<in> set (entries B)" | b where "(pack_sha256 e, b) \<in> set packs"
    by (auto simp: entry_from_def dest!: base_index_Some)
  then show "k \<in> (case base of None \<Rightarrow> {} | Some B \<Rightarrow> pack_keys B) \<union> format_pack_key ` fst ` set packs"
    using e(2) by cases (auto simp: pack_keys_def image_image intro: rev_image_eqI)
qed

lemma draws_keys:
  assumes "draws_on L base threshold data (PublishedChunked n) b" and "manifest_from_bytes L b = Inr M"
  shows "pack_keys M \<subseteq> (case base of None \<Rightarrow> {} | Some B \<Rightarrow> pack_keys B) \<union> novel_keys L base threshold data"
proof -
  from assms obtain t packs where t: "threshold = Some t" "t \<le> int (length data)"
    "build_manifest L data base None DEFAULT_PACK_TARGET = Inr (M, packs)" by (auto simp: draws_on_def)
  then have "novel_keys L base threshold data = format_pack_key ` fst ` set packs" by (simp add: novel_keys_def)
  with build_manifest_sources [OF t(3)] show ?thesis by simp
qed

lemma same_but_packs_key:
  "same_but_packs m m' \<Longrightarrow> \<not> prefix PACKS_PREFIX k \<Longrightarrow> mem_objs m' k = mem_objs m k"
  by (simp add: same_but_packs_def)

lemma stage_payload_mem:
  assumes ok: "lib_ok L" and pin: "packs_in L U (mem_objs m)" and inj: "inj_on (sha256 L) U"
    and base: "\<And>B. base = Some B \<Longrightarrow> 0 < chunk_size B \<and> (\<exists>x. manifest_holds L U (mem_objs m) B x)"
    and fits: "write_fits L U base threshold data"
  shows "\<exists>b landed m'. stage_payload L mem_store data
      \<lparr>chunk_threshold = threshold, base_manifest = base, pack_target = DEFAULT_PACK_TARGET\<rparr> m = (Inr (b, landed), m') \<and>
    staged L U (mem_objs m') b landed data \<and> draws_on L base threshold data landed b \<and>
    packs_in L U (mem_objs m') \<and> packs_grow m m' \<and> same_but_packs m m'"
proof (cases "case threshold of None \<Rightarrow> False | Some t \<Rightarrow> int (length data) \<ge> t")
  case False
  then show ?thesis
    using pin by (auto simp: stage_payload_def staged_def draws_on_def packs_grow_def same_but_packs_def split: option.splits)
next
  case True
  have pos: "0 < start_chunk_size base"
    using base by (auto simp: start_chunk_size_def DEFAULT_CHUNK_SIZE_def split: option.splits)
  from build_manifest_runs_default [OF pos, of L data DEFAULT_PACK_TARGET] obtain M packs where
    b: "build_manifest L data base None DEFAULT_PACK_TARGET = Inr (M, packs)" by blast
  with fits True obtain body where body: "manifest_to_bytes L M = Inr body" and
    U: "snd ` set packs \<subseteq> U" "set (range_slices (nat (chunk_size M)) data) \<subseteq> U"
    by (auto simp: write_fits_def split: option.splits)
  have sound: "packs_sound L (pack_of (mem_objs m)) B" if "base = Some B" for B
    using base [OF that] by (auto simp: manifest_holds_def)
  have "base_chunks (pack_of (mem_objs m)) base \<subseteq> U"
    using base by (cases base) (auto simp: manifest_holds_def base_chunks_def)
  from chunked_publish_mem [OF ok b pin inj sound U this] obtain m1 m2 where
    m1: "publish_packs mem_store packs m = (Inr (), m1)" and
    m2: "verify_packs L mem_store M (novel_pack_index packs) m1 = (Inr (), m2)" and
    P: "packs_in L U (mem_objs m2)" "packs_grow m m2" "manifest_valid M" "packs_sound L (pack_of (mem_objs m2)) M"
      "payload_of (pack_of (mem_objs m2)) M = Some data" "base_chunks (pack_of (mem_objs m2)) (Some M) \<subseteq> U"
    by blast
  have "same_but_packs m m2"
    using guarD [OF mem_packs.guar_publish_packs m1] guarD [OF mem_packs.guar_verify_packs m2]
    by (auto simp: same_but_packs_def)
  moreover have "length body \<le> MAX_MANIFEST_BYTES"
    using body by (auto simp: manifest_to_bytes_def Let_def split: if_splits)
  moreover have "manifest_holds L U (mem_objs m2) M data"
    using P build_manifest_Inr [OF b] by (simp add: manifest_holds_def)
  moreover have "stage_payload L mem_store data
      \<lparr>chunk_threshold = threshold, base_manifest = base, pack_target = DEFAULT_PACK_TARGET\<rparr> m =
      (Inr (body, PublishedChunked (int (length data))), m2)"
    using True b m1 m2 body by (simp add: stage_payload_def)
  moreover have "draws_on L base threshold data (PublishedChunked (int (length data))) body"
    using True b manifest_bytes_inverse [OF ok P(3) body] by (auto simp: draws_on_def split: option.splits)
  ultimately show ?thesis
    using P(1,2) manifest_bytes_inverse [OF ok P(3) body] by (auto simp: staged_def)
qed

text \<open>The versions grow by one when a marker and a payload that stands for the data have been added.\<close>

lemma payload_holds_grow:
  assumes "payload_holds L U h d x"
    and "\<And>s b. pack_of h s = Some b \<Longrightarrow> pack_of h' s = Some b"
    and "\<And>k ob. prefix PAYLOAD_PREFIX k \<Longrightarrow> h k = Some ob \<Longrightarrow> h' k = Some ob"
  shows "payload_holds L U h' d x"
proof (cases "transport_of d")
  case Whole
  with assms(1,3) show ?thesis by (auto simp: payload_holds_def)
next
  case Chunked
  with assms(1) obtain M where M: "stored_manifest L h d = Some M" "manifest_holds L U h M x"
    by (auto simp: payload_holds_def split: option.splits)
  have "stored_manifest L h' d = Some M"
    using M(1) assms(3) [of "payload_key_text (generation d) (payload_uuid d)"]
    by (auto simp: stored_manifest_def split: if_splits option.splits)
  moreover have "manifest_holds L U h' M x"
  proof -
    from M(2) have P: "packs_sound L (pack_of h) M" "payload_of (pack_of h) M = Some x"
      by (simp_all add: manifest_holds_def)
    have "packs_sound L (pack_of h') M" using P(1) assms(2) by (rule packs_sound_mono)
    moreover have "payload_of (pack_of h') M = Some x" using P(2) assms(2) by (rule payload_of_mono)
    moreover have "base_chunks (pack_of h') (Some M) = base_chunks (pack_of h) (Some M)"
      using P(1) assms(2) by (rule base_chunks_mono)
    ultimately show ?thesis using M(2) by (simp add: manifest_holds_def)
  qed
  ultimately show ?thesis using Chunked by (simp add: payload_holds_def)
qed

lemma versions_extend:
  assumes ok: "lib_ok L" and vs: "versions_at L U h vs" and pin: "packs_in L U h'"
    and grow: "\<And>s b. pack_of h s = Some b \<Longrightarrow> pack_of h' s = Some b"
    and roots: "\<And>k. prefix ROOTS_PREFIX k \<Longrightarrow> k \<noteq> marker_key_text (int (length vs)) \<Longrightarrow> h' k = h k"
    and payloads: "\<And>k ob. prefix PAYLOAD_PREFIX k \<Longrightarrow> h k = Some ob \<Longrightarrow> h' k = Some ob"
    and d: "doc_valid d" "generation d = int (length vs)"
    and marker: "map_option ob_body (h' (marker_key_text (int (length vs)))) = Some (root_to_json_bytes L d)"
    and data: "payload_holds L U h' d data"
  shows "versions_at L U h' (vs @ [data])"
proof -
  let ?n = "int (length vs)"
  have v: "valid_generation ?n" using d by (simp add: doc_valid_def)
  have other: "h' (marker_key_text g) = h (marker_key_text g)" if "0 \<le> g" "g \<noteq> ?n" for g
    using that by (intro roots) auto
  have at: "marker_at L h' ?n d"
    using marker d v ok by (auto simp: marker_at_def root_doc_roundtrip_lemma)
  have "has_marker h' g \<longleftrightarrow> 0 \<le> g \<and> g < int (length (vs @ [data]))" for g
  proof (cases "g = ?n")
    case True
    with marker_at_has [OF at] show ?thesis by simp
  next
    case False
    then have "has_marker h' g \<longleftrightarrow> has_marker h g"
      using other [of g] by (cases "0 \<le> g") (auto simp: has_marker_def valid_generation_def)
    with vs False show ?thesis by (auto simp: versions_at_def)
  qed
  moreover have "\<exists>d. marker_at L h' (int i) d \<and> payload_holds L U h' d ((vs @ [data]) ! i)"
    if i: "i < length (vs @ [data])" for i
  proof (cases "i = length vs")
    case True
    with at data show ?thesis by auto
  next
    case False
    with i have "i < length vs" by simp
    with vs obtain d0 where d0: "marker_at L h (int i) d0" "payload_holds L U h d0 (vs ! i)"
      unfolding versions_at_def by blast
    from d0(1) have "marker_at L h' (int i) d0" using other [of "int i"] False by (simp add: marker_at_def)
    moreover have "payload_holds L U h' d0 (vs ! i)"
      using d0(2) grow payloads by (rule payload_holds_grow)
    ultimately have "marker_at L h' (int i) d0 \<and> payload_holds L U h' d0 ((vs @ [data]) ! i)"
      using \<open>i < length vs\<close> by (simp add: nth_append)
    then show ?thesis by blast
  qed
  ultimately show ?thesis using pin by (simp add: versions_at_def)
qed

subsection \<open>Landing\<close>

lemma win_marker_mem:
  assumes "doc_valid d" and "mem_objs m (marker_key_text (generation d)) = None"
  obtains ob m' where "create_marker_resolving L mem_store d u a mx m = (Inr WON, m')"
    "ob_body ob = root_to_json_bytes L d" "mem_objs m' = (mem_objs m)(marker_key_text (generation d) \<mapsto> ob)"
proof -
  from mem_create_run [OF assms(2), of "root_to_json_bytes L d"] obtain tag ob m' where
    p: "put_if_absent mem_store (marker_key_text (generation d)) (root_to_json_bytes L d) m = (Inr tag, m')" and
    ob: "ob_body ob = root_to_json_bytes L d" "mem_objs m' = (mem_objs m)(marker_key_text (generation d) \<mapsto> ob)" by blast
  from p assms(1) have "create_marker L mem_store d m = (Inr (), m')" by (simp add: create_marker_def)
  then have "create_marker_resolving L mem_store d u a mx m = (Inr WON, m')"
    by (subst create_marker_resolving.simps) (simp add: bind_io_def try_io_def)
  with ob that show thesis by blast
qed

lemma write_hint_mem:
  obtains m' where "write_hint L mem_store g m = (Inr (), m')"
    "\<And>k. k \<noteq> ROOT_HINT_KEY \<Longrightarrow> mem_objs m' k = mem_objs m k"
proof -
  obtain r m' where w: "put mem_store ROOT_HINT_KEY (hint_to_json_bytes L g) m = (r, m')" by fastforce
  then have "mem_write ROOT_HINT_KEY (hint_to_json_bytes L g) m = (r, m')" by (simp add: mem_store_def mem_put_def)
  from mem_write_objs [OF this] obtain tag ob where "r = Inr tag" "mem_objs m' = (mem_objs m)(ROOT_HINT_KEY \<mapsto> ob)"
    by blast
  with w that [of m'] show thesis by (simp add: write_hint_def bind_io_def try_io_def)
qed

lemma area_keys [simp]:
  "payload_key_text g u \<noteq> marker_key_text j" "format_pack_key sha \<noteq> payload_key_text g u"
  "format_pack_key sha \<noteq> marker_key_text j" "\<not> prefix PAYLOAD_PREFIX ROOT_HINT_KEY"
  "format_pack_key sha \<noteq> ROOT_HINT_KEY" "\<not> prefix PACKS_PREFIX (payload_key_text g u)"
  "\<not> prefix PACKS_PREFIX (marker_key_text j)" "\<not> prefix PAYLOAD_PREFIX (marker_key_text j)"
  "\<not> prefix PAYLOAD_PREFIX (format_pack_key sha)"
  by (auto simp: payload_key_text_def marker_key_text_def format_pack_key_def PAYLOAD_PREFIX_def ROOTS_PREFIX_def
      PACKS_PREFIX_def ROOT_HINT_KEY_def)

lemma area_disjoint:
  "prefix PACKS_PREFIX k \<Longrightarrow> \<not> prefix ROOTS_PREFIX k" "prefix PACKS_PREFIX k \<Longrightarrow> \<not> prefix PAYLOAD_PREFIX k"
  by (auto simp: PAYLOAD_PREFIX_def ROOTS_PREFIX_def PACKS_PREFIX_def prefix_def)

lemma staged_holds:
  assumes "staged L U h b landed data" and "h' (payload_key_text (generation d) (payload_uuid d)) = Some ob" and "ob_body ob = b"
    and "pack_of h' = pack_of h"
    and "transport_of d = (if landed = PublishedWhole (int (length data)) then Whole else Chunked)"
  shows "payload_holds L U h' d data"
  using assms by (auto simp: staged_def payload_holds_def stored_manifest_def sniff_manifest_def manifest_holds_def)

text \<open>
  What a write leaves when it has won its marker: the packs have grown, the payload object \<open>b\<close> and the marker of
  \<open>d\<close> are there, and nothing but the hint has changed besides.
\<close>

definition appended :: "lib \<Rightarrow> bytes set \<Rightarrow> mem \<Rightarrow> root_doc \<Rightarrow> bytes \<Rightarrow> bytes \<Rightarrow> mem \<Rightarrow> bool" where
  "appended L U m d b data m' \<longleftrightarrow> packs_in L U (mem_objs m') \<and> packs_grow m m' \<and> doc_valid d \<and>
     (\<forall>k. \<not> prefix PACKS_PREFIX k \<longrightarrow> k \<notin> {ROOT_HINT_KEY, payload_key_text (generation d) (payload_uuid d), marker_key_text (generation d)} \<longrightarrow>
        mem_objs m' k = mem_objs m k) \<and>
     map_option ob_body (mem_objs m' (marker_key_text (generation d))) = Some (root_to_json_bytes L d) \<and>
     map_option ob_body (mem_objs m' (payload_key_text (generation d) (payload_uuid d))) = Some b \<and>
     payload_holds L U (mem_objs m') d data"

lemma appended_marker:
  assumes "lib_ok L" and "appended L U m d b data m'"
  shows "marker_at L (mem_objs m') (generation d) d"
  using assms by (auto simp: appended_def marker_at_def root_doc_roundtrip_lemma doc_valid_def)

lemma appended_versions:
  assumes ok: "lib_ok L" and vs: "versions_at L U (mem_objs m) vs" and "generation d = int (length vs)"
    and fresh: "mem_objs m (payload_key_text (generation d) (payload_uuid d)) = None" and app: "appended L U m d b data m'"
  shows "versions_at L U (mem_objs m') (vs @ [data])"
proof (rule versions_extend [OF ok vs])
  let ?k = "payload_key_text (generation d) (payload_uuid d)"
  note app' = app [unfolded appended_def]
  show "packs_in L U (mem_objs m')" "doc_valid d" "payload_holds L U (mem_objs m') d data" "generation d = int (length vs)"
    "map_option ob_body (mem_objs m' (marker_key_text (int (length vs)))) = Some (root_to_json_bytes L d)"
    using app' assms(3) by auto
  show "pack_of (mem_objs m) s = Some x \<Longrightarrow> pack_of (mem_objs m') s = Some x" for s x
    using app' by (simp add: packs_grow_def)
  show "mem_objs m' k = mem_objs m k" if k: "prefix ROOTS_PREFIX k" "k \<noteq> marker_key_text (int (length vs))" for k
  proof -
    have "k \<noteq> ROOT_HINT_KEY" "k \<noteq> ?k" "\<not> prefix PACKS_PREFIX k" using k(1) by (auto dest: area_disjoint)
    with k(2) app' assms(3) show ?thesis by simp
  qed
  show "mem_objs m' k = Some o0" if k: "prefix PAYLOAD_PREFIX k" "mem_objs m k = Some o0" for k o0
  proof -
    have "k \<noteq> ROOT_HINT_KEY" "k \<noteq> ?k" "k \<noteq> marker_key_text (generation d)" "\<not> prefix PACKS_PREFIX k"
      using k fresh by (auto dest: area_disjoint)
    with k(2) app' show ?thesis by simp
  qed
qed

lemma land_appended:
  assumes m1: "packs_in L U (mem_objs m1)" "packs_grow m m1" "same_but_packs m m1"
    and st: "staged L U (mem_objs m1) b landed data"
    and d: "doc_valid d" "transport_of d = (if landed = PublishedWhole (int (length data)) then Whole else Chunked)"
    and fresh: "mem_objs m (payload_key_text (generation d) (payload_uuid d)) = None"
      "mem_objs m (marker_key_text (generation d)) = None"
  shows "\<exists>tag m2 m3 m4. put_if_absent mem_store (payload_key_text (generation d) (payload_uuid d)) b m1 = (Inr tag, m2) \<and>
    create_marker_resolving L mem_store d u a mx m2 = (Inr WON, m3) \<and>
    write_hint L mem_store (generation d) m3 = (Inr (), m4) \<and> appended L U m d b data m4"
proof -
  let ?k = "payload_key_text (generation d) (payload_uuid d)" and ?mk = "marker_key_text (generation d)"
  note m1_key = same_but_packs_key [OF m1(3)]
  from fresh(1) m1_key [of ?k] have "mem_objs m1 ?k = None" by simp
  from mem_create_run [OF this, of b] obtain tag ob m2 where
    m2: "put_if_absent mem_store ?k b m1 = (Inr tag, m2)" "ob_body ob = b" "mem_objs m2 = (mem_objs m1)(?k \<mapsto> ob)" by blast
  from fresh(2) m1_key [of ?mk] m2(3) have "mem_objs m2 ?mk = None" by (simp add: area_keys(1) [symmetric])
  from win_marker_mem [OF d(1) this] obtain ob' m3 where
    m3: "create_marker_resolving L mem_store d u a mx m2 = (Inr WON, m3)" "ob_body ob' = root_to_json_bytes L d"
      "mem_objs m3 = (mem_objs m2)(?mk \<mapsto> ob')" by blast
  obtain m4 where m4: "write_hint L mem_store (generation d) m3 = (Inr (), m4)"
    "\<And>k. k \<noteq> ROOT_HINT_KEY \<Longrightarrow> mem_objs m4 k = mem_objs m3 k" using write_hint_mem by blast
  have h4: "mem_objs m4 k = (if k = ?mk then Some ob' else if k = ?k then Some ob else mem_objs m1 k)"
    if "k \<noteq> ROOT_HINT_KEY" for k
    using m4(2) [OF that] m3(3) m2(3) by simp
  have packs: "pack_of (mem_objs m4) = pack_of (mem_objs m1)"
    by (rule ext) (simp add: pack_of_def h4)
  have not_hint: "?k \<noteq> ROOT_HINT_KEY" "?mk \<noteq> ROOT_HINT_KEY"
    using area_keys(4) prefix_payload_key hint_key_not_root prefix_roots_marker by metis+
  have "payload_holds L U (mem_objs m4) d data"
    using st h4 [OF not_hint(1)] m2(2) packs d(2) by (intro staged_holds) auto
  then have "appended L U m d b data m4"
    using m1(1,2) d(1) h4 m1_key m2(2) m3(2) not_hint packs by (simp add: appended_def packs_in_def packs_grow_def)
  with m2(1) m3(1) m4(1) show ?thesis by blast
qed

lemma land_mem:
  assumes ok: "lib_ok L" and vs: "versions_at L U (mem_objs m) vs"
    and m1: "packs_in L U (mem_objs m1)" "packs_grow m m1" "same_but_packs m m1"
    and st: "staged L U (mem_objs m1) b landed data"
    and d: "doc_valid d" "generation d = int (length vs)"
      "transport_of d = (if landed = PublishedWhole (int (length data)) then Whole else Chunked)"
    and fresh: "mem_objs m (payload_key_text (generation d) (payload_uuid d)) = None"
  shows "\<exists>tag m2 m3 m4. put_if_absent mem_store (payload_key_text (generation d) (payload_uuid d)) b m1 = (Inr tag, m2) \<and>
    create_marker_resolving L mem_store d u a mx m2 = (Inr WON, m3) \<and>
    write_hint L mem_store (generation d) m3 = (Inr (), m4) \<and> versions_at L U (mem_objs m4) (vs @ [data]) \<and>
    marker_at L (mem_objs m4) (generation d) d"
proof -
  have "\<not> has_marker (mem_objs m) (generation d)" using vs d(2) by (simp add: versions_at_def)
  then have "mem_objs m (marker_key_text (generation d)) = None" using d(1) by (simp add: has_marker_def doc_valid_def)
  from land_appended [OF m1 st d(1,3) fresh this] appended_versions [OF ok vs d(2) fresh] appended_marker [OF ok]
  show ?thesis by meson
qed

section \<open>The refinement\<close>

lemma blob_policy_mem:
  assumes "payload_holds L U (mem_objs m) d data" and "valid_generation (generation d)"
  shows "blob_policy L mem_store threshold d m =
    (Inr \<lparr>chunk_threshold = threshold, base_manifest = stored_manifest L (mem_objs m) d, pack_target = DEFAULT_PACK_TARGET\<rparr>, m)"
proof (cases "transport_of d")
  case Chunked
  with assms(1) obtain M where M: "stored_manifest L (mem_objs m) d = Some M"
    by (auto simp: payload_holds_def split: option.splits)
  from load_manifest_mem [OF M] Chunked assms(2) M show ?thesis by (simp add: blob_policy_def payload_key_def)
qed (simp add: blob_policy_def stored_manifest_def)

lemma try_create_marker_mem:
  assumes "create_marker_resolving L mem_store d u a mx m = (Inr WON, m1)"
    and "write_hint L mem_store (generation d) m1 = (Inr (), m2)"
  shows "try_create_marker L mem_store d u a mx m =
    (Inr (Some \<lparr>result_generation = generation d, result_uuid = u, attempts = a + 1\<rparr>), m2)"
  using assms by (simp add: try_create_marker_def)

text \<open>A lake with the newest generation \<open>d\<close>, readable. The payloads of older generations may be gone.\<close>

definition headed :: "lib \<Rightarrow> bytes set \<Rightarrow> contents \<Rightarrow> root_doc \<Rightarrow> bool" where
  "headed L U h d \<longleftrightarrow> lake_ok L h \<and> packs_in L U h \<and> marker_at L h (generation d) d \<and> generation d < 4116480 \<and>
     (\<forall>g. has_marker h g \<longrightarrow> g \<le> generation d) \<and> (\<exists>x. payload_holds L U h d x)"

lemma versions_headed:
  assumes "versions_at L U h vs" "vs \<noteq> []" "length vs \<le> 4116480" and "marker_at L h (int (length vs) - 1) d"
  shows "headed L U h d \<and> generation d + 1 = int (length vs)"
proof -
  from versions_last [OF assms(1,2)] obtain d' where "marker_at L h (int (length vs) - 1) d'" "payload_holds L U h d' (List.last vs)" by blast
  with assms(4) have "payload_holds L U h d (List.last vs)" by (auto dest: marker_at_unique)
  with assms marker_at_generation [OF assms(4)] versions_lake_ok [OF assms(1)] show ?thesis
    by (auto simp: headed_def versions_at_def)
qed

lemma headed_head: "headed L U (mem_objs m) d \<Longrightarrow> resolve_head L mem_store m = (Inr (d, generation d), m)"
  by (rule mem_resolve_head) (auto simp: headed_def)

text \<open>The driver's first attempt on an undisturbed lake: publish, then win the marker.\<close>

abbreviation first_result :: "environment \<Rightarrow> root_doc \<Rightarrow> commit_result" where
  "first_result env d \<equiv> \<lparr>result_generation = generation d + 1, result_uuid = uuid4 env 0, attempts = 1\<rparr>"

lemma first_attempt_headed:
  assumes ok: "lib_ok L" and inj: "inj_on (sha256 L) U" and head: "headed L U (mem_objs m) d"
    and fits: "write_fits L U (stored_manifest L (mem_objs m) d) threshold data"
    and fresh: "mem_objs m (payload_key_text (generation d + 1) (uuid4 env 0)) = None"
  obtains out tr b m2 m4 where "(out = PublishedWhole (int (length data)) \<and> tr = Whole) \<or> (out = PublishedChunked (int (length data)) \<and> tr = Chunked)"
    "publish_resolved L mem_store data (generation d + 1) (uuid4 env 0) 0 mx
       \<lparr>chunk_threshold = threshold, base_manifest = stored_manifest L (mem_objs m) d, pack_target = DEFAULT_PACK_TARGET\<rparr> m = (Inr out, m2)"
    "try_create_marker L mem_store (next_doc env d 0 tr (int (length data))) (uuid4 env 0) 0 mx m2 =
       (Inr (Some (first_result env d)), m4)"
    "appended L U m (next_doc env d 0 tr (int (length data))) b data m4"
    "draws_on L (stored_manifest L (mem_objs m) d) threshold data out b"
proof -
  let ?n = "generation d + 1" and ?u = "uuid4 env 0"
  from head obtain x where hd: "lake_ok L (mem_objs m)" "packs_in L U (mem_objs m)" "marker_at L (mem_objs m) (generation d) d"
    "generation d < 4116480" "\<And>g. has_marker (mem_objs m) g \<Longrightarrow> g \<le> generation d" "payload_holds L U (mem_objs m) d x"
    by (auto simp: headed_def)
  have n: "valid_generation ?n"
    using hd(3,4) by (auto simp: valid_generation_def MAX_GENERATION_def dest: marker_at_generation)
  let ?base = "stored_manifest L (mem_objs m) d"
  let ?policy = "\<lparr>chunk_threshold = threshold, base_manifest = ?base, pack_target = DEFAULT_PACK_TARGET\<rparr>"
  have base: "0 < chunk_size B \<and> (\<exists>x. manifest_holds L U (mem_objs m) B x)" if "?base = Some B" for B
    using that hd(6) stored_manifest_pos [OF that]
    by (cases "transport_of d") (auto simp: payload_holds_def stored_manifest_def)
  from stage_payload_mem [OF ok hd(2) inj base fits] obtain b landed m1 where
    st: "stage_payload L mem_store data ?policy m = (Inr (b, landed), m1)" "staged L U (mem_objs m1) b landed data"
      "draws_on L ?base threshold data landed b" and
    m1: "packs_in L U (mem_objs m1)" "packs_grow m m1" "same_but_packs m m1" by blast
  define tr where "tr = (if landed = PublishedWhole (int (length data)) then Whole else Chunked)"
  let ?d = "next_doc env d 0 tr (int (length data))"
  have "may_create (mem_objs m) ?d"
    using commit_context.next_doc_ok [OF mem.blob_context ok, of "mem_objs m" d] hd(3) n by simp
  then have dv: "doc_valid ?d" by (simp add: may_create_def)
  have sel: "generation ?d = ?n" "payload_uuid ?d = ?u" "transport_of ?d = tr" by (simp_all add: next_doc_def)
  have "\<not> has_marker (mem_objs m) ?n" using hd(5) [of ?n] by auto
  then have "mem_objs m (marker_key_text ?n) = None" using n by (simp add: has_marker_def)
  with land_appended [OF m1 st(2) dv, of ?u 0 mx] sel fresh obtain tag m2 m3 m4 where
    run: "put_if_absent mem_store (payload_key_text ?n ?u) b m1 = (Inr tag, m2)"
      "create_marker_resolving L mem_store ?d ?u 0 mx m2 = (Inr WON, m3)"
      "write_hint L mem_store ?n m3 = (Inr (), m4)" and res: "appended L U m ?d b data m4"
    by (auto simp: tr_def)
  have "publish_resolved L mem_store data ?n ?u 0 mx ?policy m = (Inr landed, m2)"
    using n st(1) run(1) by (simp add: publish_resolved_def bind_io_def try_io_def)
  moreover have "try_create_marker L mem_store ?d ?u 0 mx m2 = (Inr (Some (first_result env d)), m4)"
    using try_create_marker_mem [OF run(2), of m4] run(3) sel by simp
  moreover have "(landed = PublishedWhole (int (length data)) \<and> tr = Whole) \<or> (landed = PublishedChunked (int (length data)) \<and> tr = Chunked)"
    using st(2) by (auto simp: staged_def tr_def)
  ultimately show thesis using that res st(3) by blast
qed

lemma first_attempt_mem:
  assumes ok: "lib_ok L" and inj: "inj_on (sha256 L) U"
    and vs: "versions_at L U (mem_objs m) vs" "vs \<noteq> []" "length vs \<le> 4116480"
    and head: "marker_at L (mem_objs m) (int (length vs) - 1) d"
    and fits: "write_fits L U (stored_manifest L (mem_objs m) d) threshold data"
    and fresh: "mem_objs m (payload_key_text (int (length vs)) (uuid4 env 0)) = None"
  obtains out tr m2 m4 where "(out = PublishedWhole (int (length data)) \<and> tr = Whole) \<or> (out = PublishedChunked (int (length data)) \<and> tr = Chunked)"
    "publish_resolved L mem_store data (generation d + 1) (uuid4 env 0) 0 mx
       \<lparr>chunk_threshold = threshold, base_manifest = stored_manifest L (mem_objs m) d, pack_target = DEFAULT_PACK_TARGET\<rparr> m = (Inr out, m2)"
    "try_create_marker L mem_store (next_doc env d 0 tr (int (length data))) (uuid4 env 0) 0 mx m2 =
       (Inr (Some \<lparr>result_generation = int (length vs), result_uuid = uuid4 env 0, attempts = 1\<rparr>), m4)"
    "versions_at L U (mem_objs m4) (vs @ [data])"
proof -
  from versions_headed [OF vs head] have hd: "headed L U (mem_objs m) d" and n: "generation d + 1 = int (length vs)" by blast+
  obtain out tr b m2 m4 where
    out: "(out = PublishedWhole (int (length data)) \<and> tr = Whole) \<or> (out = PublishedChunked (int (length data)) \<and> tr = Chunked)"
    and run: "publish_resolved L mem_store data (generation d + 1) (uuid4 env 0) 0 mx
       \<lparr>chunk_threshold = threshold, base_manifest = stored_manifest L (mem_objs m) d, pack_target = DEFAULT_PACK_TARGET\<rparr> m = (Inr out, m2)"
      "try_create_marker L mem_store (next_doc env d 0 tr (int (length data))) (uuid4 env 0) 0 mx m2 = (Inr (Some (first_result env d)), m4)"
    and app: "appended L U m (next_doc env d 0 tr (int (length data))) b data m4"
    and "draws_on L (stored_manifest L (mem_objs m) d) threshold data out b"
    by (rule first_attempt_headed [OF ok inj hd fits fresh [folded n], of mx])
  have "versions_at L U (mem_objs m4) (vs @ [data])"
    using fresh n by (intro appended_versions [OF ok vs(1) _ _ app]) (simp_all add: next_doc_def)
  with that [OF out run(1)] run(2) show thesis by (simp add: n)
qed

text \<open>The whole step of the driver, and the write.\<close>

lemma blob_advance_headed:
  assumes ok: "lib_ok L" and inj: "inj_on (sha256 L) U" and head: "headed L U (mem_objs m) d"
    and fits: "write_fits L U (stored_manifest L (mem_objs m) d) threshold data"
    and fresh: "mem_objs m (payload_key_text (generation d + 1) (uuid4 env 0)) = None"
  obtains out tr b m' where "(out = PublishedWhole (int (length data)) \<and> tr = Whole) \<or> (out = PublishedChunked (int (length data)) \<and> tr = Chunked)"
    "advance L mem_store env (blob_hooks L mem_store threshold) mx d data 0 m = (Inr (Committed (first_result env d)), m')"
    "appended L U m (next_doc env d 0 tr (int (length data))) b data m'"
    "draws_on L (stored_manifest L (mem_objs m) d) threshold data out b"
proof -
  let ?h = "blob_hooks L mem_store threshold" and ?u = "uuid4 env 0"
  from head obtain x where x: "payload_holds L U (mem_objs m) d x" "valid_generation (generation d)"
    by (auto simp: headed_def dest: marker_at_generation)
  note pol = blob_policy_mem [OF x, of threshold]
  obtain out tr b m2 m4 where
    out: "(out = PublishedWhole (int (length data)) \<and> tr = Whole) \<or> (out = PublishedChunked (int (length data)) \<and> tr = Chunked)"
    and run: "publish_resolved L mem_store data (generation d + 1) ?u 0 mx
       \<lparr>chunk_threshold = threshold, base_manifest = stored_manifest L (mem_objs m) d, pack_target = DEFAULT_PACK_TARGET\<rparr> m = (Inr out, m2)"
      "try_create_marker L mem_store (next_doc env d 0 tr (int (length data))) ?u 0 mx m2 = (Inr (Some (first_result env d)), m4)"
    and res: "appended L U m (next_doc env d 0 tr (int (length data))) b data m4"
      "draws_on L (stored_manifest L (mem_objs m) d) threshold data out b"
    by (rule first_attempt_headed [OF assms, of mx])
  have "payload_uuid (next_doc env d 0 tr (int (length data))) = ?u" by (simp add: next_doc_def)
  with run(2) have "create_and_rebase L mem_store ?h mx (next_doc env d 0 tr (int (length data))) data 0 m2 =
      (Inr (Committed (first_result env d)), m4)"
    by (simp add: create_and_rebase_def)
  with pol run(1) out have "advance L mem_store env ?h mx d data 0 m = (Inr (Committed (first_result env d)), m4)"
    by (auto simp: advance_def bind_io_def)
  with out res that show thesis by blast
qed

lemma blob_advance_mem:
  assumes ok: "lib_ok L" and inj: "inj_on (sha256 L) U"
    and vs: "versions_at L U (mem_objs m) vs" "vs \<noteq> []" "length vs \<le> 4116480"
    and head: "marker_at L (mem_objs m) (int (length vs) - 1) d"
    and fits: "write_fits L U (stored_manifest L (mem_objs m) d) threshold data"
    and fresh: "mem_objs m (payload_key_text (int (length vs)) (uuid4 env 0)) = None"
  shows "\<exists>m'. resolve_head L mem_store m = (Inr (d, generation d), m) \<and>
    advance L mem_store env (blob_hooks L mem_store threshold) mx d data 0 m =
      (Inr (Committed \<lparr>result_generation = int (length vs), result_uuid = uuid4 env 0, attempts = 1\<rparr>), m') \<and>
    versions_at L U (mem_objs m') (vs @ [data])"
proof -
  from versions_headed [OF vs head] have hd: "headed L U (mem_objs m) d" and n: "generation d + 1 = int (length vs)" by blast+
  from blob_advance_headed [OF ok inj hd fits fresh [folded n], of mx] obtain tr b m' where
    run: "advance L mem_store env (blob_hooks L mem_store threshold) mx d data 0 m = (Inr (Committed (first_result env d)), m')"
    and app: "appended L U m (next_doc env d 0 tr (int (length data))) b data m'" by blast
  have "versions_at L U (mem_objs m') (vs @ [data])"
    using fresh n by (intro appended_versions [OF ok vs(1) _ _ app]) (simp_all add: next_doc_def)
  with headed_head [OF hd] run show ?thesis by (simp add: n)
qed

lemma blob_write_mem:
  assumes "lib_ok L" and "inj_on (sha256 L) U"
    and "versions_at L U (mem_objs m) vs" "vs \<noteq> []" "length vs \<le> 4116480"
    and "marker_at L (mem_objs m) (int (length vs) - 1) d"
    and "write_fits L U (stored_manifest L (mem_objs m) d) threshold data"
    and "mem_objs m (payload_key_text (int (length vs)) (uuid4 env 0)) = None"
  shows "\<exists>m'. blob_write L mem_store env threshold mx data m =
      Some (Inr \<lparr>result_generation = int (length vs), result_uuid = uuid4 env 0, attempts = 1\<rparr>, m') \<and>
    versions_at L U (mem_objs m') (vs @ [data])"
  using blob_advance_mem [OF assms, of mx] by (auto simp: blob_write_def run_commit_def)

lemma blob_bootstrap_mem:
  assumes ok: "lib_ok L" and vs: "versions_at L U (mem_objs m) []"
    and fresh: "mem_objs m (payload_key_text 0 (uuid4 env 0)) = None"
  shows "\<exists>doc m'. blob_bootstrap L mem_store probes env mx False initial m = (Inr doc, m') \<and>
    marker_at L (mem_objs m') 0 doc \<and> transport_of doc = Whole \<and> versions_at L U (mem_objs m') [initial]"
proof -
  let ?d = "\<lparr>generation = 0, payload_uuid = uuid4 env 0, created_at = now env 0, writer = writer_info_of env,
                pins = [], transport_of = Whole, payload_size = int (length initial)\<rparr>"
  have v: "valid_generation 0" by (simp add: valid_generation_def MAX_GENERATION_def)
  then have dv: "doc_valid ?d" by (simp add: doc_valid_def)
  have "packs_in L U (mem_objs m)" using vs by (simp add: versions_at_def)
  moreover have "packs_grow m m" "same_but_packs m m" by (simp_all add: packs_grow_def same_but_packs_def)
  moreover have "staged L U (mem_objs m) initial (PublishedWhole (int (length initial))) initial" by (simp add: staged_def)
  ultimately have "\<exists>tag m2 m3 m4. put_if_absent mem_store (payload_key_text 0 (uuid4 env 0)) initial m = (Inr tag, m2) \<and>
    create_marker_resolving L mem_store ?d (uuid4 env 0) 0 mx m2 = (Inr WON, m3) \<and>
    write_hint L mem_store 0 m3 = (Inr (), m4) \<and> versions_at L U (mem_objs m4) ([] @ [initial]) \<and>
    marker_at L (mem_objs m4) 0 ?d"
    using land_mem [OF ok vs, of m initial "PublishedWhole (int (length initial))" initial ?d "uuid4 env 0" 0 mx] dv fresh
    by simp
  then obtain tag m2 m3 m4 where "put_if_absent mem_store (payload_key_text 0 (uuid4 env 0)) initial m = (Inr tag, m2)"
    "create_marker_resolving L mem_store ?d (uuid4 env 0) 0 mx m2 = (Inr WON, m3)"
    "write_hint L mem_store 0 m3 = (Inr (), m4)" "versions_at L U (mem_objs m4) [initial]" "marker_at L (mem_objs m4) 0 ?d" by auto
  then show ?thesis by (cases probes) (auto simp add: blob_bootstrap_def Let_def v bind_io_def)
qed

text \<open>
  Claim C1. Writing refines the abstract append: on a lake that stands for the versions \<open>vs\<close>,
  \<^verbatim>\<open>BlobStore.write\<close> succeeds at the first attempt with the next generation, and the lake then stands for
  \<open>vs @ [data]\<close>: every older version is kept, the new one is whole or chunked by the threshold, and
  deduplicated against the previous manifest. SHA-256 has to be collision free on \<open>U\<close> and the fresh uuid
  has to be fresh.
\<close>
theorem blob_write_appends_a_version:
  assumes "lib_ok L" and "inj_on (sha256 L) U"
    and "versions_at L U (mem_objs m) vs" and "vs \<noteq> []" and "length vs \<le> 4116480"
    and "marker_at L (mem_objs m) (int (length vs) - 1) d"
    and "write_fits L U (stored_manifest L (mem_objs m) d) threshold data"
    and "mem_objs m (payload_key_text (int (length vs)) (uuid4 env 0)) = None"
  shows "\<exists>res m'. blob_write L mem_store env threshold max_attempts data m = Some (Inr res, m') \<and>
    result_generation res = int (length vs) \<and> result_uuid res = uuid4 env 0 \<and> attempts res = 1 \<and>
    versions_at L U (mem_objs m') (vs @ [data])"
  using blob_write_mem [OF assms, of max_attempts] by force

text \<open>
  \<^verbatim>\<open>BlobStore.bootstrap\<close> on a prefix without markers succeeds: the document it returns is the
  marker of generation 0, and the lake then stands for the single version \<open>initial\<close>.
\<close>
theorem blob_bootstrap_starts_the_lake:
  assumes "lib_ok L" and "versions_at L U (mem_objs m) []"
    and "mem_objs m (payload_key_text 0 (uuid4 env 0)) = None"
  shows "\<exists>doc m'. blob_bootstrap L mem_store probes env max_attempts False initial m = (Inr doc, m') \<and>
    marker_at L (mem_objs m') 0 doc \<and> versions_at L U (mem_objs m') [initial]"
  using blob_bootstrap_mem [OF assms] by blast

section \<open>Samples\<close>

definition short :: "bytes set" where
  "short = {b. length b \<le> 31}"

lemma short_inj: "inj_on (sha256 sample_lib) short"
  by (rule sample_sha_inj) (simp add: short_def)

lemma versions_empty: "versions_at L U (mem_objs empty_mem) []"
  by (simp add: versions_at_def packs_in_def pack_of_def has_marker_def)

text \<open>The lake with the one version \<open>''abc''\<close>, published whole under uuid 10.\<close>

definition sample_blob :: mem where
  "sample_blob = snd (mem_write (payload_key_text 0 10) ''abc'' (sample_mem [10]))"

lemma sample_blob_objs:
  "\<exists>ob. ob_body ob = ''abc'' \<and> mem_objs sample_blob = (mem_objs (sample_mem [10]))(payload_key_text 0 10 \<mapsto> ob)"
  using mem_write_objs [of "payload_key_text 0 10" "''abc''" "sample_mem [10]"] by (force simp: sample_blob_def mem_write_run)

lemma sample_next_key: "payload_key_text 1 u \<noteq> payload_key_text 0 v"
proof
  assume "payload_key_text 1 u = payload_key_text 0 v"
  moreover have "parse_payload_key (payload_key_text 1 u) = Inr (1, u)" "parse_payload_key (payload_key_text 0 v) = Inr (0, v)"
    by (rule parse_payload_key_text; simp add: valid_generation_def MAX_GENERATION_def dollar_payload)+
  ultimately show False by simp
qed

lemma sample_blob_facts:
  shows "versions_at sample_lib short (mem_objs sample_blob) [''abc'']"
    and "marker_at sample_lib (mem_objs sample_blob) 0 (sample_doc 0 10)"
    and "mem_objs sample_blob (payload_key_text 1 (uuid4 sample_env 0)) = None"
proof -
  obtain ob where ob: "ob_body ob = ''abc''"
    "mem_objs sample_blob = (mem_objs (sample_mem [10]))(payload_key_text 0 10 \<mapsto> ob)" using sample_blob_objs by blast
  have v: "valid_generation 0" by (simp add: valid_generation_def MAX_GENERATION_def)
  from sample_mem_marker [of 0 "[10]"] obtain ob' where "mem_objs (sample_mem [10]) (marker_key_text 0) = Some ob'"
    "ob_body ob' = root_to_json_bytes sample_lib (sample_doc 0 10)"
    by (cases "mem_objs (sample_mem [10]) (marker_key_text 0)") auto
  then show at: "marker_at sample_lib (mem_objs sample_blob) 0 (sample_doc 0 10)"
    using v by (simp add: marker_at_def ob(2) area_keys(1) [symmetric])
  have same: "has_marker (mem_objs sample_blob) g \<longleftrightarrow> has_marker (mem_objs (sample_mem [10])) g" for g
    by (simp add: has_marker_def ob(2) area_keys(1) [symmetric])
  have "has_marker (mem_objs sample_blob) g \<longleftrightarrow> 0 \<le> g \<and> g < 1" for g
    unfolding same by (auto simp: valid_generation_def MAX_GENERATION_def)
  moreover have "packs_in sample_lib short (mem_objs sample_blob)"
    by (simp add: packs_in_def pack_of_def ob(2))
  moreover have "payload_holds sample_lib short (mem_objs sample_blob) (sample_doc 0 10) ''abc''"
    by (simp add: payload_holds_def ob)
  ultimately show "versions_at sample_lib short (mem_objs sample_blob) [''abc'']"
    using at by (auto simp: versions_at_def)
  show "mem_objs sample_blob (payload_key_text 1 (uuid4 sample_env 0)) = None"
    by (simp add: ob(2) sample_next_key)
qed

lemma sample_build:
  "build_manifest sample_lib ''abc'' None None DEFAULT_PACK_TARGET =
     Inr (sample_manifest\<lparr>chunk_size := DEFAULT_CHUNK_SIZE\<rparr>, [(sample_hash ''abc'', ''abc'')])"
proof -
  have "choose_chunk_size 3 None = DEFAULT_CHUNK_SIZE"
    by (simp add: choose_chunk_size_def scale_chunk_size.simps DEFAULT_CHUNK_SIZE_def MAX_ENTRIES_def)
  moreover have "range_slices (nat DEFAULT_CHUNK_SIZE) ''abc'' = [''abc'']"
    by (simp add: range_slices.simps [of _ "CHR ''a'' # _"] range_slices.simps [of _ "[]"] DEFAULT_CHUNK_SIZE_def)
  ultimately show ?thesis
    by (simp add: build_manifest_def Let_def build_start_def build_step_def reuse_entry_def base_index_of_def
        add_pending_def flush_pack_def sample_manifest_def sample_lib_def DEFAULT_CHUNK_SIZE_def DEFAULT_PACK_TARGET_def)
qed

lemma sample_build_bytes:
  "\<exists>b. manifest_to_bytes sample_lib (sample_manifest\<lparr>chunk_size := DEFAULT_CHUNK_SIZE\<rparr>) = Inr b"
  by (simp add: manifest_to_bytes_def Let_def sample_manifest_def sample_lib_def manifest_to_json_def entry_to_json_def
      put_str_def put_num_def put_int_def MANIFEST_MAGIC_def MAX_MANIFEST_BYTES_def manifest_schema_def
      DEFAULT_CHUNK_SIZE_def length_sample_hash length_dec_numeral del: dec.simps)

lemma sample_fits: "write_fits sample_lib short None (Some 0) ''abc''"
proof -
  have "set (range_slices (nat DEFAULT_CHUNK_SIZE) ''abc'') \<subseteq> short"
    using range_slices_length [of _ "nat DEFAULT_CHUNK_SIZE" "''abc''"] by (fastforce simp: short_def)
  then show ?thesis
    using sample_build_bytes by (simp add: write_fits_def sample_build) (simp add: short_def)
qed

theorem blob_bootstrap_starts_the_lake_witness:
  "\<exists>doc m'. blob_bootstrap sample_lib mem_store (1, 2, 3) sample_env 5 False ''abc'' empty_mem = (Inr doc, m') \<and>
     versions_at sample_lib short (mem_objs m') [''abc'']"
  using blob_bootstrap_starts_the_lake [OF sample_lib_ok versions_empty] by fastforce

theorem blob_read_returns_the_last_version_witness:
  "blob_read sample_lib mem_store sample_blob = (Inr ''abc'', sample_blob)"
  using blob_read_returns_the_last_version [OF sample_blob_facts(1)] by simp

theorem blob_write_appends_a_version_witness:
  "\<exists>res m'. blob_write sample_lib mem_store sample_env (Some 0) 5 ''abc'' sample_blob = Some (Inr res, m') \<and>
     result_generation res = 1 \<and> versions_at sample_lib short (mem_objs m') [''abc'', ''abc'']"
  using blob_write_appends_a_version [OF sample_lib_ok short_inj sample_blob_facts(1), of "sample_doc 0 10" "Some 0" "''abc''"
      sample_env 5] sample_blob_facts(2,3) sample_fits
  by (force simp: stored_manifest_def)

end
