(* ===== verification/Range_Reader.thy ===== *)
theory Range_Reader
  imports Versioned_Blob
begin

text \<open>
  The readers of \<^verbatim>\<open>fsspec_fs.py\<close>: random access to the bytes of one generation, by ranged reads of its
  object or, for a chunked generation, of the packs that hold the chunks. The property of the theory is
  that a ranged read is the slice of the payload, whatever the runs it is assembled from.
\<close>

section \<open>Operations\<close>

datatype reader =
    Whole_Reader key nat
  | Chunked_Reader manifest "int list"

definition reader_size :: "reader \<Rightarrow> int" where
  "reader_size rd = (case rd of Whole_Reader k n \<Rightarrow> int n | Chunked_Reader M starts \<Rightarrow> total_size M)"

text \<open>The loop of \<^verbatim>\<open>_ChunkedReader.__init__\<close>: the offset of every entry, and the offset after the last.\<close>

fun tile_starts :: "int \<Rightarrow> manifest_entry list \<Rightarrow> int list \<times> int" where
  "tile_starts off [] = ([], off)"
| "tile_starts off (e # es) = (let (starts, fin) = tile_starts (off + entry_length e) es in (off # starts, fin))"

definition chunked_reader :: "manifest \<Rightarrow> error + reader" where
  "chunked_reader M = (let (starts, off) = tile_starts 0 (entries M) in
     if off \<noteq> total_size M then Inl ExternalServiceError else Inr (Chunked_Reader M starts))"

definition whole_reader :: "'s store \<Rightarrow> key \<Rightarrow> ('s, reader) io" where
  "whole_reader S k = bind_io (head_meta S k) (\<lambda>m. ret (Whole_Reader k (meta_size m)))"

definition reader_for :: "lib \<Rightarrow> 's store \<Rightarrow> root_doc \<Rightarrow> ('s, reader) io" where
  "reader_for L S doc = bind_io (lift_io (payload_key doc)) (\<lambda>k.
     case transport_of doc of
       Whole \<Rightarrow> whole_reader S k
     | Chunked \<Rightarrow> bind_io (load_manifest L S k) (\<lambda>M. lift_io (chunked_reader M)))"

text \<open>\<^verbatim>\<open>bisect.bisect_right(starts, start)\<close> of an ascending list: how many offsets are at most \<open>start\<close>.\<close>

definition bisect_right :: "int list \<Rightarrow> int \<Rightarrow> nat" where
  "bisect_right starts x = length (takeWhile (\<lambda>a. a \<le> x) starts)"

text \<open>
  The inner \<^verbatim>\<open>while\<close>: from index \<open>j\<close>, whose pack slice ends at \<open>pack_end\<close>, to the last index of the run of
  entries that lie contiguously in the pack \<open>sha\<close> and start before \<open>end\<close>.
\<close>

function run_end :: "manifest_entry list \<Rightarrow> int list \<Rightarrow> int \<Rightarrow> string \<Rightarrow> nat \<Rightarrow> int \<Rightarrow> nat" where
  "run_end es starts stop sha j pack_end =
     (if j + 1 < length es \<and> starts ! (j + 1) < stop \<and> pack_sha256 (es ! (j + 1)) = sha \<and>
         pack_offset (es ! (j + 1)) = pack_end
      then run_end es starts stop sha (j + 1) (pack_end + entry_length (es ! (j + 1)))
      else j)"
  by pat_completeness auto
termination
  by (relation "measure (\<lambda>(es, starts, stop, sha, j, pack_end). length es - j)") auto

declare run_end.simps [simp del]

lemma run_end_ge: "j \<le> run_end es starts stop sha j pack_end"
  by (induction es starts stop sha j pack_end rule: run_end.induct) (subst run_end.simps, auto)

text \<open>\<^verbatim>\<open>_verify_covered_chunks\<close>\<close>

definition verify_covered_chunks :: "lib \<Rightarrow> manifest_entry list \<Rightarrow> int list \<Rightarrow> nat \<Rightarrow> nat \<Rightarrow> int \<Rightarrow> int \<Rightarrow> bytes \<Rightarrow>
    ('s, unit) io" where
  "verify_covered_chunks L es starts first_idx last_idx got_start got_end got =
     for_io [first_idx..<last_idx + 1] (\<lambda>i.
       let c_start = starts ! i; c_end = c_start + entry_length (es ! i) in
       if c_start \<ge> got_start \<and> c_end \<le> got_end then
         (let piece = byte_slice got (nat (c_start - got_start)) (nat (c_end - c_start)) in
          if sha256 L piece \<noteq> chunk_sha256 (es ! i) then raise ExternalServiceError else ret ())
       else ret ())"

text \<open>
  The outer \<^verbatim>\<open>while pos < end\<close>. An index past the entries would be an \<^verbatim>\<open>IndexError\<close>; it does not occur when the
  entries tile the payload.
\<close>

function read_runs :: "lib \<Rightarrow> 's store \<Rightarrow> manifest_entry list \<Rightarrow> int list \<Rightarrow> int \<Rightarrow> int \<Rightarrow> nat \<Rightarrow> bytes \<Rightarrow>
    ('s, bytes) io" where
  "read_runs L S es starts stop pos idx out =
     (if pos < stop then
        (if idx \<ge> length es then raise PyIndexError
         else (let entry = es ! idx; entry_start = starts ! idx;
             last_idx = run_end es starts stop (pack_sha256 entry) idx (pack_offset entry + entry_length entry);
             run_file_end = starts ! last_idx + entry_length (es ! last_idx);
             want_start = max pos entry_start; want_end = min stop run_file_end;
             pack_start = pack_offset entry + (want_start - entry_start) in
           bind_io (get_range S (format_pack_key (pack_sha256 entry)) pack_start (want_end - want_start)) (\<lambda>got.
             if int (length got) \<noteq> want_end - want_start then raise ExternalServiceError
             else bind_io (verify_covered_chunks L es starts idx last_idx want_start want_end got) (\<lambda>_.
               read_runs L S es starts stop want_end (last_idx + 1) (out @ got)))))
      else ret out)"
  by pat_completeness auto
termination
proof (relation "measure (\<lambda>(L, S, es, starts, stop, pos, idx, out). length es - idx)", goal_cases)
  case (2 L S es starts stop pos idx out entry entry_start last_idx run_file_end want_start want_end pack_start got x)
  have "idx \<le> last_idx" unfolding 2(5) by (rule run_end_ge)
  with 2(2) show ?case by auto
qed simp

declare read_runs.simps [simp del]

definition chunked_read :: "lib \<Rightarrow> 's store \<Rightarrow> manifest \<Rightarrow> int list \<Rightarrow> int \<Rightarrow> int \<Rightarrow> ('s, bytes) io" where
  "chunked_read L S M starts start len =
     (if start < 0 then raise InputValidationError
      else (let stop = min (start + max 0 len) (total_size M) in
        if start \<ge> stop then ret []
        else read_runs L S (entries M) starts stop start (bisect_right starts start - 1) []))"

definition read_range :: "lib \<Rightarrow> 's store \<Rightarrow> reader \<Rightarrow> int \<Rightarrow> int \<Rightarrow> ('s, bytes) io" where
  "read_range L S rd start len = (case rd of
     Whole_Reader k n \<Rightarrow> (if start < 0 then raise InputValidationError else get_range S k start len)
   | Chunked_Reader M starts \<Rightarrow> chunked_read L S M starts start len)"

section \<open>The offsets\<close>

text \<open>Entries that denote the chunks \<open>cs\<close>, and the offset of chunk \<open>i\<close> in the payload \<open>concat cs\<close>.\<close>

definition denote_all :: "lib \<Rightarrow> (string \<rightharpoonup> bytes) \<Rightarrow> manifest_entry list \<Rightarrow> bytes list \<Rightarrow> bool" where
  "denote_all L P es cs \<longleftrightarrow> list_all2 (entry_denotes L P) es cs"

definition offset_of :: "bytes list \<Rightarrow> nat \<Rightarrow> nat" where
  "offset_of cs i = length (concat (take i cs))"

lemma offset_of_Suc: "i < length cs \<Longrightarrow> offset_of cs (Suc i) = offset_of cs i + length (cs ! i)"
  by (simp add: offset_of_def take_Suc_conv_app_nth)

lemma offset_of_0 [simp]: "offset_of cs 0 = 0"
  by (simp add: offset_of_def)

lemma offset_of_all: "length cs \<le> i \<Longrightarrow> offset_of cs i = length (concat cs)"
  by (simp add: offset_of_def)

lemma offset_of_mono: "i \<le> j \<Longrightarrow> offset_of cs i \<le> offset_of cs j"
proof -
  assume "i \<le> j"
  then have "take j cs = take i cs @ take (j - i) (drop i cs)" by (metis le_add_diff_inverse take_add)
  then show ?thesis by (simp add: offset_of_def)
qed

lemma drop_offset: "drop (offset_of cs i) (concat cs) = concat (drop i cs)"
proof -
  have "concat cs = concat (take i cs) @ concat (drop i cs)" by (metis append_take_drop_id concat_append)
  then show ?thesis by (simp add: offset_of_def)
qed

lemma denote_all_length: "denote_all L P es cs \<Longrightarrow> length es = length cs"
  by (simp add: denote_all_def list_all2_lengthD)

lemma denote_all_nth:
  "denote_all L P es cs \<Longrightarrow> i < length cs \<Longrightarrow> entry_denotes L P (es ! i) (cs ! i)"
  by (simp add: denote_all_def list_all2_conv_all_nth)

lemma denote_all_nonempty: "denote_all L P es cs \<Longrightarrow> i < length cs \<Longrightarrow> 0 < length (cs ! i)"
  by (drule (1) denote_all_nth) (auto simp: entry_denotes_def entry_valid_def)

lemma sum_entry_lengths: "denote_all L P es cs \<Longrightarrow> (\<Sum>e\<leftarrow>es. entry_length e) = int (length (concat cs))"
  unfolding denote_all_def by (induction rule: list_all2_induct) (auto simp: entry_denotes_def)

lemma tile_starts_Cons:
  "tile_starts off (e # es) =
     (off # fst (tile_starts (off + entry_length e) es), snd (tile_starts (off + entry_length e) es))"
  by (simp add: Let_def split: prod.splits)

declare tile_starts.simps(2) [simp del] tile_starts_Cons [simp]

lemma tile_starts_snd: "snd (tile_starts off es) = off + (\<Sum>e\<leftarrow>es. entry_length e)"
  by (induction es arbitrary: off) auto

lemma length_tile_starts [simp]: "length (fst (tile_starts off es)) = length es"
  by (induction es arbitrary: off) auto

lemma tile_starts_nth:
  "i < length es \<Longrightarrow> fst (tile_starts off es) ! i = off + (\<Sum>e\<leftarrow>take i es. entry_length e)"
proof (induction es arbitrary: off i)
  case (Cons e es)
  then show ?case by (cases i) auto
qed simp

lemma tile_starts_offset:
  assumes "denote_all L P es cs" and "i < length cs"
  shows "fst (tile_starts 0 es) ! i = int (offset_of cs i)"
proof -
  have "denote_all L P (take i es) (take i cs)" using assms(1) by (simp add: denote_all_def)
  from sum_entry_lengths [OF this] assms show ?thesis
    by (simp add: tile_starts_nth denote_all_length offset_of_def)
qed

lemma bisect_offset:
  assumes d: "denote_all L P es cs" and x: "0 \<le> x" "x < int (length (concat cs))"
  defines "i \<equiv> bisect_right (fst (tile_starts 0 es)) x - 1"
  shows "i < length cs \<and> int (offset_of cs i) \<le> x \<and> x < int (offset_of cs (Suc i))"
proof -
  let ?starts = "fst (tile_starts 0 es)"
  let ?n = "bisect_right ?starts x"
  have len: "length ?starts = length cs" using d by (simp add: denote_all_length)
  have ne: "cs \<noteq> []" using x by auto
  have n: "?n \<le> length cs" using length_takeWhile_le [of _ ?starts] len by (simp add: bisect_right_def)
  have "?starts ! 0 \<le> x" using tile_starts_offset [OF d, of 0] ne x by simp
  then have "0 < ?n" using len ne by (cases ?starts) (auto simp: bisect_right_def)
  then have i: "?n = Suc i" "i < length cs" using n by (auto simp: i_def)
  have "?starts ! i \<le> x" using i nth_length_takeWhile [of "\<lambda>a. a \<le> x" ?starts]
    by (metis bisect_right_def lessI set_takeWhileD nth_mem takeWhile_nth)
  then have lo: "int (offset_of cs i) \<le> x" using tile_starts_offset [OF d i(2)] by simp
  have "x < int (offset_of cs (Suc i))"
  proof (cases "Suc i < length cs")
    case True
    then have "\<not> ?starts ! Suc i \<le> x"
      using nth_length_takeWhile [of "\<lambda>a. a \<le> x" ?starts] len i by (simp add: bisect_right_def)
    with tile_starts_offset [OF d True] show ?thesis by simp
  next
    case False
    with x show ?thesis by (simp add: offset_of_all)
  qed
  with i lo show ?thesis by simp
qed

section \<open>A run is a slice of the payload\<close>

lemma run_end_law:
  assumes "j < length es" and "pack_end = pack_offset (es ! j) + entry_length (es ! j)" and "pack_sha256 (es ! j) = sha"
  shows "run_end es starts stop sha j pack_end < length es \<and>
    (\<forall>k. j < k \<longrightarrow> k \<le> run_end es starts stop sha j pack_end \<longrightarrow>
       pack_sha256 (es ! k) = sha \<and> pack_offset (es ! k) = pack_offset (es ! (k - 1)) + entry_length (es ! (k - 1)) \<and>
       starts ! k < stop)"
  using assms
proof (induction es starts stop sha j pack_end rule: run_end.induct)
  case (1 es starts stop sha j pack_end)
  show ?case
  proof (cases "j + 1 < length es \<and> starts ! (j + 1) < stop \<and> pack_sha256 (es ! (j + 1)) = sha \<and>
         pack_offset (es ! (j + 1)) = pack_end")
    case False
    with 1(2) show ?thesis by (subst (1 2) run_end.simps) auto
  next
    case True
    let ?r = "run_end es starts stop sha (j + 1) (pack_end + entry_length (es ! (j + 1)))"
    have eq: "run_end es starts stop sha j pack_end = ?r" using True by (subst run_end.simps) simp
    from 1(1) [OF True] True have ih: "?r < length es" "\<And>k. j + 1 < k \<Longrightarrow> k \<le> ?r \<Longrightarrow> pack_sha256 (es ! k) = sha \<and>
      pack_offset (es ! k) = pack_offset (es ! (k - 1)) + entry_length (es ! (k - 1)) \<and> starts ! k < stop" by auto
    show ?thesis unfolding eq
    proof (intro conjI allI impI)
      show "?r < length es" by (rule ih)
      fix k
      assume k: "j < k" "k \<le> ?r"
      then consider "k = j + 1" | "j + 1 < k" by linarith
      then have "pack_sha256 (es ! k) = sha \<and>
        pack_offset (es ! k) = pack_offset (es ! (k - 1)) + entry_length (es ! (k - 1)) \<and> starts ! k < stop"
        by cases (use True 1(3) ih(2) k(2) in auto)
      then show "pack_sha256 (es ! k) = sha"
        "pack_offset (es ! k) = pack_offset (es ! (k - 1)) + entry_length (es ! (k - 1))" "starts ! k < stop" by auto
    qed
  qed
qed

lemma slice_fits: "take n (drop p xs) = c \<Longrightarrow> length c = n \<Longrightarrow> 0 < n \<Longrightarrow> p + n \<le> length xs"
  by (auto simp: min_def split: if_splits)

text \<open>The pack bytes of a contiguous run, from the first entry on, are the payload bytes.\<close>

lemma run_bytes:
  assumes d: "denote_all L P es cs" and P: "P sha = Some pack" and j: "j \<le> r" "r < length cs"
    and sha: "pack_sha256 (es ! j) = sha"
    and run: "\<And>k. j < k \<Longrightarrow> k \<le> r \<Longrightarrow> pack_sha256 (es ! k) = sha \<and>
      pack_offset (es ! k) = pack_offset (es ! (k - 1)) + entry_length (es ! (k - 1))"
  shows "let n = offset_of cs (Suc r) - offset_of cs j in
    pack_offset (es ! r) = pack_offset (es ! j) + int (offset_of cs r - offset_of cs j) \<and>
    take n (drop (nat (pack_offset (es ! j))) pack) = take n (drop (offset_of cs j) (concat cs)) \<and>
    nat (pack_offset (es ! j)) + n \<le> length pack"
  using j run
proof (induction "r - j" arbitrary: r)
  case 0
  then have r: "r = j" by simp
  have e: "entry_denotes L P (es ! j) (cs ! j)" using denote_all_nth [OF d] 0 r by simp
  then have c: "take (length (cs ! j)) (drop (nat (pack_offset (es ! j))) pack) = cs ! j"
    using P sha by (auto simp: entry_denotes_def entry_slice_def byte_slice_def)
  moreover have "take (length (cs ! j)) (drop (offset_of cs j) (concat cs)) = cs ! j"
    using 0 r by (simp add: drop_offset Cons_nth_drop_Suc [symmetric])
  moreover have "nat (pack_offset (es ! j)) + length (cs ! j) \<le> length pack"
    using slice_fits [OF c] denote_all_nonempty [OF d, of j] 0 r by simp
  ultimately show ?case using 0 r by (simp add: Let_def offset_of_Suc)
next
  case (Suc x)
  define q where "q = r - 1"
  have q: "r = Suc q" "j \<le> q" "q < length cs" "x = q - j"
    using Suc.hyps(2) Suc.prems(1,2) by (simp_all add: q_def)
  have ih: "let n = offset_of cs (Suc q) - offset_of cs j in
    pack_offset (es ! q) = pack_offset (es ! j) + int (offset_of cs q - offset_of cs j) \<and>
    take n (drop (nat (pack_offset (es ! j))) pack) = take n (drop (offset_of cs j) (concat cs)) \<and>
    nat (pack_offset (es ! j)) + n \<le> length pack"
    by (rule Suc.hyps(1)) (use Suc.prems q in auto)
  have eq: "entry_denotes L P (es ! q) (cs ! q)" "entry_denotes L P (es ! r) (cs ! r)"
    using denote_all_nth [OF d] q Suc.prems(2) by auto
  define n where "n = offset_of cs (Suc q) - offset_of cs j"
  define p where "p = nat (pack_offset (es ! j))"
  have oj: "0 \<le> pack_offset (es ! j)"
    using denote_all_nth [OF d, of j] q by (auto simp: entry_denotes_def entry_valid_def)
  have mono: "offset_of cs j \<le> offset_of cs q" using q by (simp add: offset_of_mono)
  have off: "pack_offset (es ! r) = pack_offset (es ! j) + int n"
    using Suc.prems(3) [of r] q ih eq(1) mono
    by (simp add: Let_def n_def offset_of_Suc entry_denotes_def)
  then have nat_off: "nat (pack_offset (es ! r)) = p + n" using oj by (simp add: p_def nat_add_distrib)
  have shar: "pack_sha256 (es ! r) = sha" using Suc.prems(3) [of r] q by simp
  have c: "take (length (cs ! r)) (drop (p + n) pack) = cs ! r"
    using eq(2) P shar nat_off by (auto simp: entry_denotes_def entry_slice_def byte_slice_def)
  have q1: "offset_of cs j \<le> offset_of cs (Suc q)" using q by (simp add: offset_of_mono)
  have c': "take (length (cs ! r)) (drop (offset_of cs j + n) (concat cs)) = cs ! r"
  proof -
    have "offset_of cs j + n = offset_of cs r" using q1 q by (simp add: n_def)
    then show ?thesis using Suc.prems(2) by (simp add: drop_offset Cons_nth_drop_Suc [symmetric])
  qed
  have tot: "offset_of cs (Suc r) - offset_of cs j = n + length (cs ! r)"
    using Suc.prems(2) q q1 by (simp add: n_def offset_of_Suc)
  have "take (n + length (cs ! r)) (drop p pack) = take (n + length (cs ! r)) (drop (offset_of cs j) (concat cs))"
    using ih c c' by (simp add: take_add Let_def n_def [symmetric] p_def [symmetric] add.commute)
  moreover have "p + (n + length (cs ! r)) \<le> length pack"
    using slice_fits [OF c] denote_all_nonempty [OF d Suc.prems(2)] by simp
  moreover have "offset_of cs r - offset_of cs j = n" using q by (simp add: n_def)
  ultimately show ?case using off tot by (simp add: Let_def p_def)
qed

section \<open>A ranged read is the slice\<close>

definition serves_ranges :: "'s store \<Rightarrow> (string \<rightharpoonup> bytes) \<Rightarrow> 's \<Rightarrow> bool" where
  "serves_ranges S P s \<longleftrightarrow> (\<forall>sha b start len. P sha = Some b \<longrightarrow> 0 \<le> start \<longrightarrow> 0 < len \<longrightarrow>
     get_range S (format_pack_key sha) start len s = (Inr (byte_slice b (nat start) (nat len)), s))"

lemma slice_sub:
  assumes "take N (drop p xs) = take N (drop q ys)" and "a + n \<le> N"
  shows "take n (drop (p + a) xs) = take n (drop (q + a) ys)"
proof -
  have sub: "take n (drop (p + a) xs) = take n (drop a (take N (drop p xs)))" for p and xs :: "'a list"
    using assms(2) by (simp add: drop_take min_def add.commute)
  show ?thesis unfolding sub [of p xs] sub [of q ys] assms(1) ..
qed

lemma for_io_ret: "(\<And>x. x \<in> set xs \<Longrightarrow> f x s = (Inr (), s)) \<Longrightarrow> for_io xs f s = (Inr (), s)"
  by (induction xs) auto

lemma verify_covered_run:
  assumes d: "denote_all L P es cs" and starts: "starts = fst (tile_starts 0 es)" and last: "last_idx < length cs"
    and got: "got = byte_slice (concat cs) (nat lo) (nat (hi - lo))" and lo: "0 \<le> lo"
  shows "verify_covered_chunks L es starts idx last_idx lo hi got s = (Inr (), s)"
  unfolding verify_covered_chunks_def
proof (rule for_io_ret)
  fix i
  assume "i \<in> set [idx..<last_idx + 1]"
  then have i: "i < length cs" using last by auto
  note e = denote_all_nth [OF d i]
  have st: "starts ! i = int (offset_of cs i)" using tile_starts_offset [OF d i] starts by simp
  have len: "entry_length (es ! i) = int (length (cs ! i))" using e by (simp add: entry_denotes_def)
  have "byte_slice got (nat (starts ! i - lo)) (nat (entry_length (es ! i))) = cs ! i"
    if c: "lo \<le> starts ! i" "starts ! i + entry_length (es ! i) \<le> hi"
  proof -
    let ?a = "offset_of cs i - nat lo"
    have lo_le: "nat lo \<le> offset_of cs i" using c(1) st by simp
    have "?a + length (cs ! i) \<le> nat (hi - lo)" using c(2) st len lo lo_le by linarith
    then have "byte_slice got ?a (length (cs ! i)) = take (length (cs ! i)) (drop (offset_of cs i) (concat cs))"
      using lo_le by (simp add: got byte_slice_def drop_take min_def)
    also have "\<dots> = cs ! i" using i by (simp add: drop_offset Cons_nth_drop_Suc [symmetric])
    finally show ?thesis using st len lo lo_le by (simp add: nat_diff_distrib)
  qed
  moreover have "sha256 L (cs ! i) = chunk_sha256 (es ! i)" using e by (simp add: entry_denotes_def)
  ultimately show "(let c_start = starts ! i; c_end = c_start + entry_length (es ! i) in
       if c_start \<ge> lo \<and> c_end \<le> hi then
         (let piece = byte_slice got (nat (c_start - lo)) (nat (c_end - c_start)) in
          if sha256 L piece \<noteq> chunk_sha256 (es ! i) then raise ExternalServiceError else ret ())
       else ret ()) s = (Inr (), s)"
    by (simp add: Let_def)
qed

lemma read_runs_run:
  assumes d: "denote_all L P es cs" and serve: "serves_ranges S P s" and starts: "starts = fst (tile_starts 0 es)"
    and stop: "stop \<le> int (length (concat cs))"
    and inv: "0 \<le> pos" "pos < stop \<Longrightarrow> idx < length cs \<and> int (offset_of cs idx) \<le> pos \<and> pos < int (offset_of cs (Suc idx))"
  shows "read_runs L S es starts stop pos idx out s = (Inr (out @ byte_slice (concat cs) (nat pos) (nat (stop - pos))), s)"
  using inv
proof (induction "length cs - idx" arbitrary: pos idx out rule: less_induct)
  case less
  let ?data = "concat cs"
  show ?case
  proof (cases "pos < stop")
    case False
    then show ?thesis by (subst read_runs.simps) (simp add: byte_slice_def)
  next
    case True
    note idx = less.prems(2) [OF True]
    have len_es: "length es = length cs" using d by (rule denote_all_length)
    define sha where "sha = pack_sha256 (es ! idx)"
    define r where "r = run_end es starts stop sha idx (pack_offset (es ! idx) + entry_length (es ! idx))"
    have "idx < length es" using idx len_es by simp
    from run_end_law [OF this refl sha_def [symmetric], of starts stop] have
      r: "r < length cs" "\<And>k. idx < k \<Longrightarrow> k \<le> r \<Longrightarrow> pack_sha256 (es ! k) = sha \<and>
        pack_offset (es ! k) = pack_offset (es ! (k - 1)) + entry_length (es ! (k - 1))"
      using len_es by (auto simp: r_def)
    have ir: "idx \<le> r" unfolding r_def by (rule run_end_ge)
    note e = denote_all_nth [OF d, of idx]
    then obtain pack where pack: "P sha = Some pack" using idx by (auto simp: entry_denotes_def sha_def)
    from run_bytes [OF d pack ir r(1) sha_def [symmetric] r(2)] have
      bytes: "take (offset_of cs (Suc r) - offset_of cs idx) (drop (nat (pack_offset (es ! idx))) pack) =
        take (offset_of cs (Suc r) - offset_of cs idx) (drop (offset_of cs idx) ?data)" by (simp add: Let_def)
    have st: "starts ! idx = int (offset_of cs idx)" "starts ! r = int (offset_of cs r)"
      using tile_starts_offset [OF d] idx r(1) starts by auto
    have file_end: "starts ! r + entry_length (es ! r) = int (offset_of cs (Suc r))"
      using st(2) denote_all_nth [OF d r(1)] r(1) by (simp add: offset_of_Suc entry_denotes_def)
    define hi where "hi = min stop (int (offset_of cs (Suc r)))"
    have "offset_of cs (Suc idx) \<le> offset_of cs (Suc r)" using ir by (simp add: offset_of_mono)
    then have hi: "pos < hi" "hi \<le> stop" "hi \<le> int (offset_of cs (Suc r))" using True idx by (auto simp: hi_def)
    let ?a = "nat pos - offset_of cs idx" and ?n = "nat (hi - pos)"
    have off0: "0 \<le> pack_offset (es ! idx)" using e idx by (simp add: entry_denotes_def entry_valid_def)
    have a: "int (offset_of cs idx + ?a) = pos" using idx by linarith
    have "?a + ?n \<le> offset_of cs (Suc r) - offset_of cs idx" using hi a less.prems(1) by linarith
    from slice_sub [OF bytes this] have
      got: "byte_slice pack (nat (pack_offset (es ! idx) + (pos - int (offset_of cs idx)))) ?n = byte_slice ?data (nat pos) ?n"
      using off0 a idx less.prems(1) by (simp add: byte_slice_def nat_add_distrib nat_diff_distrib)
    let ?got = "byte_slice ?data (nat pos) ?n"
    have full: "int (length ?got) = hi - pos" using hi stop less.prems(1) by (simp add: byte_slice_def)
    have get: "get_range S (format_pack_key sha) (pack_offset (es ! idx) + (pos - int (offset_of cs idx))) (hi - pos) s = (Inr ?got, s)"
      using serve pack hi(1) off0 idx got by (simp add: serves_ranges_def)
    have "verify_covered_chunks L es starts idx r pos hi ?got s = (Inr (), s)"
      using d starts r(1) refl less.prems(1) by (rule verify_covered_run)
    then have "read_runs L S es starts stop pos idx out s = read_runs L S es starts stop hi (r + 1) (out @ ?got) s"
      using True \<open>idx < length es\<close> get full st(1) file_end idx
      by (subst read_runs.simps) (simp add: Let_def sha_def [symmetric] r_def [symmetric] hi_def [symmetric] max_absorb1)
    also have "\<dots> = (Inr ((out @ ?got) @ byte_slice ?data (nat hi) (nat (stop - hi))), s)"
    proof (rule less.hyps)
      show "length cs - (r + 1) < length cs - idx" using ir idx by linarith
      show "0 \<le> hi" using hi less.prems(1) by simp
      assume "hi < stop"
      then have h: "hi = int (offset_of cs (Suc r))" by (auto simp: hi_def min_def split: if_splits)
      have "Suc r < length cs"
      proof (rule ccontr)
        assume "\<not> Suc r < length cs"
        then have "hi = int (length ?data)" using h by (simp add: offset_of_all)
        with \<open>hi < stop\<close> stop show False by simp
      qed
      with h denote_all_nonempty [OF d this] show "r + 1 < length cs \<and> int (offset_of cs (r + 1)) \<le> hi \<and> hi < int (offset_of cs (Suc (r + 1)))"
        by (simp add: offset_of_Suc)
    qed
    also have "(out @ ?got) @ byte_slice ?data (nat hi) (nat (stop - hi)) = out @ byte_slice ?data (nat pos) (nat (stop - pos))"
    proof -
      have "nat (stop - pos) = ?n + nat (stop - hi)" "nat hi = nat pos + ?n" using hi less.prems(1) by auto
      then show ?thesis by (simp add: byte_slice_def take_add add.commute)
    qed
    finally show ?thesis .
  qed
qed

lemma chunked_read_run:
  assumes d: "denote_all L P (entries M) cs" and serve: "serves_ranges S P s" and starts: "starts = fst (tile_starts 0 (entries M))"
    and size: "total_size M = int (length (concat cs))" and start: "0 \<le> start"
  shows "chunked_read L S M starts start len s = (Inr (byte_slice (concat cs) (nat start) (nat len)), s)"
proof -
  let ?stop = "min (start + max 0 len) (total_size M)"
  show ?thesis
  proof (cases "start \<ge> ?stop")
    case True
    then have "byte_slice (concat cs) (nat start) (nat len) = []"
      using size start by (auto simp: byte_slice_def min_def max_def split: if_splits)
    with True start show ?thesis by (simp add: chunked_read_def Let_def)
  next
    case False
    then have "start < int (length (concat cs))" using size by simp
    with bisect_offset [OF d start] have
      "read_runs L S (entries M) starts ?stop start (bisect_right starts start - 1) [] s =
       (Inr ([] @ byte_slice (concat cs) (nat start) (nat (?stop - start))), s)"
      using d serve starts size start by (intro read_runs_run) auto
    moreover have "byte_slice (concat cs) (nat start) (nat (?stop - start)) = byte_slice (concat cs) (nat start) (nat len)"
    proof -
      have "0 < len" using False start by (auto simp: min_def max_def split: if_splits)
      then show ?thesis using size start by (cases "start + len \<le> total_size M") (auto simp: byte_slice_def min_def max_def)
    qed
    moreover have "chunked_read L S M starts start len s =
        read_runs L S (entries M) starts ?stop start (bisect_right starts start - 1) [] s"
    proof -
      have "\<not> start < 0" using start by simp
      with False show ?thesis by (simp only: chunked_read_def Let_def if_False)
    qed
    ultimately show ?thesis by simp
  qed
qed

lemma serves_ranges_mem: "serves_ranges mem_store (pack_of (mem_objs m)) m"
  by (auto simp: serves_ranges_def pack_of_def mem_store_def mem_get_range_def mem_objs_def)

lemma packs_sound_denote:
  assumes "packs_sound L P M" and "payload_of P M = Some data"
  obtains cs where "denote_all L P (entries M) cs" "data = concat cs"
proof -
  have "\<exists>c. entry_denotes L P e c \<and> entry_bytes P e = Some c" if "e \<in> set (entries M)" for e
    using assms(1) that entry_denotes_bytes unfolding packs_sound_def by blast
  then obtain f where f: "\<And>e. e \<in> set (entries M) \<Longrightarrow> entry_denotes L P e (f e) \<and> entry_bytes P e = Some (f e)" by metis
  then have "denote_all L P (entries M) (map f (entries M))"
    by (simp add: denote_all_def list_all2_map2 list_all2_same)
  moreover have "those (map (entry_bytes P) (entries M)) = Some (map f (entries M))" using f by (intro those_all) auto
  then have "data = concat (map f (entries M))" using assms(2) by (simp add: payload_of_def)
  ultimately show thesis by (rule that)
qed

text \<open>What a reader object stands for.\<close>

definition reader_denotes :: "lib \<Rightarrow> contents \<Rightarrow> reader \<Rightarrow> bytes \<Rightarrow> bool" where
  "reader_denotes L h rd data \<longleftrightarrow> (case rd of
     Whole_Reader k n \<Rightarrow> n = length data \<and> map_option ob_body (h k) = Some data
   | Chunked_Reader M starts \<Rightarrow> starts = fst (tile_starts 0 (entries M)) \<and> total_size M = int (length data) \<and>
       (\<exists>cs. denote_all L (pack_of h) (entries M) cs \<and> data = concat cs))"

lemma reader_denotes_size: "reader_denotes L h rd data \<Longrightarrow> reader_size rd = int (length data)"
  by (auto simp: reader_denotes_def reader_size_def split: reader.splits)

lemma read_range_mem:
  assumes "reader_denotes L (mem_objs m) rd data" and "0 \<le> start"
  shows "read_range L mem_store rd start len m = (Inr (byte_slice data (nat start) (nat len)), m)"
proof (cases rd)
  case (Whole_Reader k n)
  with assms show ?thesis
    by (auto simp: reader_denotes_def read_range_def mem_store_def mem_get_range_def mem_objs_def byte_slice_def)
next
  case (Chunked_Reader M starts)
  with assms(1) obtain cs where "denote_all L (pack_of (mem_objs m)) (entries M) cs" "data = concat cs"
    "starts = fst (tile_starts 0 (entries M))" "total_size M = int (length data)"
    by (auto simp: reader_denotes_def)
  with chunked_read_run [OF this(1) serves_ranges_mem this(3) _ assms(2)] Chunked_Reader show ?thesis
    by (simp add: read_range_def)
qed

lemma reader_for_mem:
  assumes "payload_holds L U (mem_objs m) d data" and "valid_generation (generation d)"
  shows "\<exists>rd. reader_for L mem_store d m = (Inr rd, m) \<and> reader_denotes L (mem_objs m) rd data"
proof (cases "transport_of d")
  case Whole
  with assms(1) obtain ob where "mem_objs m (payload_key_text (generation d) (payload_uuid d)) = Some ob" "ob_body ob = data"
    by (auto simp: payload_holds_def)
  with Whole assms(2) mem_head_meta_run show ?thesis
    by (auto simp: reader_for_def whole_reader_def payload_key_def reader_denotes_def)
next
  case Chunked
  with assms(1) obtain M where M: "stored_manifest L (mem_objs m) d = Some M" "manifest_holds L U (mem_objs m) M data"
    by (auto simp: payload_holds_def split: option.splits)
  from M(2) obtain cs where cs: "denote_all L (pack_of (mem_objs m)) (entries M) cs" "data = concat cs"
    by (auto simp: manifest_holds_def elim: packs_sound_denote)
  have size: "total_size M = int (length data)" using M(2) by (simp add: manifest_holds_def)
  then have "snd (tile_starts 0 (entries M)) = total_size M"
    using sum_entry_lengths [OF cs(1)] cs(2) by (simp add: tile_starts_snd)
  then have "chunked_reader M = Inr (Chunked_Reader M (fst (tile_starts 0 (entries M))))"
    by (simp add: chunked_reader_def case_prod_beta)
  with Chunked assms(2) load_manifest_mem [OF M(1)] size cs show ?thesis
    by (auto simp: reader_for_def payload_key_def reader_denotes_def)
qed

text \<open>
  Claim C28. A ranged read is the slice: for a generation whose payload stands for \<open>data\<close>, whole or
  chunked, the reader has the size of \<open>data\<close> and \<^verbatim>\<open>read_range(start, length)\<close> returns exactly the bytes
  \<^verbatim>\<open>data[start : start + length]\<close> for every non-negative start and every length, however the range
  falls on chunks, packs and coalesced runs; a negative start is refused.
\<close>
theorem ranged_read_is_the_slice:
  assumes "payload_holds L U (mem_objs m) d data" and "valid_generation (generation d)"
  shows "\<exists>rd. reader_for L mem_store d m = (Inr rd, m) \<and> reader_size rd = int (length data) \<and>
    (\<forall>start len. read_range L mem_store rd start len m =
       (if start < 0 then Inl InputValidationError else Inr (byte_slice data (nat start) (nat len)), m))"
proof -
  from reader_for_mem [OF assms] obtain rd where
    rd: "reader_for L mem_store d m = (Inr rd, m)" "reader_denotes L (mem_objs m) rd data" by blast
  have "read_range L mem_store rd start len m = (Inl InputValidationError, m)" if "start < 0" for start len
    using that by (cases rd) (auto simp: read_range_def chunked_read_def)
  with rd read_range_mem [OF rd(2)] reader_denotes_size [OF rd(2)] show ?thesis by auto
qed

text \<open>On a lake whose head was published chunked.\<close>

lemma sample_chunked:
  obtains m d where "payload_holds sample_lib short (mem_objs m) d ''abc''" "valid_generation (generation d)"
    "marker_at sample_lib (mem_objs m) 1 d" "versions_at sample_lib short (mem_objs m) [''abc'', ''abc'']"
proof -
  from blob_write_mem [OF sample_lib_ok short_inj sample_blob_facts(1), of "sample_doc 0 10" "Some 0" "''abc''" sample_env 5]
  obtain m where vs: "versions_at sample_lib short (mem_objs m) [''abc'', ''abc'']"
    using sample_blob_facts(2,3) sample_fits by (auto simp: stored_manifest_def)
  from versions_last [OF this] obtain d where d: "marker_at sample_lib (mem_objs m) 1 d"
    "payload_holds sample_lib short (mem_objs m) d ''abc''" by auto
  then have "valid_generation (generation d)" by (auto dest: marker_at_generation)
  with d vs show thesis by (intro that)
qed

theorem ranged_read_is_the_slice_witness:
  "\<exists>m d rd. reader_for sample_lib mem_store d m = (Inr rd, m) \<and> read_range sample_lib mem_store rd 1 5 m = (Inr ''bc'', m)"
proof -
  obtain m d where md: "payload_holds sample_lib short (mem_objs m) d ''abc''" "valid_generation (generation d)"
    using sample_chunked by metis
  from ranged_read_is_the_slice [OF md] show ?thesis by (fastforce simp: byte_slice_def)
qed

end
