(* ===== verification/Generation_FS.thy ===== *)
theory Generation_FS
  imports Range_Reader
begin

text \<open>
  The read-only file system of \<^verbatim>\<open>fsspec_fs.py\<close>: paths, metadata, listings and reads. Its state is the store
  and the memo of readers. \<open>B\<close> is fsspec's own \<^verbatim>\<open>_strip_protocol\<close>, which the class extends.
\<close>

section \<open>Paths\<close>

type_synonym reader_memo = "key \<rightharpoonup> reader"

definition strip_protocol :: "(string \<Rightarrow> string) \<Rightarrow> string \<Rightarrow> string" where
  "strip_protocol B path = lstrip (CHR ''/'') (B path)"

text \<open>\<^verbatim>\<open>_GEN_RE\<close> and its group.\<close>

definition match_gen :: "string \<Rightarrow> string option" where
  "match_gen name =
     (let s = dollar name; g = drop 4 s in
      if prefix ''gen/'' s \<and>
         (g = ''0'' \<or> g \<noteq> [] \<and> list_all is_digit g \<and> hd g \<noteq> CHR ''0'') then Some g else None)"

text \<open>\<^verbatim>\<open>int\<close> of a text of digits: Python refuses more than 4300 of them with a \<^verbatim>\<open>ValueError\<close>.\<close>

definition int_of_digits :: "string \<Rightarrow> error + int" where
  "int_of_digits g = (if length g > 4300 then Inl PyValueError else Inr (int (text_num 10 g)))"

definition not_found_as_file :: "error \<Rightarrow> error" where
  "not_found_as_file e = (if is_NotFoundError e then PyFileNotFoundError else e)"

text \<open>\<^verbatim>\<open>_resolve\<close>: the document of a path; not found is a \<^verbatim>\<open>FileNotFoundError\<close>, every other error passes.\<close>

definition resolve_path :: "(string \<Rightarrow> string) \<Rightarrow> lib \<Rightarrow> 's store \<Rightarrow> string \<Rightarrow> ('s, root_doc) io" where
  "resolve_path B L S path =
     (let name = strip_protocol B path in
      if name = ''head'' then
        bind_io (try_io (resolve_head L S)) (\<lambda>r. case r of
            Inl e \<Rightarrow> raise (not_found_as_file e)
          | Inr (doc, g) \<Rightarrow> ret doc)
      else (case match_gen name of
          None \<Rightarrow> raise PyFileNotFoundError
        | Some digits \<Rightarrow>
            bind_io (try_io (bind_io (lift_io (int_of_digits digits)) (read_marker L S))) (\<lambda>r. case r of
                Inl e \<Rightarrow> raise (not_found_as_file e)
              | Inr doc \<Rightarrow> ret doc)))"

definition gen_path :: "int \<Rightarrow> string" where
  "gen_path g = ''gen/'' @ dec (nat g)"

definition pin :: "(string \<Rightarrow> string) \<Rightarrow> lib \<Rightarrow> 's store \<Rightarrow> string \<Rightarrow> ('s, string) io" where
  "pin B L S path = bind_io (resolve_path B L S path) (\<lambda>doc. ret (gen_path (generation doc)))"

section \<open>Reads\<close>

definition fs_reader :: "lib \<Rightarrow> 's store \<Rightarrow> root_doc \<Rightarrow> ('s \<times> reader_memo, reader) io" where
  "fs_reader L S doc =
     bind_io (lift_io (payload_key doc)) (\<lambda>k.
     bind_io get_attr (\<lambda>readers. case readers k of
         Some rd \<Rightarrow> ret rd
       | None \<Rightarrow>
           bind_io (try_io (on_world (reader_for L S doc))) (\<lambda>r. case r of
               Inl e \<Rightarrow> raise (if is_NotFoundError e then PyFileNotFoundError
                               else if e = InputValidationError then ExternalServiceError else e)
             | Inr rd \<Rightarrow> bind_io (set_attr (readers(k \<mapsto> rd))) (\<lambda>_. ret rd))))"

definition fs_open :: "(string \<Rightarrow> string) \<Rightarrow> lib \<Rightarrow> 's store \<Rightarrow> string \<Rightarrow> string \<Rightarrow> ('s \<times> reader_memo, reader) io" where
  "fs_open B L S path mode =
     (if mode \<noteq> ''rb'' then raise PyNotImplementedError
      else bind_io (on_world (resolve_path B L S path)) (\<lambda>doc. fs_reader L S doc))"

text \<open>\<^verbatim>\<open>GenerationFile._fetch_range\<close>\<close>

definition fetch_range :: "lib \<Rightarrow> 's store \<Rightarrow> reader \<Rightarrow> int \<Rightarrow> int \<Rightarrow> ('s, bytes) io" where
  "fetch_range L S rd start stop = read_range L S rd start (stop - start)"

definition is_directory :: "string \<Rightarrow> bool" where
  "is_directory name \<longleftrightarrow> name = '''' \<or> name = ''gen''"

definition cat_file :: "(string \<Rightarrow> string) \<Rightarrow> lib \<Rightarrow> 's store \<Rightarrow> string \<Rightarrow> int option \<Rightarrow> int option \<Rightarrow>
    ('s \<times> reader_memo, bytes) io" where
  "cat_file B L S path start stop =
     (if is_directory (strip_protocol B path) then raise PyIsADirectoryError
      else bind_io (on_world (resolve_path B L S path)) (\<lambda>doc.
        bind_io (fs_reader L S doc) (\<lambda>rd.
          let n = reader_size rd;
            s = (case start of None \<Rightarrow> 0 | Some x \<Rightarrow> if x \<ge> 0 then x else max 0 (n + x));
            e = (case stop of None \<Rightarrow> n | Some x \<Rightarrow> if x \<ge> 0 then x else n + x) in
          if e \<le> s then ret [] else on_world (read_range L S rd s (e - s)))))"

text \<open>
  \<^verbatim>\<open>cat_ranges\<close>: \<open>starts\<close> and \<open>stops\<close> are one number for all paths or a list; \<open>Inl\<close> of \<open>paths\<close> is a value that is no
  list. The workers run in sequence, and all of them run. An exception is a value of the list when \<^verbatim>\<open>on_error\<close> is
  \<^verbatim>\<open>"return"\<close>; otherwise the first one, in the order of the paths, is raised once all have finished.
\<close>

definition spread :: "int + int list \<Rightarrow> nat \<Rightarrow> int list" where
  "spread x n = (case x of Inl i \<Rightarrow> replicate n i | Inr xs \<Rightarrow> xs)"

fun first_error :: "(error + 'a) list \<Rightarrow> error option" where
  "first_error [] = None"
| "first_error (Inl e # rs) = Some e"
| "first_error (Inr x # rs) = first_error rs"

definition cat_ranges :: "(string \<Rightarrow> string) \<Rightarrow> lib \<Rightarrow> 's store \<Rightarrow> string + string list \<Rightarrow> int + int list \<Rightarrow> int + int list \<Rightarrow>
    int option \<Rightarrow> string \<Rightarrow> ('s \<times> reader_memo, (error + bytes) list) io" where
  "cat_ranges B L S paths starts stops max_gap on_error =
     (if max_gap \<noteq> None then raise PyNotImplementedError
      else (case paths of
          Inl _ \<Rightarrow> raise PyTypeError
        | Inr ps \<Rightarrow>
            (let ss = spread starts (length ps); es = spread stops (length ps) in
             if length ss \<noteq> length ps \<or> length es \<noteq> length ps then raise PyValueError
             else bind_io (map_io (\<lambda>(p, s, e). try_io (cat_file B L S p (Some s) (Some e))) (zip ps (zip ss es))) (\<lambda>rs.
               if on_error = ''return'' then ret rs
               else (case first_error rs of None \<Rightarrow> ret rs | Some e \<Rightarrow> raise e)))))"

section \<open>Metadata and listings\<close>

record file_info =
  info_name :: string
  info_size :: int
  info_generation :: int
  info_transport :: transport
  info_etag :: key

datatype entry = Directory string | File file_info

definition entry_name :: "entry \<Rightarrow> string" where
  "entry_name e = (case e of Directory n \<Rightarrow> n | File f \<Rightarrow> info_name f)"

definition fs_info :: "(string \<Rightarrow> string) \<Rightarrow> lib \<Rightarrow> 's store \<Rightarrow> string \<Rightarrow> ('s, entry) io" where
  "fs_info B L S path =
     (let name = strip_protocol B path in
      if is_directory name then ret (Directory name)
      else bind_io (resolve_path B L S path) (\<lambda>doc.
        bind_io (lift_io (payload_key doc)) (\<lambda>k.
          ret (File \<lparr>info_name = name, info_size = payload_size doc, info_generation = generation doc,
                     info_transport = transport_of doc, info_etag = k\<rparr>))))"

text \<open>\<^verbatim>\<open>checksum\<close> and \<^verbatim>\<open>ukey\<close>\<close>

definition checksum :: "(string \<Rightarrow> string) \<Rightarrow> lib \<Rightarrow> 's store \<Rightarrow> string \<Rightarrow> ('s, key) io" where
  "checksum B L S path = bind_io (resolve_path B L S path) (\<lambda>doc. lift_io (payload_key doc))"

datatype listing = Details "entry list" | Names "string list"

definition listing_of :: "bool \<Rightarrow> entry list \<Rightarrow> listing" where
  "listing_of detail es = (if detail then Details es else Names (map entry_name es))"

definition entry_or_none :: "(string \<Rightarrow> string) \<Rightarrow> lib \<Rightarrow> 's store \<Rightarrow> int \<Rightarrow> ('s, entry option) io" where
  "entry_or_none B L S g = bind_io (try_io (fs_info B L S (gen_path g))) (\<lambda>r. case r of
     Inr e \<Rightarrow> ret (Some e)
   | Inl err \<Rightarrow> if err = PyFileNotFoundError then ret None else raise err)"

definition ls :: "(string \<Rightarrow> string) \<Rightarrow> lib \<Rightarrow> 's store \<Rightarrow> string \<Rightarrow> bool \<Rightarrow> ('s, listing) io" where
  "ls B L S path detail =
     (let name = strip_protocol B path in
      if name = '''' then
        bind_io (try_io (fs_info B L S ''head'')) (\<lambda>r. case r of
            Inr e \<Rightarrow> ret (listing_of detail [e, Directory ''gen''])
          | Inl err \<Rightarrow> if err = PyFileNotFoundError then ret (listing_of detail [Directory ''gen'']) else raise err)
      else if name = ''gen'' then
        bind_io (try_io (resolve_head L S)) (\<lambda>r. case r of
            Inl e \<Rightarrow> raise (not_found_as_file e)
          | Inr (doc, g) \<Rightarrow>
              bind_io (map_io (\<lambda>i. entry_or_none B L S i) [0..generation doc]) (\<lambda>maybe.
                ret (listing_of detail (List.map_filter id maybe))))
      else bind_io (fs_info B L S name) (\<lambda>e. ret (listing_of detail [e])))"

definition fs_exists :: "(string \<Rightarrow> string) \<Rightarrow> lib \<Rightarrow> 's store \<Rightarrow> string \<Rightarrow> ('s, bool) io" where
  "fs_exists B L S path =
     (if is_directory (strip_protocol B path) then ret True
      else bind_io (try_io (resolve_path B L S path)) (\<lambda>r. case r of
          Inr _ \<Rightarrow> ret True
        | Inl e \<Rightarrow> if e = PyFileNotFoundError then ret False else raise e))"

definition isdir :: "(string \<Rightarrow> string) \<Rightarrow> string \<Rightarrow> bool" where
  "isdir B path = is_directory (strip_protocol B path)"

definition isfile :: "(string \<Rightarrow> string) \<Rightarrow> lib \<Rightarrow> 's store \<Rightarrow> string \<Rightarrow> ('s, bool) io" where
  "isfile B L S path =
     (if is_directory (strip_protocol B path) then ret False else fs_exists B L S path)"

text \<open>Every mutation entry point.\<close>

definition readonly :: "('s, unit) io" where
  "readonly = raise PyNotImplementedError"

section \<open>Canonical paths\<close>

text \<open>What is used of fsspec: it strips a protocol prefix and trailing slashes, and these paths have neither.\<close>

definition keeps_paths :: "(string \<Rightarrow> string) \<Rightarrow> bool" where
  "keeps_paths B \<longleftrightarrow> B '''' = '''' \<and> B ''head'' = ''head'' \<and> B ''gen'' = ''gen'' \<and> (\<forall>g. B (gen_path g) = gen_path g)"

lemma dec_no_leading_zero: "0 < n \<Longrightarrow> hd (dec n) \<noteq> CHR ''0''"
proof (induction n rule: dec.induct)
  case (1 n)
  show ?case
  proof (cases "n < 10")
    case True
    have "of_char (hd (dec n)) = 48 + n" using True by (subst dec.simps) (simp add: of_digit_char)
    then show ?thesis using 1(2) by (auto simp: of_char_def)
  next
    case False
    then have "hd (dec (n div 10)) \<noteq> CHR ''0''" using 1 by auto
    with False show ?thesis by (subst dec.simps) simp
  qed
qed

lemma dec_0: "dec 0 = ''0''"
  by (simp add: dec.simps [of 0] digit_char_def char_of_def bit_0)

lemma dec_all_digits: "list_all is_digit (dec n)"
  by (auto simp: list_all_iff dec_digit)

lemma dollar_gen_path [simp]: "dollar (gen_path g) = gen_path g"
  using dec_digit [OF last_in_set, of "nat g"] by (intro dollar_id) (auto simp: gen_path_def is_digit_def)

lemma match_gen_path [simp]: "match_gen (gen_path g) = Some (dec (nat g))"
proof -
  have "dec (nat g) = ''0'' \<or> dec (nat g) \<noteq> [] \<and> list_all is_digit (dec (nat g)) \<and> hd (dec (nat g)) \<noteq> CHR ''0''"
    using dec_no_leading_zero [of "nat g"] dec_all_digits [of "nat g"] by (cases "nat g = 0") (simp_all add: dec_0)
  moreover have "prefix ''gen/'' (gen_path g)" "drop 4 (gen_path g) = dec (nat g)" by (simp_all add: gen_path_def)
  ultimately show ?thesis by (simp only: match_gen_def Let_def dollar_gen_path if_True simp_thms)
qed

lemma strip_canonical [simp]:
  assumes "keeps_paths B"
  shows "strip_protocol B '''' = ''''" "strip_protocol B ''head'' = ''head''" "strip_protocol B ''gen'' = ''gen''"
    "strip_protocol B (gen_path g) = gen_path g"
  using assms by (simp_all add: strip_protocol_def keeps_paths_def lstrip_def) (simp add: gen_path_def)

lemma gen_path_names [simp]: "gen_path g \<noteq> ''head''" "\<not> is_directory (gen_path g)" "\<not> is_directory ''head''"
    "is_directory ''gen''" "is_directory ''''"
  by (simp_all add: gen_path_def is_directory_def)

lemma int_of_generation [simp]: "valid_generation g \<Longrightarrow> int_of_digits (dec (nat g)) = Inr g"
proof -
  assume v: "valid_generation g"
  then have "nat g < 10 ^ 8" by (simp add: valid_generation_def MAX_GENERATION_def nat_less_iff)
  from length_dec_le [OF this] v show ?thesis by (simp add: int_of_digits_def valid_generation_def)
qed

lemma resolve_gen_path:
  assumes "keeps_paths B" and "valid_generation g"
  shows "resolve_path B L S (gen_path g) s = (case read_marker L S g s of (r, s') \<Rightarrow>
    (case r of Inl e \<Rightarrow> Inl (not_found_as_file e) | Inr d \<Rightarrow> Inr d, s'))"
  using assms
  by (cases "read_marker L S g s"; cases "fst (read_marker L S g s)")
     (auto simp: resolve_path_def Let_def lift_io_def bind_io_def try_io_def)

section \<open>A read is a Python slice\<close>

text \<open>\<^verbatim>\<open>data[start:stop]\<close>\<close>

definition slice_bound :: "int \<Rightarrow> int \<Rightarrow> int option \<Rightarrow> int" where
  "slice_bound n missing x = (case x of None \<Rightarrow> missing | Some i \<Rightarrow> if i < 0 then max 0 (n + i) else min i n)"

definition py_slice :: "bytes \<Rightarrow> int option \<Rightarrow> int option \<Rightarrow> bytes" where
  "py_slice b start stop = (let n = int (length b); s = slice_bound n 0 start; e = slice_bound n n stop in
     byte_slice b (nat s) (nat (e - s)))"

lemma clipped_slice:
  fixes s e :: int
  assumes "0 \<le> s" and "s' = min s n" and "e' = max 0 (min e n)" and "n = int (length b)"
  shows "(if e \<le> s then [] else byte_slice b (nat s) (nat (e - s))) = byte_slice b (nat s') (nat (e' - s'))"
proof (cases "e \<le> s \<or> n \<le> s")
  case True
  then have "byte_slice b (nat s') (nat (e' - s')) = []" "e \<le> s \<or> byte_slice b (nat s) (nat (e - s)) = []"
    using assms by (auto simp: byte_slice_def min_def max_def)
  then show ?thesis by auto
next
  case False
  then have "s' = s" "e' = min e n" using assms by auto
  with False assms show ?thesis
    by (cases "e \<le> n") (auto simp: byte_slice_def min_def nat_diff_distrib)
qed

lemma cat_slice:
  assumes "n = int (length b)"
    and "s = (case start of None \<Rightarrow> 0 | Some x \<Rightarrow> if x \<ge> 0 then x else max 0 (n + x))"
    and "e = (case stop of None \<Rightarrow> n | Some x \<Rightarrow> if x \<ge> 0 then x else n + x)"
  shows "(if e \<le> s then [] else byte_slice b (nat s) (nat (e - s))) = py_slice b start stop"
proof -
  have "0 \<le> s" using assms(2) by (auto split: option.splits)
  moreover have "slice_bound n 0 start = min s n" using assms(1,2) by (auto simp: slice_bound_def split: option.splits)
  moreover have "slice_bound n n stop = max 0 (min e n)" using assms(1,3) by (auto simp: slice_bound_def split: option.splits)
  ultimately show ?thesis
    using clipped_slice [of s "min s n" n "max 0 (min e n)" e b] assms(1) by (simp add: py_slice_def Let_def)
qed

text \<open>
  The memo is sound when every reader it holds for the key of a committed generation stands for the
  payload of that generation.
\<close>

definition memo_sound :: "lib \<Rightarrow> bytes set \<Rightarrow> contents \<Rightarrow> reader_memo \<Rightarrow> bool" where
  "memo_sound L U h R \<longleftrightarrow> (\<forall>rd g d data. marker_at L h g d \<longrightarrow> payload_holds L U h d data \<longrightarrow>
     R (payload_key_text g (payload_uuid d)) = Some rd \<longrightarrow> reader_denotes L h rd data)"

lemma memo_sound_empty [simp]: "memo_sound L U h Map.empty"
  by (simp add: memo_sound_def)

lemma payload_key_text_inject:
  assumes "valid_generation g" and "valid_generation h" and "payload_key_text g u = payload_key_text h v"
  shows "g = h \<and> u = v"
  using parse_payload_key_text [OF assms(1) dollar_payload] parse_payload_key_text [OF assms(2) dollar_payload] assms(3)
  by (metis Inr_inject prod.inject)

lemma memo_sound_update:
  assumes "memo_sound L U h R" and d: "marker_at L h g d" "payload_holds L U h d data" and rd: "reader_denotes L h rd data"
  shows "memo_sound L U h (R(payload_key_text g (payload_uuid d) \<mapsto> rd))"
  unfolding memo_sound_def
proof (intro allI impI)
  fix rd' g' d' data'
  assume d': "marker_at L h g' d'" "payload_holds L U h d' data'"
    and R: "(R(payload_key_text g (payload_uuid d) \<mapsto> rd)) (payload_key_text g' (payload_uuid d')) = Some rd'"
  show "reader_denotes L h rd' data'"
  proof (cases "payload_key_text g' (payload_uuid d') = payload_key_text g (payload_uuid d)")
    case True
    then have "g' = g"
      using payload_key_text_inject d(1) d'(1) by (metis marker_at_generation)
    then have "d' = d" using d(1) d'(1) by (auto dest: marker_at_unique)
    then have "data' = data" using d(2) d'(2) by (auto dest: payload_holds_unique)
    with R True rd show ?thesis by simp
  next
    case False
    with R assms(1) d' show ?thesis by (auto simp: memo_sound_def)
  qed
qed

lemma fs_reader_mem:
  assumes d: "marker_at L (mem_objs m) g d" "payload_holds L U (mem_objs m) d data" and R: "memo_sound L U (mem_objs m) R"
  shows "\<exists>rd R'. fs_reader L mem_store d (m, R) = (Inr rd, (m, R')) \<and> reader_denotes L (mem_objs m) rd data \<and>
    memo_sound L U (mem_objs m) R'"
proof -
  have g: "generation d = g" "valid_generation g" using d(1) by (auto dest: marker_at_generation)
  let ?k = "payload_key_text g (payload_uuid d)"
  have k: "payload_key d = Inr ?k" using g by (simp add: payload_key_def)
  show ?thesis
  proof (cases "R ?k")
    case (Some rd)
    with d R have "reader_denotes L (mem_objs m) rd data" by (auto simp: memo_sound_def)
    with Some k R show ?thesis by (simp add: fs_reader_def)
  next
    case None
    from reader_for_mem [OF d(2)] g obtain rd where rd: "reader_for L mem_store d m = (Inr rd, m)"
      "reader_denotes L (mem_objs m) rd data" by auto
    with None k have "fs_reader L mem_store d (m, R) = (Inr rd, (m, R(?k \<mapsto> rd)))"
      by (simp add: fs_reader_def bind_io_def try_io_def)
    with rd(2) memo_sound_update [OF R d rd(2)] show ?thesis by blast
  qed
qed

lemma cat_file_mem:
  assumes path: "\<not> is_directory (strip_protocol B path)" "resolve_path B L mem_store path m = (Inr d, m)"
    and d: "marker_at L (mem_objs m) g d" "payload_holds L U (mem_objs m) d data" and R: "memo_sound L U (mem_objs m) R"
  shows "\<exists>R'. cat_file B L mem_store path start stop (m, R) = (Inr (py_slice data start stop), (m, R')) \<and>
    memo_sound L U (mem_objs m) R'"
proof -
  from fs_reader_mem [OF d R] obtain rd R' where rd: "fs_reader L mem_store d (m, R) = (Inr rd, (m, R'))"
    "reader_denotes L (mem_objs m) rd data" "memo_sound L U (mem_objs m) R'" by blast
  let ?n = "reader_size rd"
  define s where "s = (case start of None \<Rightarrow> 0 | Some x \<Rightarrow> if x \<ge> 0 then x else max 0 (?n + x))"
  define e where "e = (case stop of None \<Rightarrow> ?n | Some x \<Rightarrow> if x \<ge> 0 then x else ?n + x)"
  have "0 \<le> s" by (simp add: s_def split: option.splits)
  from read_range_mem [OF rd(2) this] have read: "read_range L mem_store rd s (e - s) m = (Inr (byte_slice data (nat s) (nat (e - s))), m)" .
  have "cat_file B L mem_store path start stop (m, R) = (if e \<le> s then ret [] else on_world (read_range L mem_store rd s (e - s))) (m, R')"
    unfolding s_def e_def using path rd(1) by (simp add: cat_file_def Let_def)
  also have "\<dots> = (Inr (if e \<le> s then [] else byte_slice data (nat s) (nat (e - s))), (m, R'))"
    using read by simp
  finally have "cat_file B L mem_store path start stop (m, R) =
      (Inr (if e \<le> s then [] else byte_slice data (nat s) (nat (e - s))), (m, R'))" .
  with cat_slice [OF reader_denotes_size [OF rd(2)] s_def e_def] rd(3) show ?thesis by simp
qed

text \<open>
  Claim C27. Reading through the file system is Python slicing of the version: on a lake that stands for
  \<open>vs\<close>, \<^verbatim>\<open>cat_file("gen/i", start, stop)\<close> returns \<^verbatim>\<open>vs[i][start:stop]\<close> for every version, negative and
  missing bounds included, whatever sound memo of readers earlier calls have left, and leaves a sound one.
\<close>
theorem cat_file_slices_any_version:
  assumes "keeps_paths B" and "versions_at L U (mem_objs m) vs" and "i < length vs" and "memo_sound L U (mem_objs m) R"
  shows "\<exists>R'. cat_file B L mem_store (gen_path (int i)) start stop (m, R) = (Inr (py_slice (vs ! i) start stop), (m, R')) \<and>
    memo_sound L U (mem_objs m) R'"
proof -
  from assms(2,3) obtain d where d: "marker_at L (mem_objs m) (int i) d" "payload_holds L U (mem_objs m) d (vs ! i)"
    unfolding versions_at_def by blast
  have "resolve_path B L mem_store (gen_path (int i)) m = (Inr d, m)"
    using resolve_gen_path [OF assms(1), of "int i" L mem_store m] read_marker_mem [OF d(1)] marker_at_generation [OF d(1)]
    by simp
  from cat_file_mem [OF _ this d assms(4)] assms(1) show ?thesis by simp
qed


text \<open>An instance of the parameter: stripping a trailing slash.\<close>

definition sample_base :: "string \<Rightarrow> string" where
  "sample_base p = rstrip (CHR ''/'') p"

lemma sample_base_keeps: "keeps_paths sample_base"
proof -
  have "rstrip (CHR ''/'') (gen_path g) = gen_path g" for g
  proof -
    have "last (gen_path g) \<noteq> CHR ''/''"
      using dec_digit [OF last_in_set, of "nat g"] by (auto simp: gen_path_def is_digit_def)
    moreover have "gen_path g \<noteq> []" by (simp add: gen_path_def)
    ultimately show ?thesis by (cases "rev (gen_path g)") (auto simp: rstrip_def dropWhile_eq_self_iff last_rev hd_rev)
  qed
  then show ?thesis by (simp add: keeps_paths_def sample_base_def rstrip_def)
qed

theorem cat_file_slices_any_version_witness:
  "\<exists>m R. cat_file sample_base sample_lib mem_store (gen_path 1) (Some (-2)) None (m, Map.empty) = (Inr ''bc'', (m, R))"
proof -
  obtain m where vs: "versions_at sample_lib short (mem_objs m) [''abc'', ''abc'']" using sample_chunked by metis
  have "py_slice ''abc'' (Some (-2)) None = ''bc''" by (simp add: py_slice_def slice_bound_def byte_slice_def)
  with cat_file_slices_any_version [OF sample_base_keeps vs, of 1 Map.empty "Some (-2)" None] show ?thesis by auto
qed

section \<open>Absence, outages and path aliases\<close>

lemma exists_gen_path:
  assumes "keeps_paths B" and "valid_generation g"
  shows "fs_exists B L S (gen_path g) s = (case read_marker L S g s of (r, s') \<Rightarrow>
    (case r of Inr d \<Rightarrow> Inr True | Inl e \<Rightarrow> if is_NotFoundError e then Inr False else
       if e = PyFileNotFoundError then Inr False else Inl e, s'))"
  using assms resolve_gen_path [OF assms, of L S s]
  by (cases "read_marker L S g s"; cases "fst (read_marker L S g s)")
     (auto simp: fs_exists_def bind_io_def try_io_def not_found_as_file_def)

text \<open>
  An outage never reads as absence: whatever other processes and the network do,
  \<^verbatim>\<open>exists("gen/g")\<close> answers False only if generation \<open>g\<close> had no marker when the call began; an error of
  the transport or of the service propagates.
\<close>
theorem outage_is_not_absence:
  assumes "keeps_paths B" and "valid_generation g" and "fs_exists B L (net_store L) (gen_path g) n = (Inr False, n')"
  shows "\<not> has_marker (net_objs n) g"
proof -
  obtain e where e: "read_marker L (net_store L) g n = (Inl e, n')" "is_NotFoundError e \<or> e = PyFileNotFoundError"
    using assms(3) unfolding exists_gen_path [OF assms(1,2)] by (auto split: prod.splits sum.splits if_splits)
  with net.read_marker_errors [OF e(1) assms(2)] have "e = ObjectNotFoundError" by (auto simp: is_NotFoundError_def)
  with e(1) net.read_marker_absent show ?thesis by blast
qed

theorem outage_is_not_absence_witness:
  "\<not> has_marker (net_objs \<lparr>cell = empty_mem, script = []\<rparr>) 3"
proof -
  let ?n = "\<lparr>cell = empty_mem, script = []\<rparr>"
  have v: "valid_generation 3" by (simp add: valid_generation_def MAX_GENERATION_def)
  then have "read_marker sample_lib (net_store sample_lib) 3 ?n = (Inl ObjectNotFoundError, ?n)"
    by (simp add: read_marker_def quiet_get on_cell_def mem_get_def empty_mem_def)
  then have "fs_exists sample_base sample_lib (net_store sample_lib) (gen_path 3) ?n = (Inr False, ?n)"
    by (simp add: exists_gen_path [OF sample_base_keeps v] is_NotFoundError_def)
  from outage_is_not_absence [OF sample_base_keeps v this] show ?thesis .
qed

text \<open>
  The path pattern has no length bound and its \<^verbatim>\<open>$\<close> accepts a final newline: \<^verbatim>\<open>gen/100000000\<close>,
  the first generation that cannot exist, makes \<^verbatim>\<open>exists\<close> raise \<^verbatim>\<open>InputValidationError\<close> instead of
  answering False, and \<^verbatim>\<open>gen/5\<close> followed by a newline names the file of \<^verbatim>\<open>gen/5\<close>.
\<close>
theorem path_pattern_gaps:
  assumes "keeps_paths B" and "B (gen_path 5 @ [newline]) = gen_path 5 @ [newline]"
  shows "fs_exists B L S (gen_path 100000000) s = (Inl InputValidationError, s) \<and>
    resolve_path B L S (gen_path 5 @ [newline]) = resolve_path B L S (gen_path 5)"
proof
  have "length (dec 100000000) \<le> 9" by (rule length_dec_le) simp_all
  then have "int_of_digits (dec 100000000) = Inr 100000000" by (simp add: int_of_digits_def)
  moreover have "read_marker L S 100000000 s = (Inl InputValidationError, s)"
    by (simp add: read_marker_def format_marker_key_def check_generation_def MAX_GENERATION_def)
  ultimately show "fs_exists B L S (gen_path 100000000) s = (Inl InputValidationError, s)"
    using assms(1)
    by (simp add: fs_exists_def resolve_path_def Let_def bind_io_def try_io_def lift_io_def not_found_as_file_def is_NotFoundError_def)
  have "strip_protocol B (gen_path 5 @ [newline]) = gen_path 5 @ [newline]"
    unfolding strip_protocol_def assms(2) by (simp add: gen_path_def lstrip_def)
  moreover have "gen_path 5 @ [newline] \<noteq> ''head''" by (simp add: gen_path_def)
  moreover have "match_gen (gen_path 5 @ [newline]) = match_gen (gen_path 5)"
    by (simp add: match_gen_def Let_def dollar_def [of "gen_path 5 @ [newline]"])
  ultimately show "resolve_path B L S (gen_path 5 @ [newline]) = resolve_path B L S (gen_path 5)"
    using assms(1) by (simp add: resolve_path_def Let_def)
qed

theorem path_pattern_gaps_witness:
  "\<forall>L. fs_exists sample_base L mem_store (gen_path 100000000) empty_mem = (Inl InputValidationError, empty_mem)"
  by (intro allI path_pattern_gaps [OF sample_base_keeps, THEN conjunct1]) (simp add: sample_base_def rstrip_def)

section \<open>Listings\<close>

text \<open>What \<^verbatim>\<open>info\<close> says of a committed generation: everything comes from its marker.\<close>

definition gen_entry :: "root_doc \<Rightarrow> entry" where
  "gen_entry d = File \<lparr>info_name = gen_path (generation d), info_size = payload_size d, info_generation = generation d,
     info_transport = transport_of d, info_etag = payload_key_text (generation d) (payload_uuid d)\<rparr>"

lemma fs_info_mem:
  assumes "keeps_paths B" and d: "marker_at L (mem_objs m) g d"
  shows "fs_info B L mem_store (gen_path g) m = (Inr (gen_entry d), m)"
proof -
  have g: "generation d = g" "valid_generation g" using d by (auto dest: marker_at_generation)
  with resolve_gen_path [OF assms(1) g(2), of L mem_store m] read_marker_mem [OF d] assms(1) show ?thesis
    by (simp add: fs_info_def Let_def gen_entry_def payload_key_def)
qed

lemma map_io_all:
  "(\<And>x. x \<in> set xs \<Longrightarrow> f x s = (Inr (g x), s)) \<Longrightarrow> map_io f xs s = (Inr (map g xs), s)"
  by (induction xs) auto

lemma map_filter_Some [simp]: "List.map_filter id (map (\<lambda>x. Some (f x)) xs) = map f xs"
  by (induction xs) simp_all

lemma entry_name_gen [simp]: "entry_name (gen_entry d) = gen_path (generation d)"
  by (simp add: entry_name_def gen_entry_def)

text \<open>
  Listing \<^verbatim>\<open>gen\<close> lists the whole history, from the markers alone: on a lake that stands for
  \<open>vs\<close>, there is one entry per version, in order, with the name, size, transport and etag that the
  marker of that generation records, whether or not any payload can still be read.
\<close>
theorem listing_is_the_history:
  assumes "keeps_paths B" and "versions_at L U (mem_objs m) vs" and "vs \<noteq> []" and "length vs \<le> 4116480"
  shows "\<exists>docs. length docs = length vs \<and> (\<forall>i < length vs. marker_at L (mem_objs m) (int i) (docs ! i)) \<and>
    ls B L mem_store ''gen'' True m = (Inr (Details (map gen_entry docs)), m) \<and>
    ls B L mem_store ''gen'' False m = (Inr (Names (map (\<lambda>i. gen_path (int i)) [0..<length vs])), m)"
proof -
  from versions_head [OF assms(2-4)] obtain d where head: "resolve_head L mem_store m = (Inr (d, generation d), m)"
    and g: "generation d = int (length vs) - 1" by blast
  have "\<forall>i < length vs. \<exists>d. marker_at L (mem_objs m) (int i) d" using assms(2) by (auto simp: versions_at_def)
  then obtain docs where docs: "length docs = length vs" "\<forall>i < length vs. marker_at L (mem_objs m) (int i) (docs ! i)"
    unfolding Skolem_list_nth by blast
  have ints: "[0..generation d] = map int [0..<length vs]"
    by (rule nth_equalityI) (auto simp: g)
  have "entry_or_none B L mem_store i m = (Inr (Some (gen_entry (docs ! nat i))), m)" if "i \<in> set [0..generation d]" for i
  proof -
    from that have "marker_at L (mem_objs m) i (docs ! nat i)" using docs(2) [rule_format, of "nat i"] by (simp add: g nat_less_iff)
    from fs_info_mem [OF assms(1) this] show ?thesis by (simp add: entry_or_none_def)
  qed
  then have "map_io (entry_or_none B L mem_store) [0..generation d] m =
      (Inr (map (\<lambda>i. Some (gen_entry (docs ! nat i))) [0..generation d]), m)"
    by (rule map_io_all)
  also have "map (\<lambda>i. Some (gen_entry (docs ! nat i))) [0..generation d] = map (\<lambda>d. Some (gen_entry d)) docs"
    unfolding ints using docs(1) by (intro nth_equalityI) auto
  finally have run: "map_io (entry_or_none B L mem_store) [0..generation d] m = (Inr (map (\<lambda>d. Some (gen_entry d)) docs), m)" .
  have "generation (docs ! i) = int i" if "i < length vs" for i using docs(2) that by (auto dest: marker_at_generation)
  then have "map (\<lambda>d. gen_path (generation d)) docs = map (\<lambda>i. gen_path (int i)) [0..<length vs]"
    using docs(1) by (intro nth_equalityI) auto
  then have "ls B L mem_store ''gen'' True m = (Inr (Details (map gen_entry docs)), m) \<and>
      ls B L mem_store ''gen'' False m = (Inr (Names (map (\<lambda>i. gen_path (int i)) [0..<length vs])), m)"
    using assms(1) head run by (simp add: ls_def Let_def listing_of_def o_def)
  with docs show ?thesis by blast
qed

theorem listing_is_the_history_witness:
  "\<exists>m. ls sample_base sample_lib mem_store ''gen'' False m = (Inr (Names [''gen/0'', ''gen/1'']), m)"
proof -
  obtain m where vs: "versions_at sample_lib short (mem_objs m) [''abc'', ''abc'']" using sample_chunked by metis
  have "gen_path 0 = ''gen/0''" "gen_path 1 = ''gen/1''"
    by (simp_all add: gen_path_def dec.simps digit_char_def char_of_def bit_0 bit_Suc_0_iff bit_numeral_rec)
  with listing_is_the_history [OF sample_base_keeps vs] show ?thesis by auto
qed

end
