(* ===== verification/Lease.thy ===== *)
theory Lease
  imports Complex_Main Store_Probes Sample_Library
begin

text \<open>
  \<^verbatim>\<open>lease.py\<close>: the maintenance lease, one object of the store written by conditional puts. The
  attribute \<^verbatim>\<open>self._etag\<close> is the second component of the state. The lemmas describe every method on
  the in-memory store, and what \<open>Lease_Fleet\<close> and the garbage collector need of them on a shared bucket.
\<close>

section \<open>Python values in a lease body\<close>

text \<open>
  A Python \<^verbatim>\<open>float\<close>. Finite values are exact rationals: rounding is not modelled. The code only
  asks for the sign of a difference, which a correctly rounded subtraction keeps.
\<close>

datatype pyfloat = Finite rat | Infinite bool | NaN   \<comment> \<open>\<open>Infinite True\<close> is the positive one\<close>

fun pf_minus :: "pyfloat \<Rightarrow> pyfloat" where
  "pf_minus (Finite x) = Finite (- x)"
| "pf_minus (Infinite s) = Infinite (\<not> s)"
| "pf_minus NaN = NaN"

fun pf_add :: "pyfloat \<Rightarrow> pyfloat \<Rightarrow> pyfloat" where
  "pf_add (Finite x) (Finite y) = Finite (x + y)"
| "pf_add (Infinite s) (Finite _) = Infinite s"
| "pf_add (Finite _) (Infinite s) = Infinite s"
| "pf_add (Infinite s) (Infinite t) = (if s = t then Infinite s else NaN)"
| "pf_add NaN _ = NaN"
| "pf_add _ NaN = NaN"

definition pf_diff :: "pyfloat \<Rightarrow> pyfloat \<Rightarrow> pyfloat" where
  "pf_diff x y = pf_add x (pf_minus y)"

definition pf_positive :: "pyfloat \<Rightarrow> bool" where
  "pf_positive x = (case x of Finite r \<Rightarrow> r > 0 | Infinite s \<Rightarrow> s | NaN \<Rightarrow> False)"

text \<open>\<^verbatim>\<open>json.loads\<close> of the standard library yields these values; a \<^verbatim>\<open>dict\<close> has each key once.\<close>

datatype pyjson =
    PNull
  | PBool bool
  | PInt int
  | PFloat pyfloat
  | PStr string
  | PList "pyjson list"
  | PDict "(string \<times> pyjson) list"

text \<open>
  The text side of the standard library: \<^verbatim>\<open>json.dumps(\<dots>).encode()\<close>, \<^verbatim>\<open>json.loads\<close> (\<open>None\<close> is its
  \<^verbatim>\<open>ValueError\<close>), \<^verbatim>\<open>str(x)\<close> of a value that is not a string, and \<^verbatim>\<open>float(s)\<close> of a text.
\<close>

record lease_lib =
  dumps :: "pyjson \<Rightarrow> bytes"
  loads :: "bytes \<Rightarrow> pyjson option"
  str_repr :: "pyjson \<Rightarrow> string"
  float_text :: "string \<Rightarrow> pyfloat option"

definition lease_doc :: "string \<Rightarrow> pyfloat \<Rightarrow> pyfloat \<Rightarrow> pyjson" where
  "lease_doc holder ttl expires =
     PDict [(''holder'', PStr holder), (''ttl'', PFloat ttl), (''expires_at'', PFloat expires)]"

text \<open>What is used of the JSON text: a lease document reads back as it was written.\<close>

definition lease_lib_ok :: "lease_lib \<Rightarrow> bool" where
  "lease_lib_ok J \<longleftrightarrow> (\<forall>h t x. loads J (dumps J (lease_doc h t x)) = Some (lease_doc h t x))"

definition py_str :: "lease_lib \<Rightarrow> pyjson \<Rightarrow> string" where
  "py_str J v = (case v of PStr s \<Rightarrow> s | _ \<Rightarrow> str_repr J v)"

definition py_float :: "lease_lib \<Rightarrow> pyjson \<Rightarrow> error + pyfloat" where
  "py_float J v = (case v of
     PFloat x \<Rightarrow> Inr x
   | PBool b \<Rightarrow> Inr (Finite (if b then 1 else 0))
   | PInt i \<Rightarrow> (if \<bar>i\<bar> \<ge> 2 ^ 1024 - 2 ^ 970 then Inl PyOverflowError else Inr (Finite (of_int i)))
   | PStr s \<Rightarrow> (case float_text J s of None \<Rightarrow> Inl PyValueError | Some x \<Rightarrow> Inr x)
   | _ \<Rightarrow> Inl PyTypeError)"

text \<open>\<^verbatim>\<open>doc["name"]\<close>: a list or a text refuses the index, a dictionary may lack it.\<close>

definition py_item :: "pyjson \<Rightarrow> string \<Rightarrow> error + pyjson" where
  "py_item v name = (case v of
     PDict kvs \<Rightarrow> (case map_of kvs name of None \<Rightarrow> Inl PyKeyError | Some x \<Rightarrow> Inr x)
   | _ \<Rightarrow> Inl PyTypeError)"

definition parse_fields :: "lease_lib \<Rightarrow> bytes \<Rightarrow> error + (string \<times> pyfloat \<times> pyfloat)" where
  "parse_fields J b =
     (case loads J b of None \<Rightarrow> Inl PyValueError | Some doc \<Rightarrow>
     (case py_item doc ''holder'' of Inl e \<Rightarrow> Inl e | Inr h \<Rightarrow>
     (case py_item doc ''ttl'' of Inl e \<Rightarrow> Inl e | Inr t \<Rightarrow>
     (case py_float J t of Inl e \<Rightarrow> Inl e | Inr ttl \<Rightarrow>
     (case py_item doc ''expires_at'' of Inl e \<Rightarrow> Inl e | Inr x \<Rightarrow>
     (case py_float J x of Inl e \<Rightarrow> Inl e | Inr expires \<Rightarrow> Inr (py_str J h, ttl, expires)))))))"

definition lease_parse :: "lease_lib \<Rightarrow> bytes \<Rightarrow> error + (string \<times> pyfloat \<times> pyfloat)" where
  "lease_parse J b = (case parse_fields J b of
     Inl e \<Rightarrow> (if e \<in> {PyKeyError, PyTypeError, PyValueError} then Inr (''<corrupt>'', Finite 0, Finite 0) else Inl e)
   | Inr r \<Rightarrow> Inr r)"

section \<open>The lease object\<close>

definition LEASE_KEY :: key where
  "LEASE_KEY = ''maintenance-lease''"

datatype lease_state = LeaseVacant | LeaseAcquirable string | LeaseHeldByOther pyfloat

record observed =
  ob_holder :: string
  seconds_left :: pyfloat
  ob_tag :: string

definition classify_lease :: "observed option \<Rightarrow> string \<Rightarrow> lease_state" where
  "classify_lease obs holder = (case obs of
     None \<Rightarrow> LeaseVacant
   | Some ob \<Rightarrow>
       (if ob_holder ob \<noteq> holder \<and> pf_positive (seconds_left ob) then LeaseHeldByOther (seconds_left ob)
        else LeaseAcquirable (ob_tag ob)))"

text \<open>
  The constructor's arguments. \<open>wall_clock\<close> is \<^verbatim>\<open>time.time()\<close> of the holder's own machine and \<open>fresh\<close>
  is \<^verbatim>\<open>uuid4()\<close>, both read off the world when they are called.
\<close>

record 's lease_cfg =
  holder_id :: string
  lease_key :: key
  lease_ttl :: pyfloat
  wall_clock :: "'s \<Rightarrow> pyfloat"
  fresh :: "'s \<Rightarrow> uuid"

definition lease_body :: "lease_lib \<Rightarrow> 's lease_cfg \<Rightarrow> pyfloat option \<Rightarrow> ('s, bytes) io" where
  "lease_body J C ttl =
     (let effective = (case ttl of Some t \<Rightarrow> t | None \<Rightarrow> lease_ttl C) in
      bind_io (ask (wall_clock C)) (\<lambda>now. ret (dumps J (lease_doc (holder_id C) effective (pf_add now effective)))))"

definition now_probe :: "key \<Rightarrow> uuid \<Rightarrow> key" where
  "now_probe k u = k @ ''.now-probe-'' @ uuid_str u"

text \<open>Timestamps are microseconds; \<^verbatim>\<open>total_seconds()\<close> of a difference of two of them.\<close>

definition total_seconds :: "int \<Rightarrow> pyfloat" where
  "total_seconds d = Finite (of_int d / 1000000)"

definition lease_observe :: "lease_lib \<Rightarrow> 's lease_cfg \<Rightarrow> 's store \<Rightarrow> ('s, observed option) io" where
  "lease_observe J C S =
     bind_io (try_io (get S (lease_key C))) (\<lambda>r. case r of
         Inl e \<Rightarrow> (if e = ObjectNotFoundError then ret None else raise e)
       | Inr current \<Rightarrow>
           bind_io (lift_io (lease_parse J (body current))) (\<lambda>(holder, ttl, expires_at).
           (let local = bind_io (ask (wall_clock C)) (\<lambda>now.
                  ret (Some \<lparr>ob_holder = holder, seconds_left = pf_diff expires_at now, ob_tag = etag current\<rparr>)) in
            case last_modified current of
              None \<Rightarrow> local
            | Some modified \<Rightarrow>
                bind_io (ask (fresh C)) (\<lambda>u.
                (let probe = now_probe (lease_key C) u in
                 bind_io (put_if_absent S probe ''t'') (\<lambda>_.
                 bind_io (finally_io (bind_io (get S probe) (\<lambda>p. ret (last_modified p))) (delete S probe)) (\<lambda>now.
                   case now of
                     None \<Rightarrow> local
                   | Some t \<Rightarrow> ret (Some \<lparr>ob_holder = holder,
                       seconds_left = pf_diff ttl (total_seconds (t - modified)), ob_tag = etag current\<rparr>))))))))"

text \<open>The conditional-write failures that mean another holder was faster.\<close>

definition lost_race :: "error \<Rightarrow> bool" where
  "lost_race e \<longleftrightarrow> e = PreconditionFailedError \<or> e = ConditionalConflictError \<or> e = ObjectNotFoundError"

text \<open>\<^verbatim>\<open>acquire\<close> calls itself when the lease vanished in between: the number is the recursion depth left.\<close>

fun lease_acquire :: "nat \<Rightarrow> lease_lib \<Rightarrow> 's lease_cfg \<Rightarrow> 's store \<Rightarrow> ('s \<times> string option, bool) io" where
  "lease_acquire 0 J C S = raise PyRecursionError"
| "lease_acquire (Suc n) J C S =
     bind_io (on_world (lease_body J C None)) (\<lambda>b.
     bind_io (try_io (on_world (put_if_absent S (lease_key C) b))) (\<lambda>r. case r of
         Inr tag \<Rightarrow> bind_io (set_attr (Some tag)) (\<lambda>_. ret True)
       | Inl e \<Rightarrow>
           if e \<noteq> PreconditionFailedError then raise e
           else bind_io (on_world (lease_observe J C S)) (\<lambda>obs. case classify_lease obs (holder_id C) of
               LeaseVacant \<Rightarrow> lease_acquire n J C S
             | LeaseHeldByOther _ \<Rightarrow> ret False
             | LeaseAcquirable tag \<Rightarrow>
                 bind_io (on_world (lease_body J C None)) (\<lambda>b'.
                 bind_io (try_io (on_world (put_if_match S (lease_key C) b' tag))) (\<lambda>q. case q of
                     Inl x \<Rightarrow> (if lost_race x then ret False else raise x)
                   | Inr tag' \<Rightarrow> bind_io (set_attr (Some tag')) (\<lambda>_. ret True))))))"

definition lease_renew :: "lease_lib \<Rightarrow> 's lease_cfg \<Rightarrow> 's store \<Rightarrow> ('s \<times> string option, bool) io" where
  "lease_renew J C S =
     bind_io get_attr (\<lambda>tag. case tag of
         None \<Rightarrow> ret False
       | Some t \<Rightarrow>
           bind_io (on_world (lease_body J C None)) (\<lambda>b.
           bind_io (try_io (on_world (put_if_match S (lease_key C) b t))) (\<lambda>r. case r of
               Inl e \<Rightarrow> (if lost_race e then bind_io (set_attr None) (\<lambda>_. ret False) else raise e)
             | Inr t' \<Rightarrow> bind_io (set_attr (Some t')) (\<lambda>_. ret True))))"

definition lease_release :: "lease_lib \<Rightarrow> 's lease_cfg \<Rightarrow> 's store \<Rightarrow> ('s \<times> string option, unit) io" where
  "lease_release J C S =
     bind_io get_attr (\<lambda>tag. case tag of
         None \<Rightarrow> ret ()
       | Some t \<Rightarrow>
           bind_io (on_world (lease_body J C (Some (Finite 0)))) (\<lambda>b.
           bind_io (try_io (on_world (put_if_match S (lease_key C) b t))) (\<lambda>r. case r of
               Inl e \<Rightarrow> (if lost_race e then set_attr None else raise e)
             | Inr _ \<Rightarrow> set_attr None)))"

section \<open>The methods on the in-memory store\<close>

lemma pf_diff_finite [simp]: "pf_diff (Finite x) (Finite y) = Finite (x - y)"
  by (simp add: pf_diff_def)

lemma lease_body_run [simp]:
  "lease_body J C ttl s = (Inr (dumps J (lease_doc (holder_id C) (case ttl of Some t \<Rightarrow> t | None \<Rightarrow> lease_ttl C)
     (pf_add (wall_clock C s) (case ttl of Some t \<Rightarrow> t | None \<Rightarrow> lease_ttl C)))), s)"
  by (simp add: lease_body_def Let_def)

lemma lease_parse_doc [simp]: "lease_lib_ok J \<Longrightarrow> lease_parse J (dumps J (lease_doc h t x)) = Inr (h, t, x)"
  by (simp add: lease_lib_ok_def lease_parse_def parse_fields_def)
     (simp add: lease_doc_def py_item_def py_float_def py_str_def)

lemma now_probe_fresh_key [simp]: "now_probe k u \<noteq> k"
  by (simp add: now_probe_def)

text \<open>Looking at the lease leaves the lease, the clock and every other object as they were.\<close>

definition same_lease :: "key \<Rightarrow> mem \<Rightarrow> mem \<Rightarrow> bool" where
  "same_lease k m m' \<longleftrightarrow> mem_objs m' k = mem_objs m k \<and> clock m' = clock m \<and> etag_counter m \<le> etag_counter m'"

interpretation lease_rel: step_relation "same_lease k" for k
  by unfold_locales (auto simp: same_lease_def)

lemma mem_write_same: "j \<noteq> k \<Longrightarrow> guar (same_lease k) (mem_write j b)"
  by (auto simp: guar_def same_lease_def mem_write_run mem_objs_def)

lemma mem_calls_same [guar_intros]:
  "guar (same_lease k) (get mem_store j)"
  "guar (same_lease k) (head_meta mem_store j)"
  "j \<noteq> k \<Longrightarrow> guar (same_lease k) (put_if_absent mem_store j b)"
  "j \<noteq> k \<Longrightarrow> guar (same_lease k) (put_if_match mem_store j b t)"
  "j \<noteq> k \<Longrightarrow> guar (same_lease k) (put mem_store j b)"
  "j \<noteq> k \<Longrightarrow> guar (same_lease k) (delete mem_store j)"
  using mem_write_same [of j k b]
  by (auto simp: guar_def same_lease_def mem_store_def mem_get_def mem_head_meta_def mem_put_if_absent_def
      mem_put_if_match_def mem_put_def mem_delete_def mem_objs_def split: option.splits)

lemma lease_observe_same: "guar (same_lease (lease_key C)) (lease_observe J C mem_store)"
  unfolding lease_observe_def Let_def
  by (intro lease_rel.guar_bind lease_rel.guar_try mem_calls_same)
     (auto split: sum.splits option.splits intro!: lease_rel.guar_bind lease_rel.guar_finally lease_rel.guar_lift
        lease_rel.guar_ask lease_rel.guar_ret lease_rel.guar_raise mem_calls_same)

text \<open>
  A lease body is live for another holder while the time since it was written, on the store's clock,
  is less than its \<^verbatim>\<open>ttl\<close>.
\<close>

definition live_for :: "lease_lib \<Rightarrow> string \<Rightarrow> int \<Rightarrow> stored \<Rightarrow> bool" where
  "live_for J holder now ob = (case lease_parse J (ob_body ob) of
     Inr (h, ttl, _) \<Rightarrow> h \<noteq> holder \<and> pf_positive (pf_diff ttl (total_seconds (now - ob_mtime ob)))
   | Inl _ \<Rightarrow> False)"

lemma mem_get_present: "mem_objs m k = Some ob \<Longrightarrow>
    get mem_store k m = (Inr \<lparr>body = ob_body ob, etag = etag_text (ob_etag ob), last_modified = Some (ob_mtime ob)\<rparr>, m)"
  and mem_get_missing: "mem_objs m k = None \<Longrightarrow> get mem_store k m = (Inl ObjectNotFoundError, m)"
  by (simp_all add: mem_store_def mem_get_def mem_objs_def)

lemma mem_delete_run: "delete mem_store k m = (Inr (), m\<lparr>objects := DAList.delete k (objects m)\<rparr>)"
  by (simp add: mem_store_def mem_delete_def)

lemma mem_write_present:
  "mem_write k b m = (Inr x, m') \<Longrightarrow> x = etag_text (Suc (etag_counter m)) \<and> etag_counter m' = Suc (etag_counter m) \<and>
     clock m' = clock m \<and> mem_objs m' = (mem_objs m)(k \<mapsto> \<lparr>ob_body = b, ob_etag = Suc (etag_counter m), ob_mtime = clock m\<rparr>)"
  by (auto simp: mem_write_run mem_objs_def)

lemma lease_observe_mem:
  assumes run: "lease_observe J C mem_store m = (Inr obs, m')" and ob: "mem_objs m (lease_key C) = Some ob"
  shows "\<exists>h t x. lease_parse J (ob_body ob) = Inr (h, t, x) \<and>
    obs = Some \<lparr>ob_holder = h, seconds_left = pf_diff t (total_seconds (clock m - ob_mtime ob)), ob_tag = etag_text (ob_etag ob)\<rparr>"
proof -
  let ?p = "now_probe (lease_key C) (fresh C m)"
  obtain h t x where parse: "lease_parse J (ob_body ob) = Inr (h, t, x)"
    using run by (cases "lease_parse J (ob_body ob)") (auto simp: lease_observe_def mem_get_present [OF ob])
  have absent: "mem_objs m ?p = None"
    using run parse by (cases "mem_objs m ?p")
      (auto simp: lease_observe_def mem_get_present [OF ob] mem_store_put mem_put_if_absent_run Let_def)
  obtain e m1 where w: "mem_write ?p ''t'' m = (Inr e, m1)" using mem_write_run by blast
  from mem_write_present [OF w] have "get mem_store ?p m1 =
      (Inr \<lparr>body = ''t'', etag = e, last_modified = Some (clock m)\<rparr>, m1)" by (simp add: mem_get_present)
  then have "finally_io (bind_io (get mem_store ?p) (\<lambda>p. ret (last_modified p))) (delete mem_store ?p) m1 =
      (Inr (Some (clock m)), m1\<lparr>objects := DAList.delete ?p (objects m1)\<rparr>)"
    by (intro finally_run [where s' = m1]) (simp_all add: mem_delete_run)
  with run parse absent w show ?thesis
    by (auto simp: lease_observe_def mem_get_present [OF ob] mem_store_put mem_put_if_absent_run Let_def)
qed


lemma lease_renew_mem:
  assumes run: "lease_renew J C mem_store (m, tag) = (r, (m', tag'))"
  shows "(\<exists>ob b. r = Inr True \<and> mem_objs m (lease_key C) = Some ob \<and> tag = Some (etag_text (ob_etag ob)) \<and>
      b = dumps J (lease_doc (holder_id C) (lease_ttl C) (pf_add (wall_clock C m) (lease_ttl C))) \<and>
      mem_write (lease_key C) b m = (Inr (the tag'), m') \<and> tag' \<noteq> None)
    \<or> (r = Inr False \<and> tag' = None \<and> m' = m \<and>
        (\<forall>ob. mem_objs m (lease_key C) = Some ob \<longrightarrow> tag \<noteq> Some (etag_text (ob_etag ob))))"
proof (cases tag)
  case None
  with run show ?thesis by (auto simp: lease_renew_def)
next
  case (Some t)
  show ?thesis
  proof (cases "mem_objs m (lease_key C)")
    case None
    then have "mem_put_if_match (lease_key C) b t m = (Inl ObjectNotFoundError, m)" for b
      by (simp add: mem_put_if_match_def mem_objs_def)
    with run Some None show ?thesis by (auto simp: lease_renew_def mem_store_put lost_race_def)
  next
    case ob: (Some ob)
    show ?thesis
    proof (cases "etag_text (ob_etag ob) = t")
      case True
      with run Some ob show ?thesis
        by (auto simp: lease_renew_def mem_store_put mem_put_if_match_run mem_write_run)
    next
      case False
      with run Some ob show ?thesis
        by (auto simp: lease_renew_def mem_store_put mem_put_if_match_run lost_race_def)
    qed
  qed
qed

lemma lease_release_mem:
  assumes run: "lease_release J C mem_store (m, tag) = (r, (m', tag'))"
  shows "r = Inr () \<and> tag' = None \<and>
    (if \<exists>ob. mem_objs m (lease_key C) = Some ob \<and> tag = Some (etag_text (ob_etag ob))
     then \<exists>e. mem_write (lease_key C) (dumps J (lease_doc (holder_id C) (Finite 0) (pf_add (wall_clock C m) (Finite 0)))) m = (Inr e, m')
     else m' = m)"
proof (cases tag)
  case None
  with run show ?thesis by (auto simp: lease_release_def)
next
  case (Some t)
  show ?thesis
  proof (cases "mem_objs m (lease_key C)")
    case None
    then have "mem_put_if_match (lease_key C) b t m = (Inl ObjectNotFoundError, m)" for b
      by (simp add: mem_put_if_match_def mem_objs_def)
    with run Some None show ?thesis by (auto simp: lease_release_def mem_store_put lost_race_def)
  next
    case ob: (Some ob)
    show ?thesis
    proof (cases "etag_text (ob_etag ob) = t")
      case True
      with run Some ob show ?thesis
        by (auto simp: lease_release_def mem_store_put mem_put_if_match_run mem_write_run)
    next
      case False
      with run Some ob show ?thesis
        by (auto simp: lease_release_def mem_store_put mem_put_if_match_run lost_race_def)
    qed
  qed
qed

text \<open>
  What an \<^verbatim>\<open>acquire\<close> can do: take the lease by one write of its own body, when there was none or it
  was not live for this holder, or leave it (and the remembered ETag) alone.
\<close>

definition took_lease :: "lease_lib \<Rightarrow> mem lease_cfg \<Rightarrow> mem \<Rightarrow> mem \<Rightarrow> string option \<Rightarrow> bool" where
  "took_lease J C m m' tag' \<longleftrightarrow> (\<exists>m1 e.
     same_lease (lease_key C) m m1 \<and> tag' = Some e \<and>
     mem_write (lease_key C) (dumps J (lease_doc (holder_id C) (lease_ttl C) (pf_add (wall_clock C m1) (lease_ttl C)))) m1 =
       (Inr e, m') \<and>
     (\<forall>ob. mem_objs m (lease_key C) = Some ob \<longrightarrow> \<not> live_for J (holder_id C) (clock m) ob))"

lemma lease_acquire_mem:
  assumes "lease_acquire n J C mem_store (m, tag) = (r, (m', tag'))"
  shows "(r = Inr True \<and> took_lease J C m m' tag') \<or> (r \<noteq> Inr True \<and> tag' = tag \<and> same_lease (lease_key C) m m')"
proof (cases n)
  case 0
  with assms show ?thesis by (auto simp: lease_rel.R_refl)
next
  case (Suc n)
  let ?k = "lease_key C"
  show ?thesis
  proof (cases "mem_objs m ?k")
    case None
    with assms Suc show ?thesis
      by (auto simp: mem_store_put mem_put_if_absent_run mem_write_run took_lease_def intro: lease_rel.R_refl)
  next
    case (Some ob)
    obtain q m1 where o: "lease_observe J C mem_store m = (q, m1)" by fastforce
    have same: "same_lease ?k m m1" using lease_observe_same o by (rule guarD)
    then have ob1: "mem_objs m1 ?k = Some ob" using Some by (simp add: same_lease_def)
    show ?thesis
    proof (cases q)
      case (Inl e)
      with assms Suc Some o same show ?thesis by (auto simp: mem_store_put mem_put_if_absent_run)
    next
      case (Inr obs)
      from lease_observe_mem [OF o [unfolded Inr] Some] obtain h t x where
        parse: "lease_parse J (ob_body ob) = Inr (h, t, x)"
        and obs: "obs = Some \<lparr>ob_holder = h, seconds_left = pf_diff t (total_seconds (clock m - ob_mtime ob)),
          ob_tag = etag_text (ob_etag ob)\<rparr>" by blast
      then have live: "live_for J (holder_id C) (clock m) ob \<longleftrightarrow>
          h \<noteq> holder_id C \<and> pf_positive (pf_diff t (total_seconds (clock m - ob_mtime ob)))"
        by (simp add: live_for_def)
      show ?thesis
      proof (cases "live_for J (holder_id C) (clock m) ob")
        case True
        with assms Suc Some o Inr obs same live show ?thesis
          by (auto simp: mem_store_put mem_put_if_absent_run classify_lease_def)
      next
        case False
        obtain e m2 where w: "mem_write ?k (dumps J (lease_doc (holder_id C) (lease_ttl C)
            (pf_add (wall_clock C m1) (lease_ttl C)))) m1 = (Inr e, m2)" using mem_write_run by blast
        with assms Suc Some ob1 o Inr obs live False have "r = Inr True" "m' = m2" "tag' = Some e"
          by (auto simp: mem_store_put mem_put_if_absent_run mem_put_if_match_run classify_lease_def)
        with w same False Some show ?thesis by (auto simp: took_lease_def)
      qed
    qed
  qed
qed

lemma took_leaseD:
  assumes "took_lease J C m m' tag'"
  shows "\<exists>x. tag' = Some (etag_text (etag_counter m')) \<and> etag_counter m < etag_counter m' \<and> clock m' = clock m \<and>
    mem_objs m' (lease_key C) = Some \<lparr>ob_body = dumps J (lease_doc (holder_id C) (lease_ttl C) x),
      ob_etag = etag_counter m', ob_mtime = clock m\<rparr> \<and>
    (\<forall>ob. mem_objs m (lease_key C) = Some ob \<longrightarrow> \<not> live_for J (holder_id C) (clock m) ob)"
  using assms by (auto simp: took_lease_def same_lease_def mem_write_run mem_objs_def)

section \<open>An instance of the text library\<close>

definition put_float :: "pyfloat \<Rightarrow> string" where
  "put_float x = (case x of
     Finite r \<Rightarrow> CHR ''f'' # put_int (fst (quotient_of r)) @ put_int (snd (quotient_of r))
   | Infinite s \<Rightarrow> (if s then ''p'' else ''m'')
   | NaN \<Rightarrow> ''n'')"

definition take_float :: "string \<Rightarrow> (pyfloat \<times> string) option" where
  "take_float s = (case s of [] \<Rightarrow> None | c # r \<Rightarrow>
     if c = CHR ''f'' then
       (case take_int r of None \<Rightarrow> None | Some (a, r1) \<Rightarrow>
        (case take_int r1 of None \<Rightarrow> None | Some (b, r2) \<Rightarrow> Some (Finite (Fract a b), r2)))
     else if c = CHR ''p'' then Some (Infinite True, r)
     else if c = CHR ''m'' then Some (Infinite False, r)
     else if c = CHR ''n'' then Some (NaN, r) else None)"

lemma take_put_float [simp]: "take_float (put_float x @ rest) = Some (x, rest)"
proof (cases x)
  case (Finite r)
  obtain a b where q: "quotient_of r = (a, b)" by (cases "quotient_of r")
  from quotient_of_div [OF this] Finite q show ?thesis by (simp add: take_float_def put_float_def Fract_of_int_quotient)
qed (simp_all add: take_float_def put_float_def)

text \<open>Lease documents as text; other values are not needed.\<close>

definition sample_dumps :: "pyjson \<Rightarrow> bytes" where
  "sample_dumps v = (case v of
     PDict [(_, PStr h), (_, PFloat t), (_, PFloat x)] \<Rightarrow> put_str h @ put_float t @ put_float x
   | _ \<Rightarrow> [])"

definition sample_loads :: "bytes \<Rightarrow> pyjson option" where
  "sample_loads b =
     (case take_str b of None \<Rightarrow> None | Some (h, r) \<Rightarrow>
     (case take_float r of None \<Rightarrow> None | Some (t, r1) \<Rightarrow>
     (case take_float r1 of None \<Rightarrow> None | Some (x, _) \<Rightarrow> Some (lease_doc h t x))))"

definition sample_json :: lease_lib where
  "sample_json = \<lparr>dumps = sample_dumps, loads = sample_loads, str_repr = (\<lambda>_. ''?''), float_text = (\<lambda>_. None)\<rparr>"

lemma sample_json_ok: "lease_lib_ok sample_json"
proof -
  have "take_float (put_float x) = Some (x, [])" for x using take_put_float [of x "[]"] by simp
  then show ?thesis by (simp add: lease_lib_ok_def sample_json_def sample_dumps_def sample_loads_def lease_doc_def)
qed

definition sample_cfg :: "nat \<Rightarrow> mem lease_cfg" where
  "sample_cfg p = \<lparr>holder_id = dec p, lease_key = LEASE_KEY, lease_ttl = Finite 300, wall_clock = (\<lambda>_. Finite 0),
     fresh = (\<lambda>m. word_of_nat (etag_counter m))\<rparr>"

text \<open>
  \<^verbatim>\<open>_parse\<close> promises that a malformed body reads as expired and unowned. It does for every text
  that is not JSON or lacks a field, but a \<^verbatim>\<open>ttl\<close> that is an integer too large for a float raises
  \<^verbatim>\<open>OverflowError\<close>, which the handler does not list.
\<close>
theorem huge_ttl_escapes:
  assumes "loads J b = Some (PDict [(''holder'', PStr h), (''ttl'', PInt (2 ^ 1024)), (''expires_at'', PInt 0)])"
  shows "lease_parse J b = Inl PyOverflowError"
  using assms by (simp add: lease_parse_def parse_fields_def py_item_def py_float_def)

theorem huge_ttl_escapes_witness:
  "lease_parse (sample_json\<lparr>loads := (\<lambda>_. Some (PDict [(''holder'', PStr ''x''), (''ttl'', PInt (2 ^ 1024)), (''expires_at'', PInt 0)]))\<rparr>) []
     = Inl PyOverflowError"
  by (rule huge_ttl_escapes) simp

section \<open>The lease against a shared bucket\<close>

lemma finally_iff [io_simps]:
  "finally_io m fin s = (r, s'') \<longleftrightarrow> (\<exists>q s'. m s = (q, s') \<and>
     ((\<exists>e. fin s' = (Inl e, s'') \<and> r = Inl e) \<or> (fin s' = (Inr (), s'') \<and> r = q)))"
  by (auto simp: finally_io_def split: prod.splits sum.splits)

text \<open>Every request takes one event of the script.\<close>

lemma net_begin_script: "net_begin L n = (ev, n') \<Longrightarrow> script n' = tl (script n)"
  by (auto simp: net_begin_def split: list.splits)

lemma net_put_script: "net_put_object L k b c n = (r, n') \<Longrightarrow> script n' = tl (script n)"
proof -
  assume run: "net_put_object L k b c n = (r, n')"
  obtain ev n1 where bg: "net_begin L n = (ev, n1)" by fastforce
  obtain w m where w: "put_effect c k b (cell n1) = (w, m)" by fastforce
  from run bg w have "script n' = script n1"
    by (auto simp: net_put_object_def Let_def split: option.splits sum.splits if_splits)
  with net_begin_script [OF bg] show ?thesis by simp
qed

lemma boto_call_state: "boto_call f g (r, n) = (q, n') \<Longrightarrow> n' = n"
  by (auto simp: boto_call_def split: sum.splits)

lemma net_get_script: "get (net_store L) k n = (r, n') \<Longrightarrow> script n' = tl (script n)"
proof -
  assume run: "get (net_store L) k n = (r, n')"
  obtain ev n1 where bg: "net_begin L n = (ev, n1)" by fastforce
  obtain q m where g: "mem_get k (cell n1) = (q, m)" by fastforce
  from run bg g have "n' = n1" by (auto simp: net_defs split: option.splits sum.splits)
  with net_begin_script [OF bg] show ?thesis by simp
qed

lemma net_delete_script: "delete (net_store L) k n = (r, n') \<Longrightarrow> script n' = tl (script n)"
proof -
  assume run: "delete (net_store L) k n = (r, n')"
  obtain ev n1 where bg: "net_begin L n = (ev, n1)" by fastforce
  from run bg have "script n' = script n1" by (auto simp: net_defs split: option.splits if_splits)
  with net_begin_script [OF bg] show ?thesis by simp
qed

lemma net_create_script: "put_if_absent (net_store L) k b n = (r, n') \<Longrightarrow> script n' = tl (script n)"
  by (cases "net_put_object L k b IfNoneMatch n")
     (auto simp: net_store_def s3_store_def net_client_def s3_put_if_absent_def Let_def dest!: boto_call_state net_put_script)

lemmas net_script = net_get_script net_delete_script net_create_script

lemma lease_keys_not_root [simp]: "\<not> prefix ROOTS_PREFIX LEASE_KEY" "\<not> prefix ROOTS_PREFIX (now_probe LEASE_KEY u)"
  by (simp_all add: ROOTS_PREFIX_def LEASE_KEY_def now_probe_def)

lemma py_item_errors: "py_item v name = Inl e \<Longrightarrow> e = PyKeyError \<or> e = PyTypeError"
  by (auto simp: py_item_def split: pyjson.splits option.splits)

lemma py_float_errors: "py_float J v = Inl e \<Longrightarrow> e = PyOverflowError \<or> e = PyValueError \<or> e = PyTypeError"
  by (auto simp: py_float_def split: pyjson.splits option.splits if_splits)

lemma parse_fields_errors:
  "parse_fields J b = Inl e \<Longrightarrow> e \<in> {PyOverflowError, PyValueError, PyTypeError, PyKeyError}"
  by (auto simp: parse_fields_def split: option.splits sum.splits prod.splits dest!: py_item_errors py_float_errors)

lemma lease_parse_errors: "lease_parse J b = Inl e \<Longrightarrow> e = PyOverflowError"
  by (auto simp: lease_parse_def split: sum.splits if_splits dest!: parse_fields_errors)

context object_store
begin

lemma lease_observe_no_recursion:
  assumes "lease_key C = LEASE_KEY"
  shows "lease_observe J C S s \<noteq> (Inl PyRecursionError, s')"
  using assms
  by (auto simp: lease_observe_def Let_def io_simps get_answers_def create_errors_def
      dest!: get_law lease_parse_errors create_law [OF _ safe_create_other] delete_law split: sum.splits option.splits if_splits)

lemma guar_lease_body: "guar evolves (lease_body J C t)"
  unfolding lease_body_def Let_def by (intro guar_intros)

lemma guar_lease_observe:
  assumes "lease_key C = LEASE_KEY"
  shows "guar evolves (lease_observe J C S)"
  unfolding lease_observe_def assms Let_def
  by (auto split: sum.splits option.splits intro!: guar_intros)

end

context object_store
begin

text \<open>The methods of the lease keep every marker, whoever else acts.\<close>

lemma guar_acquire:
  assumes "lease_key C = LEASE_KEY"
  shows "guar (\<lambda>p q. evolves (fst p) (fst q)) (lease_acquire n J C S)"
proof (induction n)
  case (Suc n)
  then show ?case
    by (auto simp: assms split: sum.splits lease_state.splits intro!: guar_world guar_lease_body guar_lease_observe guar_create guar_match)
qed (simp only: lease_acquire.simps, rule guar_world)

lemma guar_renew: "lease_key C = LEASE_KEY \<Longrightarrow> guar (\<lambda>p q. evolves (fst p) (fst q)) (lease_renew J C S)"
  and guar_release: "lease_key C = LEASE_KEY \<Longrightarrow> guar (\<lambda>p q. evolves (fst p) (fst q)) (lease_release J C S)"
  unfolding lease_renew_def lease_release_def
  by (auto split: sum.splits option.splits intro!: guar_world guar_lease_body guar_match)

lemma lease_acquire_recursion:
  assumes "lease_key C = LEASE_KEY" and "lease_acquire (Suc n) J C S (s, tag) = (Inl PyRecursionError, q)"
  shows "\<exists>b s1 s2. put_if_absent S LEASE_KEY b s = (Inl PreconditionFailedError, s1) \<and> lease_observe J C S s1 = (Inr None, s2) \<and>
    lease_acquire n J C S (s2, tag) = (Inl PyRecursionError, q)"
proof -
  obtain b where b: "lease_body J C None s = (Inr b, s)" by simp
  obtain r s1 where c: "put_if_absent S LEASE_KEY b s = (r, s1)" by fastforce
  have e: "r = Inl PreconditionFailedError"
    using assms b c by (cases r) (auto split: if_splits simp: create_errors_def dest!: create_law [OF _ safe_create_other])
  obtain o1 s2 where ob: "lease_observe J C S s1 = (o1, s2)" by fastforce
  obtain obs where obs: "o1 = Inr obs"
    using assms b c e ob lease_observe_no_recursion [OF assms(1)] by (cases o1) auto
  show ?thesis
  proof (cases "classify_lease obs (holder_id C)")
    case LeaseVacant
    then have "obs = None" by (auto simp: classify_lease_def split: option.splits if_splits)
    with assms b c e ob obs show ?thesis by (auto simp: classify_lease_def)
  next
    case (LeaseAcquirable t)
    obtain b2 where b2: "lease_body J C None s2 = (Inr b2, s2)" by simp
    obtain r3 s3 where "put_if_match S LEASE_KEY b2 t s2 = (r3, s3)" by fastforce
    with assms b c e ob obs LeaseAcquirable b2 show ?thesis
      by (cases r3) (auto simp: create_errors_def split: if_splits dest!: match_law)
  next
    case (LeaseHeldByOther t)
    with assms b c e ob obs show ?thesis by auto
  qed
qed

end

lemma lease_observe_absent:
  assumes "lease_observe J C (net_store L) n = (Inr None, n')"
  shows "get (net_store L) (lease_key C) n = (Inl ObjectNotFoundError, n')"
proof -
  obtain r n1 where g: "get (net_store L) (lease_key C) n = (r, n1)" by fastforce
  with assms show ?thesis
    by (cases r) (auto simp: lease_observe_def Let_def io_simps split: option.splits if_splits)
qed

text \<open>
  \<^verbatim>\<open>acquire\<close> calls itself, but only when another process removed the lease between two of our
  requests; so the recursion is bounded by the requests during which anything happens: with more
  frames than the script of the bucket has events, it never fails with \<^verbatim>\<open>RecursionError\<close>.
\<close>
theorem acquire_recursion_is_bounded:
  assumes "lease_key C = LEASE_KEY" and "length (script n) < depth"
  shows "fst (lease_acquire depth J C (net_store L) (n, tag)) \<noteq> Inl PyRecursionError"
proof -
  have "lease_acquire depth J C (net_store L) (n, tag) \<noteq> (Inl PyRecursionError, q)" for q
    using assms(2)
  proof (induction depth arbitrary: n)
    case (Suc i)
    show ?case
    proof
      assume "lease_acquire (Suc i) J C (net_store L) (n, tag) = (Inl PyRecursionError, q)"
      from net.lease_acquire_recursion [OF assms(1) this] obtain b s1 s2 where
        c: "put_if_absent (net_store L) LEASE_KEY b n = (Inl PreconditionFailedError, s1)"
        and ob: "lease_observe J C (net_store L) s1 = (Inr None, s2)"
        and rec: "lease_acquire i J C (net_store L) (s2, tag) = (Inl PyRecursionError, q)" by blast
      have g: "get (net_store L) LEASE_KEY s1 = (Inl ObjectNotFoundError, s2)"
        using lease_observe_absent [OF ob] assms(1) by simp
      have "script n \<noteq> []"
      proof
        assume quiet: "script n = []"
        with c have "mem_objs (cell s1) LEASE_KEY \<noteq> None" "script s1 = []"
          by (auto simp: quiet_create on_cell_def mem_put_if_absent_def mem_objs_def mem_write_run split: if_splits)
        with g show False by (auto simp: quiet_get on_cell_def mem_get_def mem_objs_def split: option.splits)
      qed
      with net_script(3) [OF c] net_script(1) [OF g] Suc.prems have "length (script s2) < i"
        by (cases "script n") auto
      from Suc.IH [OF this] rec show False by simp
    qed
  qed simp
  then show ?thesis by (metis prod.collapse)
qed

theorem acquire_recursion_is_bounded_witness:
  "\<forall>L. fst (lease_acquire 1000 sample_json \<lparr>holder_id = ''a'', lease_key = LEASE_KEY, lease_ttl = Finite 300,
     wall_clock = (\<lambda>_. Finite 0), fresh = (\<lambda>_. 7)\<rparr> (net_store L)
     (\<lparr>cell = empty_mem, script = replicate 40 (quiet\<lparr>rivals := [RivalDelete LEASE_KEY]\<rparr>)\<rparr>, None)) \<noteq> Inl PyRecursionError"
  by (intro allI acquire_recursion_is_bounded) simp_all

end
