(* ===== verification/Lease_Fleet.thy ===== *)
theory Lease_Fleet
  imports Lease
begin

text \<open>
  Many holders of the lease of \<^verbatim>\<open>lease.py\<close> against one store: an invariant of every reachable state, mutual
  exclusion on the store's clock, and the takeover of expired and released leases.
\<close>

section \<open>Mutual exclusion of a fleet\<close>

text \<open>
  Holders numbered by \<open>nat\<close> share one lease object; each remembers its own ETag. They act one method
  at a time, in any order, while the store's clock runs. Their wall clocks are arbitrary.
\<close>

record fleet =
  fleet_mem :: mem
  fleet_tag :: "nat \<Rightarrow> string option"

datatype lease_op = Wait nat | Acquire nat | Renew nat | Release nat

definition fleet_set :: "nat \<Rightarrow> (error + 'a) \<times> mem \<times> string option \<Rightarrow> fleet \<Rightarrow> fleet" where
  "fleet_set p out f = (case out of (_, m', tag') \<Rightarrow> \<lparr>fleet_mem = m', fleet_tag = (fleet_tag f)(p := tag')\<rparr>)"

definition fleet_acquire :: "nat \<Rightarrow> lease_lib \<Rightarrow> (nat \<Rightarrow> mem lease_cfg) \<Rightarrow> nat \<Rightarrow> fleet \<Rightarrow> (error + bool) \<times> mem \<times> string option" where
  "fleet_acquire n J Cs p f = lease_acquire n J (Cs p) mem_store (fleet_mem f, fleet_tag f p)"

fun fleet_step :: "nat \<Rightarrow> lease_lib \<Rightarrow> (nat \<Rightarrow> mem lease_cfg) \<Rightarrow> lease_op \<Rightarrow> fleet \<Rightarrow> fleet" where
  "fleet_step n J Cs (Wait d) f = f\<lparr>fleet_mem := tick_mem d (fleet_mem f)\<rparr>"
| "fleet_step n J Cs (Acquire p) f = fleet_set p (fleet_acquire n J Cs p f) f"
| "fleet_step n J Cs (Renew p) f = fleet_set p (lease_renew J (Cs p) mem_store (fleet_mem f, fleet_tag f p)) f"
| "fleet_step n J Cs (Release p) f = fleet_set p (lease_release J (Cs p) mem_store (fleet_mem f, fleet_tag f p)) f"

text \<open>\<open>fleet_ok\<close>: one lease object, one name per holder.\<close>

definition fleet_ok :: "lease_lib \<Rightarrow> (nat \<Rightarrow> mem lease_cfg) \<Rightarrow> bool" where
  "fleet_ok J Cs \<longleftrightarrow> lease_lib_ok J \<and> (\<forall>p. lease_key (Cs p) = LEASE_KEY) \<and> (\<forall>p q. holder_id (Cs p) = holder_id (Cs q) \<longrightarrow> p = q)"

definition current :: "fleet \<Rightarrow> nat \<Rightarrow> bool" where
  "current f p \<longleftrightarrow> (\<exists>ob. mem_objs (fleet_mem f) LEASE_KEY = Some ob \<and> fleet_tag f p = Some (etag_text (ob_etag ob)))"

text \<open>
  Every remembered ETag was issued by the store and no two holders remember the same one; a holder
  whose ETag is the current one wrote the body.
\<close>

definition fleet_inv :: "lease_lib \<Rightarrow> (nat \<Rightarrow> mem lease_cfg) \<Rightarrow> fleet \<Rightarrow> bool" where
  "fleet_inv J Cs f \<longleftrightarrow>
     (\<forall>p e. fleet_tag f p = Some e \<longrightarrow> (\<exists>i \<le> etag_counter (fleet_mem f). e = etag_text i)) \<and>
     (\<forall>p q e. fleet_tag f p = Some e \<longrightarrow> fleet_tag f q = Some e \<longrightarrow> p = q) \<and>
     (\<forall>ob. mem_objs (fleet_mem f) LEASE_KEY = Some ob \<longrightarrow> ob_etag ob \<le> etag_counter (fleet_mem f)) \<and>
     (\<forall>p ob. mem_objs (fleet_mem f) LEASE_KEY = Some ob \<longrightarrow> fleet_tag f p = Some (etag_text (ob_etag ob)) \<longrightarrow>
        (\<exists>x. ob_body ob = dumps J (lease_doc (holder_id (Cs p)) (lease_ttl (Cs p)) x)))"

inductive fleet_reachable :: "nat \<Rightarrow> lease_lib \<Rightarrow> (nat \<Rightarrow> mem lease_cfg) \<Rightarrow> fleet \<Rightarrow> bool"
  for n J Cs where
  start: "(\<forall>ob. mem_objs m LEASE_KEY = Some ob \<longrightarrow> ob_etag ob \<le> etag_counter m) \<Longrightarrow>
      fleet_reachable n J Cs \<lparr>fleet_mem = m, fleet_tag = (\<lambda>_. None)\<rparr>"
| step: "fleet_reachable n J Cs f \<Longrightarrow> fleet_reachable n J Cs (fleet_step n J Cs op f)"

lemma fleet_inv_write:
  assumes inv: "fleet_inv J Cs f" and count: "etag_counter (fleet_mem f) < i"
    and m': "etag_counter m' = i" "mem_objs m' LEASE_KEY = Some \<lparr>ob_body = b, ob_etag = i, ob_mtime = c\<rparr>"
    and b: "\<exists>x. b = dumps J (lease_doc (holder_id (Cs p)) (lease_ttl (Cs p)) x)"
  shows "fleet_inv J Cs \<lparr>fleet_mem = m', fleet_tag = (fleet_tag f)(p := Some (etag_text i))\<rparr>"
proof -
  have old: "j < i" if "fleet_tag f q = Some (etag_text j)" for q j
    using inv that count unfolding fleet_inv_def by (metis etag_text_inject le_less_trans)
  have issued: "\<exists>j \<le> i. e = etag_text j" if "fleet_tag f q = Some e" for q e
    using inv that count unfolding fleet_inv_def by (meson le_trans less_imp_le)
  have "q = r" if "fleet_tag f q = Some e" "fleet_tag f r = Some e" for q r e
    using inv that by (simp add: fleet_inv_def)
  with old issued m' b show ?thesis
    by (fastforce simp: fleet_inv_def)
qed

lemma fleet_inv_forget:
  assumes inv: "fleet_inv J Cs f" and m': "etag_counter (fleet_mem f) \<le> etag_counter (fleet_mem f')"
    and tags: "\<And>q e. fleet_tag f' q = Some e \<Longrightarrow> fleet_tag f q = Some e"
    and obj: "mem_objs (fleet_mem f') LEASE_KEY = mem_objs (fleet_mem f) LEASE_KEY \<or>
      (\<exists>ob. mem_objs (fleet_mem f') LEASE_KEY = Some ob \<and> etag_counter (fleet_mem f) < ob_etag ob \<and> ob_etag ob \<le> etag_counter (fleet_mem f'))"
  shows "fleet_inv J Cs f'"
proof -
  from inv have inv1: "\<And>p e. fleet_tag f p = Some e \<Longrightarrow> \<exists>i \<le> etag_counter (fleet_mem f). e = etag_text i"
    and inv2: "\<And>p q e. fleet_tag f p = Some e \<Longrightarrow> fleet_tag f q = Some e \<Longrightarrow> p = q"
    and inv3: "\<And>ob. mem_objs (fleet_mem f) LEASE_KEY = Some ob \<Longrightarrow> ob_etag ob \<le> etag_counter (fleet_mem f)"
    and inv4: "\<And>p ob. mem_objs (fleet_mem f) LEASE_KEY = Some ob \<Longrightarrow> fleet_tag f p = Some (etag_text (ob_etag ob)) \<Longrightarrow>
        \<exists>x. ob_body ob = dumps J (lease_doc (holder_id (Cs p)) (lease_ttl (Cs p)) x)"
    by (auto simp: fleet_inv_def)
  have "\<exists>i \<le> etag_counter (fleet_mem f'). e = etag_text i" if "fleet_tag f' q = Some e" for q e
    using inv1 [OF tags [OF that]] le_trans [OF _ m'] by blast
  moreover have "p = q" if "fleet_tag f' p = Some e" "fleet_tag f' q = Some e" for p q e
    using inv2 tags that by blast
  moreover have "ob_etag ob \<le> etag_counter (fleet_mem f')" if "mem_objs (fleet_mem f') LEASE_KEY = Some ob" for ob
    using obj inv3 [of ob] m' that by auto
  moreover have "\<exists>x. ob_body ob = dumps J (lease_doc (holder_id (Cs p)) (lease_ttl (Cs p)) x)"
    if "mem_objs (fleet_mem f') LEASE_KEY = Some ob" "fleet_tag f' p = Some (etag_text (ob_etag ob))" for p ob
    using obj inv1 [OF tags [OF that(2)]] inv4 [OF _ tags [OF that(2)]] that(1) by auto
  ultimately show ?thesis by (simp add: fleet_inv_def)
qed

lemma fleet_inv_step:
  assumes ok: "fleet_ok J Cs" and inv: "fleet_inv J Cs f"
  shows "fleet_inv J Cs (fleet_step n J Cs op f)"
proof (cases op)
  case (Wait d)
  with inv show ?thesis by (simp add: fleet_inv_def tick_mem_def mem_objs_def)
next
  case (Acquire p)
  obtain r m' t where run: "fleet_acquire n J Cs p f = (r, (m', t))" by (cases "fleet_acquire n J Cs p f") auto
  have k: "lease_key (Cs p) = LEASE_KEY" using ok by (simp add: fleet_ok_def)
  from lease_acquire_mem [OF run [unfolded fleet_acquire_def]]
  show ?thesis
  proof (elim disjE conjE)
    assume "took_lease J (Cs p) (fleet_mem f) m' t"
    from took_leaseD [OF this] k run Acquire show ?thesis
      by (auto simp: fleet_set_def intro!: fleet_inv_write [OF inv])
  next
    assume "t = fleet_tag f p" and "same_lease (lease_key (Cs p)) (fleet_mem f) m'"
    with k run Acquire show ?thesis
      by (auto simp: fleet_set_def same_lease_def intro!: fleet_inv_forget [OF inv] split: if_splits)
  qed
next
  case (Renew p)
  obtain r m' t where run: "lease_renew J (Cs p) mem_store (fleet_mem f, fleet_tag f p) = (r, (m', t))"
    by (cases "lease_renew J (Cs p) mem_store (fleet_mem f, fleet_tag f p)") auto
  have k: "lease_key (Cs p) = LEASE_KEY" using ok by (simp add: fleet_ok_def)
  from lease_renew_mem [OF run] show ?thesis
  proof (elim disjE exE conjE)
    fix ob b
    assume b: "b = dumps J (lease_doc (holder_id (Cs p)) (lease_ttl (Cs p)) (pf_add (wall_clock (Cs p) (fleet_mem f)) (lease_ttl (Cs p))))"
      and w: "mem_write (lease_key (Cs p)) b (fleet_mem f) = (Inr (the t), m')" and t: "t \<noteq> None"
    from mem_write_present [OF w] t have t': "t = Some (etag_text (Suc (etag_counter (fleet_mem f))))" by auto
    show ?thesis
      using mem_write_present [OF w] k b run Renew
      by (auto simp: fleet_set_def t' intro!: fleet_inv_write [OF inv])
  next
    assume "t = None" and "m' = fleet_mem f"
    with run Renew show ?thesis by (auto simp: fleet_set_def intro!: fleet_inv_forget [OF inv] split: if_splits)
  qed
next
  case (Release p)
  obtain r m' t where run: "lease_release J (Cs p) mem_store (fleet_mem f, fleet_tag f p) = (r, (m', t))"
    by (cases "lease_release J (Cs p) mem_store (fleet_mem f, fleet_tag f p)") auto
  have k: "lease_key (Cs p) = LEASE_KEY" using ok by (simp add: fleet_ok_def)
  note rel = lease_release_mem [OF run]
  show ?thesis
  proof (cases "m' = fleet_mem f")
    case True
    with rel run Release show ?thesis by (auto simp: fleet_set_def intro!: fleet_inv_forget [OF inv] split: if_splits)
  next
    case False
    with rel obtain e b where "mem_write (lease_key (Cs p)) b (fleet_mem f) = (Inr e, m')" by (auto split: if_splits)
    from mem_write_present [OF this] k rel run Release show ?thesis
      by (auto simp: fleet_set_def intro!: fleet_inv_forget [OF inv] split: if_splits)
  qed
qed

lemma fleet_reachable_inv: "fleet_reachable n J Cs f \<Longrightarrow> fleet_ok J Cs \<Longrightarrow> fleet_inv J Cs f"
proof (induction rule: fleet_reachable.induct)
  case (start m)
  then show ?case by (simp add: fleet_inv_def)
qed (rule fleet_inv_step)

text \<open>
  Claim C16. At most one holder of a fleet is the current one, in every reachable state: if the ETag that
  \<open>p\<close> remembers is that of the lease object, then \<open>p\<close> is the holder named in it and \<^verbatim>\<open>renew\<close> of every
  other process returns False.
\<close>
theorem one_current_holder:
  assumes "fleet_ok J Cs" and "fleet_reachable n J Cs f" and "current f p"
  shows "(\<exists>ob x. mem_objs (fleet_mem f) LEASE_KEY = Some ob \<and> lease_parse J (ob_body ob) = Inr (holder_id (Cs p), lease_ttl (Cs p), x)) \<and>
    (\<forall>q. q \<noteq> p \<longrightarrow> fst (lease_renew J (Cs q) mem_store (fleet_mem f, fleet_tag f q)) = Inr False)"
proof -
  have inv: "fleet_inv J Cs f" using assms(2,1) by (rule fleet_reachable_inv)
  from assms(3) obtain ob where ob: "mem_objs (fleet_mem f) LEASE_KEY = Some ob" "fleet_tag f p = Some (etag_text (ob_etag ob))"
    unfolding current_def by blast
  have "fst (lease_renew J (Cs q) mem_store (fleet_mem f, fleet_tag f q)) = Inr False" if "q \<noteq> p" for q
  proof -
    obtain r m' t where run: "lease_renew J (Cs q) mem_store (fleet_mem f, fleet_tag f q) = (r, (m', t))"
      by (cases "lease_renew J (Cs q) mem_store (fleet_mem f, fleet_tag f q)") auto
    have "fleet_tag f q \<noteq> Some (etag_text (ob_etag ob))" using inv ob(2) that unfolding fleet_inv_def by blast
    with lease_renew_mem [OF run] ob assms(1) run show ?thesis by (auto simp: fleet_ok_def)
  qed
  moreover from inv ob assms(1) have "\<exists>x. lease_parse J (ob_body ob) = Inr (holder_id (Cs p), lease_ttl (Cs p), x)"
    unfolding fleet_inv_def fleet_ok_def by (metis lease_parse_doc)
  ultimately show ?thesis using ob(1) by blast
qed


text \<open>What a holder has between a successful \<^verbatim>\<open>acquire\<close> at time \<open>c\<close> and the end of its \<^verbatim>\<open>ttl\<close>.\<close>

definition held_since :: "lease_lib \<Rightarrow> (nat \<Rightarrow> mem lease_cfg) \<Rightarrow> nat \<Rightarrow> int \<Rightarrow> fleet \<Rightarrow> bool" where
  "held_since J Cs p c f \<longleftrightarrow> (\<exists>ob x. mem_objs (fleet_mem f) LEASE_KEY = Some ob \<and>
     ob_body ob = dumps J (lease_doc (holder_id (Cs p)) (lease_ttl (Cs p)) x) \<and>
     fleet_tag f p = Some (etag_text (ob_etag ob)) \<and> c \<le> ob_mtime ob \<and> ob_mtime ob \<le> clock (fleet_mem f))"

lemma held_live:
  assumes ok: "fleet_ok J Cs" and held: "held_since J Cs p c f" and t: "lease_ttl (Cs p) = Finite t"
    and time: "of_int (clock (fleet_mem f) - c) < t * 1000000" and q: "q \<noteq> p"
    and ob: "mem_objs (fleet_mem f) LEASE_KEY = Some ob"
  shows "live_for J (holder_id (Cs q)) (clock (fleet_mem f)) ob"
proof -
  from held ob obtain x where x: "ob_body ob = dumps J (lease_doc (holder_id (Cs p)) (lease_ttl (Cs p)) x)" "c \<le> ob_mtime ob"
    unfolding held_since_def by auto
  have "(of_int (clock (fleet_mem f) - ob_mtime ob) :: rat) \<le> of_int (clock (fleet_mem f) - c)"
    using x(2) by (simp only: of_int_le_iff)
  with time have "(of_int (clock (fleet_mem f) - ob_mtime ob) :: rat) / 1000000 < t" by simp
  moreover have "holder_id (Cs p) \<noteq> holder_id (Cs q)" "lease_lib_ok J" using ok q by (auto simp: fleet_ok_def)
  ultimately show ?thesis
    by (simp add: live_for_def x(1) t total_seconds_def pf_positive_def)
qed

lemma held_refused:
  assumes "fleet_ok J Cs" and "held_since J Cs p c f" and "lease_ttl (Cs p) = Finite t"
    and "of_int (clock (fleet_mem f) - c) < t * 1000000" and "q \<noteq> p"
    and run: "fleet_acquire n J Cs q f = (r, (m', tag))"
  shows "r \<noteq> Inr True \<and> tag = fleet_tag f q \<and> same_lease LEASE_KEY (fleet_mem f) m'"
proof -
  have k: "lease_key (Cs q) = LEASE_KEY" using assms(1) by (simp add: fleet_ok_def)
  from assms(2) obtain ob where ob: "mem_objs (fleet_mem f) LEASE_KEY = Some ob" unfolding held_since_def by blast
  from held_live [OF assms(1-5) ob] ob k have "\<not> took_lease J (Cs q) (fleet_mem f) m' tag"
    by (auto dest: took_leaseD)
  with lease_acquire_mem [OF run [unfolded fleet_acquire_def]] k show ?thesis by auto
qed

lemma held_keep:
  "held_since J Cs p c f \<Longrightarrow> fleet_tag f' p = fleet_tag f p \<Longrightarrow> same_lease LEASE_KEY (fleet_mem f) (fleet_mem f') \<Longrightarrow>
     held_since J Cs p c f'"
  by (simp add: held_since_def same_lease_def)

lemma held_write:
  assumes "mem_objs m' LEASE_KEY = Some \<lparr>ob_body = dumps J (lease_doc (holder_id (Cs p)) (lease_ttl (Cs p)) x), ob_etag = i, ob_mtime = t\<rparr>"
    and "tag = Some (etag_text i)" and "clock m' = t" and "c \<le> t"
  shows "held_since J Cs p c \<lparr>fleet_mem = m', fleet_tag = T(p := tag)\<rparr>"
  using assms by (auto simp: held_since_def)

lemma held_clock: "held_since J Cs p c f \<Longrightarrow> c \<le> clock (fleet_mem f)"
  by (auto simp: held_since_def)

lemma held_step:
  assumes ok: "fleet_ok J Cs" and inv: "fleet_inv J Cs f" and held: "held_since J Cs p c f" and t: "lease_ttl (Cs p) = Finite t"
    and time: "of_int (clock (fleet_mem f) - c) < t * 1000000" and op: "op \<noteq> Release p"
  shows "held_since J Cs p c (fleet_step n J Cs op f)"
proof -
  have k: "lease_key (Cs q) = LEASE_KEY" for q using ok by (simp add: fleet_ok_def)
  have refl: "same_lease LEASE_KEY (fleet_mem f) (fleet_mem f)" by (rule lease_rel.R_refl)
  from held obtain ob where ob: "mem_objs (fleet_mem f) LEASE_KEY = Some ob" "fleet_tag f p = Some (etag_text (ob_etag ob))"
    unfolding held_since_def by blast
  have other: "fleet_tag f q \<noteq> Some (etag_text (ob_etag ob))" if "q \<noteq> p" for q
    using inv ob(2) that unfolding fleet_inv_def by blast
  show ?thesis
  proof (cases op)
    case (Wait d)
    with held show ?thesis by (auto simp: held_since_def tick_mem_def mem_objs_def)
  next
    case (Acquire q)
    obtain r m' tag where run: "fleet_acquire n J Cs q f = (r, (m', tag))" by (cases "fleet_acquire n J Cs q f") auto
    show ?thesis
    proof (cases "q = p \<and> r = Inr True")
      case True
      then have "took_lease J (Cs p) (fleet_mem f) m' tag"
        using lease_acquire_mem [OF run [unfolded fleet_acquire_def]] by simp
      from took_leaseD [OF this] k held_clock [OF held] Acquire True run show ?thesis
        by (auto simp: fleet_set_def intro!: held_write)
    next
      case False
      then have "tag = fleet_tag f q \<and> same_lease LEASE_KEY (fleet_mem f) m'"
        using held_refused [OF ok held t time _ run] lease_acquire_mem [OF run [unfolded fleet_acquire_def]] k by auto
      with Acquire run show ?thesis by (auto simp: fleet_set_def intro!: held_keep [OF held])
    qed
  next
    case (Renew q)
    obtain r m' tag where run: "lease_renew J (Cs q) mem_store (fleet_mem f, fleet_tag f q) = (r, (m', tag))"
      by (cases "lease_renew J (Cs q) mem_store (fleet_mem f, fleet_tag f q)") auto
    show ?thesis
    proof (cases "q = p")
      case True
      with lease_renew_mem [OF run] ob k obtain x where w: "tag \<noteq> None"
        "mem_write LEASE_KEY (dumps J (lease_doc (holder_id (Cs p)) (lease_ttl (Cs p)) x)) (fleet_mem f) = (Inr (the tag), m')"
        by auto
      from mem_write_present [OF w(2)] w(1) held_clock [OF held] True Renew run show ?thesis
        by (auto simp: fleet_set_def intro!: held_write)
    next
      case False
      with lease_renew_mem [OF run] ob other [OF False] k have "m' = fleet_mem f" by auto
      with False Renew run refl show ?thesis by (auto simp: fleet_set_def intro!: held_keep [OF held])
    qed
  next
    case (Release q)
    with op have q: "q \<noteq> p" by auto
    obtain r m' tag where run: "lease_release J (Cs q) mem_store (fleet_mem f, fleet_tag f q) = (r, (m', tag))"
      by (cases "lease_release J (Cs q) mem_store (fleet_mem f, fleet_tag f q)") auto
    with lease_release_mem [OF run] ob other [OF q] k have "m' = fleet_mem f" by auto
    with q Release run refl show ?thesis by (auto simp: fleet_set_def intro!: held_keep [OF held])
  qed
qed

text \<open>The store's time that passes in a run.\<close>

fun waited :: "lease_op list \<Rightarrow> nat" where
  "waited [] = 0"
| "waited (Wait d # ops) = d + waited ops"
| "waited (_ # ops) = waited ops"

lemma fleet_clock [simp]:
  assumes "fleet_ok J Cs"
  shows "clock (fleet_mem (fleet_step n J Cs op f)) = clock (fleet_mem f) + int (waited [op])"
proof -
  have k: "lease_key (Cs p) = LEASE_KEY" for p using assms by (simp add: fleet_ok_def)
  show ?thesis
  proof (cases op)
    case (Wait d)
    then show ?thesis by (simp add: tick_mem_def)
  next
    case (Acquire p)
    obtain r m' tag where run: "fleet_acquire n J Cs p f = (r, (m', tag))" by (cases "fleet_acquire n J Cs p f") auto
    with lease_acquire_mem [OF run [unfolded fleet_acquire_def]] Acquire show ?thesis
      by (auto simp: fleet_set_def same_lease_def dest!: took_leaseD)
  next
    case (Renew p)
    obtain r m' tag where run: "lease_renew J (Cs p) mem_store (fleet_mem f, fleet_tag f p) = (r, (m', tag))"
      by (cases "lease_renew J (Cs p) mem_store (fleet_mem f, fleet_tag f p)") auto
    with lease_renew_mem [OF run] Renew show ?thesis by (auto simp: fleet_set_def dest!: mem_write_present)
  next
    case (Release p)
    obtain r m' tag where run: "lease_release J (Cs p) mem_store (fleet_mem f, fleet_tag f p) = (r, (m', tag))"
      by (cases "lease_release J (Cs p) mem_store (fleet_mem f, fleet_tag f p)") auto
    with lease_release_mem [OF run] Release show ?thesis
      by (auto simp: fleet_set_def dest!: mem_write_present split: if_splits)
  qed
qed

lemma held_run:
  assumes ok: "fleet_ok J Cs" and t: "lease_ttl (Cs p) = Finite t"
  shows "fleet_inv J Cs f \<Longrightarrow> held_since J Cs p c f \<Longrightarrow> Release p \<notin> set ops \<Longrightarrow>
    of_int (clock (fleet_mem f) - c + int (waited ops)) < t * 1000000 \<Longrightarrow>
    held_since J Cs p c (fold (fleet_step n J Cs) ops f) \<and>
    clock (fleet_mem (fold (fleet_step n J Cs) ops f)) = clock (fleet_mem f) + int (waited ops) \<and>
    fleet_inv J Cs (fold (fleet_step n J Cs) ops f)"
proof (induction ops arbitrary: f)
  case (Cons op ops)
  have w: "waited (op # ops) = waited [op] + waited ops" by (cases op) simp_all
  have "(of_int (clock (fleet_mem f) - c) :: rat) \<le> of_int (clock (fleet_mem f) - c + int (waited (op # ops)))"
    by (simp only: of_int_le_iff)
  with Cons.prems(4) have "of_int (clock (fleet_mem f) - c) < t * 1000000" by linarith
  with Cons.prems have "held_since J Cs p c (fleet_step n J Cs op f)"
    by (intro held_step [OF ok Cons.prems(1,2) t]) auto
  moreover have "fleet_inv J Cs (fleet_step n J Cs op f)" using ok Cons.prems(1) by (rule fleet_inv_step)
  moreover have "clock (fleet_mem (fleet_step n J Cs op f)) - c + int (waited ops) = clock (fleet_mem f) - c + int (waited (op # ops))"
    using fleet_clock [OF ok] w by simp
  ultimately show ?case
    using Cons.IH [of "fleet_step n J Cs op f"] Cons.prems(3,4) w fleet_clock [OF ok] by simp
qed simp

text \<open>
  Claim C15. Mutual exclusion, on the store's clock alone: once \<open>p\<close> acquired the lease, then after any run in
  which anyone acquires, renews and releases (\<open>p\<close> itself does not release) and less than \<open>p\<close>'s \<^verbatim>\<open>ttl\<close> passes on
  the store's clock, nobody else acquires it and \<open>p\<close> still renews it. The wall clocks of the
  holders are arbitrary.
\<close>
theorem lease_is_exclusive_for_its_ttl:
  assumes "fleet_ok J Cs" and "fleet_reachable n J Cs f" and "lease_ttl (Cs p) = Finite t"
    and "fst (fleet_acquire n J Cs p f) = Inr True"
    and "Release p \<notin> set ops" and "of_int (int (waited ops)) < t * 1000000"
  shows "let f' = fold (fleet_step n J Cs) ops (fleet_step n J Cs (Acquire p) f) in
    (\<forall>q. q \<noteq> p \<longrightarrow> fst (fleet_acquire n J Cs q f') \<noteq> Inr True) \<and>
    fst (lease_renew J (Cs p) mem_store (fleet_mem f', fleet_tag f' p)) = Inr True"
proof -
  let ?f1 = "fleet_step n J Cs (Acquire p) f" and ?c = "clock (fleet_mem f)"
  let ?f = "fold (fleet_step n J Cs) ops ?f1"
  have k: "lease_key (Cs q) = LEASE_KEY" for q using assms(1) by (simp add: fleet_ok_def)
  obtain r m' tag where run: "fleet_acquire n J Cs p f = (r, (m', tag))" by (cases "fleet_acquire n J Cs p f") auto
  with assms(4) lease_acquire_mem [OF run [unfolded fleet_acquire_def]]
  have "took_lease J (Cs p) (fleet_mem f) m' tag" by auto
  from took_leaseD [OF this] k run have held: "held_since J Cs p ?c ?f1"
    by (auto simp: fleet_set_def intro!: held_write)
  have clock1: "clock (fleet_mem ?f1) = ?c" using fleet_clock [OF assms(1), of n "Acquire p" f] by simp
  have inv: "fleet_inv J Cs ?f1" using assms(1) fleet_reachable_inv [OF assms(2,1)] by (rule fleet_inv_step)
  from held_run [OF assms(1,3) inv held assms(5)] assms(6) clock1
  have f: "held_since J Cs p ?c ?f" "of_int (clock (fleet_mem ?f) - ?c) < t * 1000000" by auto
  have "fst (fleet_acquire n J Cs q ?f) \<noteq> Inr True" if "q \<noteq> p" for q
    using held_refused [OF assms(1) f(1) assms(3) f(2) that] by (metis prod.collapse)
  moreover have "fst (lease_renew J (Cs p) mem_store (fleet_mem ?f, fleet_tag ?f p)) = Inr True"
  proof -
    obtain r m' tag where ren: "lease_renew J (Cs p) mem_store (fleet_mem ?f, fleet_tag ?f p) = (r, (m', tag))"
      by (cases "lease_renew J (Cs p) mem_store (fleet_mem ?f, fleet_tag ?f p)") auto
    from lease_renew_mem [OF ren] f(1) k ren show ?thesis unfolding held_since_def by auto
  qed
  ultimately show ?thesis by (simp add: Let_def)
qed

section \<open>A sample fleet\<close>

lemma sample_fleet_ok: "fleet_ok sample_json sample_cfg"
  using sample_json_ok by (auto simp: fleet_ok_def sample_cfg_def) (metis text_num_dec)

definition sample_fleet :: fleet where
  "sample_fleet = \<lparr>fleet_mem = empty_mem, fleet_tag = (\<lambda>_. None)\<rparr>"

lemma sample_fleet_start: "fleet_reachable n J Cs sample_fleet"
  unfolding sample_fleet_def by (rule fleet_reachable.start) (simp add: empty_mem_def mem_objs_def)

lemma sample_acquire:
  "\<exists>m' tag. fleet_acquire (Suc n) sample_json sample_cfg p sample_fleet = (Inr True, (m', Some tag)) \<and>
     mem_objs m' LEASE_KEY \<noteq> None \<and> (\<forall>ob. mem_objs m' LEASE_KEY = Some ob \<longrightarrow> tag = etag_text (ob_etag ob))"
  by (auto simp: fleet_acquire_def sample_fleet_def sample_cfg_def mem_store_put mem_put_if_absent_def
      empty_mem_def mem_write_run mem_objs_def)

theorem lease_is_exclusive_for_its_ttl_witness:
  "fst (fleet_acquire 5 sample_json sample_cfg 2 (fold (fleet_step 5 sample_json sample_cfg)
     [Wait 100000000, Acquire 3, Renew 2, Wait 150000000] (fleet_step 5 sample_json sample_cfg (Acquire 1) sample_fleet))) \<noteq> Inr True"
proof -
  have "fst (fleet_acquire 5 sample_json sample_cfg 1 sample_fleet) = Inr True" using sample_acquire [of 4 1] by auto
  from lease_is_exclusive_for_its_ttl [OF sample_fleet_ok sample_fleet_start, of 1 300 5 "[Wait 100000000, Acquire 3, Renew 2, Wait 150000000]", OF _ this]
  show ?thesis by (simp add: Let_def sample_cfg_def del: fleet_step.simps)
qed

theorem one_current_holder_witness:
  "\<exists>f. current f 1 \<and> fst (lease_renew sample_json (sample_cfg 2) mem_store (fleet_mem f, fleet_tag f 2)) = Inr False"
proof -
  let ?f = "fleet_step 5 sample_json sample_cfg (Acquire 1) sample_fleet"
  have cur: "current ?f 1"
    using sample_acquire [of 4 1] by (auto simp: current_def fleet_set_def)
  from one_current_holder [OF sample_fleet_ok fleet_reachable.step [OF sample_fleet_start] this] cur show ?thesis by auto
qed

section \<open>Expired, released and unreadable leases\<close>

lemma lease_observe_ok:
  assumes ob: "mem_objs m (lease_key C) = Some ob" and parse: "lease_parse J (ob_body ob) = Inr (h, t, x)"
    and absent: "mem_objs m (now_probe (lease_key C) (fresh C m)) = None"
  shows "\<exists>obs m'. lease_observe J C mem_store m = (Inr obs, m')"
proof -
  let ?p = "now_probe (lease_key C) (fresh C m)"
  obtain e m1 where w: "mem_write ?p ''t'' m = (Inr e, m1)" using mem_write_run by blast
  from mem_write_present [OF w] have "get mem_store ?p m1 =
      (Inr \<lparr>body = ''t'', etag = e, last_modified = Some (clock m)\<rparr>, m1)" by (simp add: mem_get_present)
  then have "finally_io (bind_io (get mem_store ?p) (\<lambda>p. ret (last_modified p))) (delete mem_store ?p) m1 =
      (Inr (Some (clock m)), m1\<lparr>objects := DAList.delete ?p (objects m1)\<rparr>)"
    by (intro finally_run [where s' = m1]) (simp_all add: mem_delete_run)
  with parse absent w show ?thesis
    by (auto simp: lease_observe_def mem_get_present [OF ob] mem_store_put mem_put_if_absent_run Let_def)
qed

lemma lease_acquire_decides:
  assumes ob: "mem_objs m (lease_key C) = Some ob" and parse: "lease_parse J (ob_body ob) = Inr (h, t, x)"
    and absent: "mem_objs m (now_probe (lease_key C) (fresh C m)) = None" and n: "0 < n"
  shows "fst (lease_acquire n J C mem_store (m, tag)) = Inr (\<not> live_for J (holder_id C) (clock m) ob)"
proof -
  from n obtain i where n: "n = Suc i" by (cases n) auto
  from lease_observe_ok [OF ob parse absent] obtain obs m1 where o: "lease_observe J C mem_store m = (Inr obs, m1)" by blast
  then have ob1: "mem_objs m1 (lease_key C) = Some ob"
    using guarD [OF lease_observe_same o] ob by (simp add: same_lease_def)
  from lease_observe_mem [OF o ob] parse have
    "obs = Some \<lparr>ob_holder = h, seconds_left = pf_diff t (total_seconds (clock m - ob_mtime ob)), ob_tag = etag_text (ob_etag ob)\<rparr>"
    by auto
  with n ob ob1 o parse show ?thesis
    by (simp add: mem_store_put mem_put_if_absent_run mem_put_if_match_run mem_write_run classify_lease_def live_for_def)
qed

text \<open>
  Claim C31. A crashed holder does not block forever, and no wall clock can make it so: when the lease
  object is there, its body is readable and the probe key is free, \<^verbatim>\<open>acquire\<close> answers True if the lease is
  the caller's own, or its \<^verbatim>\<open>ttl\<close> has passed on the store's clock (a released or corrupt lease has none
  left), and False exactly if it is another holder's and its \<^verbatim>\<open>ttl\<close> has not passed.
\<close>
theorem acquire_decides_by_the_store_clock:
  assumes "mem_objs m (lease_key C) = Some ob" and "lease_parse J (ob_body ob) = Inr (h, t, x)"
    and "mem_objs m (now_probe (lease_key C) (fresh C m)) = None" and "0 < n"
  shows "fst (lease_acquire n J C mem_store (m, tag)) =
    Inr (h = holder_id C \<or> \<not> pf_positive (pf_diff t (total_seconds (clock m - ob_mtime ob))))"
  using lease_acquire_decides [OF assms] assms(2) by (auto simp: live_for_def)

text \<open>
  A release is immediately visible: after the current holder released, any other holder's next
  \<^verbatim>\<open>acquire\<close> returns True, at the same store time.
\<close>
theorem released_lease_is_acquirable:
  assumes "fleet_ok J Cs" and "current f p" and "0 < n"
    and "mem_objs (fleet_mem (fleet_step n J Cs (Release p) f)) (now_probe LEASE_KEY (fresh (Cs q) (fleet_mem (fleet_step n J Cs (Release p) f)))) = None"
  shows "fst (fleet_acquire n J Cs q (fleet_step n J Cs (Release p) f)) = Inr True"
proof -
  have k: "lease_key (Cs q) = LEASE_KEY" for q using assms(1) by (simp add: fleet_ok_def)
  let ?f = "fleet_step n J Cs (Release p) f"
  obtain r m' tag where run: "lease_release J (Cs p) mem_store (fleet_mem f, fleet_tag f p) = (r, (m', tag))"
    by (cases "lease_release J (Cs p) mem_store (fleet_mem f, fleet_tag f p)") auto
  from lease_release_mem [OF run] assms(2) k obtain e x where
    w: "mem_write LEASE_KEY (dumps J (lease_doc (holder_id (Cs p)) (Finite 0) x)) (fleet_mem f) = (Inr e, m')"
    unfolding current_def by auto
  have f: "fleet_mem ?f = m'" using run by (simp add: fleet_set_def)
  from mem_write_present [OF w] obtain ob where ob: "mem_objs m' LEASE_KEY = Some ob" "ob_mtime ob = clock m'"
    "lease_parse J (ob_body ob) = Inr (holder_id (Cs p), Finite 0, x)"
    using assms(1) by (auto simp: fleet_ok_def)
  then have "\<not> live_for J (holder_id (Cs q)) (clock m') ob" by (simp add: live_for_def total_seconds_def pf_positive_def)
  with lease_acquire_decides [of m' "Cs q" ob J] ob assms(3,4) k f show ?thesis by (simp add: fleet_acquire_def)
qed

definition crashed_mem :: mem where
  "crashed_mem = (snd (mem_put LEASE_KEY (dumps sample_json (lease_doc ''crashed'' (Finite 300) (Finite 0))) empty_mem))
     \<lparr>clock := 300000000\<rparr>"

theorem acquire_decides_by_the_store_clock_witness:
  "fst (lease_acquire 5 sample_json (sample_cfg 1) mem_store (crashed_mem, None)) = Inr True"
proof -
  have k: "lease_key (sample_cfg 1) = LEASE_KEY" by (simp add: sample_cfg_def)
  have m: "mem_objs crashed_mem = [LEASE_KEY \<mapsto> \<lparr>ob_body = dumps sample_json (lease_doc ''crashed'' (Finite 300) (Finite 0)), ob_etag = 1, ob_mtime = 0\<rparr>]"
    "clock crashed_mem = 300000000"
    by (auto simp: crashed_mem_def mem_put_def mem_write_run mem_objs_def empty_mem_def)
  from acquire_decides_by_the_store_clock [of crashed_mem "sample_cfg 1", unfolded k, of _ sample_json "''crashed''" "Finite 300" "Finite 0" 5 None] m
  show ?thesis by (simp add: sample_json_ok total_seconds_def pf_positive_def)
qed

theorem released_lease_is_acquirable_witness:
  "fst (fleet_acquire 5 sample_json sample_cfg 2 (fleet_step 5 sample_json sample_cfg (Release 1)
     (fleet_step 5 sample_json sample_cfg (Acquire 1) sample_fleet))) = Inr True"
proof -
  let ?f = "fleet_step 5 sample_json sample_cfg (Acquire 1) sample_fleet"
  let ?g = "fleet_step 5 sample_json sample_cfg (Release 1) ?f"
  obtain m' tag where run: "fleet_acquire 5 sample_json sample_cfg 1 sample_fleet = (Inr True, (m', Some tag))"
    "mem_objs m' LEASE_KEY \<noteq> None" "\<forall>ob. mem_objs m' LEASE_KEY = Some ob \<longrightarrow> tag = etag_text (ob_etag ob)"
    using sample_acquire [of 4 1] by auto
  have cur: "current ?f 1"
    using run by (auto simp: current_def fleet_set_def)
  have "lease_acquire 5 sample_json (sample_cfg 1) mem_store (empty_mem, None) = (Inr True, (m', Some tag))"
    using run(1) by (simp add: fleet_acquire_def sample_fleet_def)
  then have only: "mem_objs m' k = None" if "k \<noteq> LEASE_KEY" for k
    using that by (auto simp: sample_cfg_def mem_store_put mem_put_if_absent_def empty_mem_def mem_write_run mem_objs_def numeral_eq_Suc)
  obtain r m'' t where rel: "lease_release sample_json (sample_cfg 1) mem_store (m', Some tag) = (r, (m'', t))"
    by (cases "lease_release sample_json (sample_cfg 1) mem_store (m', Some tag)") auto
  have k: "lease_key (sample_cfg p) = LEASE_KEY" for p by (simp add: sample_cfg_def)
  have "mem_objs m'' k = None" if "k \<noteq> LEASE_KEY" for k
    using lease_release_mem [OF rel] only that k [of 1] by (auto split: if_splits dest!: mem_write_present)
  moreover have "fleet_mem ?g = m''" using run(1) rel by (simp add: fleet_set_def)
  ultimately have "mem_objs (fleet_mem ?g) (now_probe LEASE_KEY u) = None" for u by (simp del: fleet_step.simps)
  from released_lease_is_acquirable [OF sample_fleet_ok cur _ this] show ?thesis by simp
qed

end
