(* ===== verification/Gc_Sweep.thy ===== *)
theory Gc_Sweep
  imports Lease Versioned_Blob
begin

text \<open>
  \<^verbatim>\<open>gc.py\<close>, the catalog pass: \<^verbatim>\<open>collect\<close> sweeps expired payloads and cold packs under the lease. Time stamps
  are microseconds of the store's clock. The state is the store and the lease's ETag.
\<close>

section \<open>Constants and reports\<close>

definition DEFAULT_RETAIN_GENERATIONS :: int where
  "DEFAULT_RETAIN_GENERATIONS = 10"

definition hours :: "int \<Rightarrow> int" where
  "hours n = n * 3600 * 1000000"

definition DEFAULT_PACK_GRACE :: int where
  "DEFAULT_PACK_GRACE = hours 24"

definition MIN_PACK_GRACE :: int where
  "MIN_PACK_GRACE = hours 1"

text \<open>
  The float \<^verbatim>\<open>0.4\<close> as a fraction: for every number \<open>n\<close> of packs below \<open>2\<^sup>5\<^sup>0\<close>, the rounded product \<^verbatim>\<open>0.4 * n\<close>
  lies on the same side of every integer as \<open>2 * n / 5\<close>, and equals it where it is an integer.
\<close>

definition DEFAULT_MAX_DELETE_FRACTION :: rat where
  "DEFAULT_MAX_DELETE_FRACTION = 2 / 5"

definition BREAKER_MIN :: nat where
  "BREAKER_MIN = 10"

definition TOMBSTONE_KEY :: key where
  "TOMBSTONE_KEY = ''gc/pack-tombstones''"

definition CLOCK_PROBE_KEY :: key where
  "CLOCK_PROBE_KEY = ''gc/clock-probe''"

definition RENEW_EVERY :: nat where
  "RENEW_EVERY = 50"

record gc_report =
  report_dry_run :: bool
  swept_catalogs :: "key list"
  kept_catalogs :: "key list"
  swept_packs :: "key list"
  kept_packs :: "key list"
  tombstoned_packs :: "key list"

definition generation_of :: "key \<Rightarrow> int option" where
  "generation_of k = (case parse_payload_key k of Inl _ \<Rightarrow> None | Inr (g, _) \<Rightarrow> Some g)"

section \<open>The decision\<close>

datatype resolved_payload =
    CommittedWhole root_doc
  | CommittedChunked root_doc manifest
  | OrphanManifest key manifest
  | OrphanOpaque key

text \<open>Why a sweep is refused, one constructor per message.\<close>

datatype refusal = NoReadableManifest int key | MissingPacks "key set" | TooManyDeletes nat nat

record sweep_actions =
  marked_packs :: "key set"
  tombstone_packs :: "key set"
  resurrect_packs :: "key set"
  delete_packs :: "key set"

datatype sweep_plan = RefuseSweep refusal | SweepActions sweep_actions

text \<open>\<^verbatim>\<open>TombstoneDoc.cold_since\<close>: pack key and the time it was first seen cold.\<close>

type_synonym tombstones = "(key \<times> int) list"

definition item_marks :: "resolved_payload \<Rightarrow> key set" where
  "item_marks item = (case item of CommittedChunked _ M \<Rightarrow> pack_keys M | OrphanManifest _ M \<Rightarrow> pack_keys M | _ \<Rightarrow> {})"

definition committed_refs :: "resolved_payload list \<Rightarrow> key set" where
  "committed_refs items = (\<Union>item \<in> set items. case item of CommittedChunked _ M \<Rightarrow> pack_keys M | _ \<Rightarrow> {})"

text \<open>\<^verbatim>\<open>{m.key: m for m in pack_metas}\<close>\<close>

definition listed_dict :: "object_meta list \<Rightarrow> (key \<times> object_meta) list" where
  "listed_dict metas = fold (\<lambda>m. AList.update (meta_key m) m) metas []"

definition is_young :: "int \<Rightarrow> int \<Rightarrow> int option \<Rightarrow> bool" where
  "is_young t_now grace modified = (case modified of None \<Rightarrow> True | Some t \<Rightarrow> t_now - t \<le> grace)"

text \<open>One pass of the loop; the state is the three sets \<open>tombstone\<close>, \<open>resurrect\<close>, \<open>delete\<close>.\<close>

definition sweep_step :: "key set \<Rightarrow> tombstones \<Rightarrow> int \<Rightarrow> int \<Rightarrow> key \<times> object_meta \<Rightarrow>
    key set \<times> key set \<times> key set \<Rightarrow> key set \<times> key set \<times> key set" where
  "sweep_step marked tombs t_now grace kv sets = (case kv of (k, meta) \<Rightarrow> (case sets of (tomb, res, del) \<Rightarrow>
     (let cold_since = map_of tombs k; young = is_young t_now grace (meta_modified meta) in
      if k \<in> marked \<or> young then (if cold_since \<noteq> None then (tomb, insert k res, del) else (tomb, res, del))
      else (case cold_since of
          None \<Rightarrow> (insert k tomb, res, del)
        | Some t \<Rightarrow> if t_now - t > grace then (tomb, res, insert k del) else (tomb, res, del)))))"

definition decide_pack_sweep :: "resolved_payload list \<Rightarrow> object_meta list \<Rightarrow> tombstones \<Rightarrow> int \<Rightarrow> int \<Rightarrow> rat \<Rightarrow> sweep_plan" where
  "decide_pack_sweep resolved metas tombs t_now grace fraction =
     (let marked = (\<Union>item \<in> set resolved. item_marks item);
          listed = listed_dict metas;
          missing = committed_refs resolved - fst ` set listed in
      if missing \<noteq> {} then RefuseSweep (MissingPacks missing)
      else (let (tomb, res, del) = fold (sweep_step marked tombs t_now grace) listed ({}, {}, {}) in
        if length listed \<ge> BREAKER_MIN \<and> of_nat (card del) > fraction * of_nat (length listed)
        then RefuseSweep (TooManyDeletes (card del) (length listed))
        else SweepActions \<lparr>marked_packs = marked, tombstone_packs = tomb, resurrect_packs = res, delete_packs = del\<rparr>))"

section \<open>The tombstone ledger\<close>

definition tombstone_schema :: string where
  "tombstone_schema = ''ducklake-serverless-tombstones/1''"

fun datetime_dict :: "lib \<Rightarrow> (string \<times> json) list \<Rightarrow> tombstones option" where
  "datetime_dict L [] = Some []"
| "datetime_dict L ((k, j) # kvs) =
     (case as_datetime L j of None \<Rightarrow> None
      | Some t \<Rightarrow> (case datetime_dict L kvs of None \<Rightarrow> None | Some r \<Rightarrow> Some ((k, t) # r)))"

definition tombstones_to_bytes :: "lib \<Rightarrow> tombstones \<Rightarrow> bytes" where
  "tombstones_to_bytes L T = json_dumps L (JObj [(''schema'', JStr tombstone_schema),
     (''cold_since'', JObj (map (\<lambda>(k, t). (k, JStr (iso_text L t))) T))])"

definition tombstones_from_bytes :: "lib \<Rightarrow> bytes \<Rightarrow> error + tombstones" where
  "tombstones_from_bytes L data =
     (case (case json_loads L data of None \<Rightarrow> None | Some j \<Rightarrow>
        (case as_obj j of None \<Rightarrow> None | Some kvs \<Rightarrow>
         if \<not> only_fields [''schema'', ''cold_since''] kvs then None else
         (case defaulted kvs ''schema'' (literal tombstone_schema) () of None \<Rightarrow> None | Some _ \<Rightarrow>
          defaulted kvs ''cold_since'' (\<lambda>d. case as_obj d of None \<Rightarrow> None | Some m \<Rightarrow> datetime_dict L m) [])))
      of None \<Rightarrow> Inl InputValidationError | Some T \<Rightarrow> Inr T)"

datatype ledger_ref = LedgerAbsent | LedgerCorrupt | LedgerAt string

definition load_tombstones :: "lib \<Rightarrow> 's store \<Rightarrow> ('s, tombstones \<times> ledger_ref) io" where
  "load_tombstones L S =
     bind_io (try_io (bind_io (get S TOMBSTONE_KEY) (\<lambda>result.
       bind_io (lift_io (tombstones_from_bytes L (body result))) (\<lambda>T. ret (T, LedgerAt (etag result))))))
     (\<lambda>r. case r of
         Inl e \<Rightarrow> (if e = ObjectNotFoundError then ret ([], LedgerAbsent)
                    else if e = InputValidationError then ret ([], LedgerCorrupt) else raise e)
       | Inr found \<Rightarrow> ret found)"

definition commit_tombstones :: "lib \<Rightarrow> 's store \<Rightarrow> tombstones \<Rightarrow> ledger_ref \<Rightarrow> ('s, unit) io" where
  "commit_tombstones L S T ref =
     (let b = tombstones_to_bytes L T in
      bind_io (try_io (case ref of
          LedgerAbsent \<Rightarrow> put_if_absent S TOMBSTONE_KEY b
        | LedgerCorrupt \<Rightarrow> put S TOMBSTONE_KEY b
        | LedgerAt tag \<Rightarrow> put_if_match S TOMBSTONE_KEY b tag)) (\<lambda>r. case r of
          Inl e \<Rightarrow> raise (if lost_race e then ExternalServiceError else e)
        | Inr _ \<Rightarrow> ret ()))"

section \<open>Resolving retained payloads\<close>

definition load_committed_manifest :: "lib \<Rightarrow> 's store \<Rightarrow> key \<Rightarrow> ('s, manifest) io" where
  "load_committed_manifest L S k =
     bind_io (head_meta S k) (\<lambda>m.
       if meta_size m > MAX_MANIFEST_BYTES then raise InputValidationError
       else bind_io (get S k) (\<lambda>r. lift_io (manifest_from_bytes L (body r))))"

definition resolve_orphan :: "lib \<Rightarrow> 's store \<Rightarrow> key \<Rightarrow> ('s, resolved_payload option) io" where
  "resolve_orphan L S k =
     bind_io (try_io (bind_io (head_meta S k) (\<lambda>m.
       if meta_size m \<le> MAX_MANIFEST_BYTES then bind_io (get S k) (\<lambda>r. ret (Some (body r))) else ret None)))
     (\<lambda>r. case r of
         Inl e \<Rightarrow> (if e = ObjectNotFoundError then ret None else raise e)
       | Inr b \<Rightarrow> (case (case b of None \<Rightarrow> None | Some data \<Rightarrow> sniff_manifest L data) of
             Some M \<Rightarrow> ret (Some (OrphanManifest k M))
           | None \<Rightarrow> ret (Some (OrphanOpaque k))))"

definition marker_for :: "lib \<Rightarrow> 's store \<Rightarrow> root_doc \<Rightarrow> int \<Rightarrow> ('s, root_doc option) io" where
  "marker_for L S cur g =
     (if g = generation cur then ret (Some cur)
      else bind_io (try_io (read_marker L S g)) (\<lambda>r. case r of
          Inl e \<Rightarrow> (if e = ObjectNotFoundError then ret None else raise e)
        | Inr doc \<Rightarrow> ret (Some doc)))"

definition names_key :: "root_doc option \<Rightarrow> key \<Rightarrow> ('s, bool) io" where
  "names_key doc k = (case doc of None \<Rightarrow> ret False
     | Some d \<Rightarrow> bind_io (lift_io (payload_key d)) (\<lambda>pk. ret (pk = k)))"

fun resolve_payloads :: "lib \<Rightarrow> 's store \<Rightarrow> root_doc \<Rightarrow> key list \<Rightarrow> resolved_payload list \<Rightarrow>
    ('s, refusal + resolved_payload list) io" where
  "resolve_payloads L S cur [] resolved = ret (Inr resolved)"
| "resolve_payloads L S cur (k # ks) resolved =
     (case generation_of k of
        None \<Rightarrow> resolve_payloads L S cur ks resolved
      | Some g \<Rightarrow>
          bind_io (marker_for L S cur g) (\<lambda>doc.
          bind_io (names_key doc k) (\<lambda>committed.
            if committed then
              (case transport_of (the doc) of
                 Whole \<Rightarrow> resolve_payloads L S cur ks (resolved @ [CommittedWhole (the doc)])
               | Chunked \<Rightarrow>
                   bind_io (try_io (load_committed_manifest L S k)) (\<lambda>r. case r of
                       Inl e \<Rightarrow> (if e = ObjectNotFoundError \<or> e = InputValidationError
                                 then ret (Inl (NoReadableManifest g k)) else raise e)
                     | Inr M \<Rightarrow> resolve_payloads L S cur ks (resolved @ [CommittedChunked (the doc) M])))
            else bind_io (resolve_orphan L S k) (\<lambda>orphan. case orphan of
                None \<Rightarrow> resolve_payloads L S cur ks resolved
              | Some item \<Rightarrow> resolve_payloads L S cur ks (resolved @ [item])))))"

definition store_now :: "'s store \<Rightarrow> ('s, int) io" where
  "store_now S =
     bind_io (put S CLOCK_PROBE_KEY ''t'') (\<lambda>_.
     bind_io (head_meta S CLOCK_PROBE_KEY) (\<lambda>m. case meta_modified m of
         None \<Rightarrow> raise ExternalServiceError
       | Some t \<Rightarrow> ret t))"

section \<open>The pack sweep\<close>

record pack_report =
  pr_swept :: "key list"
  pr_kept :: "key list"
  pr_tombstoned :: "key list"

text \<open>The re-HEAD of committed references that the listing misses.\<close>

fun add_missing :: "'s store \<Rightarrow> key list \<Rightarrow> object_meta list \<Rightarrow> ('s, object_meta list) io" where
  "add_missing S [] metas = ret metas"
| "add_missing S (k # ks) metas =
     bind_io (try_io (head_meta S k)) (\<lambda>r. case r of
         Inl e \<Rightarrow> (if e = ObjectNotFoundError then add_missing S ks metas else raise e)
       | Inr m \<Rightarrow> add_missing S ks (metas @ [m]))"

text \<open>Every \<open>RENEW_EVERY\<close>-th deletion renews the lease.\<close>

definition renew_after :: "lease_lib \<Rightarrow> 's lease_cfg \<Rightarrow> 's store \<Rightarrow> nat \<Rightarrow> ('s \<times> string option, unit) io" where
  "renew_after J C S deleted =
     (if deleted mod RENEW_EVERY = 0
      then bind_io (lease_renew J C S) (\<lambda>ok. if ok then ret () else raise ExternalServiceError)
      else ret ())"

fun delete_each_cold :: "lease_lib \<Rightarrow> 's lease_cfg \<Rightarrow> 's store \<Rightarrow> int \<Rightarrow> int \<Rightarrow> key list \<Rightarrow> key list \<Rightarrow>
    ('s \<times> string option, key list) io" where
  "delete_each_cold J C S recheck_now grace [] swept = ret swept"
| "delete_each_cold J C S recheck_now grace (k # ks) swept =
     bind_io (try_io (on_world (head_meta S k))) (\<lambda>r. case r of
         Inl e \<Rightarrow> (if e = ObjectNotFoundError then delete_each_cold J C S recheck_now grace ks swept else raise e)
       | Inr m \<Rightarrow>
           (if meta_modified m \<noteq> None \<and> recheck_now - the (meta_modified m) \<le> grace
            then delete_each_cold J C S recheck_now grace ks swept
            else bind_io (on_world (delete S k)) (\<lambda>_.
              bind_io (renew_after J C S (length (swept @ [k]))) (\<lambda>_.
                delete_each_cold J C S recheck_now grace ks (swept @ [k])))))"

definition delete_cold_packs :: "lease_lib \<Rightarrow> 's lease_cfg \<Rightarrow> 's store \<Rightarrow> key list \<Rightarrow> int \<Rightarrow> ('s \<times> string option, key list) io" where
  "delete_cold_packs J C S candidates grace =
     bind_io (on_world (store_now S)) (\<lambda>recheck_now. delete_each_cold J C S recheck_now grace candidates [])"

text \<open>The ledger of the next cycle.\<close>

definition next_cold :: "tombstones \<Rightarrow> key set \<Rightarrow> int \<Rightarrow> sweep_actions \<Rightarrow> tombstones" where
  "next_cold T present t_now plan =
     (let kept_rows = filter (\<lambda>(k, _). k \<notin> resurrect_packs plan \<and> k \<in> present) T;
          stamped = fold (\<lambda>k. AList.update k t_now) (sorted_list_of_set (tombstone_packs plan)) kept_rows in
      filter (\<lambda>(k, _). k \<notin> delete_packs plan) stamped)"

text \<open>What happens after the decision: the commit point, then the deletes.\<close>

definition execute_sweep :: "lease_lib \<Rightarrow> 's lease_cfg \<Rightarrow> lib \<Rightarrow> 's store \<Rightarrow> bool \<Rightarrow> int \<Rightarrow> object_meta list \<Rightarrow> tombstones \<Rightarrow>
    ledger_ref \<Rightarrow> int \<Rightarrow> sweep_actions \<Rightarrow> ('s \<times> string option, pack_report) io" where
  "execute_sweep J C L S dry_run grace metas T ref t_now plan =
     (let kept_now = sort (filter (\<lambda>k. k \<notin> delete_packs plan) (map meta_key metas)) in
      if dry_run then ret \<lparr>pr_swept = sorted_list_of_set (delete_packs plan), pr_kept = kept_now,
          pr_tombstoned = sorted_list_of_set (tombstone_packs plan)\<rparr>
      else bind_io (lease_renew J C S) (\<lambda>ok.
        if \<not> ok then raise ExternalServiceError
        else bind_io (on_world (commit_tombstones L S (next_cold T (meta_key ` set metas) t_now plan) ref)) (\<lambda>_.
          bind_io (delete_cold_packs J C S (sorted_list_of_set (delete_packs plan)) grace) (\<lambda>gone.
            ret \<lparr>pr_swept = gone, pr_kept = sorted_list_of_set (meta_key ` set metas - set gone),
                 pr_tombstoned = sorted_list_of_set (tombstone_packs plan)\<rparr>))))"

definition pack_sweep :: "lease_lib \<Rightarrow> 's lease_cfg \<Rightarrow> lib \<Rightarrow> 's store \<Rightarrow> root_doc \<Rightarrow> key list \<Rightarrow> bool \<Rightarrow> int \<Rightarrow>
    ('s \<times> string option, pack_report) io" where
  "pack_sweep J C L S cur kept_keys dry_run grace =
     bind_io (on_world (list_meta S PACKS_PREFIX)) (\<lambda>pack_metas.
     bind_io (on_world (resolve_payloads L S cur kept_keys [])) (\<lambda>r. case r of
         Inl _ \<Rightarrow> raise ExternalServiceError
       | Inr resolved \<Rightarrow>
           (let refs = committed_refs resolved in
            if pack_metas = [] \<and> refs = {} then ret \<lparr>pr_swept = [], pr_kept = [], pr_tombstoned = []\<rparr>
            else bind_io (on_world (add_missing S (sorted_list_of_set (refs - meta_key ` set pack_metas)) pack_metas)) (\<lambda>metas.
              bind_io (on_world (load_tombstones L S)) (\<lambda>(T, ref).
              bind_io (on_world (store_now S)) (\<lambda>t_now.
                case decide_pack_sweep resolved metas T t_now grace DEFAULT_MAX_DELETE_FRACTION of
                  RefuseSweep _ \<Rightarrow> raise ExternalServiceError
                | SweepActions plan \<Rightarrow> execute_sweep J C L S dry_run grace metas T ref t_now plan))))))"

section \<open>The collection\<close>

fun sweep_catalogs :: "lease_lib \<Rightarrow> 's lease_cfg \<Rightarrow> 's store \<Rightarrow> root_doc \<Rightarrow> int \<Rightarrow> bool \<Rightarrow> key list \<Rightarrow> key list \<Rightarrow> key list \<Rightarrow>
    ('s \<times> string option, key list \<times> key list) io" where
  "sweep_catalogs J C S cur lowest dry_run [] gone keep = ret (gone, keep)"
| "sweep_catalogs J C S cur lowest dry_run (k # ks) gone keep =
     (case generation_of k of
        None \<Rightarrow> sweep_catalogs J C S cur lowest dry_run ks gone (keep @ [k])
      | Some g \<Rightarrow>
          bind_io (names_key (Some cur) k) (\<lambda>is_head.
            if is_head \<or> g \<ge> lowest then sweep_catalogs J C S cur lowest dry_run ks gone (keep @ [k])
            else if dry_run then sweep_catalogs J C S cur lowest dry_run ks (gone @ [k]) keep
            else bind_io (on_world (delete S k)) (\<lambda>_.
              bind_io (renew_after J C S (length (gone @ [k]))) (\<lambda>_.
                sweep_catalogs J C S cur lowest dry_run ks (gone @ [k]) keep))))"

definition collect_locked :: "lease_lib \<Rightarrow> 's lease_cfg \<Rightarrow> lib \<Rightarrow> 's store \<Rightarrow> int \<Rightarrow> bool \<Rightarrow> int \<Rightarrow>
    ('s \<times> string option, gc_report) io" where
  "collect_locked J C L S retain_generations dry_run grace =
     bind_io (on_world (resolve_head L S)) (\<lambda>(cur, head_gen).
     bind_io (on_world (list_prefix S PAYLOAD_PREFIX)) (\<lambda>listed.
     bind_io (if dry_run then ret ()
              else bind_io (lift_io (payload_key cur)) (\<lambda>pk.
                if pk \<notin> set listed then raise ExternalServiceError
                else on_world (write_hint L S head_gen))) (\<lambda>_.
     bind_io (sweep_catalogs J C S cur (generation cur - retain_generations + 1) dry_run listed [] []) (\<lambda>(gone, keep).
     bind_io (pack_sweep J C L S cur keep dry_run grace) (\<lambda>pr.
       ret \<lparr>report_dry_run = dry_run, swept_catalogs = sort gone, kept_catalogs = sort keep,
            swept_packs = pr_swept pr, kept_packs = pr_kept pr, tombstoned_packs = pr_tombstoned pr\<rparr>)))))"

text \<open>
  \<open>C\<close> holds the holder's name, its \<^verbatim>\<open>lease_ttl_seconds\<close>, its clock and its \<^verbatim>\<open>uuid4\<close>; \<open>depth\<close> is the recursion
  depth left for \<^verbatim>\<open>acquire\<close>.
\<close>

definition collect :: "nat \<Rightarrow> lease_lib \<Rightarrow> 's lease_cfg \<Rightarrow> lib \<Rightarrow> 's store \<Rightarrow> int \<Rightarrow> bool \<Rightarrow> int \<Rightarrow> bool \<Rightarrow>
    ('s, gc_report option) io" where
  "collect depth J C L S retain_generations dry_run pack_grace unsafe_allow_short_grace =
     (if retain_generations < 1 then raise InputValidationError
      else if pack_grace < 0 then raise InputValidationError
      else if \<not> dry_run \<and> pack_grace < MIN_PACK_GRACE \<and> \<not> unsafe_allow_short_grace then raise InputValidationError
      else (let lease = C\<lparr>lease_key := LEASE_KEY\<rparr> in
        with_attr None
          (bind_io (lease_acquire depth J lease S) (\<lambda>ok.
             if \<not> ok then ret None
             else finally_io
               (bind_io (collect_locked J lease L S retain_generations dry_run pack_grace) (\<lambda>r. ret (Some r)))
               (lease_release J lease S)))))"

end
