(* ===== verification/Gc_Safety.thy ===== *)
theory Gc_Safety
  imports Gc_Sweep
begin

text \<open>
  What a collection may do to the store. The locale \<open>collector\<close> is what the pass needs of its store and of
  the objects it must not touch; its conclusion, that every collection keeps the invariant, is instantiated
  for the markers on a shared bucket and for the retained generations.
\<close>

section \<open>The decision, as sets\<close>

definition cold :: "resolved_payload list \<Rightarrow> int \<Rightarrow> int \<Rightarrow> object_meta \<Rightarrow> bool" where
  "cold items t_now grace m \<longleftrightarrow> meta_key m \<notin> (\<Union>item \<in> set items. item_marks item) \<and>
     (\<exists>t. meta_modified m = Some t \<and> grace < t_now - t)"

lemma not_young: "\<not> is_young t_now grace t \<longleftrightarrow> (\<exists>u. t = Some u \<and> grace < t_now - u)"
  by (auto simp: is_young_def split: option.splits)

lemma sweep_fold:
  "fold (sweep_step marked T t_now grace) kvs (tomb, res, del) =
     (tomb \<union> {k. \<exists>m. (k, m) \<in> set kvs \<and> k \<notin> marked \<and> \<not> is_young t_now grace (meta_modified m) \<and> map_of T k = None},
      res \<union> {k. \<exists>m. (k, m) \<in> set kvs \<and> (k \<in> marked \<or> is_young t_now grace (meta_modified m)) \<and> map_of T k \<noteq> None},
      del \<union> {k. \<exists>m t. (k, m) \<in> set kvs \<and> k \<notin> marked \<and> \<not> is_young t_now grace (meta_modified m) \<and>
               map_of T k = Some t \<and> grace < t_now - t})"
proof (induction kvs arbitrary: tomb res del)
  case (Cons kv kvs)
  obtain k m where kv: "kv = (k, m)" by fastforce
  show ?case
    unfolding fold_simps o_apply kv
    by (cases "map_of T k"; cases "k \<in> marked \<or> is_young t_now grace (meta_modified m)")
       (auto simp: sweep_step_def Let_def Cons.IH)
qed simp

lemma update_new: "k \<notin> fst ` set xs \<Longrightarrow> AList.update k v xs = xs @ [(k, v)]"
  by (induction xs) auto

lemma listed_fold:
  "distinct (map fst acc @ map meta_key ms) \<Longrightarrow>
     fold (\<lambda>m. AList.update (meta_key m) m) ms acc = acc @ map (\<lambda>m. (meta_key m, m)) ms"
proof (induction ms arbitrary: acc)
  case (Cons m ms)
  then have "AList.update (meta_key m) m acc = acc @ [(meta_key m, m)]" by (intro update_new) auto
  with Cons show ?case by simp
qed simp

lemma listed_distinct: "distinct (map meta_key ms) \<Longrightarrow> listed_dict ms = map (\<lambda>m. (meta_key m, m)) ms"
  unfolding listed_dict_def using listed_fold [of "[]" ms] by simp

lemma listed_keys: "fst ` set (listed_dict ms) = meta_key ` set ms"
proof -
  have "fst ` set (fold (\<lambda>m. AList.update (meta_key m) m) ms acc) = fst ` set acc \<union> meta_key ` set ms" for acc
  proof (induction ms arbitrary: acc)
    case (Cons m ms)
    have "fst ` set (AList.update (meta_key m) m acc) = insert (meta_key m) (fst ` set acc)"
      using dom_update [of "meta_key m" m acc] by simp
    with Cons show ?case by simp
  qed simp
  then show ?thesis by (simp add: listed_dict_def)
qed

lemma listed_rows:
  assumes "(k, m) \<in> set (listed_dict ms)"
  shows "m \<in> set ms \<and> meta_key m = k"
proof -
  have update: "set (AList.update k v xs) \<subseteq> insert (k, v) (set xs)" for k v and xs :: "(key \<times> object_meta) list"
    by (induction xs) auto
  have "set (fold (\<lambda>m. AList.update (meta_key m) m) ms acc) \<subseteq> set acc \<union> (\<lambda>m. (meta_key m, m)) ` set ms" for acc
  proof (induction ms arbitrary: acc)
    case (Cons m ms)
    from subset_trans [OF Cons Un_mono [OF update subset_refl]] show ?case by auto
  qed simp
  from subsetD [OF this, of "(k, m)" "[]"] assms show ?thesis by (auto simp: listed_dict_def)
qed

lemma decide_delete:
  assumes "decide_pack_sweep items metas T t_now grace fraction = SweepActions plan" and "k \<in> delete_packs plan"
  shows "\<exists>m \<in> set metas. meta_key m = k \<and> cold items t_now grace m \<and> (\<exists>t. map_of T k = Some t \<and> grace < t_now - t)"
proof -
  let ?marked = "\<Union>item \<in> set items. item_marks item"
  have del: "delete_packs plan = {k. \<exists>m t. (k, m) \<in> set (listed_dict metas) \<and> k \<notin> ?marked \<and>
      \<not> is_young t_now grace (meta_modified m) \<and> map_of T k = Some t \<and> grace < t_now - t}"
    using assms(1) unfolding decide_pack_sweep_def Let_def sweep_fold prod.case
    by (simp only: sweep_plan.distinct sweep_plan.inject split: if_splits)
       (erule subst, simp only: sweep_actions.simps Un_empty_left)
  with assms(2) obtain m t where m: "(k, m) \<in> set (listed_dict metas)" "k \<notin> ?marked" "\<not> is_young t_now grace (meta_modified m)"
    "map_of T k = Some t" "grace < t_now - t" by blast
  note row = listed_rows [OF m(1)]
  with m(2,3) have "cold items t_now grace m" by (auto simp: cold_def not_young)
  with row m(4,5) show ?thesis by blast
qed

text \<open>
  Claim C29. The pack decision, as the sets its documentation describes. A pack is deleted exactly if no
  retained manifest references it, it is older than the grace on the store's clock, and its tombstone is
  older than the grace too; it is tombstoned exactly if it is cold for the first time; a tombstone is
  cleared exactly if its pack is referenced or young. It refuses exactly if a committed manifest references
  a pack that is not listed, or if at least ten packs are listed and more than the fraction would go.
\<close>
theorem pack_decision:
  assumes "distinct (map meta_key metas)"
  shows "decide_pack_sweep items metas T t_now grace fraction =
    (let missing = committed_refs items - meta_key ` set metas;
         tomb = meta_key ` {m \<in> set metas. cold items t_now grace m \<and> map_of T (meta_key m) = None};
         res = meta_key ` {m \<in> set metas. \<not> cold items t_now grace m \<and> map_of T (meta_key m) \<noteq> None};
         del = meta_key ` {m \<in> set metas. cold items t_now grace m \<and> (\<exists>t. map_of T (meta_key m) = Some t \<and> grace < t_now - t)} in
     if missing \<noteq> {} then RefuseSweep (MissingPacks missing)
     else if length metas \<ge> BREAKER_MIN \<and> of_nat (card del) > fraction * of_nat (length metas)
     then RefuseSweep (TooManyDeletes (card del) (length metas))
     else SweepActions \<lparr>marked_packs = (\<Union>item \<in> set items. item_marks item), tombstone_packs = tomb,
       resurrect_packs = res, delete_packs = del\<rparr>)"
proof -
  have eqs: "{k. \<exists>m. (k, m) \<in> (\<lambda>m. (meta_key m, m)) ` set metas \<and> P k m} = meta_key ` {m \<in> set metas. P (meta_key m) m}" for P
    by auto
  show ?thesis
    unfolding decide_pack_sweep_def Let_def listed_distinct [OF assms] sweep_fold
    by (simp add: eqs image_image cold_def conj_assoc flip: not_young)
qed

text \<open>At time 10 with grace 5: one pack young again, one cold since time 1, one newly cold.\<close>

definition sample_metas :: "object_meta list" where
  "sample_metas = map (\<lambda>(k, t). \<lparr>meta_key = k, meta_size = 1, meta_modified = Some t\<rparr>) [(''a'', 8), (''b'', 0), (''c'', 0)]"

lemma pack_decision_witness:
  "decide_pack_sweep [OrphanOpaque ''o''] sample_metas [(''b'', 1), (''a'', 1)] 10 5 DEFAULT_MAX_DELETE_FRACTION =
   SweepActions \<lparr>marked_packs = {}, tombstone_packs = {''c''}, resurrect_packs = {''a''}, delete_packs = {''b''}\<rparr>"
proof -
  have filt: "meta_key ` {m \<in> set ms. P m} = set (map meta_key (filter P ms))" for P and ms :: "object_meta list"
    by auto
  have "distinct (map meta_key sample_metas)"
    by (simp add: sample_metas_def)
  from pack_decision [OF this, of "[OrphanOpaque ''o'']" "[(''b'', 1), (''a'', 1)]" 10 5 DEFAULT_MAX_DELETE_FRACTION] show ?thesis
    unfolding filt by (simp add: sample_metas_def committed_refs_def cold_def item_marks_def is_young_def BREAKER_MIN_def)
qed

section \<open>What a collection needs and keeps\<close>

text \<open>The rows of the next ledger.\<close>

lemma map_of_filter_keys: "map_of (filter (\<lambda>(k, v). P k) xs) k = (if P k then map_of xs k else None)"
  by (induction xs) auto

lemma map_of_stamped: "map_of (fold (\<lambda>k. AList.update k t) ks T) k = (if k \<in> set ks then Some t else map_of T k)"
  by (induction ks arbitrary: T) (auto simp: update_conv)

lemma map_of_next_cold:
  "map_of (next_cold T P t plan) k = (if k \<in> delete_packs plan then None
     else if k \<in> set (sorted_list_of_set (tombstone_packs plan)) then Some t
     else if k \<notin> resurrect_packs plan \<and> k \<in> P then map_of T k else None)"
  by (simp add: next_cold_def Let_def map_of_filter_keys map_of_stamped)

lemma next_cold_distinct: "distinct (map fst T) \<Longrightarrow> distinct (map fst (next_cold T P t plan))"
proof -
  have filt: "distinct (map fst (filter Q xs))" if "distinct (map fst xs)" for Q and xs :: tombstones
    using that by (induction xs) auto
  have "distinct (map fst (fold (\<lambda>k. AList.update k t) ks xs))" if "distinct (map fst xs)" for ks and xs :: tombstones
    using that by (induction ks arbitrary: xs) (auto intro: distinct_update)
  then show "distinct (map fst T) \<Longrightarrow> ?thesis" unfolding next_cold_def Let_def by (blast intro: filt)
qed

lemma committed_refs_packs: "k \<in> committed_refs items \<Longrightarrow> prefix PACKS_PREFIX k"
proof -
  assume "k \<in> committed_refs items"
  then obtain item where "k \<in> (case item of CommittedChunked _ M \<Rightarrow> pack_keys M | _ \<Rightarrow> {})" unfolding committed_refs_def by blast
  then show ?thesis by (cases item) (auto simp: pack_keys_def format_pack_key_def)
qed

lemma finite_committed_refs: "finite (committed_refs items)"
  by (auto simp: committed_refs_def pack_keys_def split: resolved_payload.splits)

text \<open>The holder of the lease on the store \<open>S\<close>: the keys it may write are \<open>free\<close>, those it may delete \<open>loose\<close>.\<close>

locale lease_user =
  fixes S :: "'s store" and I :: "'s \<Rightarrow> bool" and free loose :: "key \<Rightarrow> bool" and seen :: "object_meta \<Rightarrow> bool"
  assumes get_keeps: "triple I (get S k) (\<lambda>_. True)"
    and head_keeps: "triple I (head_meta S k) (\<lambda>m. meta_key m = k \<and> seen m)"
    and create_keeps: "free k \<Longrightarrow> triple I (put_if_absent S k b) (\<lambda>_. True)"
    and put_keeps: "free k \<Longrightarrow> triple I (put S k b) (\<lambda>_. True)"
    and match_keeps: "free k \<Longrightarrow> triple I (put_if_match S k b t) (\<lambda>_. True)"
    and delete_keeps: "loose k \<Longrightarrow> triple I (delete S k) (\<lambda>_. True)"
    and own_keys: "free LEASE_KEY" "free (now_probe LEASE_KEY u)" "loose (now_probe LEASE_KEY u)" "free CLOCK_PROBE_KEY"
begin

lemmas store_keeps = get_keeps create_keeps put_keeps match_keeps delete_keeps own_keys
  triple_weaken [OF head_keeps]

lemma body_keeps: "triple I (lease_body J C t) (\<lambda>_. True)"
  unfolding lease_body_def Let_def by (intro triple_intros) simp

lemma observe_keeps: "lease_key C = LEASE_KEY \<Longrightarrow> triple I (lease_observe J C S) (\<lambda>_. True)"
  unfolding lease_observe_def Let_def
  by (auto simp: triple_lift intro!: triple_intros store_keeps split: prod.splits)

abbreviation W :: "'s \<times> 't \<Rightarrow> bool" where
  "W p \<equiv> I (fst p)"

lemma acquire_keeps: "lease_key C = LEASE_KEY \<Longrightarrow> triple W (lease_acquire n J C S) (\<lambda>_. True)"
proof (induction n)
  case (Suc n)
  then show ?case
    by (auto intro!: triple_intros store_keeps body_keeps observe_keeps split: lease_state.splits)
qed (simp only: lease_acquire.simps triple_raise)

lemma renew_keeps: "lease_key C = LEASE_KEY \<Longrightarrow> triple W (lease_renew J C S) (\<lambda>_. True)"
  and release_keeps: "lease_key C = LEASE_KEY \<Longrightarrow> triple W (lease_release J C S) (\<lambda>_. True)"
  unfolding lease_renew_def lease_release_def
  by (auto intro!: triple_intros store_keeps body_keeps)

lemma renew_after_keeps: "lease_key C = LEASE_KEY \<Longrightarrow> triple W (renew_after J C S n) (\<lambda>_. True)"
  unfolding renew_after_def by (auto intro!: triple_intros renew_keeps)

lemma cold_deletes_keep:
  assumes "lease_key C = LEASE_KEY" and "\<And>k. k \<in> set ks \<Longrightarrow> loose k"
  shows "triple W (delete_each_cold J C S t grace ks gone) (\<lambda>_. True)"
  using assms(2)
proof (induction ks arbitrary: gone)
  case Nil
  show ?case by (simp only: delete_each_cold.simps) (rule triple_ret, simp)
next
  case (Cons k ks)
  then have "\<And>gone. triple W (delete_each_cold J C S t grace ks gone) (\<lambda>_. True)" and "loose k" by auto
  then show ?case
    unfolding delete_each_cold.simps
    by (auto intro!: triple_intros store_keeps renew_after_keeps [OF assms(1)])
qed

end

text \<open>The first half of a collection: the hint and the expired payloads.\<close>

locale catalog_sweeper = lease_user S I free loose seen
  for S :: "'s store" and I free loose seen +
  fixes retain :: int and dry :: bool and head_ok :: "root_doc \<Rightarrow> bool"
  assumes hint_free: "\<not> dry \<Longrightarrow> free ROOT_HINT_KEY"
    and expired_loose: "\<not> dry \<Longrightarrow> head_ok cur \<Longrightarrow> generation_of k = Some g \<Longrightarrow> g < generation cur - retain + 1 \<Longrightarrow> loose k"
begin

lemma hint_keeps: "\<not> dry \<Longrightarrow> triple I (write_hint L S g) (\<lambda>_. True)"
  unfolding write_hint_def by (auto intro!: triple_intros store_keeps hint_free)

lemma catalogs_keep:
  assumes "lease_key C = LEASE_KEY" and "head_ok cur"
  shows "triple W (sweep_catalogs J C S cur (generation cur - retain + 1) dry ks gone keep)
    (\<lambda>(gone', keep'). set keep \<subseteq> set keep' \<and>
       (\<forall>k \<in> set ks. \<forall>g. generation_of k = Some g \<longrightarrow> generation cur - retain + 1 \<le> g \<longrightarrow> k \<in> set keep'))"
proof (induction ks arbitrary: gone keep)
  case Nil
  show ?case by (simp only: sweep_catalogs.simps) (rule triple_ret, simp)
next
  case (Cons k ks)
  show ?case
  proof (cases "generation_of k")
    case None
    have "triple W (sweep_catalogs J C S cur (generation cur - retain + 1) dry ks gone (keep @ [k]))
        (\<lambda>(gone', keep'). set keep \<subseteq> set keep' \<and>
       (\<forall>k \<in> set (k # ks). \<forall>g. generation_of k = Some g \<longrightarrow> generation cur - retain + 1 \<le> g \<longrightarrow> k \<in> set keep'))"
      by (rule triple_weaken [OF Cons]) auto
    with None show ?thesis by simp
  next
    case (Some g)
    have loose: "\<not> dry \<Longrightarrow> g < generation cur - retain + 1 \<Longrightarrow> loose k" using expired_loose [OF _ assms(2) Some] by simp
    have keep: "triple W (sweep_catalogs J C S cur (generation cur - retain + 1) dry ks gone (keep @ [k]))
        (\<lambda>(gone', keep'). set keep \<subseteq> set keep' \<and>
       (\<forall>k \<in> set (k # ks). \<forall>g. generation_of k = Some g \<longrightarrow> generation cur - retain + 1 \<le> g \<longrightarrow> k \<in> set keep'))"
      by (rule triple_weaken [OF Cons]) auto
    have drop: "triple W (sweep_catalogs J C S cur (generation cur - retain + 1) dry ks (gone @ [k]) keep)
        (\<lambda>(gone', keep'). set keep \<subseteq> set keep' \<and>
       (\<forall>k \<in> set (k # ks). \<forall>g. generation_of k = Some g \<longrightarrow> generation cur - retain + 1 \<le> g \<longrightarrow> k \<in> set keep'))"
      if "g < generation cur - retain + 1"
      by (rule triple_weaken [OF Cons]) (use that Some in auto)
    show ?thesis
      unfolding sweep_catalogs.simps Some option.case names_key_def
      by (intro keep drop triple_intros delete_keeps loose renew_after_keeps [OF assms(1)] triple_lift) auto
  qed
qed

end

text \<open>A whole collection: \<open>clocked\<close> is what is known of the store's clock, and \<open>ledger_ok\<close> what is known of the ledger.\<close>

locale ledger_collector = catalog_sweeper S I free loose seen retain dry head_ok
  for L :: lib and S :: "'s store" and I free loose retain dry and grace :: int and seen
    and clocked :: "int \<Rightarrow> bool" and ledger_ok :: "tombstones \<Rightarrow> bool"
    and head_ok and listed_ok :: "key list \<Rightarrow> bool" and good :: "resolved_payload list \<Rightarrow> bool" +
  assumes metas_keep: "triple I (list_meta S p) (\<lambda>ms. \<forall>m \<in> set ms. prefix p (meta_key m) \<and> seen m)"
    and clock_read: "triple I (store_now S) clocked"
    and ledger_kept: "ledger_ok []" "ledger_ok T \<Longrightarrow> clocked v \<Longrightarrow> ledger_ok (next_cold T P v plan)"
    and ledger_read: "triple I (get S TOMBSTONE_KEY) (\<lambda>r. \<forall>T. tombstones_from_bytes L (body r) = Inr T \<longrightarrow> ledger_ok T)"
    and ledger_create: "\<not> dry \<Longrightarrow> ledger_ok T \<Longrightarrow> triple I (put_if_absent S TOMBSTONE_KEY (tombstones_to_bytes L T)) (\<lambda>_. True)"
    and ledger_put: "\<not> dry \<Longrightarrow> ledger_ok T \<Longrightarrow> triple I (put S TOMBSTONE_KEY (tombstones_to_bytes L T)) (\<lambda>_. True)"
    and ledger_match: "\<not> dry \<Longrightarrow> ledger_ok T \<Longrightarrow> triple I (put_if_match S TOMBSTONE_KEY (tombstones_to_bytes L T) tag) (\<lambda>_. True)"
    and head_found: "triple I (resolve_head L S) (\<lambda>(cur, g). head_ok cur)"
    and listing: "triple I (list_prefix S PAYLOAD_PREFIX) listed_ok"
    and resolved: "head_ok cur \<Longrightarrow> listed_ok ks \<Longrightarrow>
      (\<And>k g. k \<in> set ks \<Longrightarrow> generation_of k = Some g \<Longrightarrow> generation cur - retain + 1 \<le> g \<Longrightarrow> k \<in> set keep) \<Longrightarrow>
      triple I (resolve_payloads L S cur keep []) (\<lambda>r. \<forall>items. r = Inr items \<longrightarrow> good items)"
    and unmarked_loose: "\<not> dry \<Longrightarrow> good items \<Longrightarrow> seen m \<Longrightarrow> clocked t_now \<Longrightarrow> cold items t_now grace m \<Longrightarrow>
      ledger_ok T \<Longrightarrow> map_of T (meta_key m) = Some v \<Longrightarrow> grace < t_now - v \<Longrightarrow> prefix PACKS_PREFIX (meta_key m) \<Longrightarrow> loose (meta_key m)"
begin

lemma load_tombstones_keeps: "triple I (load_tombstones L S) (\<lambda>(T, ref). ledger_ok T)"
  unfolding load_tombstones_def
  by (intro triple_bind [OF triple_try [OF triple_bind [OF ledger_read triple_bind [OF triple_lift]]]] triple_sum triple_if
        triple_ret triple_raise)
     (auto simp: ledger_kept)

lemma commit_tombstones_keeps: "\<not> dry \<Longrightarrow> ledger_ok T \<Longrightarrow> triple I (commit_tombstones L S T ref) (\<lambda>_. True)"
  unfolding commit_tombstones_def Let_def
  by (cases ref) (auto intro!: triple_intros ledger_create ledger_put ledger_match)

lemma add_missing_keeps:
  "triple I (add_missing S ks ms) (\<lambda>ms'. \<forall>m \<in> set ms'. m \<in> set ms \<or> meta_key m \<in> set ks \<and> seen m)"
proof (induction ks arbitrary: ms)
  case Nil
  show ?case by (simp only: add_missing.simps) (rule triple_ret, simp)
next
  case (Cons k ks)
  have skip: "triple I (add_missing S ks ms) (\<lambda>ms'. \<forall>m \<in> set ms'. m \<in> set ms \<or> meta_key m \<in> set (k # ks) \<and> seen m)"
    by (rule triple_weaken [OF Cons]) auto
  have add: "triple I (add_missing S ks (ms @ [m])) (\<lambda>ms'. \<forall>m \<in> set ms'. m \<in> set ms \<or> meta_key m \<in> set (k # ks) \<and> seen m)"
    if "meta_key m = k \<and> seen m" for m
    using that by (intro triple_weaken [OF Cons]) auto
  show ?case
    unfolding add_missing.simps
    by (rule triple_bind [OF triple_try [OF head_keeps]]) (intro triple_intros skip add; simp)
qed

lemma execute_keeps:
  assumes "lease_key C = LEASE_KEY" and "\<And>k. \<not> dry \<Longrightarrow> k \<in> delete_packs plan \<Longrightarrow> loose k" and "finite (delete_packs plan)"
    and "ledger_ok T" and "clocked t"
  shows "triple W (execute_sweep J C L S dry grace metas T ref t plan) (\<lambda>_. True)"
proof -
  have "\<And>k. \<not> dry \<Longrightarrow> k \<in> set (sorted_list_of_set (delete_packs plan)) \<Longrightarrow> loose k" using assms(2,3) by simp
  note cold_deletes_keep [OF assms(1) this]
  then show ?thesis
    unfolding execute_sweep_def Let_def delete_cold_packs_def
    by (auto intro!: triple_intros renew_keeps [OF assms(1)] commit_tombstones_keeps ledger_kept(2) assms(4,5)
        triple_weaken [OF clock_read])
qed

lemma pack_sweep_keeps:
  assumes C: "lease_key C = LEASE_KEY"
    and keep: "triple I (resolve_payloads L S cur keep []) (\<lambda>r. \<forall>items. r = Inr items \<longrightarrow> good items)"
  shows "triple W (pack_sweep J C L S cur keep dry grace) (\<lambda>_. True)"
  unfolding pack_sweep_def Let_def
proof (rule triple_bind [OF triple_world(1) [OF metas_keep]],
    rule triple_bind [OF triple_world(1) [OF keep]], rule triple_sum, goal_cases)
  case (1 ms r e)
  show ?case by (rule triple_raise)
next
  case (2 ms r items)
  then have good: "good items" by simp
  show ?case
  proof (rule triple_if, goal_cases)
    case 1
    show ?case by (rule triple_ret) simp
  next
    case 2
    show ?case
    proof (rule triple_bind [OF triple_world(1) [OF add_missing_keeps]], goal_cases)
      case (1 metas)
      have packs: "prefix PACKS_PREFIX (meta_key m) \<and> seen m" if "m \<in> set metas" for m
        using bspec [OF 1 that] \<open>\<forall>m \<in> set ms. prefix PACKS_PREFIX (meta_key m) \<and> seen m\<close> committed_refs_packs [of "meta_key m" items]
          finite_committed_refs [of items] by auto
      have plan: "triple W (execute_sweep J C L S dry grace metas T ref t plan) (\<lambda>_. True)"
        if "decide_pack_sweep items metas T t grace DEFAULT_MAX_DELETE_FRACTION = SweepActions plan" and T: "ledger_ok T" and now: "clocked t"
        for T ref t plan
      proof (rule execute_keeps [OF C _ _ T now])
        note gone = decide_delete [OF that(1)]
        show "loose k" if "\<not> dry" "k \<in> delete_packs plan" for k
        proof -
          from gone [OF that(2)] obtain m u where m: "m \<in> set metas" "meta_key m = k" "cold items t grace m"
            "map_of T k = Some u" "grace < t - u" by blast
          with unmarked_loose [OF that(1) good _ now m(3) T _ m(5)] packs [OF m(1)] show ?thesis by simp
        qed
        have "delete_packs plan \<subseteq> meta_key ` set metas" using gone by blast
        then show "finite (delete_packs plan)" by (rule finite_subset) simp
      qed
      show ?case
      proof (rule triple_bind [OF triple_world(1) [OF load_tombstones_keeps]], goal_cases)
        case (1 x)
        then obtain T ref where x: "x = (T, ref)" "ledger_ok T" by (cases x) auto
        show ?case
          unfolding x(1) prod.case
          by (rule triple_bind [OF triple_world(1) [OF clock_read]])
             (auto intro!: triple_intros plan x(2) split: sweep_plan.split)
      qed
    qed
  qed
qed

lemma locked_keeps:
  assumes C: "lease_key C = LEASE_KEY"
  shows "triple W (collect_locked J C L S retain dry grace) (\<lambda>_. True)"
  unfolding collect_locked_def
proof (rule triple_bind [OF triple_world(1) [OF head_found]], goal_cases)
  case (1 x)
  then obtain cur g where x: "x = (cur, g)" "head_ok cur" by (cases x) auto
  show ?case
    unfolding x(1) prod.case
  proof (rule triple_bind [OF triple_world(1) [OF listing]], rule triple_then, goal_cases)
    case (1 ks)
    show ?case by (auto intro!: triple_intros triple_lift hint_keeps)
  next
    case (2 ks u)
    show ?case
    proof (rule triple_bind [OF catalogs_keep [OF C x(2)]], goal_cases)
      case (1 y)
      then obtain gone keep where y: "y = (gone, keep)"
        "\<And>k g. k \<in> set ks \<Longrightarrow> generation_of k = Some g \<Longrightarrow> generation cur - retain + 1 \<le> g \<Longrightarrow> k \<in> set keep"
        by (cases y) auto
      show ?case
        unfolding y(1) prod.case
        by (intro triple_then pack_sweep_keeps [OF C] resolved [OF x(2) \<open>listed_ok ks\<close>] y(2) triple_ret TrueI)
    qed
  qed
qed

lemma collect_keeps: "triple I (collect depth J C L S retain dry grace unsafe) (\<lambda>_. True)"
  unfolding collect_def Let_def
  by (auto intro!: triple_intros triple_with_attr acquire_keeps locked_keeps release_keeps)

end

section \<open>When the ledger does not matter\<close>

text \<open>The time of the clock is the modification time of an object that was seen.\<close>

lemma store_now_seen:
  assumes "triple I (put S CLOCK_PROBE_KEY ''t'') (\<lambda>_. True)" and "triple I (head_meta S CLOCK_PROBE_KEY) (\<lambda>m. F m)"
  shows "triple I (store_now S) (\<lambda>t. \<exists>c. F c \<and> meta_modified c = Some t)"
  unfolding store_now_def
  by (rule triple_then [OF assms(1)], rule triple_bind [OF assms(2)], rule triple_option) (auto intro: triple_raise triple_ret)

locale collector =
  fixes L :: lib and S :: "'s store" and I :: "'s \<Rightarrow> bool" and free loose :: "key \<Rightarrow> bool"
    and retain :: int and dry :: bool and grace :: int and seen :: "object_meta \<Rightarrow> bool"
    and head_ok :: "root_doc \<Rightarrow> bool" and listed_ok :: "key list \<Rightarrow> bool" and good :: "resolved_payload list \<Rightarrow> bool"
  assumes get_keeps: "triple I (get S k) (\<lambda>_. True)"
    and head_keeps: "triple I (head_meta S k) (\<lambda>m. meta_key m = k \<and> seen m)"
    and metas_keep: "triple I (list_meta S p) (\<lambda>ms. \<forall>m \<in> set ms. prefix p (meta_key m) \<and> seen m)"
    and create_keeps: "free k \<Longrightarrow> triple I (put_if_absent S k b) (\<lambda>_. True)"
    and put_keeps: "free k \<Longrightarrow> triple I (put S k b) (\<lambda>_. True)"
    and match_keeps: "free k \<Longrightarrow> triple I (put_if_match S k b t) (\<lambda>_. True)"
    and delete_keeps: "loose k \<Longrightarrow> triple I (delete S k) (\<lambda>_. True)"
    and own_keys: "free LEASE_KEY" "free (now_probe LEASE_KEY u)" "loose (now_probe LEASE_KEY u)" "free CLOCK_PROBE_KEY"
    and wet_keys: "\<not> dry \<Longrightarrow> free ROOT_HINT_KEY" "\<not> dry \<Longrightarrow> free TOMBSTONE_KEY"
    and head_found: "triple I (resolve_head L S) (\<lambda>(cur, g). head_ok cur)"
    and listing: "triple I (list_prefix S PAYLOAD_PREFIX) listed_ok"
    and expired_loose: "\<not> dry \<Longrightarrow> head_ok cur \<Longrightarrow> generation_of k = Some g \<Longrightarrow> g < generation cur - retain + 1 \<Longrightarrow> loose k"
    and resolved: "head_ok cur \<Longrightarrow> listed_ok ks \<Longrightarrow>
      (\<And>k g. k \<in> set ks \<Longrightarrow> generation_of k = Some g \<Longrightarrow> generation cur - retain + 1 \<le> g \<Longrightarrow> k \<in> set keep) \<Longrightarrow>
      triple I (resolve_payloads L S cur keep []) (\<lambda>r. \<forall>items. r = Inr items \<longrightarrow> good items)"
    and unmarked_loose: "\<not> dry \<Longrightarrow> good items \<Longrightarrow> seen m \<Longrightarrow> seen c \<Longrightarrow> meta_modified c = Some t_now \<Longrightarrow> cold items t_now grace m \<Longrightarrow>
      prefix PACKS_PREFIX (meta_key m) \<Longrightarrow> loose (meta_key m)"
begin

sublocale ledger: ledger_collector L S I free loose retain dry grace seen "\<lambda>t. \<exists>c. seen c \<and> meta_modified c = Some t"
  "\<lambda>_. True" head_ok listed_ok good
proof
  show "triple I (store_now S) (\<lambda>t. \<exists>c. seen c \<and> meta_modified c = Some t)"
    by (rule store_now_seen [OF put_keeps [OF own_keys(4)] triple_weaken [OF head_keeps]]) simp
qed (auto intro: get_keeps head_keeps metas_keep create_keeps put_keeps match_keeps delete_keeps own_keys wet_keys head_found listing
  expired_loose resolved unmarked_loose triple_weaken [OF get_keeps])

lemmas store_now_keeps = ledger.clock_read
lemmas acquire_keeps = ledger.acquire_keeps
lemmas renew_keeps = ledger.renew_keeps
lemmas release_keeps = ledger.release_keeps
lemmas renew_after_keeps = ledger.renew_after_keeps
lemmas hint_keeps = ledger.hint_keeps
lemmas catalogs_keep = ledger.catalogs_keep
lemmas pack_sweep_keeps = ledger.pack_sweep_keeps
lemmas locked_keeps = ledger.locked_keeps
lemmas collect_keeps = ledger.collect_keeps

end

section \<open>Markers are immortal\<close>

lemma generation_of_payload: "generation_of k = Some g \<Longrightarrow> prefix PAYLOAD_PREFIX k"
proof -
  assume "generation_of k = Some g"
  then obtain u where "dollar k = payload_key_text g u"
    by (auto simp: generation_of_def dest: parse_payload_key_Inr split: sum.splits)
  then have "prefix PAYLOAD_PREFIX (dollar k)" by (simp add: payload_key_text_def)
  moreover have "prefix (dollar k) k" by (auto simp: dollar_def prefix_def) (metis append_butlast_last_id)
  ultimately show ?thesis by (rule prefix_order.trans)
qed

lemma area_exclusive:
  "prefix PAYLOAD_PREFIX k \<Longrightarrow> \<not> prefix ROOTS_PREFIX k" "prefix PACKS_PREFIX k \<Longrightarrow> \<not> prefix ROOTS_PREFIX k"
  "prefix PAYLOAD_PREFIX k \<Longrightarrow> \<not> prefix PACKS_PREFIX k"
  by (auto simp: PAYLOAD_PREFIX_def ROOTS_PREFIX_def PACKS_PREFIX_def prefix_def)

lemma gc_keys_not_root [simp]: "\<not> prefix ROOTS_PREFIX CLOCK_PROBE_KEY" "\<not> prefix ROOTS_PREFIX TOMBSTONE_KEY"
  by (simp_all add: CLOCK_PROBE_KEY_def TOMBSTONE_KEY_def ROOTS_PREFIX_def)

context object_store
begin

lemma guar_resolve_orphan [guar_intros]: "guar evolves (resolve_orphan L S k)"
  unfolding resolve_orphan_def by (auto split: sum.splits option.splits intro!: guar_intros)

lemma guar_marker_for [guar_intros]: "guar evolves (marker_for L S cur g)"
  unfolding marker_for_def by (auto split: sum.splits intro!: guar_intros)

lemma guar_names_key [guar_intros]: "guar evolves (names_key d k)"
  unfolding names_key_def by (auto split: option.splits intro!: guar_intros)

lemma guar_load_committed [guar_intros]: "guar evolves (load_committed_manifest L S k)"
  unfolding load_committed_manifest_def by (auto intro!: guar_intros)

lemma guar_resolve_payloads [guar_intros]: "guar evolves (resolve_payloads L S cur ks items)"
proof (induction ks arbitrary: items)
  case Nil
  show ?case by (simp only: resolve_payloads.simps) (rule guar_ret)
next
  case (Cons k ks)
  then show ?case by (auto split: option.splits transport.splits sum.splits intro!: guar_intros)
qed

lemma metas_keys:
  "list_meta S p s = (r, s') \<Longrightarrow> r = Inr ms \<Longrightarrow> m \<in> set ms \<Longrightarrow> prefix p (meta_key m)"
  by (drule metas_law) (auto simp: metas_answer_def)

lemma head_key: "head_meta S k s = (r, s') \<Longrightarrow> r = Inr m \<Longrightarrow> meta_key m = k"
  by (drule head_law) (auto simp: head_answers_def)

sublocale head_reader: reader evolves S
  by unfold_locales (rule guar_get)

abbreviation since :: "contents \<Rightarrow> 's \<Rightarrow> bool" where
  "since h s \<equiv> heap_evolves L h (objs s)"

lemma guar_since: "guar evolves m \<Longrightarrow> triple (since h) m (\<lambda>_. True)"
  by (erule guar_triple) (rule heap_evolves_trans)

sublocale gc: collector L S "since h" "\<lambda>k. \<not> prefix ROOTS_PREFIX k" "\<lambda>k. \<not> prefix ROOTS_PREFIX k" retain dry grace "\<lambda>_. True"
    "\<lambda>_. True" "\<lambda>_. True" "\<lambda>_. True"
  for h retain dry grace
proof
  show "triple (since h) (head_meta S k) (\<lambda>m. meta_key m = k \<and> True)" for k
    by (rule tripleI) (blast intro: heap_evolves_trans head_evolves head_key)
  show "triple (since h) (list_meta S p) (\<lambda>ms. \<forall>m \<in> set ms. prefix p (meta_key m) \<and> True)" for p
    by (rule tripleI) (blast intro: heap_evolves_trans metas_evolves metas_keys)
  show "generation_of k = Some g \<Longrightarrow> \<not> prefix ROOTS_PREFIX k" for k g
    by (rule area_exclusive(1)) (rule generation_of_payload)
  show "triple (since h) (resolve_head L S) (\<lambda>(cur, g). True)"
    by (rule triple_weaken [OF guar_since]) (auto intro: head_reader.reader_resolve_head)
  show "triple (since h) (resolve_payloads L S cur keep []) (\<lambda>r. \<forall>items. r = Inr items \<longrightarrow> True)" for cur keep
    by (rule triple_weaken [OF guar_since]) (auto intro: guar_resolve_payloads)
qed (simp_all add: area_exclusive(2) guar_since guar_intros)

end

text \<open>
  Garbage collection never touches the history: whatever the retention, the grace, the mode, the
  rivals and the faults, a collection leaves every generation marker as it is and the lake well formed.
\<close>
theorem collection_keeps_every_marker:
  "heap_evolves L (net_objs n) (net_objs (snd (collect depth J C L (net_store L) retain dry grace unsafe n)))"
  using tripleD [OF net.gc.collect_keeps, where s = n] by (metis heap_evolves_refl prod.collapse)

section \<open>Resolving, on any store\<close>

lemma triple_transport: "triple I a G \<Longrightarrow> triple I b G \<Longrightarrow> triple I (case t of Whole \<Rightarrow> a | Chunked \<Rightarrow> b) G"
  by (cases t) simp_all

lemma resolve_parts:
  assumes reads: "\<And>j. triple I (get S j) (\<lambda>_. True)" "\<And>j. triple I (head_meta S j) (\<lambda>_. True)"
  shows "triple I (read_marker L S g) (\<lambda>_. True)" "triple I (marker_for L S cur g) (\<lambda>_. True)"
    "triple I (load_committed_manifest L S k) (\<lambda>_. True)" "triple I (resolve_orphan L S k) (\<lambda>_. True)"
  unfolding read_marker_def marker_for_def load_committed_manifest_def resolve_orphan_def
  by (intro triple_intros reads triple_lift TrueI)+

lemma resolve_payloads_keeps:
  assumes reads: "\<And>j. triple I (get S j) (\<lambda>_. True)" "\<And>j. triple I (head_meta S j) (\<lambda>_. True)"
  shows "triple I (resolve_payloads L S cur ks items) (\<lambda>_. True)"
proof (induction ks arbitrary: items)
  case Nil
  show ?case by (simp only: resolve_payloads.simps triple_ret)
next
  case (Cons k ks)
  show ?case
    unfolding resolve_payloads.simps names_key_def
    by (intro triple_intros triple_transport triple_lift resolve_parts [OF reads] Cons TrueI)
qed

text \<open>The manifest of a committed chunked generation that is sure to be read is among the resolved payloads.\<close>

lemma resolve_finds_manifest:
  assumes reads: "\<And>j. triple I (get S j) (\<lambda>_. True)" "\<And>j. triple I (head_meta S j) (\<lambda>_. True)"
    and d: "generation d = g" "valid_generation g" "transport_of d = Chunked" and cur: "generation cur = g \<Longrightarrow> cur = d"
    and marker: "triple I (try_io (read_marker L S g)) (\<lambda>r. r = Inr d)"
    and load: "triple I (try_io (load_committed_manifest L S (payload_key_text g (payload_uuid d)))) (\<lambda>r. r = Inr M)"
  shows "triple I (resolve_payloads L S cur ks items)
    (\<lambda>r. \<forall>items'. r = Inr items' \<longrightarrow> set items \<subseteq> set items' \<and>
       (payload_key_text g (payload_uuid d) \<in> set ks \<longrightarrow> CommittedChunked d M \<in> set items'))"
proof (induction ks arbitrary: items)
  case Nil
  show ?case by (simp only: resolve_payloads.simps) (rule triple_ret, simp)
next
  case (Cons k ks)
  let ?k = "payload_key_text g (payload_uuid d)"
  have go: "triple I (resolve_payloads L S cur ks items')
    (\<lambda>r. \<forall>items''. r = Inr items'' \<longrightarrow> set items \<subseteq> set items'' \<and>
       (?k \<in> set (k # ks) \<longrightarrow> CommittedChunked d M \<in> set items''))"
    if "set items \<subseteq> set items'" "k = ?k \<longrightarrow> CommittedChunked d M \<in> set items'" for items'
    by (rule triple_weaken [OF Cons]) (use that in auto)
  show ?case
  proof (cases "k = ?k")
    case True
    have gen: "generation_of k = Some g"
      using parse_payload_key_text [OF d(2) dollar_payload] by (simp add: generation_of_def True)
    have found: "triple I (marker_for L S cur g) (\<lambda>x. x = Some d)"
    proof (cases "g = generation cur")
      case False
      then show ?thesis by (simp add: marker_for_def) (rule triple_bind [OF marker], auto intro: triple_ret)
    qed (use cur in \<open>auto simp: marker_for_def intro: triple_ret\<close>)
    have named: "triple I (names_key (Some d) k) (\<lambda>b. b = True)"
      using d True by (auto simp: triple_def names_key_def payload_key_def)
    show ?thesis
      unfolding resolve_payloads.simps gen option.case
    proof (rule triple_bind [OF found], erule ssubst, rule triple_bind [OF named], goal_cases)
      case (1 x b)
      then have b: b by simp
      have load': "triple I (try_io (load_committed_manifest L S k)) (\<lambda>r. r = Inr M)" using load by (simp only: True)
      show ?case
        unfolding if_P [OF b] option.sel d(3) transport.case
        by (rule triple_bind [OF load'], erule ssubst, unfold sum.case, rule go) auto
    qed
  next
    case False
    show ?thesis
      unfolding resolve_payloads.simps names_key_def
      by (intro go triple_intros triple_transport triple_lift resolve_parts [OF reads]) (use False in auto)
  qed
qed

section \<open>Retained generations survive\<close>

text \<open>The objects that a generation needs to be read: the markers, its payload object and its packs.\<close>

definition needed :: "lib \<Rightarrow> contents \<Rightarrow> root_doc \<Rightarrow> key set" where
  "needed L h d = {payload_key_text (generation d) (payload_uuid d)} \<union>
     (case stored_manifest L h d of None \<Rightarrow> {} | Some M \<Rightarrow> pack_keys M)"

definition agrees :: "contents \<Rightarrow> (key \<Rightarrow> bool) \<Rightarrow> mem \<Rightarrow> bool" where
  "agrees h free m \<longleftrightarrow> (\<forall>k. \<not> free k \<longrightarrow> mem_objs m k = h k)"

lemma agrees_calls:
  "triple (agrees h free) (get mem_store k) (\<lambda>_. True)"
  "triple (agrees h free) (head_meta mem_store k) (\<lambda>m. meta_key m = k)"
  "triple (agrees h free) (list_meta mem_store p) (\<lambda>ms. \<forall>m \<in> set ms. prefix p (meta_key m))"
  "triple (agrees h free) (list_prefix mem_store p) (\<lambda>ks. \<forall>k. prefix p k \<longrightarrow> \<not> free k \<longrightarrow> h k \<noteq> None \<longrightarrow> k \<in> set ks)"
  "free k \<Longrightarrow> triple (agrees h free) (put_if_absent mem_store k b) (\<lambda>_. True)"
  "free k \<Longrightarrow> triple (agrees h free) (put mem_store k b) (\<lambda>_. True)"
  "free k \<Longrightarrow> triple (agrees h free) (put_if_match mem_store k b t) (\<lambda>_. True)"
  "free k \<Longrightarrow> triple (agrees h free) (delete mem_store k) (\<lambda>_. True)"
proof -
  have w: "agrees h free m \<Longrightarrow> free k \<Longrightarrow> mem_write k b m = (r, m') \<Longrightarrow> agrees h free m'" for m b k r m'
    by (auto simp: agrees_def mem_write_run mem_objs_def)
  show "triple (agrees h free) (get mem_store k) (\<lambda>_. True)"
    by (rule tripleI) (auto simp: mem_store_def dest: mem_get_answers)
  show "triple (agrees h free) (head_meta mem_store k) (\<lambda>m. meta_key m = k)"
    by (rule tripleI) (auto simp: mem_store_def head_answers_def dest!: mem_head_answers)
  show "triple (agrees h free) (list_meta mem_store p) (\<lambda>ms. \<forall>m \<in> set ms. prefix p (meta_key m))"
  proof (rule tripleI)
    fix m r m'
    assume "agrees h free m" and "list_meta mem_store p m = (r, m')"
    then have "m' = m" "metas_answer p (mem_objs m) r" by (auto simp: mem_store_def dest: mem_metas_answer)
    moreover from this(2) have "prefix p (meta_key x)" if "r = Inr ms" "x \<in> set ms" for ms x
      using that imageI [of x "set ms" meta_key] by (simp add: metas_answer_def)
    ultimately show "agrees h free m' \<and> (\<forall>ms. r = Inr ms \<longrightarrow> (\<forall>x \<in> set ms. prefix p (meta_key x)))"
      using \<open>agrees h free m\<close> by blast
  qed
  show "triple (agrees h free) (list_prefix mem_store p) (\<lambda>ks. \<forall>k. prefix p k \<longrightarrow> \<not> free k \<longrightarrow> h k \<noteq> None \<longrightarrow> k \<in> set ks)"
    by (rule tripleI) (auto simp: mem_store_def list_answers_def agrees_def dest!: mem_list_answers)
  show "triple (agrees h free) (put_if_absent mem_store k b) (\<lambda>_. True)" if "free k"
    by (intro tripleI) (auto simp: mem_store_def mem_put_if_absent_def split: if_splits intro: w [OF _ that])
  show "triple (agrees h free) (put mem_store k b) (\<lambda>_. True)" if "free k"
    by (intro tripleI) (auto simp: mem_store_def mem_put_def intro: w [OF _ that])
  show "triple (agrees h free) (put_if_match mem_store k b t) (\<lambda>_. True)" if "free k"
    by (intro tripleI) (auto simp: mem_store_def mem_put_if_match_def split: if_splits option.splits intro: w [OF _ that])
  show "triple (agrees h free) (delete mem_store k) (\<lambda>_. True)" if "free k"
    using that by (intro tripleI) (auto simp: mem_store_def mem_delete_def agrees_def mem_objs_def)
qed

lemma guar_eq_triple: "guar (=) m \<Longrightarrow> triple I m (\<lambda>_. True)"
  by (erule guar_triple) simp

lemma agrees_roots:
  assumes "agrees h free m" and "\<And>k. prefix ROOTS_PREFIX k \<Longrightarrow> \<not> free k"
  shows "has_marker (mem_objs m) g = has_marker h g" "marker_at L (mem_objs m) g d = marker_at L h g d"
    "lake_ok L (mem_objs m) = lake_ok L h"
proof -
  have same: "mem_objs m (marker_key_text g) = h (marker_key_text g)" for g
    using assms prefix_roots_marker [of g] by (simp add: agrees_def)
  show h: "has_marker (mem_objs m) g = has_marker h g" for g by (simp add: has_marker_def same)
  show a: "marker_at L (mem_objs m) g d = marker_at L h g d" for g d by (simp add: marker_at_def same)
  show "lake_ok L (mem_objs m) = lake_ok L h" by (simp add: lake_ok_def h a)
qed

lemma stored_manifest_cong:
  "map_option ob_body (h' (payload_key_text (generation d) (payload_uuid d))) =
     map_option ob_body (h (payload_key_text (generation d) (payload_uuid d))) \<Longrightarrow> stored_manifest L h' d = stored_manifest L h d"
  by (auto simp: stored_manifest_def split: option.splits)

lemma load_committed_mem:
  assumes "stored_manifest L h d = Some M" and "mem_objs m (payload_key_text (generation d) (payload_uuid d)) = h (payload_key_text (generation d) (payload_uuid d))"
  shows "load_committed_manifest L mem_store (payload_key_text (generation d) (payload_uuid d)) m = (Inr M, m)"
proof -
  have "stored_manifest L (mem_objs m) d = Some M" using stored_manifest_cong [of "mem_objs m" d h L] assms by simp
  from load_manifest_mem [OF this] show ?thesis by (simp add: load_manifest_def load_committed_manifest_def)
qed

lemma agrees_reads: "triple (agrees h free) (get mem_store k) (\<lambda>_. True)" "triple (agrees h free) (head_meta mem_store k) (\<lambda>_. True)"
  by (rule agrees_calls(1), rule triple_weaken [OF agrees_calls(2) TrueI])

lemma resolve_agrees: "triple (agrees h free) (resolve_payloads L mem_store cur ks items) (\<lambda>_. True)"
  by (rule resolve_payloads_keeps [OF agrees_reads])

lemma resolve_finds:
  assumes free: "\<And>k. prefix ROOTS_PREFIX k \<Longrightarrow> \<not> free k" "\<not> free (payload_key_text g (payload_uuid d))"
    and d: "marker_at L h g d" and M: "stored_manifest L h d = Some M" and cur: "marker_at L h (generation cur) cur"
  shows "triple (agrees h free) (resolve_payloads L mem_store cur ks items)
    (\<lambda>r. \<forall>items'. r = Inr items' \<longrightarrow> set items \<subseteq> set items' \<and>
       (payload_key_text g (payload_uuid d) \<in> set ks \<longrightarrow> CommittedChunked d M \<in> set items'))"
proof (rule resolve_finds_manifest [OF agrees_reads])
  show g: "generation d = g" "valid_generation g" using d by (auto dest: marker_at_generation)
  show "transport_of d = Chunked" using M by (cases "transport_of d") (auto simp: stored_manifest_def)
  show "cur = d" if "generation cur = g" using d cur that by (auto dest: marker_at_unique)
  show "triple (agrees h free) (try_io (read_marker L mem_store g)) (\<lambda>r. r = Inr d)"
  proof (rule tripleI)
    fix m r m'
    assume ag: "agrees h free m" and run: "try_io (read_marker L mem_store g) m = (r, m')"
    from d have "marker_at L (mem_objs m) g d" by (simp add: agrees_roots(2) [OF ag free(1)])
    from read_marker_mem [OF this] run ag show "agrees h free m' \<and> (\<forall>x. r = Inr x \<longrightarrow> x = Inr d)" by (auto simp: try_io_def)
  qed
  show "triple (agrees h free) (try_io (load_committed_manifest L mem_store (payload_key_text g (payload_uuid d)))) (\<lambda>r. r = Inr M)"
  proof (rule tripleI)
    fix m r m'
    assume ag: "agrees h free m" and run: "try_io (load_committed_manifest L mem_store (payload_key_text g (payload_uuid d))) m = (r, m')"
    have "mem_objs m (payload_key_text (generation d) (payload_uuid d)) = h (payload_key_text (generation d) (payload_uuid d))"
      using ag free(2) g by (simp add: agrees_def)
    from load_committed_mem [OF M this] run ag g show "agrees h free m' \<and> (\<forall>x. r = Inr x \<longrightarrow> x = Inr M)" by (auto simp: try_io_def)
  qed
qed

lemma pack_keys_iff: "format_pack_key (pack_sha256 e) \<in> pack_keys M" if "e \<in> set (entries M)"
  using that by (auto simp: pack_keys_def)

text \<open>What a payload stands for depends on the contents of the needed objects only.\<close>

lemma payload_holds_needed:
  assumes same: "\<And>k. k \<in> needed L h d \<Longrightarrow> map_option ob_body (h' k) = map_option ob_body (h k)"
  shows "payload_holds L U h d data \<Longrightarrow> payload_holds L U h' d data"
proof (cases "transport_of d")
  case Whole
  moreover have "map_option ob_body (h' (payload_key_text (generation d) (payload_uuid d))) =
      map_option ob_body (h (payload_key_text (generation d) (payload_uuid d)))"
    by (rule same) (simp add: needed_def)
  moreover assume "payload_holds L U h d data"
  ultimately show ?thesis by (simp add: payload_holds_def)
next
  case Chunked
  assume "payload_holds L U h d data"
  with Chunked obtain M where M: "stored_manifest L h d = Some M" "manifest_holds L U h M data"
    by (auto simp: payload_holds_def split: option.splits)
  have "map_option ob_body (h' (payload_key_text (generation d) (payload_uuid d))) =
      map_option ob_body (h (payload_key_text (generation d) (payload_uuid d)))"
    by (rule same) (simp add: needed_def)
  then have M': "stored_manifest L h' d = Some M" using stored_manifest_cong [of h' d h L] M(1) by simp
  have "pack_of h' (pack_sha256 e) = pack_of h (pack_sha256 e)" if "e \<in> set (entries M)" for e
    using same [of "format_pack_key (pack_sha256 e)"] pack_keys_iff [OF that] by (simp add: needed_def M(1) pack_of_def)
  then have packs: "\<And>e. e \<in> set (entries M) \<Longrightarrow> entry_bytes (pack_of h') e = entry_bytes (pack_of h) e"
    "\<And>e c. e \<in> set (entries M) \<Longrightarrow> entry_denotes L (pack_of h') e c = entry_denotes L (pack_of h) e c"
    by (simp_all add: entry_bytes_def entry_denotes_def)
  have "manifest_holds L U h' M data"
    using M(2) packs by (simp add: manifest_holds_def packs_sound_def payload_of_def base_chunks_def cong: map_cong)
  with Chunked M' show ?thesis by (simp add: payload_holds_def)
qed

definition spared :: "lib \<Rightarrow> contents \<Rightarrow> root_doc \<Rightarrow> key \<Rightarrow> bool" where
  "spared L h d k \<longleftrightarrow> prefix ROOTS_PREFIX k \<or> k \<in> needed L h d"

lemma needed_areas: "k \<in> needed L h d \<Longrightarrow> prefix PAYLOAD_PREFIX k \<or> prefix PACKS_PREFIX k"
  by (auto simp: needed_def payload_key_text_def pack_keys_def format_pack_key_def split: option.splits)

lemma needed_cases: "k \<in> needed L h d \<Longrightarrow> k = payload_key_text (generation d) (payload_uuid d) \<or> prefix PACKS_PREFIX k"
  by (auto simp: needed_def pack_keys_def format_pack_key_def split: option.splits)

lemma own_keys_not_needed:
  "LEASE_KEY \<notin> needed L h d" "now_probe LEASE_KEY u \<notin> needed L h d" "ROOT_HINT_KEY \<notin> needed L h d"
  "CLOCK_PROBE_KEY \<notin> needed L h d" "TOMBSTONE_KEY \<notin> needed L h d"
  by (auto dest!: needed_areas simp: LEASE_KEY_def now_probe_def ROOT_HINT_KEY_def CLOCK_PROBE_KEY_def TOMBSTONE_KEY_def
      PAYLOAD_PREFIX_def PACKS_PREFIX_def)

lemma retention_collector:
  assumes ok: "lake_ok L h" and d: "marker_at L h g d" "h (payload_key_text g (payload_uuid d)) \<noteq> None"
    and window: "\<And>k. has_marker h k \<Longrightarrow> k < g + retain"
  shows "collector L mem_store (agrees h (\<lambda>k. \<not> spared L h d k)) (\<lambda>k. \<not> spared L h d k) (\<lambda>k. \<not> spared L h d k) retain dry grace (\<lambda>_. True)
    (\<lambda>cur. marker_at L h (generation cur) cur) (\<lambda>ks. payload_key_text g (payload_uuid d) \<in> set ks)
    (\<lambda>items. \<forall>M. stored_manifest L h d = Some M \<longrightarrow> CommittedChunked d M \<in> set items)"
    (is "collector L mem_store (agrees h ?free) ?free ?free retain dry grace (\<lambda>_. True) ?head (\<lambda>ks. ?k \<in> set ks) ?good")
proof -
  have g: "generation d = g" "valid_generation g" using d by (auto dest: marker_at_generation)
  have roots: "prefix ROOTS_PREFIX k \<Longrightarrow> \<not> ?free k" for k by (simp add: spared_def)
  have k: "prefix PAYLOAD_PREFIX ?k" "\<not> ?free ?k" using g by (auto simp: payload_key_text_def spared_def needed_def)
  have gen: "generation_of ?k = Some g"
    using parse_payload_key_text [OF g(2) dollar_payload] by (simp add: generation_of_def)
  have low: "generation cur - retain + 1 \<le> g" if "?head cur" for cur
    using window [OF marker_at_has [OF that]] by simp
  show ?thesis
  proof
    show "triple (agrees h ?free) (resolve_head L mem_store) (\<lambda>(cur, g). ?head cur)"
    proof (rule tripleI)
      fix m r m'
      assume ag: "agrees h ?free m" and run: "resolve_head L mem_store m = (r, m')"
      have m: "m' = m" using guarD [OF mem_reader.reader_resolve_head run] by simp
      have "lake_ok L (mem_objs m)" using agrees_roots(3) [OF ag roots] ok by simp
      from mem.resolve_head_law [OF run this] m agrees_roots(2) [OF ag roots]
      show "agrees h ?free m' \<and> (\<forall>x. r = Inr x \<longrightarrow> (case x of (cur, g) \<Rightarrow> ?head cur))"
        using ag by (auto simp: marker_at_generation)
    qed
    show "triple (agrees h ?free) (list_prefix mem_store PAYLOAD_PREFIX) (\<lambda>ks. ?k \<in> set ks)"
      by (rule triple_weaken [OF agrees_calls(4)])
         (use d(2) k in blast)
    show "?free k" if "?head cur" "generation_of k = Some i" "i < generation cur - retain + 1" for cur k i
    proof -
      have "k \<noteq> ?k" using low [OF that(1)] gen that(2,3) by auto
      moreover have "prefix PAYLOAD_PREFIX k" using that(2) by (rule generation_of_payload)
      moreover from this have "\<not> prefix ROOTS_PREFIX k" "\<not> prefix PACKS_PREFIX k" using area_exclusive by blast+
      ultimately show ?thesis using needed_cases [of k L h d] g by (auto simp: spared_def)
    qed
    show "triple (agrees h ?free) (resolve_payloads L mem_store cur keep []) (\<lambda>r. \<forall>items. r = Inr items \<longrightarrow> ?good items)"
      if "?head cur" "?k \<in> set ks"
        "\<And>k i. k \<in> set ks \<Longrightarrow> generation_of k = Some i \<Longrightarrow> generation cur - retain + 1 \<le> i \<Longrightarrow> k \<in> set keep" for cur ks keep
    proof (cases "stored_manifest L h d")
      case None
      then have "?good items" for items by simp
      moreover have "triple (agrees h ?free) (resolve_payloads L mem_store cur keep []) (\<lambda>_. True)"
        by (rule resolve_agrees)
      ultimately show ?thesis by (auto intro: triple_weaken)
    next
      case (Some M)
      have "?k \<in> set keep" using that(3) [OF that(2) gen] low [OF that(1)] by simp
      with triple_weaken [OF resolve_finds [where free = ?free and g = g and d = d and ks = keep and items = "[]",
          OF roots k(2) d(1) Some that(1)]] Some
      show ?thesis by auto
    qed
    show "?free (meta_key m)" if "?good items" "cold items t grace m" "prefix PACKS_PREFIX (meta_key m)" for items m t
    proof -
      have "meta_key m \<notin> pack_keys M" if "stored_manifest L h d = Some M" for M
        using that \<open>?good items\<close> \<open>cold items t grace m\<close> by (force simp: cold_def item_marks_def)
      moreover have "meta_key m \<noteq> ?k" using that(3) by (auto simp: payload_key_text_def PAYLOAD_PREFIX_def PACKS_PREFIX_def)
      ultimately show ?thesis using that(3) area_exclusive(2) g by (auto simp: spared_def needed_def split: option.splits)
    qed
  qed (auto simp: agrees_calls spared_def own_keys_not_needed)
qed

lemma agrees_survives:
  assumes ag: "agrees h (\<lambda>k. \<not> spared L h d k) m" and "marker_at L h g d" and "payload_holds L U h d data"
  shows "marker_at L (mem_objs m) g d \<and> payload_holds L U (mem_objs m) d data"
proof
  show "marker_at L (mem_objs m) g d" using agrees_roots(2) [OF ag] assms(2) by (simp add: spared_def)
  show "payload_holds L U (mem_objs m) d data"
    using ag by (intro payload_holds_needed [OF _ assms(3)]) (auto simp: agrees_def spared_def)
qed

text \<open>
  Claim C8. No collection loses a retained generation: over a store nobody else writes to, if the generation
  \<open>g\<close> is among the newest \<open>retain\<close> and its payload stands for \<open>data\<close>, whole or chunked, then after any
  collection with that window, in any mode, with any grace and whatever its result, the marker of \<open>g\<close> is
  there and its payload still stands for \<open>data\<close>.
\<close>
theorem retained_generations_survive:
  assumes "lake_ok L (mem_objs m)" and "marker_at L (mem_objs m) g d" and "payload_holds L U (mem_objs m) d data"
    and "\<And>k. has_marker (mem_objs m) k \<Longrightarrow> k < g + retain"
    and "collect depth J C L mem_store retain dry grace unsafe m = (r, m')"
  shows "marker_at L (mem_objs m') g d \<and> payload_holds L U (mem_objs m') d data"
proof -
  let ?h = "mem_objs m"
  have g: "generation d = g" using assms(2) by (auto dest: marker_at_generation)
  have "?h (payload_key_text g (payload_uuid d)) \<noteq> None"
    using assms(3) g by (auto simp: payload_holds_def stored_manifest_def split: transport.splits option.splits)
  from retention_collector [OF assms(1,2) this assms(4)]
  have "collector L mem_store (agrees ?h (\<lambda>k. \<not> spared L ?h d k)) (\<lambda>k. \<not> spared L ?h d k) (\<lambda>k. \<not> spared L ?h d k) retain dry grace (\<lambda>_. True)
    (\<lambda>cur. marker_at L ?h (generation cur) cur) (\<lambda>ks. payload_key_text g (payload_uuid d) \<in> set ks)
    (\<lambda>items. \<forall>M. stored_manifest L ?h d = Some M \<longrightarrow> CommittedChunked d M \<in> set items)" .
  from tripleD [OF collector.collect_keeps [OF this] _ assms(5)]
  have "agrees ?h (\<lambda>k. \<not> spared L ?h d k) m'" by (simp add: agrees_def)
  from agrees_survives [OF this assms(2,3)] show ?thesis .
qed

end
