(* ===== verification/Gc_Effects.thy ===== *)
theory Gc_Effects
  imports Gc_Safety
begin

text \<open>
  What a collection does: refused parameters and dry runs change nothing, and a wet run that returns a
  report has removed every expired payload. Over the in-memory store.
\<close>

section \<open>Instances of the collector\<close>

lemma free_collector:
  assumes "\<And>k. loose k \<Longrightarrow> triple (agrees h free) (delete mem_store k) (\<lambda>_. True)"
    and "free LEASE_KEY" "free CLOCK_PROBE_KEY" "\<And>u. free (now_probe LEASE_KEY u)" "\<And>u. loose (now_probe LEASE_KEY u)"
    and "\<not> dry \<Longrightarrow> free ROOT_HINT_KEY" "\<not> dry \<Longrightarrow> free TOMBSTONE_KEY"
    and "\<And>k. \<not> dry \<Longrightarrow> prefix PAYLOAD_PREFIX k \<or> prefix PACKS_PREFIX k \<Longrightarrow> loose k"
  shows "collector L mem_store (agrees h free) free loose retain dry grace (\<lambda>_. True) (\<lambda>_. True) (\<lambda>_. True) (\<lambda>_. True)"
proof
  show "triple (agrees h free) (resolve_head L mem_store) (\<lambda>(cur, g). True)"
    using guar_eq_triple [OF mem_reader.reader_resolve_head, of "agrees h free" L] by (rule triple_weaken) auto
  show "triple (agrees h free) (list_prefix mem_store PAYLOAD_PREFIX) (\<lambda>_. True)"
    by (rule triple_weaken [OF agrees_calls(4)]) simp
  show "triple (agrees h free) (resolve_payloads L mem_store cur keep []) (\<lambda>r. \<forall>items. r = Inr items \<longrightarrow> True)" for cur keep
    by (rule triple_weaken [OF resolve_agrees]) simp
  show "loose k" if "\<not> dry" "generation_of k = Some g" for k g
    using assms(8) [OF that(1)] generation_of_payload [OF that(2)] by blast
qed (use assms agrees_calls in auto)

text \<open>The objects of the lease and of the clock.\<close>

definition own_key :: "key \<Rightarrow> bool" where
  "own_key k \<longleftrightarrow> k = LEASE_KEY \<or> k = CLOCK_PROBE_KEY \<or> (\<exists>u. k = now_probe LEASE_KEY u)"

text \<open>
  A dry run changes nothing but the lease, its probe and the clock probe: every other object of
  the store, the tombstone ledger and the hint included, is the same after it, whatever it returns.
\<close>
theorem dry_run_changes_nothing:
  assumes "collect depth J C L mem_store retain True grace unsafe m = (r, m')" and "\<not> own_key k"
  shows "mem_objs m' k = mem_objs m k"
proof -
  have "collector L mem_store (agrees (mem_objs m) own_key) own_key own_key retain True grace (\<lambda>_. True) (\<lambda>_. True) (\<lambda>_. True) (\<lambda>_. True)"
    by (rule free_collector) (auto simp: agrees_calls own_key_def)
  from tripleD [OF collector.collect_keeps [OF this] _ assms(1)] assms(2) show ?thesis by (simp add: agrees_def)
qed

text \<open>
  The guards come first: a window below one generation, a negative grace, and a wet run with a
  grace under one hour (unless the caller insists) are refused with \<^verbatim>\<open>InputValidationError\<close> before any
  request is made, on every store.
\<close>
theorem collect_guards:
  assumes "retain < 1 \<or> grace < 0 \<or> \<not> dry \<and> grace < MIN_PACK_GRACE \<and> \<not> unsafe"
  shows "collect depth J C L S retain dry grace unsafe s = (Inl InputValidationError, s)"
  using assms by (auto simp: collect_def)

section \<open>Expired payloads go\<close>

definition gone_key :: "key \<Rightarrow> mem \<Rightarrow> bool" where
  "gone_key k m \<longleftrightarrow> mem_objs m k = None"

lemma gone_collector:
  assumes "prefix PAYLOAD_PREFIX k \<or> prefix PACKS_PREFIX k"
  shows "collector L mem_store (gone_key k) (\<lambda>j. j \<noteq> k) (\<lambda>_. True) retain dry grace (\<lambda>_. True) (\<lambda>_. True) (\<lambda>_. True) (\<lambda>_. True)"
proof -
  have eq: "gone_key k = agrees (\<lambda>_. None) (\<lambda>j. j \<noteq> k)" by (auto simp: gone_key_def agrees_def)
  have "LEASE_KEY \<noteq> k" "CLOCK_PROBE_KEY \<noteq> k" "now_probe LEASE_KEY u \<noteq> k" "ROOT_HINT_KEY \<noteq> k" "TOMBSTONE_KEY \<noteq> k" for u
    using assms by (auto simp: LEASE_KEY_def now_probe_def ROOT_HINT_KEY_def CLOCK_PROBE_KEY_def TOMBSTONE_KEY_def PAYLOAD_PREFIX_def
        PACKS_PREFIX_def)
  then show ?thesis
    unfolding eq
    by (intro free_collector tripleI)
       (auto simp: mem_store_def mem_delete_def agrees_def mem_objs_def)
qed

lemma sweep_deletes:
  assumes C: "lease_key C = LEASE_KEY" and k: "generation_of k = Some g" "g < lowest" "payload_key cur \<noteq> Inr k"
  shows "sweep_catalogs J C mem_store cur lowest False ks gone keep (m, t) = (Inr y, (m', t')) \<Longrightarrow> k \<in> set ks \<Longrightarrow> mem_objs m' k = None"
proof (induction ks arbitrary: gone keep m t)
  case (Cons x ks)
  let ?retain = "generation cur + 1 - lowest"
  have "prefix PAYLOAD_PREFIX k" using k(1) by (rule generation_of_payload)
  note col = gone_collector [OF disjI1 [OF this], of L ?retain False]
  show ?case
  proof (cases "x = k")
    case True
    obtain pk where pk: "payload_key cur = Inr pk" "pk \<noteq> k"
      using Cons.prems(1) k True by (cases "payload_key cur") (auto simp: names_key_def)
    let ?m = "m\<lparr>objects := DAList.delete k (objects m)\<rparr>"
    obtain q m2 t2 where q: "renew_after J C mem_store (length (gone @ [k])) (?m, t) = (q, (m2, t2))"
      by (cases "renew_after J C mem_store (length (gone @ [k])) (?m, t)") auto
    have "gone_key k ?m" by (simp add: gone_key_def mem_objs_def)
    then have g2: "gone_key k m2"
      using tripleD [OF collector.renew_after_keeps [OF col C] _ q] by simp
    have del: "on_world (delete mem_store k) (m, t) = (Inr (), (?m, t))" by (simp add: mem_delete_run)
    have "q = Inr ()" using Cons.prems(1) True k pk del q by (cases q) (auto simp: names_key_def)
    then have "sweep_catalogs J C mem_store cur lowest False ks (gone @ [k]) keep (m2, t2) = (Inr y, (m', t'))"
      using Cons.prems(1) True k pk del q by (simp add: names_key_def)
    then have "sweep_catalogs J C mem_store cur (generation cur - ?retain + 1) False ks (gone @ [k]) keep (m2, t2) = (Inr y, (m', t'))"
      by simp
    from tripleD [OF collector.catalogs_keep [OF col C TrueI] _ this] g2 show ?thesis by (simp add: gone_key_def)
  next
    case False
    with Cons.prems have "k \<in> set ks" by simp
    with Cons.prems(1) show ?thesis
      by (auto simp: io_simps names_key_def split: option.splits if_splits intro: Cons.IH)
  qed
qed simp

text \<open>
  Claim C30. A wet collection that returns a report has done its work: on a lake whose newest generation is
  \<open>g\<close>, no payload object of a generation below \<open>g - retain + 1\<close> is left, be it committed or an orphan of
  a lost race.
\<close>
theorem expired_payloads_are_swept:
  assumes "lake_ok L (mem_objs m)" and "marker_at L (mem_objs m) g d" and "g < 4116480"
    and "\<And>k. has_marker (mem_objs m) k \<Longrightarrow> k \<le> g"
    and "collect depth J C L mem_store retain False grace unsafe m = (Inr (Some report), m')"
    and "generation_of k = Some i" and "i < g - retain + 1"
  shows "mem_objs m' k = None"
proof -
  let ?C = "C\<lparr>lease_key := LEASE_KEY\<rparr>"
  have C: "lease_key ?C = LEASE_KEY" by simp
  have pre: "prefix PAYLOAD_PREFIX k" using assms(6) by (rule generation_of_payload)
  have retain: "1 \<le> retain" using assms(5) by (auto simp: collect_def split: if_splits)
  from assms(5) obtain m1 t1 m2 t2 t' where acq: "lease_acquire depth J ?C mem_store (m, None) = (Inr True, (m1, t1))"
    and locked: "collect_locked J ?C L mem_store retain False grace (m1, t1) = (Inr report, (m2, t2))"
    and rel: "lease_release J ?C mem_store (m2, t2) = (Inr (), (m', t'))"
    by (auto simp: collect_def Let_def io_simps split: if_splits)
  have "agrees (mem_objs m) (\<lambda>k. \<not> prefix ROOTS_PREFIX k) m1"
  proof -
    have "collector L mem_store (agrees (mem_objs m) (\<lambda>k. \<not> prefix ROOTS_PREFIX k)) (\<lambda>k. \<not> prefix ROOTS_PREFIX k)
        (\<lambda>k. \<not> prefix ROOTS_PREFIX k) retain False grace (\<lambda>_. True) (\<lambda>_. True) (\<lambda>_. True) (\<lambda>_. True)"
      by (rule free_collector) (auto simp: agrees_calls area_exclusive)
    from tripleD [OF collector.acquire_keeps [OF this C] _ acq] show ?thesis by (simp add: agrees_def)
  qed
  from agrees_roots [OF this] assms(1,2,4) have
    "resolve_head L mem_store m1 = (Inr (d, g), m1)" by (intro mem_resolve_head [OF _ _ assms(3)]) auto
  with locked obtain ks m3 m4 t4 gone keep pr u where list: "list_prefix mem_store PAYLOAD_PREFIX m1 = (Inr ks, m3)"
    and hint: "write_hint L mem_store g m3 = (Inr u, m4)"
    and sweep: "\<exists>m5 t5. sweep_catalogs J ?C mem_store d (generation d - retain + 1) False ks [] [] (m4, t1) = (Inr (gone, keep), (m5, t5)) \<and>
      pack_sweep J ?C L mem_store d keep False grace (m5, t5) = (Inr pr, (m2, t2))"
    by (auto simp: collect_locked_def io_simps split: if_splits)
  from sweep obtain m5 t5 where
    sweep: "sweep_catalogs J ?C mem_store d (generation d - retain + 1) False ks [] [] (m4, t1) = (Inr (gone, keep), (m5, t5))"
    and packs: "pack_sweep J ?C L mem_store d keep False grace (m5, t5) = (Inr pr, (m2, t2))" by blast
  note col = gone_collector [OF disjI1 [OF pre], of L retain False]
  have gd: "generation d = g" "valid_generation g" using assms(2) by (auto dest: marker_at_generation)
  have "gone_key k m5"
  proof (cases "k \<in> set ks")
    case True
    have "generation_of (payload_key_text g (payload_uuid d)) = Some g"
      using parse_payload_key_text [OF gd(2) dollar_payload] by (simp add: generation_of_def)
    with assms(6,7) retain have "payload_key_text g (payload_uuid d) \<noteq> k" by auto
    then have "payload_key d \<noteq> Inr k" using gd by (simp add: payload_key_def)
    from sweep_deletes [OF C assms(6) _ this sweep True] assms(7) gd show ?thesis by (simp add: gone_key_def)
  next
    case False
    with list pre have "gone_key k m3"
      by (auto simp: gone_key_def mem_store_def list_answers_def dest!: mem_list_answers)
    from tripleD [OF collector.hint_keeps [OF col] this hint] have "gone_key k m4" by simp
    with tripleD [OF collector.catalogs_keep [OF col C TrueI] _ sweep] show ?thesis by simp
  qed
  then have "gone_key k m2"
    using tripleD [OF collector.pack_sweep_keeps [OF col C, of d keep] _ packs] collector.resolved [OF col] by simp
  with tripleD [OF collector.release_keeps [OF col C] _ rel] show ?thesis by (simp add: gone_key_def)
qed

section \<open>A collection of a small lake\<close>

lemma payload_key_not_root [simp]: "\<not> prefix ROOTS_PREFIX (payload_key_text g u)"
  by (rule area_exclusive(1)) (simp add: payload_key_text_def)

definition sample_two :: mem where
  "sample_two = snd (mem_put (payload_key_text 1 11) ''y'' (snd (mem_put (payload_key_text 0 10) ''x'' (sample_mem [10, 11]))))"

lemma sample_two_objs:
  obtains ob0 ob1 where "ob_body ob1 = ''y''"
    "mem_objs sample_two = (mem_objs (sample_mem [10, 11]))(payload_key_text 0 10 \<mapsto> ob0, payload_key_text 1 11 \<mapsto> ob1)"
proof -
  obtain r m where w: "mem_write (payload_key_text 0 10) ''x'' (sample_mem [10, 11]) = (Inr r, m)" using mem_write_run by blast
  obtain r' m' where w': "mem_write (payload_key_text 1 11) ''y'' m = (Inr r', m')" using mem_write_run by blast
  have "sample_two = m'" by (simp add: sample_two_def mem_put_def w w')
  with mem_write_present [OF w] mem_write_present [OF w'] show thesis
    by (intro that [of "\<lparr>ob_body = ''y'', ob_etag = Suc (etag_counter m), ob_mtime = clock m\<rparr>"]) auto
qed

lemma sample_two_lake:
  shows "lake_ok sample_lib (mem_objs sample_two)" and "marker_at sample_lib (mem_objs sample_two) 1 (sample_doc 1 11)"
    and "has_marker (mem_objs sample_two) k \<Longrightarrow> k \<le> 1"
    and "payload_holds sample_lib U (mem_objs sample_two) (sample_doc 1 11) ''y''"
proof -
  obtain ob0 ob1 where ob: "ob_body ob1 = ''y''"
    "mem_objs sample_two = (mem_objs (sample_mem [10, 11]))(payload_key_text 0 10 \<mapsto> ob0, payload_key_text 1 11 \<mapsto> ob1)"
    by (rule sample_two_objs)
  have ag: "agrees (mem_objs (sample_mem [10, 11])) (\<lambda>k. \<not> prefix ROOTS_PREFIX k) sample_two"
    by (auto simp: agrees_def ob(2))
  note roots = agrees_roots [OF ag]
  show "lake_ok sample_lib (mem_objs sample_two)" using roots(3) by (simp add: MAX_GENERATION_def)
  show "has_marker (mem_objs sample_two) k \<Longrightarrow> k \<le> 1" using roots(1) by auto
  have v: "valid_generation 1" by (simp add: valid_generation_def MAX_GENERATION_def)
  from sample_mem_marker [of 1 "[10, 11]"] obtain ob where "mem_objs (sample_mem [10, 11]) (marker_key_text 1) = Some ob"
    "ob_body ob = root_to_json_bytes sample_lib (sample_doc 1 11)"
    by (cases "mem_objs (sample_mem [10, 11]) (marker_key_text 1)") auto
  then have "marker_at sample_lib (mem_objs (sample_mem [10, 11])) 1 (sample_doc 1 11)" using v by (simp add: marker_at_def)
  then show "marker_at sample_lib (mem_objs sample_two) 1 (sample_doc 1 11)" using roots(2) by simp
  show "payload_holds sample_lib U (mem_objs sample_two) (sample_doc 1 11) ''y''"
    by (simp add: payload_holds_def ob)
qed

theorem retained_generations_survive_witness:
  "payload_holds sample_lib {} (mem_objs (snd (collect 5 sample_json (sample_cfg 1) sample_lib mem_store 1 False MIN_PACK_GRACE False sample_two)))
     (sample_doc 1 11) ''y''"
  using retained_generations_survive [OF sample_two_lake(1,2,4), of 1 5 sample_json "sample_cfg 1" False MIN_PACK_GRACE False]
    sample_two_lake(3) by (metis one_add_one prod.collapse zless_add1_eq order_le_less)

theorem dry_run_changes_nothing_witness:
  "mem_objs (snd (collect 5 sample_json (sample_cfg 1) sample_lib mem_store 1 True 0 False sample_two)) (payload_key_text 0 10) =
     mem_objs sample_two (payload_key_text 0 10)"
proof (rule dry_run_changes_nothing)
  show "collect 5 sample_json (sample_cfg 1) sample_lib mem_store 1 True 0 False sample_two =
    (fst (collect 5 sample_json (sample_cfg 1) sample_lib mem_store 1 True 0 False sample_two),
     snd (collect 5 sample_json (sample_cfg 1) sample_lib mem_store 1 True 0 False sample_two))" by simp
  show "\<not> own_key (payload_key_text 0 10)"
    by (auto simp: own_key_def payload_key_text_def PAYLOAD_PREFIX_def LEASE_KEY_def CLOCK_PROBE_KEY_def now_probe_def)
qed

theorem collect_guards_witness:
  "\<forall>J C L. collect 5 J C L mem_store 10 False 60000000 False empty_mem = (Inl InputValidationError, empty_mem)"
  by (intro allI collect_guards) (simp add: MIN_PACK_GRACE_def hours_def)

lemma list_two: "distinct ks \<Longrightarrow> set ks = {a, b} \<Longrightarrow> a \<noteq> b \<Longrightarrow> ks = [a, b] \<or> ks = [b, a]"
proof -
  assume d: "distinct ks" "set ks = {a, b}" "a \<noteq> b"
  from distinct_card [OF d(1)] d have "length ks = 2" by simp
  then obtain x y where "ks = [x, y]" by (metis One_nat_def Suc_1 length_0_conv length_Suc_conv)
  with d show ?thesis by auto
qed

lemma generation_of_key: "valid_generation g \<Longrightarrow> generation_of (payload_key_text g u) = Some g"
  using parse_payload_key_text [OF _ dollar_payload] by (simp add: generation_of_def)

lemma sample_collect:
  "\<exists>report m'. collect 5 sample_json (sample_cfg 1) sample_lib mem_store 1 False MIN_PACK_GRACE False sample_two = (Inr (Some report), m')"
proof -
  let ?C = "(sample_cfg 1)\<lparr>lease_key := LEASE_KEY\<rparr>"
  let ?k0 = "payload_key_text 0 10" and ?k1 = "payload_key_text 1 11" and ?d = "sample_doc 1 11"
  have v: "valid_generation 0" "valid_generation 1" by (simp_all add: valid_generation_def MAX_GENERATION_def)
  note gen = generation_of_key [OF v(1), of 10] generation_of_key [OF v(2), of 11]
  have pk: "payload_key ?d = Inr ?k1" using v by (simp add: payload_key_def)
  have ne: "?k0 \<noteq> ?k1" using gen by auto
  obtain ob0 ob1 where ob: "ob_body ob1 = ''y''"
    "mem_objs sample_two = (mem_objs (sample_mem [10, 11]))(?k0 \<mapsto> ob0, ?k1 \<mapsto> ob1)" by (rule sample_two_objs)
  have other: "mem_objs sample_two k = None" if "\<not> prefix ROOTS_PREFIX k" "k \<noteq> ?k0" "k \<noteq> ?k1" for k
    using that by (simp add: ob(2))
  have own: "LEASE_KEY \<noteq> ?k0" "LEASE_KEY \<noteq> ?k1" "ROOT_HINT_KEY \<noteq> ?k0" "ROOT_HINT_KEY \<noteq> ?k1" "ROOT_HINT_KEY \<noteq> LEASE_KEY"
    by (auto simp: payload_key_text_def PAYLOAD_PREFIX_def LEASE_KEY_def ROOT_HINT_KEY_def)
  obtain b where b: "lease_body sample_json ?C None sample_two = (Inr b, sample_two)" by simp
  obtain e m1 where w1: "mem_write LEASE_KEY b sample_two = (Inr e, m1)" using mem_write_run by blast
  have acq: "lease_acquire 5 sample_json ?C mem_store (sample_two, None) = (Inr True, (m1, Some e))"
    using other [of LEASE_KEY] own b w1 by (simp add: numeral_eq_Suc mem_store_put mem_put_if_absent_run)
  define ob where "ob = \<lparr>ob_body = b, ob_etag = Suc (etag_counter sample_two), ob_mtime = clock sample_two\<rparr>"
  have o1: "mem_objs m1 = (mem_objs sample_two)(LEASE_KEY \<mapsto> ob)" "e = etag_text (ob_etag ob)"
    using mem_write_present [OF w1] by (simp_all add: ob_def)
  have "agrees (mem_objs sample_two) (\<lambda>k. \<not> prefix ROOTS_PREFIX k) m1" by (auto simp: agrees_def o1)
  note roots = agrees_roots [OF this]
  have head: "resolve_head sample_lib mem_store m1 = (Inr (?d, 1), m1)"
    using roots sample_two_lake by (intro mem_resolve_head) auto
  obtain ks where list: "list_prefix mem_store PAYLOAD_PREFIX m1 = (Inr ks, m1)" by (simp add: mem_store_def mem_list_prefix_def)
  from mem_list_answers [of PAYLOAD_PREFIX m1 "Inr ks" m1] list have ks: "distinct ks" "set ks = {k. mem_objs m1 k \<noteq> None \<and> prefix PAYLOAD_PREFIX k}"
    by (auto simp: mem_store_def list_answers_def)
  have "set ks = {?k0, ?k1}"
    unfolding ks(2) using area_exclusive(1) other by (auto simp: o1 ob(2) payload_key_text_def LEASE_KEY_def PAYLOAD_PREFIX_def split: if_splits)
  from list_two [OF ks(1) this ne] have ks: "ks = [?k0, ?k1] \<or> ks = [?k1, ?k0]" .
  obtain e2 m2 where w2: "mem_write ROOT_HINT_KEY (hint_to_json_bytes sample_lib 1) m1 = (Inr e2, m2)" using mem_write_run by blast
  then have hint: "write_hint sample_lib mem_store 1 m1 = (Inr (), m2)" by (simp add: write_hint_def mem_store_def mem_put_def)
  let ?m3 = "m2\<lparr>objects := DAList.delete ?k0 (objects m2)\<rparr>"
  have o3: "mem_objs ?m3 = (mem_objs m2)(?k0 := None)" by (auto simp: mem_objs_def)
  have sweep: "sweep_catalogs sample_json ?C mem_store ?d 1 False ks [] [] (m2, Some e) = (Inr ([?k0], [?k1]), (?m3, Some e))"
    using ks ne by (auto simp: gen names_key_def pk renew_after_def RENEW_EVERY_def mem_delete_run)
  have o2: "mem_objs m2 = (mem_objs m1)(ROOT_HINT_KEY \<mapsto> \<lparr>ob_body = hint_to_json_bytes sample_lib 1, ob_etag = Suc (etag_counter m1), ob_mtime = clock m1\<rparr>)"
    using mem_write_present [OF w2] by simp
  have nopack: "mem_objs ?m3 k = None" if "prefix PACKS_PREFIX k" for k
  proof -
    have "\<not> prefix PACKS_PREFIX LEASE_KEY" "\<not> prefix PACKS_PREFIX ROOT_HINT_KEY" "\<not> prefix PACKS_PREFIX ?k1"
      by (auto simp: payload_key_text_def PAYLOAD_PREFIX_def LEASE_KEY_def ROOT_HINT_KEY_def PACKS_PREFIX_def)
    with that have "k \<noteq> LEASE_KEY" "k \<noteq> ROOT_HINT_KEY" "k \<noteq> ?k1" by auto
    with that area_exclusive(2) show ?thesis by (simp add: o3 o2 o1 ob(2))
  qed
  obtain ms where metas: "list_meta mem_store PACKS_PREFIX ?m3 = (Inr ms, ?m3)" by (simp add: mem_store_def mem_list_meta_def)
  then have "meta_key ` set ms = {k. mem_objs ?m3 k \<noteq> None \<and> prefix PACKS_PREFIX k}"
    using mem_metas_answer [of PACKS_PREFIX ?m3 "Inr ms" ?m3] by (simp add: mem_store_def metas_answer_def)
  also have "\<dots> = {}" by (intro equals0I, elim CollectE conjE) (simp add: nopack)
  finally have "ms = []" by simp
  with metas have pack: "pack_sweep sample_json ?C sample_lib mem_store ?d [?k1] False MIN_PACK_GRACE (?m3, Some e) =
      (Inr \<lparr>pr_swept = [], pr_kept = [], pr_tombstoned = []\<rparr>, (?m3, Some e))"
    by (simp add: pack_sweep_def gen marker_for_def names_key_def pk committed_refs_def)
  have "mem_objs ?m3 LEASE_KEY = Some ob" using own by (simp add: o3 o2 o1)
  then obtain m4 where rel: "lease_release sample_json ?C mem_store (?m3, Some e) = (Inr (), (m4, None))"
    using o1(2) by (auto simp: lease_release_def mem_store_put mem_put_if_match_run mem_write_run)
  have "collect_locked sample_json ?C sample_lib mem_store 1 False MIN_PACK_GRACE (m1, Some e) =
      (Inr \<lparr>report_dry_run = False, swept_catalogs = [?k0], kept_catalogs = [?k1], swept_packs = [], kept_packs = [],
        tombstoned_packs = []\<rparr>, (?m3, Some e))"
    using ks head list hint sweep pack by (auto simp: collect_locked_def pk)
  with acq rel show ?thesis
    by (auto simp: collect_def MIN_PACK_GRACE_def hours_def Let_def with_attr_def finally_io_def)
qed

theorem expired_payloads_are_swept_witness:
  "mem_objs (snd (collect 5 sample_json (sample_cfg 1) sample_lib mem_store 1 False MIN_PACK_GRACE False sample_two))
     (payload_key_text 0 10) = None"
proof -
  obtain report m' where run: "collect 5 sample_json (sample_cfg 1) sample_lib mem_store 1 False MIN_PACK_GRACE False sample_two = (Inr (Some report), m')"
    using sample_collect by blast
  have "valid_generation 0" by (simp add: valid_generation_def MAX_GENERATION_def)
  from expired_payloads_are_swept [OF sample_two_lake(1,2) _ sample_two_lake(3) run generation_of_key [OF this]] run
  show ?thesis by simp
qed

section \<open>An age that gets lost\<close>

text \<open>
  A pack without a time in the listing is young. The HEAD before the delete is less careful: when its answer has no
  time, the pack is deleted.
\<close>

lemma unknown_age_is_deleted:
  assumes "head_meta S k s = (Inr m, s1)" and "meta_modified m = None" and "delete S k s1 = (Inr (), s2)"
  shows "delete_each_cold J C S recheck_now grace [k] [] (s, h) = (Inr [k], (s2, h))"
  using assms by (simp add: bind_io_def try_io_def on_world_def renew_after_def RENEW_EVERY_def)

end
