(* ===== verification/Duck_Engine.thy ===== *)
theory Duck_Engine
  imports Documents
begin

text \<open>
  \<^verbatim>\<open>engine.py\<close>: the typed facade over DuckDB, and the files of the work directory.

  DuckDB is a third-party package: its Python interface is the record \<open>duckdb\<close>, whose calls act on the
  machine, that is, on the files and on a state of DuckDB's own (open connections, secrets, the data files
  it writes). What the library does around these calls, which statements it issues in which order, which
  errors it maps and which connections it closes, is defined here.
\<close>

section \<open>The machine\<close>

record 'e machine =
  files :: "string \<Rightarrow> bytes option"
  duck :: 'e

text \<open>A path that is missing raises \<^verbatim>\<open>FileNotFoundError\<close> when it is read.\<close>

definition file_exists :: "string \<Rightarrow> ('e machine, bool) io" where
  "file_exists f = ask (\<lambda>m. files m f \<noteq> None)"

definition read_file :: "string \<Rightarrow> ('e machine, bytes) io" where
  "read_file f = (\<lambda>m. (case files m f of None \<Rightarrow> Inl PyFileNotFoundError | Some b \<Rightarrow> Inr b, m))"

definition write_file :: "string \<Rightarrow> bytes \<Rightarrow> ('e machine, unit) io" where
  "write_file f b = (\<lambda>m. (Inr (), m\<lparr>files := (files m)(f \<mapsto> b)\<rparr>))"

text \<open>\<^verbatim>\<open>unlink(missing_ok=True)\<close>\<close>

definition unlink :: "string \<Rightarrow> ('e machine, unit) io" where
  "unlink f = (\<lambda>m. (Inr (), m\<lparr>files := (files m)(f := None)\<rparr>))"

definition copy_file :: "string \<Rightarrow> string \<Rightarrow> ('e machine, unit) io" where
  "copy_file src dst = bind_io (read_file src) (write_file dst)"

definition file_size :: "string \<Rightarrow> ('e machine, int) io" where
  "file_size f = bind_io (read_file f) (\<lambda>b. ret (int (length b)))"

lemma file_run [simp]:
  "file_exists f m = (Inr (files m f \<noteq> None), m)"
  "write_file f b m = (Inr (), m\<lparr>files := (files m)(f \<mapsto> b)\<rparr>)"
  "unlink f m = (Inr (), m\<lparr>files := (files m)(f := None)\<rparr>)"
  "files m f = Some b \<Longrightarrow> read_file f m = (Inr b, m)"
  "files m f = None \<Longrightarrow> read_file f m = (Inl PyFileNotFoundError, m)"
  by (simp_all add: file_exists_def write_file_def unlink_def read_file_def)

lemma copy_run [simp]:
  "files m src = Some b \<Longrightarrow> copy_file src dst m = (Inr (), m\<lparr>files := (files m)(dst \<mapsto> b)\<rparr>)"
  by (simp add: copy_file_def)

section \<open>DuckDB's interface\<close>

text \<open>A connection is named by a number. Values bound or fetched are of any type \<open>'v\<close>.\<close>

record ('e, 'v) duckdb =
  duck_version :: string
  duck_connect :: "('e machine, nat) io"
  duck_open :: "string \<Rightarrow> bool \<Rightarrow> ('e machine, nat) io"
  duck_execute :: "nat \<Rightarrow> string \<Rightarrow> 'v list \<Rightarrow> ('e machine, 'v list list) io"
  duck_close :: "nat \<Rightarrow> ('e machine, unit) io"
  text_value :: "string \<Rightarrow> 'v"
  time_value :: "int \<Rightarrow> 'v"
  value_str :: "'v \<Rightarrow> string"
  value_int :: "'v \<Rightarrow> error + int"

definition MAGIC_OFFSET :: nat where
  "MAGIC_OFFSET = 8"

definition MAGIC :: bytes where
  "MAGIC = ''DUCK''"

text \<open>\<^verbatim>\<open>except duckdb.Error as exc: raise ExternalServiceError\<close>\<close>

definition map_duck_error :: "('s, 'a) io \<Rightarrow> ('s, 'a) io" where
  "map_duck_error m = bind_io (try_io m) (\<lambda>r. case r of
     Inl e \<Rightarrow> raise (if e = DuckDBError then ExternalServiceError else e)
   | Inr x \<Rightarrow> ret x)"

section \<open>The format probe\<close>

definition probe_sql :: string where
  "probe_sql = ''SELECT value FROM ducklake_metadata WHERE key = '' @ CHR 0x27 # ''version'' @ [CHR 0x27]"

text \<open>\<^verbatim>\<open>row[0]\<close> of a row without columns is an \<^verbatim>\<open>IndexError\<close>.\<close>

definition first_column :: "'v list \<Rightarrow> error + 'v" where
  "first_column row = (case row of [] \<Rightarrow> Inl PyIndexError | v # _ \<Rightarrow> Inr v)"

definition probe_ducklake_format_version :: "('e, 'v) duckdb \<Rightarrow> string \<Rightarrow> ('e machine, string) io" where
  "probe_ducklake_format_version D catalog_path =
     bind_io (map_duck_error (duck_open D catalog_path True)) (\<lambda>con.
     bind_io (finally_io (map_duck_error (duck_execute D con probe_sql [])) (duck_close D con)) (\<lambda>rows.
       case rows of
         [] \<Rightarrow> raise ExternalServiceError
       | row # _ \<Rightarrow> bind_io (lift_io (first_column row)) (\<lambda>v. ret (value_str D v))))"

section \<open>Lake connections\<close>

record s3_credentials =
  access_key_id :: string
  secret_access_key :: string
  endpoint :: "string option"
  region :: string
  use_ssl :: bool
  url_style :: string

fun join :: "string \<Rightarrow> string list \<Rightarrow> string" where
  "join sep [] = []"
| "join sep [x] = x"
| "join sep (x # y # xs) = x @ sep @ join sep (y # xs)"

definition sql_quoted :: "string \<Rightarrow> string" where
  "sql_quoted s = CHR 0x27 # s @ [CHR 0x27]"

definition create_s3_secret :: "('e, 'v) duckdb \<Rightarrow> nat \<Rightarrow> s3_credentials \<Rightarrow> ('e machine, unit) io" where
  "create_s3_secret D con creds =
     bind_io (duck_execute D con ''INSTALL httpfs; LOAD httpfs;'' []) (\<lambda>_.
       let clauses = [''TYPE s3'', ''KEY_ID ?'', ''SECRET ?'', ''REGION ?'', ''URL_STYLE '' @ sql_quoted (url_style creds),
             ''USE_SSL '' @ (if use_ssl creds then ''true'' else ''false'')] @
             (if endpoint creds \<noteq> None then [''ENDPOINT ?''] else []);
           bound = [access_key_id creds, secret_access_key creds, region creds] @
             (case endpoint creds of None \<Rightarrow> [] | Some e \<Rightarrow> [e]) in
       bind_io (duck_execute D con (''CREATE SECRET lake_s3 ('' @ join '', '' clauses @ '')'') (map (text_value D) bound)) (\<lambda>_. ret ()))"

definition attach_sql :: "string \<Rightarrow> string option \<Rightarrow> bool \<Rightarrow> string" where
  "attach_sql catalog_path data_path read_only =
     (let options = (if read_only then [''READ_ONLY''] else []) @
            (case data_path of None \<Rightarrow> [] | Some p \<Rightarrow> [''DATA_PATH '' @ sql_quoted p]);
          opts = (if options \<noteq> [] then '' ('' @ join '', '' options @ '')'' else '''') in
      ''ATTACH '' @ sql_quoted (''ducklake:'' @ catalog_path) @ '' AS lake'' @ opts)"

text \<open>\<^verbatim>\<open>LakeConnection.__init__\<close>: the connection is closed when DuckDB refuses one of the statements.\<close>

definition lake_connection :: "('e, 'v) duckdb \<Rightarrow> string \<Rightarrow> string option \<Rightarrow> bool \<Rightarrow> s3_credentials option \<Rightarrow> ('e machine, nat) io" where
  "lake_connection D catalog_path data_path read_only creds =
     bind_io (duck_connect D) (\<lambda>con.
     bind_io (try_io
       (bind_io (duck_execute D con ''INSTALL ducklake; LOAD ducklake;'' []) (\<lambda>_.
        bind_io (case creds of None \<Rightarrow> ret () | Some c \<Rightarrow> create_s3_secret D con c) (\<lambda>_.
        bind_io (duck_execute D con (attach_sql catalog_path data_path read_only) []) (\<lambda>_.
          duck_execute D con ''USE lake'' []))))) (\<lambda>r. case r of
       Inr _ \<Rightarrow> ret con
     | Inl e \<Rightarrow> (if e = DuckDBError then bind_io (duck_close D con) (\<lambda>_. raise ExternalServiceError) else raise e)))"

definition lake_execute :: "('e, 'v) duckdb \<Rightarrow> nat \<Rightarrow> string \<Rightarrow> 'v list \<Rightarrow> ('e machine, 'v list list) io" where
  "lake_execute D con stmt args = map_duck_error (duck_execute D con stmt args)"

definition snapshot_ids :: "('e, 'v) duckdb \<Rightarrow> nat \<Rightarrow> ('e machine, int list) io" where
  "snapshot_ids D con =
     bind_io (lake_execute D con ''SELECT snapshot_id FROM lake.snapshots() ORDER BY 1'' []) (\<lambda>rows.
       map_io (\<lambda>r. bind_io (lift_io (first_column r)) (\<lambda>v. lift_io (value_int D v))) rows)"

definition lake_close :: "('e, 'v) duckdb \<Rightarrow> nat \<Rightarrow> ('e machine, unit) io" where
  "lake_close D con = finally_io
     (map_duck_error (bind_io (duck_execute D con ''USE memory'' []) (\<lambda>_.
        bind_io (duck_execute D con ''DETACH lake'' []) (\<lambda>_. ret ()))))
     (duck_close D con)"

definition lake_abandon :: "('e, 'v) duckdb \<Rightarrow> nat \<Rightarrow> ('e machine, unit) io" where
  "lake_abandon D con = duck_close D con"

end
