(* ===== verification/Generation_Cache.thy ===== *)
theory Generation_Cache
  imports Duck_Engine Versioned_Blob
begin

text \<open>
  \<^verbatim>\<open>generation.py\<close>: the pristine cache of fetched generations, the work copies it vends, the hygiene check and
  the publication of a catalog. The state is the store, the machine and the cache, which is the ordered
  dictionary from payload keys to paths, the least recently used first.
\<close>

section \<open>The world of a lake session\<close>

type_synonym pristine = "(key \<times> string) list"
type_synonym ('s, 'e) session = "'s \<times> 'e machine \<times> pristine"

definition on_machine :: "('e machine, 'a) io \<Rightarrow> ('s \<times> 'e machine \<times> 'p, 'a) io" where
  "on_machine c = (\<lambda>(s, m, p). case c m of (r, m') \<Rightarrow> (r, (s, m', p)))"

definition get_cache :: "('s \<times> 'm \<times> 'p, 'p) io" where
  "get_cache = ask (\<lambda>(s, m, p). p)"

definition set_cache :: "'p \<Rightarrow> ('s \<times> 'm \<times> 'p, unit) io" where
  "set_cache p = (\<lambda>(s, m, _). (Inr (), (s, m, p)))"

lemma on_machine_run [simp]: "c m = (r, m') \<Longrightarrow> on_machine c (s, m, p) = (r, (s, m', p))"
  by (simp add: on_machine_def)

lemma cache_run [simp]:
  "get_cache (s, m, p) = (Inr p, (s, m, p))" "set_cache p' (s, m, p) = (Inr (), (s, m, p'))"
  by (simp_all add: get_cache_def set_cache_def)

lemma bind_lift: "bind_io (lift_io (Inr x)) f = f x"
  by (simp add: bind_io_def fun_eq_iff)

lemma on_machine_iff [io_simps]:
  "on_machine c w = (r, w') \<longleftrightarrow> (\<exists>m'. c (fst (snd w)) = (r, m') \<and> w' = (fst w, m', snd (snd w)))"
  by (cases w) (auto simp: on_machine_def split: prod.splits)

section \<open>Operations\<close>

definition MAX_CATALOG_BYTES :: int where
  "MAX_CATALOG_BYTES = 256 * 1024 * 1024"

definition PRISTINE_CACHE_SIZE :: nat where
  "PRISTINE_CACHE_SIZE = 4"

definition in_dir :: "string \<Rightarrow> string \<Rightarrow> string" where
  "in_dir workdir name = workdir @ CHR ''/'' # name"

definition pristine_path :: "string \<Rightarrow> root_doc \<Rightarrow> string" where
  "pristine_path workdir d = in_dir workdir
     (''pristine-'' @ pad8 (nat (generation d)) @ CHR ''-'' # uuid_str (payload_uuid d) @ ''.duckdb'')"

definition work_path :: "string \<Rightarrow> uuid \<Rightarrow> string" where
  "work_path workdir u = in_dir workdir (''work-'' @ uuid_str u @ ''.duckdb'')"

text \<open>\<^verbatim>\<open>reconstruct\<close> into a path: the file is there with the payload, or it is unlinked and the error goes on.\<close>

definition reconstruct_to :: "lib \<Rightarrow> 's store \<Rightarrow> manifest \<Rightarrow> string \<Rightarrow> ('s \<times> 'e machine \<times> 'p, unit) io" where
  "reconstruct_to L S M dest =
     bind_io (try_io (on_world (reconstruct L S M))) (\<lambda>r. case r of
         Inr data \<Rightarrow> on_machine (write_file dest data)
       | Inl e \<Rightarrow> bind_io (on_machine (unlink dest)) (\<lambda>_. raise e))"

definition fetch_pristine :: "lib \<Rightarrow> 's store \<Rightarrow> key \<Rightarrow> root_doc \<Rightarrow> string \<Rightarrow> ('s \<times> 'e machine \<times> 'p, unit) io" where
  "fetch_pristine L S k d dest = (case transport_of d of
       Whole \<Rightarrow> bind_io (on_world (get S k)) (\<lambda>r. on_machine (write_file dest (body r)))
     | Chunked \<Rightarrow> bind_io (on_world (load_manifest L S k)) (\<lambda>M. reconstruct_to L S M dest))"

text \<open>\<^verbatim>\<open>move_to_end\<close>, and \<^verbatim>\<open>popitem(last=False)\<close> until the bound holds.\<close>

definition move_to_end :: "key \<Rightarrow> string \<Rightarrow> pristine \<Rightarrow> pristine" where
  "move_to_end k path ps = filter (\<lambda>(k', _). k' \<noteq> k) ps @ [(k, path)]"

fun evict :: "pristine \<Rightarrow> (('s, 'e) session, unit) io" where
  "evict [] = set_cache []"
| "evict (kp # ps) =
     (if length (kp # ps) > PRISTINE_CACHE_SIZE
      then bind_io (set_cache ps) (\<lambda>_. bind_io (on_machine (unlink (snd kp))) (\<lambda>_. evict ps))
      else set_cache (kp # ps))"

definition cached :: "key \<Rightarrow> (('s, 'e) session, string option) io" where
  "cached k = bind_io get_cache (\<lambda>ps. case map_of ps k of
       None \<Rightarrow> ret None
     | Some path \<Rightarrow> bind_io (on_machine (file_exists path)) (\<lambda>there. ret (if there then Some path else None)))"

definition fetch_copy :: "lib \<Rightarrow> 's store \<Rightarrow> string \<Rightarrow> (('s, 'e) session \<Rightarrow> uuid) \<Rightarrow> root_doc \<Rightarrow> (('s, 'e) session, string) io" where
  "fetch_copy L S workdir fresh_uuid d =
     bind_io (lift_io (payload_key d)) (\<lambda>k.
     bind_io (cached k) (\<lambda>hit.
     bind_io (case hit of
         Some path \<Rightarrow> ret path
       | None \<Rightarrow> bind_io (fetch_pristine L S k d (pristine_path workdir d)) (\<lambda>_. ret (pristine_path workdir d))) (\<lambda>path.
     bind_io get_cache (\<lambda>ps.
     bind_io (evict (move_to_end k path ps)) (\<lambda>_.
     bind_io (ask fresh_uuid) (\<lambda>u.
     bind_io (on_machine (copy_file path (work_path workdir u))) (\<lambda>_. ret (work_path workdir u))))))))"

definition discard :: "string \<Rightarrow> ('e machine, unit) io" where
  "discard work = bind_io (unlink work) (\<lambda>_. unlink (work @ ''.wal''))"

text \<open>A short file has a short header, which is not the magic.\<close>

definition check_hygiene :: "string \<Rightarrow> ('e machine, unit) io" where
  "check_hygiene path =
     bind_io (for_io [''.wal'', ''.tmp''] (\<lambda>suffix. bind_io (file_exists (path @ suffix)) (\<lambda>there.
       if there then raise CatalogHygieneError else ret ()))) (\<lambda>_.
     bind_io (file_size path) (\<lambda>n.
       if n > MAX_CATALOG_BYTES then raise CatalogHygieneError
       else bind_io (read_file path) (\<lambda>b.
         if drop MAGIC_OFFSET (take (MAGIC_OFFSET + length MAGIC) b) \<noteq> MAGIC then raise CatalogHygieneError else ret ())))"

definition publish_generation :: "'s store \<Rightarrow> string \<Rightarrow> int \<Rightarrow> uuid \<Rightarrow> ('s \<times> 'e machine \<times> 'p, string) io" where
  "publish_generation S path g u =
     bind_io (on_machine (check_hygiene path)) (\<lambda>_.
     bind_io (lift_io (format_payload_key g u)) (\<lambda>k.
     bind_io (on_machine (read_file path)) (\<lambda>b.
       on_world (put_if_absent S k b))))"

end
