(* ===== verification/Cache_Safety.thy ===== *)
theory Cache_Safety
  imports Generation_Cache
begin

text \<open>
  The cache is right because generations are immutable: whatever is fetched, edited, lost or committed, a
  pristine file holds the payload of its key, at most four of them are on disk, and every work copy starts
  as a private copy of the payload.
\<close>

section \<open>The files of the cache\<close>

text \<open>The pristine file of the payload key \<^verbatim>\<open>payload/\<close>\<open>x\<close>.\<close>

definition cache_file :: "string \<Rightarrow> string \<Rightarrow> string" where
  "cache_file W x = in_dir W (''pristine-'' @ x @ ''.duckdb'')"

definition stem :: "root_doc \<Rightarrow> string" where
  "stem d = pad8 (nat (generation d)) @ CHR ''-'' # uuid_str (payload_uuid d)"

lemma stem_key [simp]:
  "payload_key_text (generation d) (payload_uuid d) = PAYLOAD_PREFIX @ stem d" "pristine_path W d = cache_file W (stem d)"
  by (simp_all add: payload_key_text_def stem_def pristine_path_def cache_file_def)

lemma cache_file_inj [simp]: "cache_file W x = cache_file W y \<longleftrightarrow> x = y"
  by (simp add: cache_file_def in_dir_def)

lemma work_not_cache [simp]: "work_path W u \<noteq> cache_file W x" "work_path W u @ s \<noteq> cache_file W x"
  by (simp_all add: work_path_def cache_file_def in_dir_def)

section \<open>The invariant\<close>

definition cache_inv :: "string \<Rightarrow> (key \<Rightarrow> bytes) \<Rightarrow> pristine \<Rightarrow> (string \<Rightarrow> bytes option) \<Rightarrow> bool" where
  "cache_inv W content ps fs \<longleftrightarrow> distinct (map fst ps) \<and> length ps \<le> PRISTINE_CACHE_SIZE \<and>
     (\<forall>(k, path) \<in> set ps. \<exists>x. k = PAYLOAD_PREFIX @ x \<and> path = cache_file W x) \<and>
     (\<forall>x b. fs (cache_file W x) = Some b \<longrightarrow> PAYLOAD_PREFIX @ x \<in> fst ` set ps \<and> b = content (PAYLOAD_PREFIX @ x))"

text \<open>What the store serves: of a committed payload the bytes \<open>content\<close> says, or nothing once it is swept.\<close>

definition serves :: "lib \<Rightarrow> bytes set \<Rightarrow> (key \<Rightarrow> bytes) \<Rightarrow> contents \<Rightarrow> bool" where
  "serves L U content h \<longleftrightarrow> packs_in L U h \<and>
     (\<forall>g d. marker_at L h g d \<longrightarrow> h (PAYLOAD_PREFIX @ stem d) \<noteq> None \<longrightarrow>
        payload_holds L U h d (content (PAYLOAD_PREFIX @ stem d)))"

lemma versions_serve:
  assumes "versions_at L U h vs"
    and "\<And>d i. marker_at L h (int i) d \<Longrightarrow> i < length vs \<Longrightarrow> content (PAYLOAD_PREFIX @ stem d) = vs ! i"
  shows "serves L U content h"
  unfolding serves_def
proof (intro conjI allI impI)
  fix g d
  assume d: "marker_at L h g d"
  with assms(1) have g: "0 \<le> g" "g < int (length vs)" by (auto simp: versions_at_def dest: marker_at_has)
  then have i: "int (nat g) = g" "nat g < length vs" by auto
  with assms(1) obtain d' where "marker_at L h g d'" "payload_holds L U h d' (vs ! nat g)"
    unfolding versions_at_def by metis
  with d assms(2) [of "nat g" d] i show "payload_holds L U h d (content (PAYLOAD_PREFIX @ stem d))"
    by (auto dest: marker_at_unique)
qed (use assms(1) in \<open>simp add: versions_at_def\<close>)

section \<open>Fetching\<close>

lemma fetch_pristine_mem:
  assumes "serves L U content (mem_objs m)" and "marker_at L (mem_objs m) g d"
  shows "fetch_pristine L mem_store (PAYLOAD_PREFIX @ stem d) d dest (m, mc, p) =
    (if mem_objs m (PAYLOAD_PREFIX @ stem d) = None then (Inl ObjectNotFoundError, (m, mc, p))
     else (Inr (), (m, mc\<lparr>files := (files mc)(dest \<mapsto> content (PAYLOAD_PREFIX @ stem d))\<rparr>, p)))"
proof (cases "mem_objs m (PAYLOAD_PREFIX @ stem d)")
  case None
  then have "get mem_store (PAYLOAD_PREFIX @ stem d) m = (Inl ObjectNotFoundError, m)"
    and "head_meta mem_store (PAYLOAD_PREFIX @ stem d) m = (Inl ObjectNotFoundError, m)"
    by (simp_all add: mem_store_def mem_get_def mem_head_meta_def mem_objs_def)
  with None show ?thesis
    by (cases "transport_of d") (simp_all add: fetch_pristine_def load_manifest_def on_world_def bind_io_def)
next
  case (Some ob)
  from assms Some have holds: "payload_holds L U (mem_objs m) d (content (PAYLOAD_PREFIX @ stem d))"
    and packs: "packs_in L U (mem_objs m)" unfolding serves_def by blast+
  show ?thesis
  proof (cases "transport_of d")
    case Whole
    with holds Some have "ob_body ob = content (PAYLOAD_PREFIX @ stem d)" by (simp add: payload_holds_def)
    with Whole Some show ?thesis by (simp add: fetch_pristine_def mem_get_run)
  next
    case Chunked
    with holds obtain M where M: "stored_manifest L (mem_objs m) d = Some M"
      "manifest_holds L U (mem_objs m) M (content (PAYLOAD_PREFIX @ stem d))"
      by (auto simp: payload_holds_def split: option.splits)
    from load_manifest_mem [OF M(1)] reconstruct_mem [OF packs M(2)] Chunked Some
    show ?thesis by (simp add: fetch_pristine_def reconstruct_to_def)
  qed
qed

lemma evict_run:
  "evict ps (s, m, p) =
     (Inr (), (s, m\<lparr>files := (\<lambda>f. if f \<in> snd ` set (take (length ps - PRISTINE_CACHE_SIZE) ps) then None else files m f)\<rparr>,
       drop (length ps - PRISTINE_CACHE_SIZE) ps))"
proof (induction ps arbitrary: m p)
  case (Cons kp ps)
  show ?case
  proof (cases "length ps < PRISTINE_CACHE_SIZE")
    case False
    then have "length (kp # ps) - PRISTINE_CACHE_SIZE = Suc (length ps - PRISTINE_CACHE_SIZE)" by simp
    with False show ?thesis by (simp add: Cons.IH fun_eq_iff)
  qed simp
qed simp

lemma move_to_end_keys:
  "distinct (map fst ps) \<Longrightarrow> distinct (map fst (move_to_end k path ps))"
  "fst ` set (move_to_end k path ps) = insert k (fst ` set ps)"
  by (auto simp: move_to_end_def distinct_map inj_on_def)

lemma move_to_end_length:
  assumes "distinct (map fst ps)"
  shows "length (move_to_end k path ps) = (if k \<in> fst ` set ps then length ps else Suc (length ps))"
proof -
  have "length (move_to_end k path ps) = card (fst ` set (move_to_end k path ps))"
    using move_to_end_keys(1) [OF assms] by (metis distinct_card length_map set_map)
  also have "\<dots> = card (insert k (fst ` set ps))" by (simp add: move_to_end_keys(2))
  finally show ?thesis using assms by (simp add: card_insert_if insert_absorb) (metis distinct_card length_map set_map)
qed

lemma drop_evicted:
  assumes "distinct (map fst ps)" and shape: "\<forall>(k, path) \<in> set ps. \<exists>x. k = PAYLOAD_PREFIX @ x \<and> path = cache_file W x"
    and sound: "\<And>x b. fs (cache_file W x) = Some b \<Longrightarrow> PAYLOAD_PREFIX @ x \<in> fst ` set ps \<and> b = content (PAYLOAD_PREFIX @ x)"
  shows "cache_inv W content (drop (length ps - PRISTINE_CACHE_SIZE) ps)
    (\<lambda>f. if f \<in> snd ` set (take (length ps - PRISTINE_CACHE_SIZE) ps) then None else fs f)" (is "cache_inv _ _ (drop ?n ps) ?fs")
proof -
  have split: "set ps = set (take ?n ps) \<union> set (drop ?n ps)" by (metis append_take_drop_id set_append)
  have "PAYLOAD_PREFIX @ x \<in> fst ` set (drop ?n ps) \<and> b = content (PAYLOAD_PREFIX @ x)" if "?fs (cache_file W x) = Some b" for x b
  proof -
    from that have kept: "cache_file W x \<notin> snd ` set (take ?n ps)" and b: "fs (cache_file W x) = Some b"
      by (auto split: if_splits)
    from sound [OF b] obtain path where "(PAYLOAD_PREFIX @ x, path) \<in> set ps" by auto
    with shape have e: "(PAYLOAD_PREFIX @ x, cache_file W x) \<in> set ps" by fastforce
    with kept have "(PAYLOAD_PREFIX @ x, cache_file W x) \<notin> set (take ?n ps)" by force
    with e split have "(PAYLOAD_PREFIX @ x, cache_file W x) \<in> set (drop ?n ps)" by blast
    then have "PAYLOAD_PREFIX @ x \<in> fst ` set (drop ?n ps)" by force
    with sound [OF b] show ?thesis by blast
  qed
  moreover have "distinct (map fst (drop ?n ps))" using assms(1) by (simp add: drop_map [symmetric])
  moreover have "\<forall>(k, path) \<in> set (drop ?n ps). \<exists>x. k = PAYLOAD_PREFIX @ x \<and> path = cache_file W x"
    using shape split by blast
  ultimately show ?thesis unfolding cache_inv_def by simp
qed

text \<open>The entry just used is at the end, so it is not among the evicted ones.\<close>

lemma used_not_evicted:
  assumes "\<forall>(k, path) \<in> set ps. \<exists>x. k = PAYLOAD_PREFIX @ x \<and> path = cache_file W x"
    and qs: "qs = move_to_end (PAYLOAD_PREFIX @ x) (cache_file W x) ps"
  shows "cache_file W x \<notin> snd ` set (take (length qs - PRISTINE_CACHE_SIZE) qs)"
proof
  let ?old = "filter (\<lambda>(k', _). k' \<noteq> PAYLOAD_PREFIX @ x) ps"
  assume "cache_file W x \<in> snd ` set (take (length qs - PRISTINE_CACHE_SIZE) qs)"
  moreover have "set (take (length qs - PRISTINE_CACHE_SIZE) qs) \<subseteq> set ?old"
    unfolding qs move_to_end_def by (auto simp: PRISTINE_CACHE_SIZE_def dest: in_set_takeD)
  ultimately obtain k where "(k, cache_file W x) \<in> set ps" "k \<noteq> PAYLOAD_PREFIX @ x" by auto
  with assms(1) show False by fastforce
qed

definition fetched :: "string \<Rightarrow> (key \<Rightarrow> bytes) \<Rightarrow> string \<Rightarrow> uuid \<Rightarrow> (string \<Rightarrow> bytes option) \<Rightarrow> (string \<Rightarrow> bytes option) \<Rightarrow> bool" where
  "fetched W content x u fs fs' \<longleftrightarrow> fs' (work_path W u) = Some (content (PAYLOAD_PREFIX @ x)) \<and>
     (\<forall>f. f \<noteq> work_path W u \<longrightarrow> f \<notin> range (cache_file W) \<longrightarrow> fs' f = fs f)"

lemma fetch_copy_mem:
  assumes inv: "cache_inv W content ps (files mc)" and serve: "serves L U content (mem_objs m)"
    and at: "marker_at L (mem_objs m) g d" and run: "fetch_copy L mem_store W fresh_uuid d (m, mc, ps) = (r, (m', mc', ps'))"
  shows "m' = m \<and> duck mc' = duck mc \<and> cache_inv W content ps' (files mc') \<and>
    (case r of
       Inr f \<Rightarrow> \<exists>u \<in> range fresh_uuid. f = work_path W u \<and> fetched W content (stem d) u (files mc) (files mc')
     | Inl e \<Rightarrow> e = ObjectNotFoundError \<and> mem_objs m (PAYLOAD_PREFIX @ stem d) = None \<and> mc' = mc \<and> ps' = ps)"
proof -
  let ?x = "stem d" let ?k = "PAYLOAD_PREFIX @ ?x" let ?f = "cache_file W ?x"
  from inv have I: "distinct (map fst ps)" "length ps \<le> PRISTINE_CACHE_SIZE"
    "\<forall>(k, path) \<in> set ps. \<exists>x. k = PAYLOAD_PREFIX @ x \<and> path = cache_file W x"
    "\<And>x b. files mc (cache_file W x) = Some b \<Longrightarrow> PAYLOAD_PREFIX @ x \<in> fst ` set ps \<and> b = content (PAYLOAD_PREFIX @ x)"
    unfolding cache_inv_def by blast+
  from at have "valid_generation (generation d)" by (auto dest: marker_at_generation)
  then have key: "payload_key d = Inr ?k" by (simp add: payload_key_def)
  define hit where "hit = (files mc ?f \<noteq> None)"
  have hit_run: "cached ?k (m, mc, ps) = (Inr (if hit then Some ?f else None), (m, mc, ps))"
  proof (cases "map_of ps ?k")
    case None
    then have "?k \<notin> fst ` set ps" by (simp add: map_of_eq_None_iff)
    with I(4) have "files mc ?f = None" by (cases "files mc ?f") auto
    with None show ?thesis by (simp add: cached_def hit_def)
  next
    case (Some path)
    then have "(?k, path) \<in> set ps" by (rule map_of_SomeD)
    with I(3) have "path = ?f" by fastforce
    with Some show ?thesis by (simp add: cached_def hit_def)
  qed
  show ?thesis
  proof (cases "hit \<or> mem_objs m ?k \<noteq> None")
    case False
    with run show ?thesis
      using inv fetch_pristine_mem [OF serve at, of ?f mc ps] by (auto simp: fetch_copy_def key hit_run bind_io_def)
  next
    case True
    define fs where "fs = (if hit then files mc else (files mc)(?f \<mapsto> content ?k))"
    define qs where "qs = move_to_end ?k ?f ps"
    define ev where "ev = (\<lambda>f. if f \<in> snd ` set (take (length qs - PRISTINE_CACHE_SIZE) qs) then None else fs f)"
    have fs: "fs ?f = Some (content ?k)"
      using I(4) [of ?x] by (auto simp: fs_def hit_def)
    have shape: "\<forall>(k, path) \<in> set qs. \<exists>x. k = PAYLOAD_PREFIX @ x \<and> path = cache_file W x"
      using I(3) by (auto simp: qs_def move_to_end_def)
    have "cache_inv W content (drop (length qs - PRISTINE_CACHE_SIZE) qs) ev"
      unfolding ev_def
    proof (rule drop_evicted)
      show "distinct (map fst qs)" unfolding qs_def using I(1) by (rule move_to_end_keys(1))
      show "PAYLOAD_PREFIX @ x \<in> fst ` set qs \<and> b = content (PAYLOAD_PREFIX @ x)" if "fs (cache_file W x) = Some b" for x b
        using that I(4) [of x b] by (auto simp: qs_def move_to_end_keys(2) fs_def hit_def split: if_splits)
    qed (rule shape)
    moreover have evf: "ev ?f = Some (content ?k)"
      using used_not_evicted [OF I(3) qs_def] fs by (simp add: ev_def)
    define w where "w = (m, mc\<lparr>files := ev\<rparr>, drop (length qs - PRISTINE_CACHE_SIZE) qs)"
    define u where "u = fresh_uuid w"
    have "fetch_copy L mem_store W fresh_uuid d (m, mc, ps) =
        (Inr (work_path W u), (m, mc\<lparr>files := ev(work_path W u \<mapsto> content ?k)\<rparr>, drop (length qs - PRISTINE_CACHE_SIZE) qs))"
    proof -
      let ?pick = "case (if hit then Some ?f else None) of Some path \<Rightarrow> ret path
         | None \<Rightarrow> bind_io (fetch_pristine L mem_store ?k d ?f) (\<lambda>_. ret ?f)"
      let ?finish = "\<lambda>path. bind_io get_cache (\<lambda>ps. bind_io (evict (move_to_end ?k path ps)) (\<lambda>_.
         bind_io (ask fresh_uuid) (\<lambda>u. bind_io (on_machine (copy_file path (work_path W u))) (\<lambda>_. ret (work_path W u)))))"
      have "?pick (m, mc, ps) = (Inr ?f, (m, mc\<lparr>files := fs\<rparr>, ps))"
        using True fetch_pristine_mem [OF serve at, of ?f mc ps] by (auto simp: fs_def)
      moreover have evicted: "evict qs (m, mc\<lparr>files := fs\<rparr>, ps) = (Inr (), w)"
        by (simp add: evict_run w_def ev_def cong: if_cong)
      have copied: "on_machine (copy_file ?f (work_path W u)) w =
          (Inr (), (m, mc\<lparr>files := ev(work_path W u \<mapsto> content ?k)\<rparr>, drop (length qs - PRISTINE_CACHE_SIZE) qs))"
        using evf by (simp add: w_def)
      ultimately have "fetch_copy L mem_store W fresh_uuid d (m, mc, ps) = ?finish ?f (m, mc\<lparr>files := fs\<rparr>, ps)"
        by (simp only: fetch_copy_def key bind_lift hit_run bind_ok stem_key)
      also have "\<dots> = (Inr (work_path W u), (m, mc\<lparr>files := ev(work_path W u \<mapsto> content ?k)\<rparr>, drop (length qs - PRISTINE_CACHE_SIZE) qs))"
        using copied by (simp add: qs_def [symmetric] evicted u_def [symmetric])
      finally show ?thesis .
    qed
    moreover have "ev f = files mc f" if "f \<notin> range (cache_file W)" for f
    proof -
      from that shape have "f \<notin> snd ` set qs" by fastforce
      then have "f \<notin> snd ` set (take (length qs - PRISTINE_CACHE_SIZE) qs)" by (auto dest: in_set_takeD)
      with that show ?thesis by (auto simp: ev_def fs_def)
    qed
    moreover have "cache_inv W content ps' (fs'(work_path W u \<mapsto> b))" if "cache_inv W content ps' fs'" for ps' fs' b
      using that by (simp add: cache_inv_def work_not_cache [symmetric])
    moreover have "u \<in> range fresh_uuid" by (simp add: u_def)
    ultimately show ?thesis using run by (auto simp: fetched_def)
  qed
qed

section \<open>Every reachable cache\<close>

text \<open>
  What may happen to a process that has a cache in \<open>W\<close>: it fetches a committed generation; DuckDB, another
  program or \<^verbatim>\<open>discard\<close> writes or deletes any file, but nobody writes a pristine one; the store goes on, with
  commits and collections, and keeps serving the same payloads.
\<close>

inductive cache_reachable :: "lib \<Rightarrow> bytes set \<Rightarrow> string \<Rightarrow> (key \<Rightarrow> bytes) \<Rightarrow> (mem, 'e) session \<Rightarrow> bool"
  for L U W content where
  start: "serves L U content (mem_objs m) \<Longrightarrow> (\<And>x. files mc (cache_file W x) = None) \<Longrightarrow>
    cache_reachable L U W content (m, mc, [])"
| fetch: "cache_reachable L U W content w \<Longrightarrow> marker_at L (mem_objs (fst w)) g d \<Longrightarrow>
    cache_reachable L U W content (snd (fetch_copy L mem_store W fresh_uuid d w))"
| edit: "cache_reachable L U W content (m, mc, ps) \<Longrightarrow> f \<notin> range (cache_file W) \<or> b = None \<Longrightarrow>
    cache_reachable L U W content (m, mc\<lparr>files := (files mc)(f := b), duck := e\<rparr>, ps)"
| store: "cache_reachable L U W content (m, mc, ps) \<Longrightarrow> serves L U content (mem_objs m') \<Longrightarrow>
    cache_reachable L U W content (m', mc, ps)"

lemma reachable_inv:
  "cache_reachable L U W content w \<Longrightarrow>
     (case w of (m, mc, ps) \<Rightarrow> serves L U content (mem_objs m) \<and> cache_inv W content ps (files mc))"
proof (induction rule: cache_reachable.induct)
  case (fetch w g d fresh_uuid)
  obtain m mc ps where w: "w = (m, mc, ps)" by (cases w)
  obtain r m' mc' ps' where run: "fetch_copy L mem_store W fresh_uuid d (m, mc, ps) = (r, (m', mc', ps'))"
    using prod_cases4 by blast
  from fetch_copy_mem [OF _ _ _ run, of content U g] fetch w run show ?case by auto
qed (auto simp: cache_inv_def PRISTINE_CACHE_SIZE_def)

lemma pristine_files_bound:
  assumes "cache_inv W content ps fs"
  shows "finite {f \<in> range (cache_file W). fs f \<noteq> None} \<and> card {f \<in> range (cache_file W). fs f \<noteq> None} \<le> PRISTINE_CACHE_SIZE"
proof -
  have "{f \<in> range (cache_file W). fs f \<noteq> None} \<subseteq> snd ` set ps"
  proof
    fix f
    assume "f \<in> {f \<in> range (cache_file W). fs f \<noteq> None}"
    then obtain x b where f: "f = cache_file W x" "fs f = Some b" by auto
    with assms obtain path where e: "(PAYLOAD_PREFIX @ x, path) \<in> set ps" unfolding cache_inv_def by force
    with assms have "path = cache_file W x" unfolding cache_inv_def by fastforce
    with e f show "f \<in> snd ` set ps" by force
  qed
  moreover have "card (snd ` set ps) \<le> PRISTINE_CACHE_SIZE"
    using card_image_le [of "set ps" snd] card_length [of ps] assms by (simp add: cache_inv_def)
  ultimately show ?thesis by (meson card_mono finite_imageI finite_set finite_subset le_trans)
qed

text \<open>
  Claim C17. The cache never hands out anything but the payload: in every reachable state, whatever was done to
  earlier work copies and whatever files were lost, \<^verbatim>\<open>fetch_copy\<close> of a committed generation either returns a
  work copy with exactly the bytes of its payload and touches no other work copy, or raises
  \<^verbatim>\<open>ObjectNotFoundError\<close> because the payload is swept; and at most four pristine files are on disk.
\<close>
theorem fetch_copy_hands_out_the_payload:
  assumes "cache_reachable L U W content (m, mc, ps)" and "marker_at L (mem_objs m) g d"
  shows "(case fetch_copy L mem_store W fresh_uuid d (m, mc, ps) of
       (Inr f, (_, mc', _)) \<Rightarrow> files mc' f = Some (content (payload_key_text g (payload_uuid d))) \<and>
         (\<forall>f'. f' \<noteq> f \<longrightarrow> f' \<notin> range (cache_file W) \<longrightarrow> files mc' f' = files mc f')
     | (Inl e, _) \<Rightarrow> e = ObjectNotFoundError \<and> mem_objs m (payload_key_text g (payload_uuid d)) = None) \<and>
    card {f \<in> range (cache_file W). files mc f \<noteq> None} \<le> PRISTINE_CACHE_SIZE"
proof -
  from reachable_inv [OF assms(1)] have inv: "serves L U content (mem_objs m)" "cache_inv W content ps (files mc)" by auto
  from assms(2) have g: "generation d = g" by (simp add: marker_at_def)
  obtain r m' mc' ps' where run: "fetch_copy L mem_store W fresh_uuid d (m, mc, ps) = (r, (m', mc', ps'))"
    using prod_cases4 by blast
  from fetch_copy_mem [OF inv(2,1) assms(2) run] pristine_files_bound [OF inv(2)] show ?thesis
    unfolding run g [symmetric] by (auto simp: fetched_def split: sum.splits)
qed

text \<open>A work copy is overwritten, its pristine file is lost, and the next copy is right again.\<close>

definition sample_content :: "key \<Rightarrow> bytes" where
  "sample_content k = ''abc''"

definition sample_machine :: "unit machine" where
  "sample_machine = \<lparr>files = (\<lambda>_. None), duck = ()\<rparr>"

lemma sample_serves: "serves sample_lib short sample_content (mem_objs sample_blob)"
  using sample_blob_facts(1) by (rule versions_serve) (simp add: sample_content_def)

lemma sample_duck: "mc\<lparr>duck := ()\<rparr> = (mc :: unit machine)"
  by (cases mc) simp

theorem fetch_copy_hands_out_the_payload_witness:
  "\<exists>f w mc'. fetch_copy sample_lib mem_store ''w'' (\<lambda>_. 7) (sample_doc 0 10) (sample_blob, sample_machine, []) = (Inr f, w) \<and>
     (case w of (m, mc, ps) \<Rightarrow>
        files (fst (snd (snd (fetch_copy sample_lib mem_store ''w'' (\<lambda>_. 7) (sample_doc 0 10)
          (m, mc\<lparr>files := (files mc)(f := Some ''garbage'')\<rparr>, ps))))) f = Some ''abc'')"
proof -
  let ?d = "sample_doc 0 10" and ?R = "cache_reachable sample_lib short ''w'' sample_content"
  have at: "marker_at sample_lib (mem_objs sample_blob) 0 ?d" by (rule sample_blob_facts(2))
  have there: "mem_objs sample_blob (payload_key_text 0 10) \<noteq> None" using sample_blob_objs by force
  have R: "?R (sample_blob, sample_machine, [])"
    using sample_serves by (rule start) (simp add: sample_machine_def)
  note start = sample_serves R [THEN reachable_inv, simplified] at
  obtain r m mc ps where run: "fetch_copy sample_lib mem_store ''w'' (\<lambda>_. 7) ?d (sample_blob, sample_machine, []) = (r, (m, mc, ps))"
    using prod_cases4 by blast
  note first = fetch_copy_mem [OF conjunct2 [OF start(2)] start(1) at run]
  from first there have r: "r = Inr (work_path ''w'' 7)" and m: "m = sample_blob"
    by (auto simp: sample_doc_def stem_key [symmetric] simp del: stem_key split: sum.splits)
  let ?mc = "mc\<lparr>files := (files mc)(work_path ''w'' 7 := Some ''garbage'')\<rparr>"
  have "?R (m, mc, ps)" using fetch [OF R, of 0 ?d "\<lambda>_. 7"] at run by simp
  from edit [OF this, of "work_path ''w'' 7" "Some ''garbage''" "()"] have R2: "?R (sample_blob, ?mc, ps)"
    by (simp add: m image_iff sample_duck)
  obtain r2 m2 mc2 ps2 where run2: "fetch_copy sample_lib mem_store ''w'' (\<lambda>_. 7) ?d (sample_blob, ?mc, ps) = (r2, (m2, mc2, ps2))"
    using prod_cases4 by blast
  have "files mc2 (work_path ''w'' 7) = Some ''abc''"
    using fetch_copy_mem [OF _ sample_serves at run2] reachable_inv [OF R2] there
      fetch_copy_hands_out_the_payload [OF R2 at, of "\<lambda>_. 7"]
    unfolding run2 by (auto simp: sample_content_def sample_doc_def split: sum.splits)
  with run run2 r m show ?thesis by auto
qed

end
