(* ===== verification/Recorder.thy ===== *)
theory Recorder
  imports Rebase
begin

text \<open>
  \<^verbatim>\<open>recorder.py\<close>: the classification of a statement for replay safety. The parser is the third-party package
  sqlglot; the record \<open>sqlglot\<close> holds what the code asks of it: the trees of a text, the class of a node, the
  function and table nodes below it, the arguments that are set.
\<close>

section \<open>Syntax trees\<close>

text \<open>\<^verbatim>\<open>exp.Anonymous\<close> with its name, or a known function with its \<^verbatim>\<open>sql_name()\<close>.\<close>

datatype func_node = Anonymous string | Known string

text \<open>\<open>node_id\<close> is \<^verbatim>\<open>id(t)\<close>; \<open>table_func\<close> is \<^verbatim>\<open>t.this\<close> where that is a function.\<close>

record table_node =
  node_id :: nat
  table_name :: string
  table_func :: "func_node option"

datatype node_class = Create | Drop | Alter | TruncateTable | Comment | Update | Delete | Merge | Insert | Select | OtherNode

record 't sqlglot =
  parse_sql :: "string \<Rightarrow> 't option list option"   \<comment> \<open>\<open>None\<close> is a \<^verbatim>\<open>ParseError\<close>\<close>
  class_of :: "'t \<Rightarrow> node_class"
  find_funcs :: "'t \<Rightarrow> func_node list"
  find_tables :: "'t \<Rightarrow> table_node list"
  target_of :: "'t \<Rightarrow> 't option"
  as_table :: "'t \<Rightarrow> table_node option"
  arg_set :: "'t \<Rightarrow> string \<Rightarrow> bool"

text \<open>\<^verbatim>\<open>str.lower\<close> on the code points below 256.\<close>

definition lower_char :: "char \<Rightarrow> char" where
  "lower_char c = (let n = of_char c :: nat in
     if (65 \<le> n \<and> n \<le> 90) \<or> (192 \<le> n \<and> n \<le> 222 \<and> n \<noteq> 215) then char_of (n + 32) else c)"

definition lower :: "string \<Rightarrow> string" where
  "lower s = map lower_char s"

section \<open>Classification\<close>

definition VOLATILE_FUNCTIONS :: "string list" where
  "VOLATILE_FUNCTIONS = [''now'', ''current_timestamp'', ''get_current_timestamp'', ''transaction_timestamp'',
     ''current_date'', ''current_time'', ''get_current_time'', ''current_localtime'', ''current_localtimestamp'',
     ''today'', ''random'', ''rand'', ''uuid'', ''gen_random_uuid'', ''uuidv4'', ''uuidv7'', ''nextval'', ''getenv'',
     ''current_setting'']"

definition STAGED_FILE_SOURCES :: "string list" where
  "STAGED_FILE_SOURCES = [''read_parquet'', ''read_csv'', ''read_csv_auto'', ''read_json'', ''read_json_auto'',
     ''read_json_objects'', ''read_ndjson'', ''read_ndjson_auto'', ''parquet_scan'']"

definition func_name :: "func_node \<Rightarrow> string" where
  "func_name f = (case f of Anonymous n \<Rightarrow> lower n | Known n \<Rightarrow> lower n)"

definition function_names :: "'t sqlglot \<Rightarrow> 't \<Rightarrow> string list" where
  "function_names G t = map func_name (find_funcs G t)"

definition relation_functions :: "'t sqlglot \<Rightarrow> 't \<Rightarrow> string list" where
  "relation_functions G t = map func_name (List.map_filter table_func (find_tables G t))"

definition reads_lake_tables :: "'t sqlglot \<Rightarrow> 't \<Rightarrow> bool" where
  "reads_lake_tables G ins =
     (let target = target_of G ins;
          below = (case target of None \<Rightarrow> [] | Some t \<Rightarrow> map node_id (find_tables G t));
          self = (case target of None \<Rightarrow> [] | Some t \<Rightarrow> (case as_table G t of None \<Rightarrow> [] | Some n \<Rightarrow> [node_id n])) in
      list_ex (\<lambda>t. table_name t \<noteq> '''' \<and> node_id t \<notin> set (self @ below)) (find_tables G ins))"

definition classify_tree :: "'t sqlglot \<Rightarrow> 't \<Rightarrow> error + statement_class" where
  "classify_tree G t =
     (if list_ex (\<lambda>f. f \<in> set VOLATILE_FUNCTIONS) (function_names G t) then Inl InputValidationError
      else if class_of G t \<in> {Create, Drop, Alter, TruncateTable, Comment} then Inr DDL
      else if class_of G t \<in> {Update, Delete, Merge} then Inr STATE_DEPENDENT_DML
      else if class_of G t = Insert then
        (if arg_set G t ''alternative'' \<or> arg_set G t ''conflict'' \<or> arg_set G t ''returning'' then Inr STATE_DEPENDENT_DML
         else if reads_lake_tables G t then Inr STATE_DEPENDENT_DML
         else if list_ex (\<lambda>f. f \<notin> set STAGED_FILE_SOURCES) (relation_functions G t) then Inr STATE_DEPENDENT_DML
         else Inr BLIND_APPEND)
      else if class_of G t = Select then Inr READ
      else Inr STATE_DEPENDENT_DML)"

definition classify :: "'t sqlglot \<Rightarrow> string \<Rightarrow> error + statement_class" where
  "classify G text = (case parse_sql G text of
     Some [Some t] \<Rightarrow> classify_tree G t
   | _ \<Rightarrow> Inl InputValidationError)"

definition record_statement :: "'t sqlglot \<Rightarrow> string \<Rightarrow> 'p list \<Rightarrow> error + 'p statement" where
  "record_statement G text args = (case classify G text of
     Inl e \<Rightarrow> Inl e
   | Inr c \<Rightarrow> Inr \<lparr>sql = text, params = args, statement_class = c\<rparr>)"

section \<open>What a blind append is\<close>

text \<open>
  A statement whose replay cannot see the lake: one \<^verbatim>\<open>INSERT\<close> without an upsert clause or \<^verbatim>\<open>RETURNING\<close>, that calls
  nothing volatile, whose only tables are its target and functions over staged files.
\<close>

definition blind_insert :: "'t sqlglot \<Rightarrow> string \<Rightarrow> bool" where
  "blind_insert G text \<longleftrightarrow> (\<exists>t. parse_sql G text = Some [Some t] \<and> class_of G t = Insert \<and>
     \<not> arg_set G t ''alternative'' \<and> \<not> arg_set G t ''conflict'' \<and> \<not> arg_set G t ''returning'' \<and>
     (\<forall>f \<in> set (find_funcs G t). func_name f \<notin> set VOLATILE_FUNCTIONS) \<and>
     (\<forall>n \<in> set (find_tables G t).
        (table_name n = '''' \<or> (\<exists>target. target_of G t = Some target \<and>
           (\<exists>n'. (as_table G target = Some n' \<or> n' \<in> set (find_tables G target)) \<and> node_id n' = node_id n))) \<and>
        (\<forall>f. table_func n = Some f \<longrightarrow> func_name f \<in> set STAGED_FILE_SOURCES)))"

lemma reads_lake_tables_iff:
  "reads_lake_tables G t \<longleftrightarrow> (\<exists>n \<in> set (find_tables G t). table_name n \<noteq> '''' \<and>
     \<not> (\<exists>target. target_of G t = Some target \<and>
           (\<exists>n'. (as_table G target = Some n' \<or> n' \<in> set (find_tables G target)) \<and> node_id n' = node_id n)))"
  by (auto simp: reads_lake_tables_def list_ex_iff image_iff Let_def split: option.splits) (metis | force)+

lemma relation_functions_iff:
  "list_ex P (relation_functions G t) \<longleftrightarrow> (\<exists>n \<in> set (find_tables G t). \<exists>f. table_func n = Some f \<and> P (func_name f))"
  by (force simp: relation_functions_def list_ex_iff List.map_filter_def)

lemma classify_blind: "classify G text = Inr BLIND_APPEND \<longleftrightarrow> blind_insert G text"
proof -
  have "classify_tree G t = Inr BLIND_APPEND \<longleftrightarrow> class_of G t = Insert \<and>
     \<not> arg_set G t ''alternative'' \<and> \<not> arg_set G t ''conflict'' \<and> \<not> arg_set G t ''returning'' \<and>
     (\<forall>f \<in> set (find_funcs G t). func_name f \<notin> set VOLATILE_FUNCTIONS) \<and>
     \<not> reads_lake_tables G t \<and> \<not> list_ex (\<lambda>f. f \<notin> set STAGED_FILE_SOURCES) (relation_functions G t)" for t
    by (auto simp: classify_tree_def function_names_def list_ex_iff)
  then have "classify G text = Inr BLIND_APPEND \<longleftrightarrow> (\<exists>t. parse_sql G text = Some [Some t] \<and> class_of G t = Insert \<and>
     \<not> arg_set G t ''alternative'' \<and> \<not> arg_set G t ''conflict'' \<and> \<not> arg_set G t ''returning'' \<and>
     (\<forall>f \<in> set (find_funcs G t). func_name f \<notin> set VOLATILE_FUNCTIONS) \<and>
     \<not> reads_lake_tables G t \<and> \<not> list_ex (\<lambda>f. f \<notin> set STAGED_FILE_SOURCES) (relation_functions G t))"
    by (auto simp: classify_def split: option.splits list.splits)
  then show ?thesis
    unfolding reads_lake_tables_iff relation_functions_iff blind_insert_def by (simp only: bex_simps not_not de_Morgan_conj) blast
qed

lemma classify_never_volatile: "classify G text \<noteq> Inr VOLATILE"
  by (auto simp: classify_def classify_tree_def split: option.splits list.splits)

end
