(* ===== verification/Store_Simulation.thy ===== *)
theory Store_Simulation
  imports Versioned_Blob
begin

text \<open>
  The protocol over one store simulated by the protocol over another. \<open>simulates R m c\<close>: from states related by
  \<open>R\<close>, \<open>c\<close> answers what \<open>m\<close> answers and ends in a related state. The locale \<open>store_simulation\<close> has the relation of the
  single calls as its laws, and carries it to head discovery, the commit driver and the collection of garbage.
  \<open>World_Lifting\<close> interprets it for a store used from a larger world, \<open>Crash_Model\<close> for a process that is
  watched until it is killed.
\<close>

section \<open>Simulated computations\<close>

definition simulates :: "('w \<Rightarrow> 's \<Rightarrow> bool) \<Rightarrow> ('s, 'a) io \<Rightarrow> ('w, 'a) io \<Rightarrow> bool" where
  "simulates R m c \<longleftrightarrow> (\<forall>w s. R w s \<longrightarrow> fst (c w) = fst (m s) \<and> R (snd (c w)) (snd (m s)))"

lemma simulates_run: "simulates R m c \<Longrightarrow> R w s \<Longrightarrow> c w = (r, w') \<Longrightarrow> \<exists>s'. m s = (r, s') \<and> R w' s'"
  by (auto simp: simulates_def) (metis fst_conv prod.collapse snd_conv)

lemma simulates_runs: "simulates R m c \<Longrightarrow> R w s \<Longrightarrow> m s = (r, s') \<Longrightarrow> \<exists>w'. c w = (r, w') \<and> R w' s'"
  by (auto simp: simulates_def) (metis fst_conv prod.collapse snd_conv)

named_theorems simulation_intros "computations over a simulated store"

lemma simulates_basic [simulation_intros]:
  "simulates R (ret x) (ret x)" "simulates R (raise e) (raise e)" "simulates R (lift_io q) (lift_io q)"
  by (auto simp: simulates_def)

lemma simulates_bind [simulation_intros]:
  assumes "simulates R m c" and "\<And>x. simulates R (f x) (g x)"
  shows "simulates R (bind_io m f) (bind_io c g)"
  unfolding simulates_def
proof (intro allI impI)
  fix w s
  assume w: "R w s"
  obtain q v where c: "c w = (q, v)" by (metis surj_pair)
  from simulates_run [OF assms(1) w c] obtain t where t: "m s = (q, t)" "R v t" by blast
  with c assms(2) show "fst (bind_io c g w) = fst (bind_io m f s) \<and> R (snd (bind_io c g w)) (snd (bind_io m f s))"
    by (cases q) (auto simp: simulates_def)
qed

lemma simulates_try [simulation_intros]: "simulates R m c \<Longrightarrow> simulates R (try_io m) (try_io c)"
  by (auto simp: simulates_def try_io_def split: prod.splits) (metis fst_conv snd_conv)+

lemma simulates_cases [simulation_intros]:
  "simulates R m c \<Longrightarrow> simulates R m' c' \<Longrightarrow> simulates R (if b then m else m') (if b then c else c')"
  "(\<And>e. simulates R (f e) (f' e)) \<Longrightarrow> (\<And>x. simulates R (g x) (g' x)) \<Longrightarrow>
     simulates R (case_sum f g q) (case_sum f' g' q)"
  "simulates R m c \<Longrightarrow> (\<And>x. simulates R (g x) (g' x)) \<Longrightarrow> simulates R (case_option m g v) (case_option c g' v)"
  "(\<And>x y. simulates R (h x y) (h' x y)) \<Longrightarrow> simulates R (case_prod h p) (case_prod h' p)"
  by (auto split: sum.splits option.splits prod.splits)

lemma simulates_outcome [simulation_intros]:
  "simulates R f f' \<Longrightarrow> simulates R g g' \<Longrightarrow> simulates R h h' \<Longrightarrow>
     simulates R (case out of WON \<Rightarrow> f | LOST \<Rightarrow> g | ABSENT \<Rightarrow> h) (case out of WON \<Rightarrow> f' | LOST \<Rightarrow> g' | ABSENT \<Rightarrow> h')"
  by (cases out) auto

lemma simulates_transport [simulation_intros]:
  "simulates R f f' \<Longrightarrow> simulates R g g' \<Longrightarrow>
     simulates R (case t of Whole \<Rightarrow> f | Chunked \<Rightarrow> g) (case t of Whole \<Rightarrow> f' | Chunked \<Rightarrow> g')"
  by (cases t) auto

lemma simulates_published [simulation_intros]:
  "(\<And>n. simulates R (f n) (f' n)) \<Longrightarrow> (\<And>n. simulates R (g n) (g' n)) \<Longrightarrow> simulates R h h' \<Longrightarrow>
     simulates R (case out of PublishedWhole n \<Rightarrow> f n | PublishedChunked n \<Rightarrow> g n | NotLanded \<Rightarrow> h)
       (case out of PublishedWhole n \<Rightarrow> f' n | PublishedChunked n \<Rightarrow> g' n | NotLanded \<Rightarrow> h')"
  by (cases out) auto

lemma simulates_run_all [simulation_intros]:
  assumes "\<And>x. simulates R (f x) (g x)"
  shows "simulates R (run_all f xs) (run_all g xs)"
proof (induction xs)
  case (Cons x xs)
  show ?case unfolding run_all.simps by (intro simulation_intros assms Cons)
qed (simp only: run_all.simps simulates_basic)

section \<open>Simulated stores\<close>

locale store_simulation =
  fixes R :: "'w \<Rightarrow> 's \<Rightarrow> bool" and S :: "'s store" and T :: "'w store"
  assumes sim_get [simulation_intros]: "simulates R (get S k) (get T k)"
    and sim_head [simulation_intros]: "simulates R (head_meta S k) (head_meta T k)"
    and sim_create [simulation_intros]: "simulates R (put_if_absent S k b) (put_if_absent T k b)"
    and sim_put [simulation_intros]: "simulates R (put S k b) (put T k b)"
begin

abbreviation sim :: "('s, 'a) io \<Rightarrow> ('w, 'a) io \<Rightarrow> bool" where
  "sim \<equiv> simulates R"

lemma sim_put_pack [simulation_intros]: "sim (put_pack S sha b n) (put_pack T sha b n)"
  by (induction n) (simp_all only: put_pack.simps, (intro simulation_intros | assumption)+)

lemma sim_publish_packs [simulation_intros]: "sim (publish_packs S packs) (publish_packs T packs)"
  unfolding publish_packs_def by (intro simulation_intros)

lemma sim_refresh_put [simulation_intros]: "sim (refresh_put S k b n) (refresh_put T k b n)"
  by (induction n) (simp_all only: refresh_put.simps, (intro simulation_intros | assumption)+)

lemma sim_verify_packs [simulation_intros]: "sim (verify_packs L S M novel) (verify_packs L T M novel)"
  unfolding verify_packs_def check_pack_def Let_def by (intro simulation_intros)

lemma sim_stage [simulation_intros]: "sim (stage_payload L S work policy) (stage_payload L T work policy)"
  unfolding stage_payload_def by (intro simulation_intros)

lemma sim_publish_resolved [simulation_intros]:
  "sim (publish_resolved L S work g u a m policy) (publish_resolved L T work g u a m policy)"
  unfolding publish_resolved_def by (intro simulation_intros)

lemma sim_markers [simulation_intros]:
  "sim (create_marker L S doc) (create_marker L T doc)" "sim (read_marker L S g) (read_marker L T g)"
  unfolding create_marker_def read_marker_def by (intro simulation_intros)+

lemma sim_resolve_marker [simulation_intros]: "sim (resolve_marker L S g u) (resolve_marker L T g u)"
  unfolding resolve_marker_def by (intro simulation_intros)

lemma sim_backoff [simulation_intros]: "sim (backoff a) (backoff a)"
  unfolding backoff_def by (intro simulation_intros)

lemma sim_create_resolving [simulation_intros]:
  "sim (create_marker_resolving L S doc u a m) (create_marker_resolving L T doc u a m)"
proof (induction "nat (m - a)" arbitrary: a rule: less_induct)
  case less
  have step: "sim (if a + 1 \<ge> m then raise ExternalServiceError
        else bind_io (backoff (a + 1)) (\<lambda>_. create_marker_resolving L S doc u (a + 1) m))
      (if a + 1 \<ge> m then raise ExternalServiceError
        else bind_io (backoff (a + 1)) (\<lambda>_. create_marker_resolving L T doc u (a + 1) m))"
    using less [of "a + 1"] by (auto intro!: simulation_intros simulates_basic)
  show ?case
    by (subst (1 2) create_marker_resolving.simps) (rule step | rule simulation_intros)+
qed

lemma sim_write_hint [simulation_intros]: "sim (write_hint L S g) (write_hint L T g)"
  unfolding write_hint_def by (intro simulation_intros)

lemma sim_try_create [simulation_intros]:
  "sim (try_create_marker L S d u a m) (try_create_marker L T d u a m)"
  unfolding try_create_marker_def by (intro simulation_intros)

text \<open>Head discovery, over the reads of markers.\<close>

lemma sim_bracket [simulation_intros]: "sim (gallop_bracket L S lo i) (gallop_bracket L T lo i)"
proof (induction "nat (MAX_GENERATION - lo)" arbitrary: lo i rule: less_induct)
  case less
  have step: "sim (if lo + 2 ^ i > MAX_GENERATION then ret (lo, MAX_GENERATION + 1) else f)
      (if lo + 2 ^ i > MAX_GENERATION then ret (lo, MAX_GENERATION + 1) else g)"
    if "\<not> MAX_GENERATION < lo + 2 ^ i \<Longrightarrow> sim f g" for f g
    using that by (auto intro: simulates_basic)
  have next_step: "sim (gallop_bracket L S (lo + 2 ^ i) (Suc i)) (gallop_bracket L T (lo + 2 ^ i) (Suc i))"
    if "\<not> MAX_GENERATION < lo + 2 ^ i"
    using that by (intro less) (auto simp: step_below)
  show ?case
    unfolding gallop_bracket.simps [of _ _ lo i] Let_def
    by (rule step) (intro simulation_intros next_step; assumption)
qed

lemma sim_search [simulation_intros]: "sim (gallop_search L S found left right) (gallop_search L T found left right)"
proof (induction "nat (right - left + 1)" arbitrary: found left right rule: less_induct)
  case less
  have step: "sim (if left \<le> right then f else ret found) (if left \<le> right then g else ret found)"
    if "left \<le> right \<Longrightarrow> sim f g" for f g
    using that by (auto intro: simulates_basic)
  have lower: "sim (gallop_search L S found left ((left + right) div 2 - 1)) (gallop_search L T found left ((left + right) div 2 - 1))"
    and upper: "sim (gallop_search L S ((left + right) div 2) ((left + right) div 2 + 1) right)
      (gallop_search L T ((left + right) div 2) ((left + right) div 2 + 1) right)" if "left \<le> right"
    using that by (intro less; simp)+
  show ?case
    unfolding gallop_search.simps [of _ _ found left right] Let_def
    by (rule step) (intro simulation_intros lower upper; assumption)
qed

lemma sim_probe [simulation_intros]: "sim (forward_probe L S n d g step) (forward_probe L T n d g step)"
  by (induction n arbitrary: d g step) (simp_all only: forward_probe.simps Let_def, (intro simulation_intros | assumption)+)

lemma sim_resolve_head [simulation_intros]: "sim (resolve_head L S) (resolve_head L T)"
  unfolding resolve_head_def hint_generation_def head_start_def gallop_discover_def
  by (intro simulation_intros)

lemma sim_load_manifest [simulation_intros]: "sim (load_manifest L S k) (load_manifest L T k)"
  unfolding load_manifest_def by (intro simulation_intros)

lemma sim_blob_policy [simulation_intros]: "sim (blob_policy L S t base) (blob_policy L T t base)"
  unfolding blob_policy_def by (intro simulation_intros)

end

end
