(* ===== verification/World_Lifting.thy ===== *)
theory World_Lifting
  imports Store_Simulation
begin

text \<open>
  A store seen from a larger world. \<open>world_store S\<close> is the store \<open>S\<close> of a program that has more state than the
  store; what the commit driver does there is what it does on \<open>S\<close>, next to an untouched rest.
\<close>

definition world_store :: "'s store \<Rightarrow> ('s \<times> 't) store" where
  "world_store S = \<lparr>get = (\<lambda>k. on_world (get S k)), get_range = (\<lambda>k a n. on_world (get_range S k a n)),
     put_if_absent = (\<lambda>k b. on_world (put_if_absent S k b)), put_if_match = (\<lambda>k b t. on_world (put_if_match S k b t)),
     put = (\<lambda>k b. on_world (put S k b)), list_prefix = (\<lambda>p. on_world (list_prefix S p)),
     list_meta = (\<lambda>p. on_world (list_meta S p)), head_meta = (\<lambda>k. on_world (head_meta S k)),
     delete = (\<lambda>k. on_world (delete S k))\<rparr>"

interpretation world: store_simulation "\<lambda>w s. w = (s, t)" S "world_store S" for S and t :: 't
  by unfold_locales (simp_all add: simulates_def world_store_def on_world_def split: prod.splits)

lemma lifted_run:
  "simulates (\<lambda>w s. w = (s, t)) m c \<Longrightarrow> m s = (r, s') \<Longrightarrow> c (s, t) = (r, (s', t))"
  by (auto dest: simulates_runs)

end
