(* ===== verification/Lake_Session.thy ===== *)
theory Lake_Session
  imports Cache_Safety Recorder World_Lifting
begin

text \<open>
  \<^verbatim>\<open>session.py\<close>: the DuckLake adapter. A \<open>lake\<close> holds the store, the work directory and the settings of the
  class \<^verbatim>\<open>Lake\<close>, and the third-party parameters it uses: DuckDB, the SQL parser and \<^verbatim>\<open>uuid4\<close>. Its operations
  run on the world of \<open>Generation_Cache\<close>: the store, the machine with its files, and the pristine cache.
\<close>

section \<open>Constants and the lake\<close>

definition DEFAULT_MAX_ATTEMPTS :: int where
  "DEFAULT_MAX_ATTEMPTS = 5"

definition PIN_DUCKDB_VERSION :: string where
  "PIN_DUCKDB_VERSION = ''duckdb_storage_version''"

definition PIN_DUCKLAKE_FORMAT :: string where
  "PIN_DUCKLAKE_FORMAT = ''ducklake_format_version''"

definition STREAM_MIN_BYTES :: int where
  "STREAM_MIN_BYTES = 32 * 1024 * 1024"

definition DEFAULT_CHUNK_THRESHOLD :: int where
  "DEFAULT_CHUNK_THRESHOLD = 16 * 1024 * 1024"

text \<open>\<open>uri_of\<close> is \<^verbatim>\<open>s3_uri\<close> where the store is an \<^verbatim>\<open>S3ObjectStore\<close>, and \<open>None\<close> for any other store.\<close>

record ('s, 'e, 'v, 't) lake =
  lake_lib :: lib
  lake_store :: "'s store"
  uri_of :: "(key \<Rightarrow> string) option"
  engine :: "('e, 'v) duckdb"
  parser :: "'t sqlglot"
  fresh_uuid :: "('s, 'e) session \<Rightarrow> uuid"
  work_dir :: string
  data_path_of :: string
  policy_of :: conflict_policy
  max_attempts_of :: int
  credentials :: "s3_credentials option"
  threshold_of :: "int option"

text \<open>\<^verbatim>\<open>Lake.__init__\<close>: the data path loses its trailing slashes.\<close>

definition make_lake :: "lib \<Rightarrow> 's store \<Rightarrow> (key \<Rightarrow> string) option \<Rightarrow> ('e, 'v) duckdb \<Rightarrow> 't sqlglot \<Rightarrow> (('s, 'e) session \<Rightarrow> uuid) \<Rightarrow>
    string \<Rightarrow> string \<Rightarrow> conflict_policy \<Rightarrow> int \<Rightarrow> s3_credentials option \<Rightarrow> int option \<Rightarrow> ('s, 'e, 'v, 't) lake" where
  "make_lake L S uri D G fresh workdir data_path policy tries creds threshold =
     \<lparr>lake_lib = L, lake_store = S, uri_of = uri, engine = D, parser = G, fresh_uuid = fresh, work_dir = workdir,
      data_path_of = rstrip (CHR ''/'') data_path, policy_of = policy, max_attempts_of = tries,
      credentials = creds, threshold_of = threshold\<rparr>"

section \<open>Versions\<close>

definition check_versions :: "('e, 'v) duckdb \<Rightarrow> root_doc \<Rightarrow> error + unit" where
  "check_versions D root =
     (if map_of (pins root) PIN_DUCKDB_VERSION \<noteq> Some (duck_version D) then Inl VersionMismatchError else Inr ())"

definition check_format_unmigrated :: "('e, 'v) duckdb \<Rightarrow> string \<Rightarrow> root_doc \<Rightarrow> ('e machine, unit) io" where
  "check_format_unmigrated D work base =
     bind_io (probe_ducklake_format_version D work) (\<lambda>work_format.
       if Some work_format \<noteq> map_of (pins base) PIN_DUCKLAKE_FORMAT then raise VersionMismatchError else ret ())"

section \<open>Fetching the base\<close>

text \<open>The loop over \<^verbatim>\<open>range(self._max_attempts)\<close>.\<close>

fun fetch_base :: "('s, 'e, 'v, 't) lake \<Rightarrow> nat \<Rightarrow> (('s, 'e) session, root_doc \<times> string) io" where
  "fetch_base K 0 = raise ExternalServiceError"
| "fetch_base K (Suc n) =
     bind_io (on_world (resolve_head (lake_lib K) (lake_store K))) (\<lambda>(base, g).
     bind_io (lift_io (check_versions (engine K) base)) (\<lambda>_.
     bind_io (try_io (fetch_copy (lake_lib K) (lake_store K) (work_dir K) (fresh_uuid K) base)) (\<lambda>r. case r of
         Inr path \<Rightarrow> ret (base, path)
       | Inl e \<Rightarrow> (if e = ObjectNotFoundError then fetch_base K n else raise e))))"

definition fetch_current_base :: "('s, 'e, 'v, 't) lake \<Rightarrow> (('s, 'e) session, root_doc \<times> string) io" where
  "fetch_current_base K = fetch_base K (nat (max_attempts_of K))"

section \<open>Transactions\<close>

text \<open>
  \<^verbatim>\<open>_writable_copy\<close> around the body of its \<^verbatim>\<open>with\<close> statement. The connection is made before the \<^verbatim>\<open>try\<close> and
  closed after it, so neither a failed attach nor a failed close discards the work copy.
\<close>

definition writable_copy :: "('s, 'e, 'v, 't) lake \<Rightarrow> string \<Rightarrow> (nat \<Rightarrow> (('s, 'e) session, 'a) io) \<Rightarrow> (('s, 'e) session, 'a) io" where
  "writable_copy K work with_connection =
     bind_io (on_machine (lake_connection (engine K) work (Some (data_path_of K)) False (credentials K))) (\<lambda>con.
     bind_io (try_io (with_connection con)) (\<lambda>r. case r of
         Inl e \<Rightarrow> bind_io (on_machine (lake_abandon (engine K) con)) (\<lambda>_.
                  bind_io (on_machine (discard work)) (\<lambda>_. raise e))
       | Inr x \<Rightarrow> bind_io (on_machine (lake_close (engine K) con)) (\<lambda>_. ret x)))"

text \<open>
  The code a caller runs inside a transaction: it calls \<^verbatim>\<open>sql\<close>, sees the rows or the exception, and ends with a
  value or an exception.
\<close>

datatype ('v, 'a) client = Return 'a | Throw error | Sql string "'v list" "error + 'v list list \<Rightarrow> ('v, 'a) client"

text \<open>\<^verbatim>\<open>Transaction.sql\<close>; the attribute is \<^verbatim>\<open>_recorded\<close>, and \<^verbatim>\<open>changeset\<close> is its value.\<close>

definition transaction_sql :: "('s, 'e, 'v, 't) lake \<Rightarrow> nat \<Rightarrow> string \<Rightarrow> 'v list \<Rightarrow>
    (('s, 'e) session \<times> 'v changeset, 'v list list) io" where
  "transaction_sql K con text args =
     bind_io (lift_io (record_statement (parser K) text args)) (\<lambda>stmt.
     bind_io (on_world (on_machine (lake_execute (engine K) con text args))) (\<lambda>rows.
     bind_io get_attr (\<lambda>recorded.
     bind_io (set_attr (recorded @ [stmt])) (\<lambda>_. ret rows))))"

primrec run_client :: "('s, 'e, 'v, 't) lake \<Rightarrow> nat \<Rightarrow> ('v, 'a) client \<Rightarrow> (('s, 'e) session \<times> 'v changeset, 'a) io" where
  "run_client K con (Return x) = ret x"
| "run_client K con (Throw e) = raise e"
| "run_client K con (Sql text args cont) = bind_io (try_io (transaction_sql K con text args)) (\<lambda>r. run_client K con (cont r))"

definition replay_onto_head :: "('s, 'e, 'v, 't) lake \<Rightarrow> 'v changeset \<Rightarrow> (('s, 'e) session, root_doc \<times> string) io" where
  "replay_onto_head K changes =
     bind_io (fetch_current_base K) (\<lambda>(head, work).
     bind_io (writable_copy K work (\<lambda>con. for_io changes (\<lambda>stmt.
       bind_io (on_machine (lake_execute (engine K) con (sql stmt) (params stmt))) (\<lambda>_. ret ())))) (\<lambda>_.
       ret (head, work)))"

definition lake_policy :: "('s, 'e, 'v, 't) lake \<Rightarrow> root_doc \<Rightarrow> (('s, 'e) session, transport_policy) io" where
  "lake_policy K base =
     (if transport_of base = Chunked then
        bind_io (lift_io (payload_key base)) (\<lambda>k.
        bind_io (on_world (load_manifest (lake_lib K) (lake_store K) k)) (\<lambda>M.
          ret \<lparr>chunk_threshold = threshold_of K, base_manifest = Some M, pack_target = DEFAULT_PACK_TARGET\<rparr>))
      else ret \<lparr>chunk_threshold = threshold_of K, base_manifest = None, pack_target = DEFAULT_PACK_TARGET\<rparr>)"

text \<open>\<^verbatim>\<open>_DuckLakeCommit\<close>: a work copy is its path.\<close>

definition lake_hooks :: "('s, 'e, 'v, 't) lake \<Rightarrow> 'v changeset \<Rightarrow> (('s, 'e) session, string) commit_hooks" where
  "lake_hooks K changes =
     \<lparr>validate = (\<lambda>work base. bind_io (on_machine (check_format_unmigrated (engine K) work base)) (\<lambda>_.
        on_machine (check_hygiene work))),
      decide = decide_rebase changes (policy_of K),
      replay = (\<lambda>stale_work. bind_io (on_machine (discard stale_work)) (\<lambda>_. replay_onto_head K changes)),
      policy_for = lake_policy K,
      contents = (\<lambda>work. on_machine (read_file work))\<rparr>"

definition lake_commit :: "('s, 'e, 'v, 't) lake \<Rightarrow> environment \<Rightarrow> string \<Rightarrow> root_doc \<Rightarrow> 'v changeset \<Rightarrow> ('s, 'e) session \<Rightarrow>
    ((error + commit_result) \<times> ('s, 'e) session) option" where
  "lake_commit K env work base changes =
     run_commit (lake_lib K) (world_store (lake_store K)) env base work (lake_hooks K changes) (max_attempts_of K)"

text \<open>
  The part of \<^verbatim>\<open>transaction\<close> up to the commit, around the body of its \<^verbatim>\<open>with\<close> statement: the base, its work
  copy, the value of the body and the changeset.
\<close>

definition open_transaction_with :: "('s, 'e, 'v, 't) lake \<Rightarrow> (nat \<Rightarrow> (('s, 'e) session \<times> 'v changeset, 'a) io) \<Rightarrow>
    (('s, 'e) session, root_doc \<times> string \<times> 'a \<times> 'v changeset) io" where
  "open_transaction_with K with_transaction =
     bind_io (fetch_current_base K) (\<lambda>(base, work).
     bind_io (writable_copy K work (\<lambda>con. with_attr []
       (bind_io (with_transaction con) (\<lambda>x. bind_io get_attr (\<lambda>changes. ret (x, changes)))))) (\<lambda>(x, changes).
       ret (base, work, x, changes)))"

definition transaction_with :: "('s, 'e, 'v, 't) lake \<Rightarrow> environment \<Rightarrow> (nat \<Rightarrow> (('s, 'e) session \<times> 'v changeset, 'a) io) \<Rightarrow>
    ('s, 'e) session \<Rightarrow> ((error + 'a) \<times> ('s, 'e) session) option" where
  "transaction_with K env with_transaction w = (case open_transaction_with K with_transaction w of
     (Inl e, w') \<Rightarrow> Some (Inl e, w')
   | (Inr (base, work, x, changes), w') \<Rightarrow> (case lake_commit K env work base changes w' of
       None \<Rightarrow> None
     | Some (r, w'') \<Rightarrow> Some (map_sum id (\<lambda>_. x) r, snd (on_machine (discard work) w''))))"

text \<open>A body that is a client's code.\<close>

abbreviation open_transaction :: "('s, 'e, 'v, 't) lake \<Rightarrow> ('v, 'a) client \<Rightarrow> (('s, 'e) session, root_doc \<times> string \<times> 'a \<times> 'v changeset) io" where
  "open_transaction K client \<equiv> open_transaction_with K (\<lambda>con. run_client K con client)"

definition transaction :: "('s, 'e, 'v, 't) lake \<Rightarrow> environment \<Rightarrow> ('v, 'a) client \<Rightarrow> ('s, 'e) session \<Rightarrow>
    ((error + 'a) \<times> ('s, 'e) session) option" where
  "transaction K env client = transaction_with K env (\<lambda>con. run_client K con client)"

section \<open>Bootstrap\<close>

definition bootstrap_path :: "string \<Rightarrow> uuid \<Rightarrow> string" where
  "bootstrap_path workdir u = in_dir workdir (''bootstrap-'' @ uuid_str u @ ''.duckdb'')"

definition bootstrap_lake :: "('s, 'e, 'v, 't) lake \<Rightarrow> uuid \<times> uuid \<times> uuid \<Rightarrow> environment \<Rightarrow> bool \<Rightarrow> (('s, 'e) session, root_doc) io" where
  "bootstrap_lake K probes env verify_backend =
     (case probes of (u, v, w) \<Rightarrow>
     bind_io (if verify_backend then on_world (require_atomic_create (lake_store K) u v w) else ret ()) (\<lambda>_.
     let the_uuid = uuid4 env 0; catalog = bootstrap_path (work_dir K) the_uuid in
     bind_io (on_machine (lake_connection (engine K) catalog (Some (data_path_of K)) False (credentials K))) (\<lambda>con.
     bind_io (on_machine (lake_close (engine K) con)) (\<lambda>_.
     bind_io (finally_io
       (bind_io (publish_generation (lake_store K) catalog 0 the_uuid) (\<lambda>_.
        bind_io (on_machine (file_size catalog)) (\<lambda>n.
        bind_io (on_machine (probe_ducklake_format_version (engine K) catalog)) (\<lambda>format.
        let doc = \<lparr>generation = 0, payload_uuid = the_uuid, created_at = now env 0, writer = writer_info_of env,
                   pins = [(PIN_DUCKDB_VERSION, duck_version (engine K)), (PIN_DUCKLAKE_FORMAT, format)],
                   transport_of = Whole, payload_size = n\<rparr> in
        bind_io (on_world (create_marker_resolving (lake_lib K) (lake_store K) doc the_uuid 0 (max_attempts_of K))) (\<lambda>out. case out of
            WON \<Rightarrow> ret (True, doc)
          | LOST \<Rightarrow> bind_io (on_world (read_marker (lake_lib K) (lake_store K) 0)) (\<lambda>d. ret (False, d))
          | ABSENT \<Rightarrow> raise PyAssertionError)))))
       (on_machine (discard catalog))) (\<lambda>(won, doc).
     bind_io (if won then on_world (write_hint (lake_lib K) (lake_store K) 0) else ret ()) (\<lambda>_. ret doc))))))"

section \<open>Reading\<close>

definition scratch :: "('s, 'e, 'v, 't) lake \<Rightarrow> (nat \<Rightarrow> (('s, 'e) session, 'a) io) \<Rightarrow> (('s, 'e) session, 'a) io" where
  "scratch K with_connection =
     bind_io (fetch_current_base K) (\<lambda>(_, work).
     bind_io (try_io (on_machine (lake_connection (engine K) work (Some (data_path_of K)) False (credentials K)))) (\<lambda>r. case r of
         Inl e \<Rightarrow> bind_io (on_machine (discard work)) (\<lambda>_. raise e)
       | Inr con \<Rightarrow> finally_io (with_connection con)
           (bind_io (on_machine (lake_abandon (engine K) con)) (\<lambda>_. on_machine (discard work)))))"

datatype stream = NoStream | Stream | AutoStream

definition stream_store :: "('s, 'e, 'v, 't) lake \<Rightarrow> stream \<Rightarrow> ('s, (key \<Rightarrow> string) option) io" where
  "stream_store K mode =
     (if mode = NoStream then ret None
      else case uri_of K of
        None \<Rightarrow> (if mode = Stream then raise ExternalServiceError else ret None)
      | Some uri \<Rightarrow>
          (if credentials K = None then (if mode = Stream then raise ExternalServiceError else ret None)
           else bind_io (resolve_head (lake_lib K) (lake_store K)) (\<lambda>(base, g).
             if transport_of base \<noteq> Whole then (if mode = Stream then raise ExternalServiceError else ret None)
             else if mode = Stream then ret (Some uri)
             else ret (if payload_size base \<ge> STREAM_MIN_BYTES then Some uri else None))))"

fun open_streaming :: "('s, 'e, 'v, 't) lake \<Rightarrow> (key \<Rightarrow> string) \<Rightarrow> nat \<Rightarrow> (('s, 'e) session, nat) io" where
  "open_streaming K uri 0 = raise ExternalServiceError"
| "open_streaming K uri (Suc n) =
     bind_io (on_world (resolve_head (lake_lib K) (lake_store K))) (\<lambda>(base, g).
     bind_io (lift_io (check_versions (engine K) base)) (\<lambda>_.
       if transport_of base \<noteq> Whole then raise ExternalServiceError
       else bind_io (lift_io (format_payload_key (generation base) (payload_uuid base))) (\<lambda>k.
         bind_io (try_io (on_machine (lake_connection (engine K) (uri k) None True (credentials K)))) (\<lambda>r. case r of
             Inr con \<Rightarrow> ret con
           | Inl e \<Rightarrow> (if e = ExternalServiceError then open_streaming K uri n else raise e)))))"

definition open_streaming_reader :: "('s, 'e, 'v, 't) lake \<Rightarrow> (key \<Rightarrow> string) \<Rightarrow> (('s, 'e) session, nat) io" where
  "open_streaming_reader K uri = open_streaming K uri (nat (max_attempts_of K))"

definition read_lake :: "('s, 'e, 'v, 't) lake \<Rightarrow> stream \<Rightarrow> (nat \<Rightarrow> (('s, 'e) session, 'a) io) \<Rightarrow> (('s, 'e) session, 'a) io" where
  "read_lake K mode with_connection =
     bind_io (on_world (stream_store K mode)) (\<lambda>how. case how of
         Some uri \<Rightarrow> bind_io (open_streaming_reader K uri) (\<lambda>con.
           finally_io (with_connection con) (on_machine (lake_abandon (engine K) con)))
       | None \<Rightarrow>
         bind_io (fetch_current_base K) (\<lambda>(_, path).
         bind_io (try_io (on_machine (lake_connection (engine K) path None True (credentials K)))) (\<lambda>r. case r of
             Inl e \<Rightarrow> bind_io (on_machine (discard path)) (\<lambda>_. raise e)
           | Inr con \<Rightarrow> finally_io (with_connection con)
               (bind_io (on_machine (lake_abandon (engine K) con)) (\<lambda>_. on_machine (discard path))))))"

end
