(* ===== verification/Session_Safety.thy ===== *)
theory Session_Safety
  imports Lake_Session
begin

text \<open>
  The hooks of a lake meet the interface of the commit driver on every store of the contract, so what the
  driver guarantees holds of \<^verbatim>\<open>Lake.transaction\<close>, against rivals and faults.
\<close>

section \<open>What a session does to its store\<close>

text \<open>
  Up to the commit a session only reads the store: whatever relation \<open>R\<close> the reads keep, it keeps. The relation
  is \<open>evolves\<close> on a shared bucket and equality in memory.
\<close>

locale lake_reader = reader R S for R :: "'s \<Rightarrow> 's \<Rightarrow> bool" and S :: "'s store" +
  assumes guar_meta [guar_intros]: "guar R (head_meta S k)"
begin

abbreviation RW :: "'s \<times> 't \<Rightarrow> 's \<times> 't \<Rightarrow> bool" where
  "RW p q \<equiv> R (fst p) (fst q)"

lemma guar_manifest [guar_intros]: "guar R (load_manifest L S k)"
  unfolding load_manifest_def by (auto intro!: guar_intros)

lemma guar_fetch_pack [guar_intros]: "guar R (fetch_pack L S sha)"
  unfolding fetch_pack_def by (auto intro!: guar_intros)

lemma guar_cut_piece [guar_intros]: "guar R (cut_piece b e)"
  unfolding cut_piece_def by (auto simp: Let_def intro!: guar_intros)

lemma guar_write_entries [guar_intros]: "guar R (write_entries L S position limit bodies es back_ref out)"
  by (induction es arbitrary: back_ref out) (auto intro!: guar_intros split: option.splits)

lemma guar_write_windows [guar_intros]: "guar R (write_windows L S position start ws es back_ref out)"
  by (induction ws arbitrary: start es back_ref out) (auto intro!: guar_intros split: prod.splits)

lemma guar_reconstruct [guar_intros]: "guar R (reconstruct L S M)"
  unfolding reconstruct_def by (auto intro!: guar_intros split: prod.splits)

lemma guar_machine: "guar RW (on_machine c)"
  and guar_cache: "guar RW get_cache" "guar RW (set_cache p)"
  by (auto simp: guar_def on_machine_def get_cache_def set_cache_def R_refl split: prod.splits)

lemmas guar_session = guar_world guar_machine guar_cache

lemma guar_evict: "guar RW (evict ps)"
  by (induction ps) (simp_all only: evict.simps, auto intro!: guar_session)

lemma guar_fetch_pristine: "guar RW (fetch_pristine L S k d dest)"
  unfolding fetch_pristine_def reconstruct_to_def
  by (cases "transport_of d") (auto intro!: guar_session guar_intros split: sum.splits)

lemma guar_fetch_copy: "guar RW (fetch_copy L S W fresh d)"
  unfolding fetch_copy_def cached_def
  by (auto intro!: guar_session guar_evict guar_fetch_pristine split: option.splits)

lemma guar_fetch_base:
  assumes "lake_store K = S"
  shows "guar RW (fetch_base K n)"
proof (induction n)
  case (Suc n)
  note [simp] = assms
  from Suc show ?case
    by (auto intro!: guar_session reader_resolve_head guar_fetch_copy split: sum.splits prod.splits)
qed (simp only: fetch_base.simps, intro guar_session)

lemma guar_current_base: "lake_store K = S \<Longrightarrow> guar RW (fetch_current_base K)"
  unfolding fetch_current_base_def by (rule guar_fetch_base)

lemma guar_writable_copy:
  assumes "\<And>con. guar RW (with_connection con)"
  shows "guar RW (writable_copy K work with_connection)"
  unfolding writable_copy_def by (auto intro!: guar_session assms split: sum.splits)

lemma guar_statements: "guar RW (for_io changes (\<lambda>stmt. bind_io (on_machine (f stmt)) (\<lambda>_. ret ())))"
  by (intro guar_session)

lemma guar_replay:
  assumes "lake_store K = S"
  shows "guar RW (replay_onto_head K changes)"
  unfolding replay_onto_head_def using guar_current_base [OF assms]
  by (auto intro!: guar_session guar_writable_copy guar_statements split: prod.splits)

lemma guar_lake_policy:
  assumes "lake_store K = S"
  shows "guar RW (lake_policy K base)"
proof -
  note [simp] = assms
  show ?thesis unfolding lake_policy_def by (auto intro!: guar_session guar_intros)
qed

lemmas guar_inner = step_relation.guar_world [OF step_relation_world]

lemma guar_client: "guar (\<lambda>p q. RW (fst p) (fst q)) (run_client K con client)"
proof (induction client)
  case (Sql q args cont)
  then show ?case
    by (auto simp: transaction_sql_def intro!: guar_inner guar_machine)
next
  case (Return x)
  show ?case unfolding run_client.simps by (rule guar_inner)
next
  case (Throw e)
  show ?case unfolding run_client.simps by (rule guar_inner)
qed

lemma guar_body_copy:
  assumes "\<And>con. guar (\<lambda>p q. RW (fst p) (fst q)) (inside con)"
  shows "guar RW (writable_copy K work (\<lambda>con. with_attr [] (bind_io (inside con) (\<lambda>x. bind_io get_attr (\<lambda>changes. ret (x, changes))))))"
  by (intro guar_writable_copy step_relation.guar_with_attr [OF step_relation_world] guar_inner assms)

lemma guar_open_with:
  assumes "lake_store K = S" and "\<And>con. guar (\<lambda>p q. RW (fst p) (fst q)) (inside con)"
  shows "guar RW (open_transaction_with K inside)"
  unfolding open_transaction_with_def using guar_current_base [OF assms(1)]
  by (auto intro!: guar_session guar_body_copy assms(2) split: prod.splits)

lemma guar_open_transaction: "lake_store K = S \<Longrightarrow> guar RW (open_transaction K client)"
  by (rule guar_open_with [OF _ guar_client])

end

interpretation mem_session: lake_reader "(=)" mem_store
  by unfold_locales (auto simp: mem_store_def mem_head_meta_def guar_def split: option.splits)

section \<open>The hooks meet the contract\<close>

context object_store
begin

sublocale session: lake_reader evolves S
  by unfold_locales (rule guar_get guar_head)+

lemma reads: "lake_reader evolves S"
  by (rule session.lake_reader_axioms)

abbreviation world_evolves :: "'s \<times> 't \<Rightarrow> 's \<times> 't \<Rightarrow> bool" where
  "world_evolves p q \<equiv> evolves (fst p) (fst q)"

text \<open>\<open>ours K\<close>: the lake uses this library and this store.\<close>

abbreviation ours :: "('s, 'e, 'v, 't) lake \<Rightarrow> bool" where
  "ours K \<equiv> lake_lib K = L \<and> lake_store K = S"

lemma world: "object_store L (world_store S) (\<lambda>p. objs (fst p))"
proof (unfold_locales, goal_cases)
  case (1 k s r s')
  then show ?case using get_law [of k "fst s" r "fst s'"] by (auto simp: world_store_def on_world_iff)
next
  case (2 k s r s')
  then show ?case using head_law [of k "fst s" r "fst s'"] by (auto simp: world_store_def on_world_iff)
next
  case (3 k a n s r s')
  then show ?case using range_law [of k a n "fst s" r "fst s'"] by (auto simp: world_store_def on_world_iff)
next
  case (4 p s r s')
  then show ?case using list_law [of p "fst s" r "fst s'"] by (auto simp: world_store_def on_world_iff)
next
  case (5 p s r s')
  then show ?case using metas_law [of p "fst s" r "fst s'"] by (auto simp: world_store_def on_world_iff)
next
  case (6 k b s q s')
  then show ?case using create_law [of k b "fst s" q "fst s'"] by (auto simp: world_store_def on_world_iff)
next
  case (7 k b s q s')
  then show ?case using put_law [of k b "fst s" q "fst s'"] by (auto simp: world_store_def on_world_iff)
next
  case (8 k b t s q s')
  then show ?case using match_law [of k b t "fst s" q "fst s'"] by (auto simp: world_store_def on_world_iff)
next
  case (9 k s q s')
  then show ?case using delete_law [of k "fst s" q "fst s'"] by (auto simp: world_store_def on_world_iff)
qed

lemma fetch_base_marked:
  assumes "ours K" and "lake_ok L (objs (fst w))" and "fetch_base K n w = (Inr (base, work), w')"
  shows "marker_at L (objs (fst w')) (generation base) base"
  using assms(2,3)
proof (induction n arbitrary: w)
  case (Suc n)
  from Suc.prems(2) assms(1) obtain d g v where head: "resolve_head L S (fst w) = (Inr (d, g), v)" "check_versions (engine K) d = Inr ()"
    and rest: "bind_io (try_io (fetch_copy L S (work_dir K) (fresh_uuid K) d)) (\<lambda>r. case r of
         Inr path \<Rightarrow> ret (d, path)
       | Inl e \<Rightarrow> (if e = ObjectNotFoundError then fetch_base K n else raise e)) (v, snd w) = (Inr (base, work), w')"
    by (auto simp: io_simps)
  from resolve_head_law [OF head(1) Suc.prems(1)] have st: "evolves (fst w) v" and at: "marker_at L (objs v) g d" by auto
  obtain r u where copy: "fetch_copy L S (work_dir K) (fresh_uuid K) d (v, snd w) = (r, u)" by (metis surj_pair)
  have vu: "evolves v (fst u)" using guarD [OF session.guar_fetch_copy copy] by simp
  show ?case
  proof (cases r)
    case (Inr path)
    with rest copy have "base = d" "w' = u" by auto
    with at vu show ?thesis by (auto dest: evolves_marker_at marker_at_generation)
  next
    case (Inl e)
    with rest copy have "fetch_base K n u = (Inr (base, work), w')" by (auto split: if_splits)
    moreover have "lake_ok L (objs (fst u))" using st vu Suc.prems(1) evolves_lake_ok by blast
    ultimately show ?thesis by (rule Suc.IH [rotated])
  qed
qed simp

lemma replay_marked:
  assumes "ours K" and "lake_ok L (objs (fst w))" and "replay_onto_head K changes w = (Inr (base, work), w')"
  shows "marker_at L (objs (fst w')) (generation base) base"
proof -
  from assms(3) obtain u x where base: "fetch_current_base K w = (Inr (base, work), u)"
    and copy: "writable_copy K work (\<lambda>con. for_io changes (\<lambda>stmt.
       bind_io (on_machine (lake_execute (engine K) con (sql stmt) (params stmt))) (\<lambda>_. ret ()))) u = (Inr x, w')"
    by (auto simp: replay_onto_head_def io_simps)
  have "evolves (fst u) (fst w')"
    by (rule guarD [OF session.guar_writable_copy copy]) (rule session.guar_statements)
  with fetch_base_marked [OF assms(1,2) base [unfolded fetch_current_base_def]] show ?thesis
    by (auto dest: evolves_marker_at)
qed

lemma lake_context:
  assumes "ours K"
  shows "commit_context L (world_store S) (\<lambda>p. objs (fst p)) (lake_hooks K changes)"
proof (intro commit_context.intro commit_context_axioms.intro world)
  fix work base
  show "guar world_evolves (validate (lake_hooks K changes) work base)"
    by (simp add: lake_hooks_def) (intro session.guar_session)
  show "guar world_evolves (policy_for (lake_hooks K changes) base)"
    using session.guar_lake_policy [OF assms [THEN conjunct2]] by (simp add: lake_hooks_def)
  show "guar world_evolves (contents (lake_hooks K changes) work)"
    by (simp add: lake_hooks_def) (intro session.guar_session)
  show "guar world_evolves (replay (lake_hooks K changes) work)"
    by (simp add: lake_hooks_def) (intro session.guar_session session.guar_replay assms [THEN conjunct2])
next
  fix work s b w s'
  assume "replay (lake_hooks K changes) work s = (Inr (b, w), s')" and ok: "lake_ok L (objs (fst s))"
  then obtain u where "fst u = fst s" "replay_onto_head K changes u = (Inr (b, w), s')"
    by (auto simp: lake_hooks_def io_simps)
  with replay_marked [OF assms, of u] ok show "marker_at L (objs (fst s')) (generation b) b" by simp
qed

lemma open_transaction_law:
  assumes "ours K" and "\<And>con. guar (\<lambda>p q. world_evolves (fst p) (fst q)) (inside con)"
    and "lake_ok L (objs (fst w))" and "open_transaction_with K inside w = (r, w')"
  shows "world_evolves w w' \<and> (case r of
      Inl e \<Rightarrow> True
    | Inr (base, work, x, changes) \<Rightarrow> marker_at L (objs (fst w')) (generation base) base)"
proof -
  let ?body = "\<lambda>con. with_attr [] (bind_io (inside con) (\<lambda>x. bind_io get_attr (\<lambda>changes. ret (x, changes))))"
  obtain q u where q: "fetch_current_base K w = (q, u)" by (metis surj_pair)
  have wu: "world_evolves w u" using guarD [OF session.guar_current_base [OF assms(1) [THEN conjunct2]] q] .
  show ?thesis
  proof (cases q)
    case (Inl e)
    with assms(4) q wu show ?thesis by (auto simp: open_transaction_with_def)
  next
    case (Inr y)
    then obtain base work where y: "q = Inr (base, work)" by (cases y) auto
    have at: "marker_at L (objs (fst u)) (generation base) base"
      using fetch_base_marked [OF assms(1,3) q [unfolded y fetch_current_base_def]] .
    obtain c v where c: "writable_copy K work ?body u = (c, v)" by (metis surj_pair)
    have uv: "world_evolves u v" by (rule guarD [OF session.guar_body_copy [OF assms(2)] c])
    then have "world_evolves w v" using wu heap_evolves_trans by blast
    moreover have "marker_at L (objs (fst v)) (generation base) base" using at uv by (blast intro: evolves_marker_at)
    ultimately show ?thesis
      using assms(4) q y c by (cases c) (auto simp: open_transaction_with_def)
  qed
qed

end

text \<open>The bucket with faults and rivals, and the in-memory store.\<close>

interpretation net_lake: commit_context L "world_store (net_store L)" "\<lambda>p. net_objs (fst p)"
    "lake_hooks (K\<lparr>lake_lib := L, lake_store := net_store L\<rparr>) changes" for L K changes
  by (rule net.lake_context) simp

interpretation mem_lake: commit_context L "world_store mem_store" "\<lambda>p. mem_objs (fst p)"
    "lake_hooks (K\<lparr>lake_lib := L, lake_store := mem_store\<rparr>) changes" for L K changes
  by (rule mem.lake_context) simp

section \<open>A transaction has landed\<close>

lemma try_create_marker_uuid:
  assumes "try_create_marker L S d u a m s = (Inr (Some res), s')"
  shows "result_uuid res = u"
proof -
  from assms obtain out t where "create_marker_resolving L S d u a m s = (Inr out, t)"
    by (auto simp: try_create_marker_def io_simps)
  with assms show ?thesis by (cases out) (auto simp: try_create_marker_def io_simps)
qed

lemma create_and_rebase_uuid:
  assumes "create_and_rebase L S ctx m d work a s = (Inr (Committed res), s')"
  shows "result_uuid res = payload_uuid d"
proof -
  from assms obtain result t where r: "try_create_marker L S d (payload_uuid d) a m s = (Inr result, t)"
    by (auto simp: create_and_rebase_def io_simps)
  with assms show ?thesis
    by (cases result; cases "decide ctx (a + 1) m")
      (auto simp: create_and_rebase_def io_simps dest: try_create_marker_uuid split: if_splits)
qed

lemma advance_uuid:
  assumes "advance L S env ctx m base work a s = (Inr (Committed res), s')"
  shows "result_uuid res = uuid4 env a"
proof -
  from assms obtain t policy t' data t'' out u where
    "validate ctx work base s = (Inr (), t)" "policy_for ctx base t = (Inr policy, t')" "contents ctx work t' = (Inr data, t'')"
    "publish_resolved L S data (generation base + 1) (uuid4 env a) a m policy t'' = (Inr out, u)"
    by (auto simp: advance_def io_simps)
  with assms show ?thesis
    by (cases out) (auto simp: advance_def next_doc_def dest!: create_and_rebase_uuid split: if_splits)
qed

lemma run_commit_uuid:
  assumes "run_commit L S env base work ctx m s = Some (Inr res, s')"
  shows "\<exists>i. result_uuid res = uuid4 env i"
proof -
  have "step = advance L S env ctx m \<longrightarrow> (\<forall>res s'. y = (Inr res, s') \<longrightarrow> (case ph of Committed res' \<Rightarrow> res' = res | _ \<Rightarrow> \<exists>i. result_uuid res = uuid4 env i))"
    if "run_phases step ph s = Some y" for step ph s y
    using that
  proof (rule run_phases.raw_induct [rotated])
    fix rec step ph s y
    assume ih: "\<And>step ph s y. rec step ph s = Some y \<Longrightarrow> step = advance L S env ctx m \<longrightarrow>
        (\<forall>res s'. y = (Inr res, s') \<longrightarrow> (case ph of Committed res' \<Rightarrow> res' = res | _ \<Rightarrow> \<exists>i. result_uuid res = uuid4 env i))"
      and run: "(case ph of
     Attempt base work attempt \<Rightarrow>
       (case step base work attempt s of (r, s') \<Rightarrow>
         (case r of Inl e \<Rightarrow> Some (Inl e, s') | Inr ph' \<Rightarrow> rec step ph' s'))
   | Committed res \<Rightarrow> Some (Inr res, s)
   | Aborted reason \<Rightarrow> Some (Inl (ConflictAbortError reason), s)) = Some y"
    show "step = advance L S env ctx m \<longrightarrow> (\<forall>res s'. y = (Inr res, s') \<longrightarrow>
        (case ph of Committed res' \<Rightarrow> res' = res | _ \<Rightarrow> \<exists>i. result_uuid res = uuid4 env i))"
    proof (cases ph)
      case (Attempt base work a)
      show ?thesis
      proof (intro impI allI)
        fix res s'
        assume step: "step = advance L S env ctx m" and y: "y = (Inr res, s')"
        obtain r t where r: "advance L S env ctx m base work a s = (r, t)" by (metis surj_pair)
        with run Attempt step y obtain ph' where ph': "r = Inr ph'" "rec step ph' t = Some (Inr res, s')"
          by (auto split: sum.splits)
        from ih [OF ph'(2)] step have "case ph' of Committed res' \<Rightarrow> res' = res | _ \<Rightarrow> \<exists>i. result_uuid res = uuid4 env i" by blast
        with r ph'(1) Attempt show "case ph of Committed res' \<Rightarrow> res' = res | _ \<Rightarrow> \<exists>i. result_uuid res = uuid4 env i"
          by (cases ph') (auto dest: advance_uuid)
      qed
    qed (use run in auto)
  qed
  from this [OF assms [unfolded run_commit_def]] show ?thesis by auto
qed

lemma transaction_with_lands:
  assumes "object_store L S objs" and "lib_ok L" and "lake_lib K = L" and "lake_store K = S" and "lake_ok L (objs (fst w))"
    and "\<And>con. guar (\<lambda>p q. heap_evolves L (objs (fst (fst p))) (objs (fst (fst q)))) (inside con)"
    and "transaction_with K env inside w = Some (Inr x, w')"
  shows "(\<exists>g i d. marker_at L (objs (fst w')) g d \<and> payload_uuid d = uuid4 env i \<and>
      (\<exists>h. heap_evolves L (objs (fst w)) h \<and> h (payload_key_text g (uuid4 env i)) \<noteq> None \<and> heap_evolves L h (objs (fst w')))) \<and>
    lake_ok L (objs (fst w')) \<and> (\<forall>g d. marker_at L (objs (fst w)) g d \<longrightarrow> marker_at L (objs (fst w')) g d)"
proof -
  have ours: "lake_lib K = L \<and> lake_store K = S" using assms(3,4) by simp
  from assms(7) obtain base work y changes u where
    opened: "open_transaction_with K inside w = (Inr (base, work, y, changes), u)"
    by (auto simp: transaction_with_def split: prod.splits sum.splits)
  note law = object_store.open_transaction_law [OF assms(1) ours assms(6,5) opened, simplified]
  obtain r v where commit: "lake_commit K env work base changes u = Some (r, v)"
    using assms(7) opened by (cases "lake_commit K env work base changes u") (auto simp: transaction_with_def)
  then obtain res where res: "r = Inr res" and w': "fst w' = fst v"
    using assms(7) opened by (cases r) (auto simp: transaction_with_def on_machine_def split: prod.splits)
  have run: "run_commit L (world_store S) env base work (lake_hooks K changes) (max_attempts_of K) u = Some (Inr res, v)"
    using commit res ours by (simp add: lake_commit_def)
  note ctx = object_store.lake_context [OF assms(1) ours, of changes]
  have u: "lake_ok L (objs (fst u))" "marker_at L (objs (fst u)) (generation base) base"
    and wu: "heap_evolves L (objs (fst w)) (objs (fst u))"
    using law evolves_lake_ok [OF _ assms(5)] by auto
  from commit_context.run_commit_law [OF ctx assms(2) u run]
  have uv: "heap_evolves L (objs (fst u)) (objs (fst v))"
    and "commit_context.landed L (\<lambda>p. objs (fst p)) u res v" by simp_all
  then obtain d h where "marker_at L (objs (fst v)) (result_generation res) d" "payload_uuid d = result_uuid res"
    "heap_evolves L (objs (fst u)) h" "h (payload_key_text (result_generation res) (result_uuid res)) \<noteq> None"
    "heap_evolves L h (objs (fst v))"
    unfolding commit_context.landed_def [OF ctx] by blast
  moreover obtain i where "result_uuid res = uuid4 env i" using run_commit_uuid [OF run] by blast
  moreover have wv: "heap_evolves L (objs (fst w)) (objs (fst v))" using wu uv by (rule heap_evolves_trans)
  ultimately have "marker_at L (objs (fst v)) (result_generation res) d \<and> payload_uuid d = uuid4 env i \<and>
      heap_evolves L (objs (fst w)) h \<and> h (payload_key_text (result_generation res) (uuid4 env i)) \<noteq> None \<and>
      heap_evolves L h (objs (fst v))"
    using heap_evolves_trans [OF wu] by simp
  then show ?thesis
    unfolding w' using evolves_lake_ok [OF wv assms(5)] evolves_marker_at [OF wv] by blast
qed

text \<open>
  Claim C4. A transaction that returns to its caller has committed, on every store of the contract (the shared
  bucket with rivals and faults is one), however often it was replayed: there is a generation whose marker
  carries one of the uuids this transaction drew, its payload was in the store at a moment of the call, the
  lake is still dense and readable, and no marker was changed.
\<close>
theorem transaction_has_landed:
  assumes "object_store L S objs" and "lib_ok L" and "lake_lib K = L" and "lake_store K = S" and "lake_ok L (objs (fst w))"
    and "transaction K env client w = Some (Inr x, w')"
  shows "(\<exists>g i d. marker_at L (objs (fst w')) g d \<and> payload_uuid d = uuid4 env i \<and>
      (\<exists>h. heap_evolves L (objs (fst w)) h \<and> h (payload_key_text g (uuid4 env i)) \<noteq> None \<and> heap_evolves L h (objs (fst w')))) \<and>
    lake_ok L (objs (fst w')) \<and> (\<forall>g d. marker_at L (objs (fst w)) g d \<longrightarrow> marker_at L (objs (fst w')) g d)"
  using transaction_with_lands [OF assms(1-5) _ assms(6) [unfolded transaction_def]]
    lake_reader.guar_client [OF object_store.reads [OF assms(1)], of K] by blast

end
