(* ===== verification/Session_Refinement.thy ===== *)
theory Session_Refinement
  imports Session_Safety
begin

text \<open>
  What a transaction does to the list of versions, when it is refused, and what it leaves behind.
\<close>

section \<open>Hygiene\<close>

text \<open>A catalog that may be published: no sidecar, not too large, a DuckDB file.\<close>

definition clean_file :: "(string \<Rightarrow> bytes option) \<Rightarrow> string \<Rightarrow> bytes \<Rightarrow> bool" where
  "clean_file fs f data \<longleftrightarrow> fs f = Some data \<and> fs (f @ ''.wal'') = None \<and> fs (f @ ''.tmp'') = None \<and>
     int (length data) \<le> MAX_CATALOG_BYTES \<and> take 4 (drop 8 data) = ''DUCK''"

lemma check_hygiene_run:
  "check_hygiene f m =
     (if files m (f @ ''.wal'') \<noteq> None \<or> files m (f @ ''.tmp'') \<noteq> None then Inl CatalogHygieneError
      else case files m f of
        None \<Rightarrow> Inl PyFileNotFoundError
      | Some data \<Rightarrow> if clean_file (files m) f data then Inr () else Inl CatalogHygieneError, m)"
proof -
  have header: "drop 8 (take 12 data) = take 4 (drop 8 data)" for data :: bytes
    by (simp add: drop_take)
  show ?thesis
    by (cases "files m f")
      (auto simp: check_hygiene_def file_size_def bind_io_def clean_file_def MAGIC_def MAGIC_OFFSET_def header)
qed

section \<open>The base in memory\<close>

lemma fetch_base_mem:
  assumes "lake_lib K = L" and "lake_store K = mem_store" and "resolve_head L mem_store m = (Inr (d, g), m)"
    and "fetch_base K n (m, l) = (Inr (base, work), w')"
  shows "base = d \<and> check_versions (engine K) d = Inr ()"
  using assms(4)
proof (induction n arbitrary: l)
  case (Suc n)
  obtain r u where copy: "fetch_copy L mem_store (work_dir K) (fresh_uuid K) d (m, l) = (r, u)" by (metis surj_pair)
  have u: "fst u = m" using guarD [OF mem_session.guar_fetch_copy copy] by simp
  have ok: "check_versions (engine K) d = Inr ()"
    using Suc.prems assms(1-3) by (cases "check_versions (engine K) d") auto
  have rest: "bind_io (try_io (fetch_copy L mem_store (work_dir K) (fresh_uuid K) d)) (\<lambda>r. case r of
         Inr path \<Rightarrow> ret (d, path)
       | Inl e \<Rightarrow> (if e = ObjectNotFoundError then fetch_base K n else raise e)) (m, l) = (Inr (base, work), w')"
    using Suc.prems assms(1-3) ok by (simp add: bind_lift)
  show ?case
  proof (cases r)
    case (Inl e)
    with rest copy have "fetch_base K n u = (Inr (base, work), w')" by (auto split: if_splits)
    with Suc.IH u show ?thesis by (metis prod.collapse)
  next
    case (Inr path)
    with rest copy ok show ?thesis by simp
  qed
qed simp

lemma open_transaction_mem:
  assumes "lake_lib K = L" and "lake_store K = mem_store" and "resolve_head L mem_store m = (Inr (d, g), m)"
    and "open_transaction K client (m, l) = (Inr (base, work, x, changes), (m', l'))"
  shows "m' = m \<and> base = d"
proof -
  have "m' = m" using guarD [OF mem_session.guar_open_transaction [OF assms(2)] assms(4)] by simp
  moreover from assms(4) obtain u where "fetch_current_base K (m, l) = (Inr (base, work), u)"
    by (auto simp: open_transaction_with_def io_simps)
  from fetch_base_mem [OF assms(1-3) this [unfolded fetch_current_base_def]] have "base = d" by simp
  ultimately show ?thesis by simp
qed

lemma lake_policy_mem:
  assumes "lake_lib K = L" and "lake_store K = mem_store"
    and "payload_holds L U (mem_objs m) d data" and "valid_generation (generation d)"
  shows "lake_policy K d (m, l) =
    (Inr \<lparr>chunk_threshold = threshold_of K, base_manifest = stored_manifest L (mem_objs m) d, pack_target = DEFAULT_PACK_TARGET\<rparr>, (m, l))"
proof (cases "transport_of d")
  case Chunked
  with assms(3) obtain M where M: "stored_manifest L (mem_objs m) d = Some M"
    by (auto simp: payload_holds_def split: option.splits)
  from load_manifest_mem [OF M] Chunked assms M show ?thesis
    by (simp add: lake_policy_def payload_key_def bind_lift del: stem_key)
qed (simp add: lake_policy_def stored_manifest_def)

section \<open>Starting from the last version\<close>

text \<open>
  Without rivals the first round finds the head, its payload is there, and the work copy is a copy of the last
  version; nothing else on the machine has changed but the cache.
\<close>

lemma fetch_current_base_mem:
  assumes "lake_lib K = L" and "lake_store K = mem_store" and "0 < max_attempts_of K"
    and "versions_at L U (mem_objs m) vs" and "vs \<noteq> []" and "length vs \<le> 4116480"
    and "marker_at L (mem_objs m) (int (length vs) - 1) d" and "check_versions (engine K) d = Inr ()"
    and "serves L U content (mem_objs m)" and "cache_inv (work_dir K) content ps (files mc)"
  shows "\<exists>u mc' ps'. u \<in> range (fresh_uuid K) \<and>
    fetch_current_base K (m, mc, ps) = (Inr (d, work_path (work_dir K) u), (m, mc', ps')) \<and>
    duck mc' = duck mc \<and> cache_inv (work_dir K) content ps' (files mc') \<and>
    files mc' (work_path (work_dir K) u) = Some (List.last vs) \<and>
    (\<forall>f. f \<noteq> work_path (work_dir K) u \<longrightarrow> f \<notin> range (cache_file (work_dir K)) \<longrightarrow> files mc' f = files mc f)"
proof -
  from versions_head [OF assms(4-6)] obtain d' where d': "resolve_head L mem_store m = (Inr (d', generation d'), m)"
    "generation d' = int (length vs) - 1" "marker_at L (mem_objs m) (generation d') d'" "payload_holds L U (mem_objs m) d' (List.last vs)"
    by blast
  with assms(7) have d: "d' = d" by (auto dest: marker_at_unique)
  note d' = d' [unfolded d]
  have v: "valid_generation (generation d)" using d'(3) by (auto dest: marker_at_generation)
  have packs: "packs_in L U (mem_objs m)" using assms(4) by (simp add: versions_at_def)
  have there: "mem_objs m (PAYLOAD_PREFIX @ stem d) \<noteq> None"
    using d'(4) by (auto simp: payload_holds_def stored_manifest_def split: transport.splits option.splits)
  with assms(9) d'(3) have "payload_holds L U (mem_objs m) d (content (PAYLOAD_PREFIX @ stem d))" by (auto simp: serves_def)
  with d'(4) have last: "content (PAYLOAD_PREFIX @ stem d) = List.last vs" by (blast intro: payload_holds_unique)
  obtain r m' mc' ps' where run: "fetch_copy L mem_store (work_dir K) (fresh_uuid K) d (m, mc, ps) = (r, (m', mc', ps'))"
    using prod_cases4 by blast
  note copied = fetch_copy_mem [OF assms(10,9) d'(3) run]
  with there obtain f where r: "r = Inr f" by (cases r) auto
  with copied obtain u where u: "u \<in> range (fresh_uuid K)" "f = work_path (work_dir K) u"
    "fetched (work_dir K) content (stem d) u (files mc) (files mc')" and rest: "m' = m" "duck mc' = duck mc"
    "cache_inv (work_dir K) content ps' (files mc')" by auto
  obtain n where "nat (max_attempts_of K) = Suc n" using assms(3) by (cases "nat (max_attempts_of K)") auto
  then have "fetch_current_base K (m, mc, ps) = (Inr (d, f), (m, mc', ps'))"
    using run r rest(1) d'(1) assms(1,2,8) by (simp add: fetch_current_base_def bind_lift)
  with u rest last show ?thesis by (auto simp: fetched_def)
qed

section \<open>A transaction appends\<close>

lemma validate_run:
  assumes "probe_ducklake_format_version (engine K) work mc = (Inr format, mc')"
  shows "validate (lake_hooks K changes) work base (s, mc, ps) =
    (if Some format \<noteq> map_of (pins base) PIN_DUCKLAKE_FORMAT then Inl VersionMismatchError
     else fst (check_hygiene work mc'), (s, mc', ps))"
proof -
  have "check_format_unmigrated (engine K) work base mc =
      (if Some format \<noteq> map_of (pins base) PIN_DUCKLAKE_FORMAT then Inl VersionMismatchError else Inr (), mc')"
    using assms by (simp add: check_format_unmigrated_def)
  then show ?thesis by (auto simp: lake_hooks_def bind_io_def on_machine_def check_hygiene_run)
qed

lemma transaction_mem:
  assumes "lib_ok L" and "inj_on (sha256 L) U" and "lake_lib K = L" and "lake_store K = mem_store"
    and "versions_at L U (mem_objs m) vs" and "vs \<noteq> []" and "length vs \<le> 4116480"
    and "open_transaction K client (m, mc, ps) = (Inr (base, work, x, changes), (m1, mc1, ps1))"
    and "probe_ducklake_format_version (engine K) work mc1 = (Inr format, mc2)"
    and "map_of (pins base) PIN_DUCKLAKE_FORMAT = Some format" and "clean_file (files mc2) work data"
    and "write_fits L U (stored_manifest L (mem_objs m) base) (threshold_of K) data"
    and "mem_objs m (payload_key_text (int (length vs)) (uuid4 env 0)) = None"
  shows "\<exists>m' mc' ps'. transaction K env client (m, mc, ps) = Some (Inr x, (m', mc', ps')) \<and>
    versions_at L U (mem_objs m') (vs @ [data]) \<and> files mc' work = None"
proof -
  let ?h = "lake_hooks K changes" and ?S = "world_store mem_store" and ?mx = "max_attempts_of K" and ?u = "uuid4 env 0"
    and ?n = "int (length vs)"
  from versions_head [OF assms(5-7)] obtain d where d: "resolve_head L mem_store m = (Inr (d, generation d), m)"
    "generation d = ?n - 1" "marker_at L (mem_objs m) (generation d) d" "payload_holds L U (mem_objs m) d (List.last vs)" by blast
  from open_transaction_mem [OF assms(3,4) d(1) assms(8)] have m1: "m1 = m" and base: "base = d" by auto
  have at: "marker_at L (mem_objs m) (?n - 1) base" using d base by simp
  have "valid_generation (generation base)" using d(3) base by (auto dest: marker_at_generation)
  note pol = lake_policy_mem [OF assms(3,4) d(4) [folded base] this]
  from first_attempt_mem [OF assms(1,2,5-7) at assms(12,13), of ?mx] obtain out tr m2 m4 where
    out: "(out = PublishedWhole (int (length data)) \<and> tr = Whole) \<or> (out = PublishedChunked (int (length data)) \<and> tr = Chunked)"
    and run: "publish_resolved L mem_store data (generation base + 1) ?u 0 ?mx
       \<lparr>chunk_threshold = threshold_of K, base_manifest = stored_manifest L (mem_objs m) base, pack_target = DEFAULT_PACK_TARGET\<rparr> m = (Inr out, m2)"
      "try_create_marker L mem_store (next_doc env base 0 tr (int (length data))) ?u 0 ?mx m2 =
         (Inr (Some \<lparr>result_generation = ?n, result_uuid = ?u, attempts = 1\<rparr>), m4)"
    and res: "versions_at L U (mem_objs m4) (vs @ [data])" by blast
  let ?nd = "next_doc env base 0 tr (int (length data))"
  note lifted_run [OF world.sim_publish_resolved run(1), of "(mc2, ps1)"] and won = lifted_run [OF world.sim_try_create run(2), of "(mc2, ps1)"]
  moreover have "payload_uuid ?nd = ?u" by (simp add: next_doc_def)
  with won have "create_and_rebase L ?S ?h ?mx ?nd work 0 (m2, mc2, ps1) =
      (Inr (Committed \<lparr>result_generation = ?n, result_uuid = ?u, attempts = 1\<rparr>), (m4, mc2, ps1))"
    by (simp add: create_and_rebase_def)
  moreover have "validate ?h work base (m, mc1, ps1) = (Inr (), (m, mc2, ps1))"
    using validate_run [OF assms(9), of changes base m ps1] assms(10,11) by (simp add: check_hygiene_run clean_file_def)
  moreover have "policy_for ?h base = lake_policy K base" "contents ?h work = on_machine (read_file work)"
    by (simp_all add: lake_hooks_def)
  moreover have "read_file work mc2 = (Inr data, mc2)" using assms(11) by (simp add: clean_file_def)
  ultimately have "advance L ?S env ?h ?mx base work 0 (m, mc1, ps1) =
      (Inr (Committed \<lparr>result_generation = ?n, result_uuid = ?u, attempts = 1\<rparr>), (m4, mc2, ps1))"
    using out pol [of "(mc2, ps1)"] by (auto simp: advance_def)
  then have "lake_commit K env work base changes (m, mc1, ps1) =
      Some (Inr \<lparr>result_generation = ?n, result_uuid = ?u, attempts = 1\<rparr>, (m4, mc2, ps1))"
    by (simp add: lake_commit_def run_commit_def assms(3,4))
  then show ?thesis
    using assms(8) res by (auto simp: transaction_def transaction_with_def m1 discard_def)
qed

text \<open>
  Claim C3. A transaction appends the catalog it leaves: on an undisturbed lake that stands for the versions
  \<open>vs\<close>, if the client's statements ran on the private copy and left a clean catalog \<open>data\<close> of the lake's
  format, then \<^verbatim>\<open>transaction\<close> returns the client's value, the lake stands for \<open>vs @ [data]\<close>, whole or chunked by
  the threshold, and the work copy is gone.
\<close>
theorem transaction_appends_a_version:  assumes "lib_ok L" and "inj_on (sha256 L) U" and "lake_lib K = L" and "lake_store K = mem_store"
    and "versions_at L U (mem_objs m) vs" and "vs \<noteq> []" and "length vs \<le> 4116480"
    and "open_transaction K client (m, mc, ps) = (Inr (base, work, x, changes), (m1, mc1, ps1))"
    and "probe_ducklake_format_version (engine K) work mc1 = (Inr format, mc2)"
    and "map_of (pins base) PIN_DUCKLAKE_FORMAT = Some format" and "clean_file (files mc2) work data"
    and "write_fits L U (stored_manifest L (mem_objs m) base) (threshold_of K) data"
    and "mem_objs m (payload_key_text (int (length vs)) (uuid4 env 0)) = None"
  shows "\<exists>m' mc' ps'. transaction K env client (m, mc, ps) = Some (Inr x, (m', mc', ps')) \<and>
    versions_at L U (mem_objs m') (vs @ [data]) \<and> files mc' work = None"
  using transaction_mem [OF assms] .

section \<open>Bootstrap\<close>

text \<open>What DuckDB does when a lake is created: \<open>attached\<close> from \<open>mc\<close> to \<open>mc'\<close> leaves the file \<open>data\<close> of format \<open>format\<close>.\<close>

definition creates :: "('s, 'e, 'v, 't) lake \<Rightarrow> string \<Rightarrow> 'e machine \<Rightarrow> bytes \<Rightarrow> string \<Rightarrow> 'e machine \<Rightarrow> bool" where
  "creates K f mc data format mc' \<longleftrightarrow> (\<exists>con mc1 mc2.
     lake_connection (engine K) f (Some (data_path_of K)) False (credentials K) mc = (Inr con, mc1) \<and>
     lake_close (engine K) con mc1 = (Inr (), mc2) \<and> clean_file (files mc2) f data \<and>
     probe_ducklake_format_version (engine K) f mc2 = (Inr format, mc'))"

definition lake_pins :: "('s, 'e, 'v, 't) lake \<Rightarrow> string \<Rightarrow> (string \<times> string) list" where
  "lake_pins K format = [(PIN_DUCKDB_VERSION, duck_version (engine K)), (PIN_DUCKLAKE_FORMAT, format)]"

lemma bootstrap_lake_mem:
  assumes ok: "lib_ok L" and K: "lake_lib K = L" "lake_store K = mem_store" and vs: "versions_at L U (mem_objs m) []"
    and fresh: "mem_objs m (payload_key_text 0 (uuid4 env 0)) = None"
    and made: "creates K (bootstrap_path (work_dir K) (uuid4 env 0)) mc data format mc'"
  shows "\<exists>d m'. bootstrap_lake K probes env False (m, mc, ps) =
      (Inr d, (m', snd (discard (bootstrap_path (work_dir K) (uuid4 env 0)) mc'), ps)) \<and>
    marker_at L (mem_objs m') 0 d \<and> pins d = lake_pins K format \<and> payload_uuid d = uuid4 env 0 \<and>
    versions_at L U (mem_objs m') [data]"
proof -
  let ?f = "bootstrap_path (work_dir K) (uuid4 env 0)" and ?mx = "max_attempts_of K"
  let ?d = "\<lparr>generation = 0, payload_uuid = uuid4 env 0, created_at = now env 0, writer = writer_info_of env,
                pins = lake_pins K format, transport_of = Whole, payload_size = int (length data)\<rparr>"
  from made obtain con mc1 mc2 where duck:
    "lake_connection (engine K) ?f (Some (data_path_of K)) False (credentials K) mc = (Inr con, mc1)"
    "lake_close (engine K) con mc1 = (Inr (), mc2)" "clean_file (files mc2) ?f data"
    "probe_ducklake_format_version (engine K) ?f mc2 = (Inr format, mc')" by (auto simp: creates_def)
  from duck(3) have cat: "files mc2 ?f = Some data" and clean: "check_hygiene ?f mc2 = (Inr (), mc2)"
    by (auto simp: clean_file_def check_hygiene_run)
  have v: "valid_generation 0" by (simp add: valid_generation_def MAX_GENERATION_def)
  then have dv: "doc_valid ?d"
    by (simp add: doc_valid_def lake_pins_def PIN_DUCKDB_VERSION_def PIN_DUCKLAKE_FORMAT_def)
  have "packs_in L U (mem_objs m)" using vs by (simp add: versions_at_def)
  moreover have "packs_grow m m" "same_but_packs m m" by (simp_all add: packs_grow_def same_but_packs_def)
  moreover have "staged L U (mem_objs m) data (PublishedWhole (int (length data))) data" by (simp add: staged_def)
  ultimately have "\<exists>tag m2 m3 m4. put_if_absent mem_store (payload_key_text 0 (uuid4 env 0)) data m = (Inr tag, m2) \<and>
    create_marker_resolving L mem_store ?d (uuid4 env 0) 0 ?mx m2 = (Inr WON, m3) \<and>
    write_hint L mem_store 0 m3 = (Inr (), m4) \<and> versions_at L U (mem_objs m4) ([] @ [data]) \<and>
    marker_at L (mem_objs m4) 0 ?d"
    using land_mem [OF ok vs, of m data "PublishedWhole (int (length data))" data ?d "uuid4 env 0" 0 ?mx] dv fresh by simp
  then obtain tag m2 m3 m4 where put: "put_if_absent mem_store (payload_key_text 0 (uuid4 env 0)) data m = (Inr tag, m2)"
    and won: "create_marker_resolving L mem_store ?d (uuid4 env 0) 0 ?mx m2 = (Inr WON, m3)"
    and hint: "write_hint L mem_store 0 m3 = (Inr (), m4)"
    and res: "versions_at L U (mem_objs m4) [data]" "marker_at L (mem_objs m4) 0 ?d" by auto
  have publish: "publish_generation mem_store ?f 0 (uuid4 env 0) (m, mc2, ps) = (Inr tag, (m2, mc2, ps))"
    using clean cat put v by (simp add: publish_generation_def)
  have "file_size ?f mc2 = (Inr (int (length data)), mc2)" using cat by (simp add: file_size_def)
  then have "bootstrap_lake K probes env False (m, mc, ps) = (Inr ?d, (m4, snd (discard ?f mc'), ps))"
    using duck(1,2,4) publish won hint K by (cases probes) (simp add: bootstrap_lake_def Let_def lake_pins_def discard_def finally_io_def)
  with res show ?thesis by auto
qed

text \<open>
  \<^verbatim>\<open>bootstrap\<close> on a prefix without markers succeeds when DuckDB creates a clean catalog \<open>data\<close>: the
  document it returns is the marker of generation 0 and pins the two versions, the lake stands for the single
  version \<open>data\<close>, and the file and its log are gone from the work directory.
\<close>
theorem bootstrap_lake_starts_the_lake:
  assumes "lib_ok L" and "lake_lib K = L" and "lake_store K = mem_store" and "versions_at L U (mem_objs m) []"
    and "mem_objs m (payload_key_text 0 (uuid4 env 0)) = None"
    and "f = bootstrap_path (work_dir K) (uuid4 env 0)" and "creates K f mc data format mc'"
  shows "\<exists>d m' mc''. bootstrap_lake K probes env False (m, mc, ps) = (Inr d, (m', mc'', ps)) \<and>
    marker_at L (mem_objs m') 0 d \<and> pins d = lake_pins K format \<and> versions_at L U (mem_objs m') [data] \<and>
    files mc'' f = None \<and> files mc'' (f @ ''.wal'') = None"
  using bootstrap_lake_mem [OF assms(1-5) assms(7) [unfolded assms(6)], of probes ps] assms(6) by (force simp: discard_def)

section \<open>Refusals\<close>

text \<open>
  Claim C18. Nothing dirty is published, on any store: if the file left by the client's statements has another
  DuckLake format than the lake pins, or a sidecar, or is too large, or is not a DuckDB file, the transaction
  raises \<^verbatim>\<open>VersionMismatchError\<close> or \<^verbatim>\<open>CatalogHygieneError\<close>, the store is exactly as it was before the commit, and
  the work copy is gone.
\<close>
theorem dirty_catalog_is_never_published:
  assumes "open_transaction K client w = (Inr (base, work, x, changes), (s, mc, ps))"
    and "probe_ducklake_format_version (engine K) work mc = (Inr format, mc')" and "files mc' work = Some data"
    and "map_of (pins base) PIN_DUCKLAKE_FORMAT \<noteq> Some format \<or> \<not> clean_file (files mc') work data"
  shows "\<exists>e mc''. transaction K env client w = Some (Inl e, (s, mc'', ps)) \<and>
    e \<in> {VersionMismatchError, CatalogHygieneError} \<and> files mc'' work = None"
proof -
  obtain e where e: "validate (lake_hooks K changes) work base (s, mc, ps) = (Inl e, (s, mc', ps))"
    "e \<in> {VersionMismatchError, CatalogHygieneError}"
  proof (cases "map_of (pins base) PIN_DUCKLAKE_FORMAT = Some format")
    case True
    with assms(3,4) have "fst (check_hygiene work mc') = Inl CatalogHygieneError" by (simp add: check_hygiene_run)
    with True validate_run [OF assms(2), of changes base s ps] that show ?thesis by simp
  next
    case False
    then have "Some format \<noteq> map_of (pins base) PIN_DUCKLAKE_FORMAT" by metis
    with validate_run [OF assms(2), of changes base s ps] that show ?thesis by simp
  qed
  then have "lake_commit K env work base changes (s, mc, ps) = Some (Inl e, (s, mc', ps))"
    by (simp add: lake_commit_def run_commit_def advance_def)
  with assms(1) e(2) show ?thesis by (auto simp: transaction_def transaction_with_def discard_def)
qed

section \<open>Replays\<close>

text \<open>Every statement of a changeset was classified when it was recorded.\<close>

lemma run_client_recorded:
  assumes "run_client K con client (w, c) = (r, (w', c'))"
    and "\<forall>st \<in> set c. classify (parser K) (sql st) = Inr (statement_class st)"
  shows "\<forall>st \<in> set c'. classify (parser K) (sql st) = Inr (statement_class st)"
  using assms
proof (induction client arbitrary: w c r w' c')
  case (Sql q args cont)
  obtain q' v c1 where run: "transaction_sql K con q args (w, c) = (q', (v, c1))" by (metis surj_pair)
  have c1: "\<forall>st \<in> set c1. classify (parser K) (sql st) = Inr (statement_class st)"
  proof (cases q')
    case (Inl e)
    with run Sql.prems(2) show ?thesis by (auto simp: transaction_sql_def io_simps)
  next
    case (Inr rows)
    with run obtain st where "record_statement (parser K) q args = Inr st" "c1 = c @ [st]"
      by (auto simp: transaction_sql_def io_simps)
    with Sql.prems(2) show ?thesis by (auto simp: record_statement_def split: sum.splits)
  qed
  have "run_client K con (cont q') (v, c1) = (r, (w', c'))" using Sql.prems(1) run by simp
  from Sql.IH [OF _ this c1] show ?case by simp
qed auto

lemma writable_copy_ran:
  assumes "writable_copy K work with_connection u = (Inr x, v)"
  shows "\<exists>con t t'. with_connection con t = (Inr x, t')"
proof -
  from assms obtain con t where con: "on_machine (lake_connection (engine K) work (Some (data_path_of K)) False (credentials K)) u = (Inr con, t)"
    by (auto simp: writable_copy_def io_simps)
  obtain r t' where body: "with_connection con t = (r, t')" by (metis surj_pair)
  with assms con have "r = Inr x" by (cases r) (auto simp: writable_copy_def io_simps)
  with body show ?thesis by blast
qed

lemma open_transaction_recorded:
  assumes "open_transaction K client w = (Inr (base, work, x, changes), w')"
  shows "\<forall>st \<in> set changes. classify (parser K) (sql st) = Inr (statement_class st)"
proof -
  from assms obtain u v where "writable_copy K work (\<lambda>con. with_attr []
       (bind_io (run_client K con client) (\<lambda>x. bind_io get_attr (\<lambda>changes. ret (x, changes))))) u = (Inr (x, changes), v)"
    by (auto simp: open_transaction_with_def io_simps)
  from writable_copy_ran [OF this] obtain con t t' where "run_client K con client (t, []) = (Inr x, (t', changes))"
    by (auto simp: io_simps)
  from run_client_recorded [OF this] show ?thesis by simp
qed

lemma hooks_decide: "decide (lake_hooks K changes) = decide_rebase changes (policy_of K)"
  by (simp add: lake_hooks_def)

text \<open>
  Claim C19. Only blind appends are replayed: under the default policy, a transaction that lost its race is
  re-executed on the new head exactly if attempts are left, it recorded something, and every statement it
  recorded is a single \<^verbatim>\<open>INSERT\<close> without upsert or \<^verbatim>\<open>RETURNING\<close> that calls nothing volatile, reads no table of the
  lake and no source but staged files.
\<close>
theorem replays_are_blind_appends:
  assumes "open_transaction K client w = (Inr (base, work, x, changes), w')" and "policy_of K = APPEND_ONLY_REPLAY"
  shows "decide (lake_hooks K changes) a m = Replay \<longleftrightarrow>
    a < m \<and> changes \<noteq> [] \<and> (\<forall>st \<in> set changes. blind_insert (parser K) (sql st))"
proof -
  note classed = open_transaction_recorded [OF assms(1)]
  have class_iff: "blind_insert (parser K) (sql st) \<longleftrightarrow> statement_class st \<notin> {DDL, STATE_DEPENDENT_DML, READ}"
    if "st \<in> set changes" for st
  proof -
    have "classify (parser K) (sql st) = Inr (statement_class st)" using classed that by blast
    with classify_never_volatile [of "parser K" "sql st"] classify_blind [of "parser K" "sql st"]
    show ?thesis by (cases "statement_class st") auto
  qed
  have "(\<forall>st \<in> set changes. blind_insert (parser K) (sql st)) \<longleftrightarrow>
      \<not> has_ddl changes \<and> \<not> has_state_dependent changes \<and> \<not> has_reads changes"
    using class_iff by (auto simp: has_ddl_def has_state_dependent_def has_reads_def list_ex_iff)
  then show ?thesis
    unfolding hooks_decide assms(2) by (auto simp: decide_rebase_def)
qed

end
