(* ===== verification/Session_Samples.thy ===== *)
theory Session_Samples
  imports Session_Refinement
begin

text \<open>
  A concrete lake, with a database that appends a byte per \<^verbatim>\<open>INSERT\<close> and a parser that knows this one
  statement: the hypotheses of the theorems about sessions can be met, by a lake that \<^verbatim>\<open>bootstrap\<close> made.
\<close>

section \<open>A database and a parser\<close>

definition toy_fresh :: bytes where
  "toy_fresh = ''00000000DUCK''"

text \<open>\<open>duck\<close> is the path of the attached catalog.\<close>

definition toy_execute :: "nat \<Rightarrow> string \<Rightarrow> string list \<Rightarrow> (string machine, string list list) io" where
  "toy_execute con q args m =
     (if q = probe_sql then (Inr [[''0.3'']], m)
      else if take 7 q = ''ATTACH '' then
        (let f = takeWhile (\<lambda>c. c \<noteq> CHR 0x27) (drop 17 q); b = (case files m f of None \<Rightarrow> toy_fresh | Some b \<Rightarrow> b) in
         (Inr [], m\<lparr>files := (files m)(f \<mapsto> b), duck := f\<rparr>))
      else if q = ''INSERT'' then (Inr [], m\<lparr>files := (files m)(duck m \<mapsto> the (files m (duck m)) @ ''+'')\<rparr>)
      else if q = ''TRUNCATE'' then (Inr [], m\<lparr>files := (files m)(duck m \<mapsto> [])\<rparr>)
      else (Inr [], m))"

definition toy_duckdb :: "(string, string) duckdb" where
  "toy_duckdb = \<lparr>duck_version = ''1.4'', duck_connect = ret 0, duck_open = (\<lambda>f ro. ret 0), duck_execute = toy_execute,
     duck_close = (\<lambda>con. ret ()), text_value = id, time_value = (\<lambda>t. ''''), value_str = id, value_int = (\<lambda>v. Inr 0)\<rparr>"

definition toy_parser :: "string sqlglot" where
  "toy_parser = \<lparr>parse_sql = (\<lambda>q. Some [Some q]), class_of = (\<lambda>q. if q = ''INSERT'' then Insert else OtherNode),
     find_funcs = (\<lambda>q. []), find_tables = (\<lambda>q. []), target_of = (\<lambda>q. None), as_table = (\<lambda>q. None), arg_set = (\<lambda>q a. False)\<rparr>"

definition toy_lake :: "(mem, string, string, string) lake" where
  "toy_lake = make_lake sample_lib mem_store None toy_duckdb toy_parser (\<lambda>_. 7) ''w'' ''data/'' APPEND_ONLY_REPLAY 5 None None"

lemma toy_lake_sel [simp]:
  "lake_lib toy_lake = sample_lib" "lake_store toy_lake = mem_store" "engine toy_lake = toy_duckdb"
  "parser toy_lake = toy_parser" "fresh_uuid toy_lake = (\<lambda>_. 7)" "work_dir toy_lake = ''w''"
  "policy_of toy_lake = APPEND_ONLY_REPLAY" "max_attempts_of toy_lake = 5" "credentials toy_lake = None"
  "threshold_of toy_lake = None"
  by (simp_all add: toy_lake_def make_lake_def)

lemma uuid_str_plain: "CHR 0x27 \<notin> set (uuid_str u)"
proof
  assume "CHR 0x27 \<in> set (uuid_str u)"
  then have "CHR 0x27 \<in> set (filter (\<lambda>c. c \<noteq> CHR ''-'') (uuid_str u))" by simp
  with match_hex_groups_parts [OF match_uuid_str [of u]] have "is_hex (CHR 0x27)"
    unfolding Let_def list_all_iff by blast
  then show False by (simp add: is_hex_def is_digit_def)
qed

lemma toy_path:
  assumes "CHR 0x27 \<notin> set f"
  shows "takeWhile (\<lambda>c. c \<noteq> CHR 0x27) (drop 17 (attach_sql f (Some p) False)) = f"
proof -
  have "takeWhile (\<lambda>c. c \<noteq> CHR 0x27) (f @ CHR 0x27 # rest) = f" for rest
    using assms by (subst takeWhile_append2) auto
  then show ?thesis by (simp add: attach_sql_def sql_quoted_def Let_def)
qed

section \<open>Connections\<close>

text \<open>Attaching creates a missing catalog; closing does nothing more; the probe answers at once.\<close>

definition attached :: "string \<Rightarrow> string machine \<Rightarrow> string machine" where
  "attached f m = m\<lparr>files := (files m)(f \<mapsto> (case files m f of None \<Rightarrow> toy_fresh | Some b \<Rightarrow> b)), duck := f\<rparr>"

lemma toy_connection:
  assumes "CHR 0x27 \<notin> set f"
  shows "lake_connection toy_duckdb f (Some p) False None m = (Inr 0, attached f m)"
proof -
  have "attach_sql f (Some p) False \<noteq> probe_sql" "take 7 (attach_sql f (Some p) False) = ''ATTACH ''"
    by (simp_all add: attach_sql_def probe_sql_def)
  with toy_path [OF assms, of p]
  have "toy_execute 0 (attach_sql f (Some p) False) [] m = (Inr [], attached f m)"
    by (simp add: toy_execute_def attached_def Let_def)
  moreover have "toy_execute con ''INSTALL ducklake; LOAD ducklake;'' [] m = (Inr [], m)"
    "toy_execute con ''USE lake'' [] m = (Inr [], m)" for con m
    by (simp_all add: toy_execute_def probe_sql_def)
  ultimately show ?thesis by (simp add: lake_connection_def toy_duckdb_def)
qed

lemma toy_close: "lake_close toy_duckdb con m = (Inr (), m)"
  by (simp add: lake_close_def finally_io_def map_duck_error_def toy_duckdb_def toy_execute_def probe_sql_def)

lemma toy_probe: "probe_ducklake_format_version toy_duckdb f m = (Inr ''0.3'', m)"
  by (simp add: probe_ducklake_format_version_def finally_io_def map_duck_error_def toy_duckdb_def toy_execute_def first_column_def)

section \<open>A bootstrapped lake\<close>

definition toy_machine :: "string machine" where
  "toy_machine = \<lparr>files = (\<lambda>_. None), duck = []\<rparr>"

lemma plain_paths: "CHR 0x27 \<notin> set (bootstrap_path ''w'' u)" "CHR 0x27 \<notin> set (work_path ''w'' u)"
  by (simp_all add: bootstrap_path_def work_path_def in_dir_def uuid_str_plain)

lemma toy_fresh_clean: "files m f = Some toy_fresh \<Longrightarrow> files m (f @ ''.wal'') = None \<Longrightarrow> files m (f @ ''.tmp'') = None \<Longrightarrow>
    clean_file (files m) f toy_fresh"
  by (simp add: clean_file_def toy_fresh_def MAX_CATALOG_BYTES_def)

lemma toy_creates: "creates toy_lake (bootstrap_path ''w'' u) toy_machine toy_fresh ''0.3'' (attached (bootstrap_path ''w'' u) toy_machine)"
  unfolding creates_def
  by (simp add: toy_connection plain_paths toy_close toy_probe)
    (rule toy_fresh_clean; simp add: attached_def toy_machine_def)

theorem bootstrap_lake_starts_the_lake_witness:
  "\<exists>d m' mc''. bootstrap_lake toy_lake (1, 2, 3) sample_env False (empty_mem, toy_machine, []) = (Inr d, (m', mc'', [])) \<and>
     map_of (pins d) PIN_DUCKLAKE_FORMAT = Some ''0.3'' \<and> versions_at sample_lib short (mem_objs m') [toy_fresh]"
proof -
  let ?f = "bootstrap_path (work_dir toy_lake) (uuid4 sample_env 0)"
  have "creates toy_lake ?f toy_machine toy_fresh ''0.3'' (attached ?f toy_machine)" using toy_creates by simp
  from bootstrap_lake_starts_the_lake [OF sample_lib_ok toy_lake_sel(1,2) versions_empty [of sample_lib short] _ refl this, of "(1, 2, 3)" "[]"]
  show ?thesis by (force simp: lake_pins_def PIN_DUCKDB_VERSION_def PIN_DUCKLAKE_FORMAT_def)
qed

text \<open>The same lake, written down.\<close>

definition toy_doc :: root_doc where
  "toy_doc = (sample_doc 0 10)\<lparr>pins := lake_pins toy_lake ''0.3''\<rparr>"

definition toy_store :: mem where
  "toy_store = snd (mem_write (payload_key_text 0 10) toy_fresh (add_marker toy_doc empty_mem))"

lemma toy_doc_sel [simp]: "generation toy_doc = 0" "payload_uuid toy_doc = 10" "transport_of toy_doc = Whole"
    "pins toy_doc = lake_pins toy_lake ''0.3''"
  by (simp_all add: toy_doc_def)

lemma toy_doc_valid: "doc_valid toy_doc"
  by (simp add: doc_valid_def toy_doc_def sample_doc_def lake_pins_def PIN_DUCKDB_VERSION_def PIN_DUCKLAKE_FORMAT_def
      valid_generation_def MAX_GENERATION_def)

lemma toy_store_facts:
  shows "versions_at sample_lib short (mem_objs toy_store) [toy_fresh]"
    and "marker_at sample_lib (mem_objs toy_store) 0 toy_doc"
    and "mem_objs toy_store (payload_key_text 1 u) = None"
proof -
  let ?k = "payload_key_text 0 10" and ?mk = "marker_key_text 0"
  from mem_write_objs [of ?k toy_fresh "add_marker toy_doc empty_mem"] obtain ob where ob: "ob_body ob = toy_fresh"
    "mem_objs toy_store = (mem_objs (add_marker toy_doc empty_mem))(?k \<mapsto> ob)"
    by (force simp: toy_store_def mem_write_run)
  have v: "valid_generation 0" by (simp add: valid_generation_def MAX_GENERATION_def)
  have km: "?mk \<noteq> payload_key_text g u" for g u using prefix_roots_marker payload_key_not_roots by metis
  show at: "marker_at sample_lib (mem_objs toy_store) 0 toy_doc"
    using root_doc_roundtrip_lemma [OF sample_lib_ok toy_doc_valid] km v
    by (simp add: marker_at_def ob add_marker_objs)
  have "has_marker (mem_objs toy_store) g \<longleftrightarrow> 0 \<le> g \<and> g < 1" for g
  proof (cases "valid_generation g")
    case True
    then have "marker_key_text g = ?mk \<longleftrightarrow> g = 0" by (simp add: valid_generation_def)
    moreover have "marker_key_text g \<noteq> ?k" using prefix_roots_marker payload_key_not_roots by metis
    ultimately show ?thesis using True by (auto simp: has_marker_def ob add_marker_objs valid_generation_def)
  next
    case False
    then show ?thesis by (auto simp: has_marker_def valid_generation_def MAX_GENERATION_def)
  qed
  moreover have "packs_in sample_lib short (mem_objs toy_store)"
    by (simp add: packs_in_def pack_of_def ob add_marker_objs)
  moreover have "payload_holds sample_lib short (mem_objs toy_store) toy_doc toy_fresh"
    by (simp add: payload_holds_def ob)
  ultimately show "versions_at sample_lib short (mem_objs toy_store) [toy_fresh]"
    using at by (auto simp: versions_at_def)
  show "mem_objs toy_store (payload_key_text 1 u) = None"
    using km by (simp add: ob(2) sample_next_key add_marker_objs)
qed

section \<open>A transaction of one statement\<close>

definition toy_client :: "string \<Rightarrow> (string, unit) client" where
  "toy_client q = Sql q [] (\<lambda>_. Return ())"

definition toy_outcome :: "string \<Rightarrow> bytes" where
  "toy_outcome q = (if q = ''INSERT'' then toy_fresh @ ''+'' else [])"

lemma toy_serves: "serves sample_lib short (\<lambda>_. toy_fresh) (mem_objs toy_store)"
  using toy_store_facts(1) by (rule versions_serve) simp

lemma toy_versions: "check_versions toy_duckdb toy_doc = Inr ()"
  by (simp add: check_versions_def lake_pins_def toy_duckdb_def)

lemma toy_runs:
  assumes "q \<in> {''INSERT'', ''TRUNCATE''}" and "files m (duck m) = Some toy_fresh"
  shows "toy_execute con q [] m = (Inr [], m\<lparr>files := (files m)(duck m \<mapsto> toy_outcome q)\<rparr>)"
  using assms by (auto simp: toy_execute_def probe_sql_def toy_outcome_def)

lemma toy_records:
  assumes "q \<in> {''INSERT'', ''TRUNCATE''}"
  shows "\<exists>c. record_statement toy_parser q [] = Inr \<lparr>sql = q, params = [], statement_class = c\<rparr>"
proof -
  have "classify toy_parser ''INSERT'' = Inr BLIND_APPEND"
    unfolding classify_blind by (simp add: blind_insert_def toy_parser_def)
  moreover have "classify toy_parser ''TRUNCATE'' = Inr STATE_DEPENDENT_DML"
    by (simp add: classify_def classify_tree_def toy_parser_def function_names_def)
  ultimately show ?thesis using assms by (auto simp: record_statement_def)
qed

lemma toy_open:
  assumes q: "q \<in> {''INSERT'', ''TRUNCATE''}"
  shows "\<exists>mc ps c. open_transaction toy_lake (toy_client q) (toy_store, toy_machine, []) =
      (Inr (toy_doc, work_path ''w'' 7, (), [\<lparr>sql = q, params = [], statement_class = c\<rparr>]), (toy_store, mc, ps)) \<and>
    files mc (work_path ''w'' 7) = Some (toy_outcome q) \<and> files mc (work_path ''w'' 7 @ ''.wal'') = None \<and>
    files mc (work_path ''w'' 7 @ ''.tmp'') = None"
proof -
  let ?f = "work_path ''w'' 7"
  have "cache_inv ''w'' (\<lambda>_. toy_fresh) [] (files toy_machine)" by (simp add: cache_inv_def toy_machine_def)
  with fetch_current_base_mem [OF toy_lake_sel(1,2) _ toy_store_facts(1) _ _ _ _ toy_serves, of toy_doc "[]" toy_machine]
  obtain mc1 ps1 where base: "fetch_current_base toy_lake (toy_store, toy_machine, []) = (Inr (toy_doc, ?f), (toy_store, mc1, ps1))"
    "files mc1 ?f = Some toy_fresh" "\<forall>f. f \<noteq> ?f \<longrightarrow> f \<notin> range (cache_file ''w'') \<longrightarrow> files mc1 f = files toy_machine f"
    using toy_store_facts(2) toy_versions by auto
  have old: "files mc1 (?f @ s) = None" if "s \<noteq> []" for s
    using base(3) that work_not_cache(2) [of "''w''" 7 s] by (auto simp: toy_machine_def)
  let ?mc = "attached ?f mc1" let ?mc2 = "?mc\<lparr>files := (files ?mc)(?f \<mapsto> toy_outcome q)\<rparr>"
  obtain c where c: "record_statement toy_parser q ([] :: string list) = Inr \<lparr>sql = q, params = [], statement_class = c\<rparr>"
    using toy_records [OF q] by blast
  have "files ?mc (duck ?mc) = Some toy_fresh" using base(2) by (simp add: attached_def)
  from toy_runs [OF q this] have "toy_execute 0 q [] ?mc = (Inr [], ?mc2)" by (simp add: attached_def)
  then have "lake_execute toy_duckdb 0 q [] ?mc = (Inr [], ?mc2)"
    by (simp add: lake_execute_def map_duck_error_def toy_duckdb_def)
  with c have "transaction_sql toy_lake 0 q [] ((toy_store, ?mc, ps1), []) =
      (Inr [], ((toy_store, ?mc2, ps1), [\<lparr>sql = q, params = [], statement_class = c\<rparr>]))"
    by (simp add: transaction_sql_def)
  then have "with_attr [] (bind_io (run_client toy_lake 0 (toy_client q)) (\<lambda>x. bind_io get_attr (\<lambda>changes. ret (x, changes))))
      (toy_store, ?mc, ps1) = (Inr ((), [\<lparr>sql = q, params = [], statement_class = c\<rparr>]), (toy_store, ?mc2, ps1))"
    by (simp add: with_attr_def toy_client_def try_io_def)
  then have "open_transaction toy_lake (toy_client q) (toy_store, toy_machine, []) =
      (Inr (toy_doc, ?f, (), [\<lparr>sql = q, params = [], statement_class = c\<rparr>]), (toy_store, ?mc2, ps1))"
    using base(1) by (simp add: open_transaction_with_def writable_copy_def toy_connection plain_paths toy_close)
  with old [of "''.wal''"] old [of "''.tmp''"] show ?thesis by (simp add: attached_def)
qed

lemma toy_insert:
  obtains mc ps c where "open_transaction toy_lake (toy_client ''INSERT'') (toy_store, toy_machine, []) =
      (Inr (toy_doc, work_path ''w'' 7, (), [\<lparr>sql = ''INSERT'', params = [], statement_class = c\<rparr>]), (toy_store, mc, ps))"
    "clean_file (files mc) (work_path ''w'' 7) (toy_fresh @ ''+'')"
proof -
  obtain mc ps c where run: "open_transaction toy_lake (toy_client ''INSERT'') (toy_store, toy_machine, []) =
      (Inr (toy_doc, work_path ''w'' 7, (), [\<lparr>sql = ''INSERT'', params = [], statement_class = c\<rparr>]), (toy_store, mc, ps))"
    "files mc (work_path ''w'' 7) = Some (toy_outcome ''INSERT'')" "files mc (work_path ''w'' 7 @ ''.wal'') = None"
    "files mc (work_path ''w'' 7 @ ''.tmp'') = None" using toy_open [of "''INSERT''"] by auto
  then have "clean_file (files mc) (work_path ''w'' 7) (toy_fresh @ ''+'')"
    by (simp add: clean_file_def toy_fresh_def toy_outcome_def MAX_CATALOG_BYTES_def)
  with run(1) that show thesis by blast
qed

lemma toy_format: "map_of (pins toy_doc) PIN_DUCKLAKE_FORMAT = Some ''0.3''"
  by (simp add: lake_pins_def PIN_DUCKDB_VERSION_def PIN_DUCKLAKE_FORMAT_def)

lemma toy_transaction:
  "\<exists>w'. transaction toy_lake sample_env (toy_client ''INSERT'') (toy_store, toy_machine, []) = Some (Inr (), w')"
proof -
  obtain mc ps c where run: "open_transaction toy_lake (toy_client ''INSERT'') (toy_store, toy_machine, []) =
      (Inr (toy_doc, work_path ''w'' 7, (), [\<lparr>sql = ''INSERT'', params = [], statement_class = c\<rparr>]), (toy_store, mc, ps))"
    and clean: "clean_file (files mc) (work_path ''w'' 7) (toy_fresh @ ''+'')" by (rule toy_insert)
  from transaction_mem [OF sample_lib_ok short_inj toy_lake_sel(1,2) toy_store_facts(1) _ _ run _ toy_format clean]
  show ?thesis by (simp add: toy_probe toy_store_facts write_fits_def stored_manifest_def) metis
qed

theorem transaction_appends_a_version_witness:
  "\<exists>m' mc' ps'. transaction toy_lake sample_env (toy_client ''INSERT'') (toy_store, toy_machine, []) = Some (Inr (), (m', mc', ps')) \<and>
     versions_at sample_lib short (mem_objs m') [toy_fresh, toy_fresh @ ''+'']"
proof -
  obtain mc ps c where run: "open_transaction toy_lake (toy_client ''INSERT'') (toy_store, toy_machine, []) =
      (Inr (toy_doc, work_path ''w'' 7, (), [\<lparr>sql = ''INSERT'', params = [], statement_class = c\<rparr>]), (toy_store, mc, ps))"
    and clean: "clean_file (files mc) (work_path ''w'' 7) (toy_fresh @ ''+'')" by (rule toy_insert)
  from transaction_appends_a_version [OF sample_lib_ok short_inj toy_lake_sel(1,2) toy_store_facts(1) _ _ run _ toy_format clean]
  show ?thesis by (simp add: toy_probe toy_store_facts write_fits_def stored_manifest_def) metis
qed

theorem dirty_catalog_is_never_published_witness:
  "\<exists>e mc ps. transaction toy_lake sample_env (toy_client ''TRUNCATE'') (toy_store, toy_machine, []) = Some (Inl e, (toy_store, mc, ps)) \<and>
     e \<in> {VersionMismatchError, CatalogHygieneError}"
proof -
  obtain mc ps c where run: "open_transaction toy_lake (toy_client ''TRUNCATE'') (toy_store, toy_machine, []) =
      (Inr (toy_doc, work_path ''w'' 7, (), [\<lparr>sql = ''TRUNCATE'', params = [], statement_class = c\<rparr>]), (toy_store, mc, ps))"
    "files mc (work_path ''w'' 7) = Some (toy_outcome ''TRUNCATE'')" using toy_open [of "''TRUNCATE''"] by auto
  have "\<not> clean_file (files mc) (work_path ''w'' 7) (toy_outcome ''TRUNCATE'')"
    by (simp add: clean_file_def toy_outcome_def)
  with dirty_catalog_is_never_published [OF run(1) _ run(2)] toy_probe show ?thesis by fastforce
qed

theorem replays_are_blind_appends_witness:
  "\<exists>base work changes w'. open_transaction toy_lake (toy_client ''INSERT'') (toy_store, toy_machine, []) = (Inr (base, work, (), changes), w') \<and>
     decide (lake_hooks toy_lake changes) 1 5 = Replay"
proof -
  obtain mc ps c where run: "open_transaction toy_lake (toy_client ''INSERT'') (toy_store, toy_machine, []) =
      (Inr (toy_doc, work_path ''w'' 7, (), [\<lparr>sql = ''INSERT'', params = [], statement_class = c\<rparr>]), (toy_store, mc, ps))"
    using toy_open [of "''INSERT''"] by auto
  have "blind_insert toy_parser ''INSERT''" by (simp add: blind_insert_def toy_parser_def)
  with replays_are_blind_appends [OF run, of 1 5] run show ?thesis by simp
qed

theorem transaction_has_landed_witness:
  "\<exists>w'. transaction toy_lake sample_env (toy_client ''INSERT'') (toy_store, toy_machine, []) = Some (Inr (), w') \<and>
     lake_ok sample_lib (mem_objs (fst w')) \<and> (\<exists>g d. marker_at sample_lib (mem_objs (fst w')) g d \<and> payload_uuid d \<in> range (uuid4 sample_env))"
proof -
  obtain w' where run: "transaction toy_lake sample_env (toy_client ''INSERT'') (toy_store, toy_machine, []) = Some (Inr (), w')"
    using toy_transaction by blast
  have "lake_ok sample_lib (mem_objs (fst (toy_store, toy_machine, [] :: pristine)))"
    using versions_lake_ok [OF toy_store_facts(1)] by simp
  from transaction_has_landed [OF mem.object_store_axioms sample_lib_ok toy_lake_sel(1,2) this run] run show ?thesis by blast
qed

end
