(* ===== verification/Session_Reads.thy ===== *)
theory Session_Reads
  imports Session_Samples
begin

text \<open>
  The head a session works on is well typed on any store; what a reader sees; what happens when the versions do
  not match or the catalog cannot be attached.
\<close>

section \<open>The type of a resolved head\<close>

abbreviation yields :: "('s, 'a) io \<Rightarrow> ('a \<Rightarrow> bool) \<Rightarrow> bool" where
  "yields m F \<equiv> triple (\<lambda>_. True) m F"

lemma yields_any: "yields m (\<lambda>_. True)"
  by (simp add: triple_def)

lemma read_marker_typed: "lib_ok L \<Longrightarrow> yields (read_marker L S g) (\<lambda>d. doc_valid d \<and> generation d = g)"
  unfolding read_marker_def
  by (intro triple_then [OF yields_any] triple_option triple_raise triple_if triple_ret)
     (auto dest: root_from_json_bytes_valid)

lemma forward_probe_typed:
  assumes "lib_ok L"
  shows "doc_valid doc \<Longrightarrow> generation doc = g \<Longrightarrow>
    yields (forward_probe L S n doc g step) (\<lambda>(d, h). doc_valid d \<and> generation d = h)"
proof (induction n arbitrary: doc g step)
  case (Suc n)
  have "yields (forward_probe L S n nxt (g + step) (min (step * 2) GALLOP_CAP)) (\<lambda>(d, h). doc_valid d \<and> generation d = h)"
    if "doc_valid nxt \<and> generation nxt = g + step" for nxt
    using Suc.IH that by blast
  then show ?case
    unfolding forward_probe.simps Let_def
    by (intro triple_if triple_bind [OF triple_try [OF read_marker_typed [OF assms]]] triple_sum triple_raise triple_ret Suc.IH Suc.prems)
       (auto simp: Suc.prems)
qed (simp add: triple_ret)

lemma gallop_discover_typed: "lib_ok L \<Longrightarrow> yields (gallop_discover L S) doc_valid"
  unfolding gallop_discover_def
  by (rule triple_bind [OF triple_try [OF read_marker_typed]])
     (auto intro!: triple_raise triple_sum triple_then yields_any triple_if triple_ret
        intro: triple_weaken [OF read_marker_typed] split: prod.splits)

lemma head_start_typed: "lib_ok L \<Longrightarrow> yields (head_start L S hint) doc_valid"
  unfolding head_start_def
  by (auto intro!: triple_option gallop_discover_typed triple_bind [OF triple_try [OF read_marker_typed]] triple_sum
      triple_if triple_raise triple_ret)

text \<open>
  Claim C24. A resolved head is well typed, on any store whatsoever, even one that serves arbitrary bytes: the
  document satisfies the field constraints of its class, the returned number is its generation and lies in the
  eight-digit range, and its payload key is defined and parses back to the generation and the uuid.
\<close>
theorem resolved_head_is_well_typed:
  assumes "lib_ok L" and "resolve_head L S s = (Inr (d, g), s')"
  shows "doc_valid d \<and> generation d = g \<and> valid_generation g \<and>
    (\<exists>k. payload_key d = Inr k \<and> parse_payload_key k = Inr (g, payload_uuid d))"
proof -
  from assms(2) obtain hint t doc u where doc: "head_start L S hint t = (Inr doc, u)"
    and probe: "forward_probe L S PROBE_CAP doc (generation doc) 1 u = (Inr (d, g), s')"
    by (auto simp: resolve_head_def io_simps)
  from tripleD [OF head_start_typed [OF assms(1)] TrueI doc] have "doc_valid doc" by simp
  from tripleD [OF forward_probe_typed [OF assms(1) this refl] TrueI probe]
  have d: "doc_valid d" "generation d = g" by auto
  then have v: "valid_generation g" by (auto simp: doc_valid_def)
  with d have "payload_key d = Inr (payload_key_text g (payload_uuid d))" by (simp add: payload_key_def)
  moreover have "parse_payload_key (payload_key_text g (payload_uuid d)) = Inr (g, payload_uuid d)"
    using v by (intro parse_payload_key_text) (simp_all add: dollar_payload)
  ultimately show ?thesis using d v by blast
qed

theorem resolved_head_is_well_typed_witness:
  "\<exists>d g. fst (resolve_head sample_lib mem_store toy_store) = Inr (d, g) \<and> doc_valid d \<and> g = 0"
proof -
  from versions_head [OF toy_store_facts(1)] obtain d where
    d: "resolve_head sample_lib mem_store toy_store = (Inr (d, generation d), toy_store)" "generation d = 0" by auto
  from resolved_head_is_well_typed [OF sample_lib_ok d(1)] d show ?thesis by auto
qed

section \<open>Readers\<close>

lemma stream_off: "stream_store K NoStream = ret None"
  by (simp add: stream_store_def)

text \<open>
  Claim C20. A reader that downloads sees the last version: on an undisturbed lake that stands for the versions
  \<open>vs\<close>, \<^verbatim>\<open>reader\<close> runs its body on a read-only connection to a private copy that holds exactly the bytes of the
  last version, whatever happened to earlier copies; afterwards the copy and its log are removed, whether the
  attach failed, the body raised, or it returned.
\<close>
theorem reader_sees_the_last_version:
  assumes "lake_lib K = L" and "lake_store K = mem_store" and "0 < max_attempts_of K"
    and "versions_at L U (mem_objs m) vs" and "vs \<noteq> []" and "length vs \<le> 4116480"
    and "marker_at L (mem_objs m) (int (length vs) - 1) d" and "map_of (pins d) PIN_DUCKDB_VERSION = Some (duck_version (engine K))"
    and "serves L U content (mem_objs m)" and "cache_inv (work_dir K) content ps (files mc)"
  shows "\<exists>f mc' ps'. f \<in> range (work_path (work_dir K)) \<and> files mc' f = Some (List.last vs) \<and> duck mc' = duck mc \<and>
    read_lake K NoStream inside (m, mc, ps) =
      (case lake_connection (engine K) f None True (credentials K) mc' of
         (Inl e, mc'') \<Rightarrow> (Inl e, (m, mc''\<lparr>files := (files mc'')(f := None, f @ ''.wal'' := None)\<rparr>, ps'))
       | (Inr con, mc'') \<Rightarrow> finally_io (inside con)
           (bind_io (on_machine (lake_abandon (engine K) con)) (\<lambda>_. on_machine (discard f))) (m, mc'', ps'))"
proof -
  have "check_versions (engine K) d = Inr ()" using assms(8) by (simp add: check_versions_def)
  from fetch_current_base_mem [OF assms(1-7) this assms(9,10)] obtain u mc' ps' where
    base: "fetch_current_base K (m, mc, ps) = (Inr (d, work_path (work_dir K) u), (m, mc', ps'))" "duck mc' = duck mc"
      "files mc' (work_path (work_dir K) u) = Some (List.last vs)" by blast
  let ?f = "work_path (work_dir K) u"
  obtain r mc'' where con: "lake_connection (engine K) ?f None True (credentials K) mc' = (r, mc'')" by (metis surj_pair)
  have "read_lake K NoStream inside (m, mc, ps) = (case r of
      Inl e \<Rightarrow> (Inl e, (m, mc''\<lparr>files := (files mc'')(?f := None, ?f @ ''.wal'' := None)\<rparr>, ps'))
    | Inr con \<Rightarrow> finally_io (inside con)
        (bind_io (on_machine (lake_abandon (engine K) con)) (\<lambda>_. on_machine (discard ?f))) (m, mc'', ps'))"
    using base(1) con by (cases r) (simp_all add: read_lake_def stream_off discard_def bind_io_def try_io_def on_world_def)
  with base con show ?thesis by (intro exI [of _ ?f] exI [of _ mc'] exI [of _ ps']) (auto split: sum.splits)
qed

text \<open>
  Claim C25. Versions that do not match touch nothing: if the head of an undisturbed lake pins another DuckDB
  version than the local one, then a transaction, a scratch connection and a reader all raise
  \<^verbatim>\<open>VersionMismatchError\<close> with the store, the files, DuckDB and the cache exactly as they were.
\<close>
theorem mismatched_versions_touch_nothing:
  assumes "lake_lib K = L" and "lake_store K = mem_store" and "0 < max_attempts_of K"
    and "versions_at L U (mem_objs m) vs" and "vs \<noteq> []" and "length vs \<le> 4116480"
    and "marker_at L (mem_objs m) (int (length vs) - 1) d" and "map_of (pins d) PIN_DUCKDB_VERSION \<noteq> Some (duck_version (engine K))"
  shows "transaction K env client (m, mc, ps) = Some (Inl VersionMismatchError, (m, mc, ps)) \<and>
    scratch K inside (m, mc, ps) = (Inl VersionMismatchError, (m, mc, ps)) \<and>
    read_lake K NoStream inside (m, mc, ps) = (Inl VersionMismatchError, (m, mc, ps))"
proof -
  from versions_head [OF assms(4-6)] obtain d' where d': "resolve_head L mem_store m = (Inr (d', generation d'), m)"
    "marker_at L (mem_objs m) (generation d') d'" "generation d' = int (length vs) - 1" by blast
  with assms(7) have d: "d' = d" by (auto dest: marker_at_unique)
  obtain n where "nat (max_attempts_of K) = Suc n" using assms(3) by (cases "nat (max_attempts_of K)") auto
  then have "fetch_current_base K (m, mc, ps) = (Inl VersionMismatchError, (m, mc, ps))"
    using d'(1) assms(1,2,8) unfolding d by (simp add: fetch_current_base_def check_versions_def bind_io_def)
  then show ?thesis
    by (simp add: transaction_def transaction_with_def open_transaction_with_def scratch_def read_lake_def stream_off)
qed

section \<open>Streaming readers\<close>

text \<open>
  Claim C21. A reader that streams attaches the object that holds the last version: on an undisturbed S3 lake that stands
  for the versions \<open>vs\<close>, the URI given to DuckDB is that of the object whose body is the last version, no file is
  written and the connection is abandoned after the body. A chunked head is refused. In the automatic mode the reader
  streams a whole head of at least 32 MiB, and otherwise does what a reader that downloads does.
\<close>
theorem streaming_reads_the_last_version:
  assumes "lake_lib K = L" and "lake_store K = mem_store" and "0 < max_attempts_of K"
    and "versions_at L U (mem_objs m) vs" and "vs \<noteq> []" and "length vs \<le> 4116480"
    and "marker_at L (mem_objs m) (int (length vs) - 1) d" and "map_of (pins d) PIN_DUCKDB_VERSION = Some (duck_version (engine K))"
    and "uri_of K = Some uri" and "credentials K = Some c" and "k = payload_key_text (generation d) (payload_uuid d)"
  shows "(transport_of d = Whole \<longrightarrow> map_option ob_body (mem_objs m k) = Some (List.last vs) \<and>
      (\<forall>con mc'. lake_connection (engine K) (uri k) None True (Some c) mc = (Inr con, mc') \<longrightarrow>
         read_lake K Stream inside (m, mc, ps) = finally_io (inside con) (on_machine (lake_abandon (engine K) con)) (m, mc', ps))) \<and>
    (transport_of d = Chunked \<longrightarrow> read_lake K Stream inside (m, mc, ps) = (Inl ExternalServiceError, (m, mc, ps))) \<and>
    read_lake K AutoStream inside (m, mc, ps) =
      (if transport_of d = Whole \<and> STREAM_MIN_BYTES \<le> payload_size d then read_lake K Stream inside (m, mc, ps)
       else read_lake K NoStream inside (m, mc, ps))"
proof -
  from versions_head [OF assms(4-6)] obtain d' where d': "resolve_head L mem_store m = (Inr (d', generation d'), m)"
    "marker_at L (mem_objs m) (generation d') d'" "payload_holds L U (mem_objs m) d' (List.last vs)" "generation d' = int (length vs) - 1"
    by blast
  with assms(7) have d: "d' = d" by (auto dest: marker_at_unique)
  have v: "check_versions (engine K) d = Inr ()" using assms(8) by (simp add: check_versions_def)
  have key: "format_payload_key (generation d) (payload_uuid d) = Inr k"
    using marker_at_generation [OF d'(2)] d by (simp add: format_payload_key_ok assms(11))
  obtain n where n: "nat (max_attempts_of K) = Suc n" using assms(3) by (cases "nat (max_attempts_of K)") auto
  have held: "transport_of d = Whole \<longrightarrow> map_option ob_body (mem_objs m k) = Some (List.last vs)"
    using d'(3) unfolding d assms(11) payload_holds_def by (cases "transport_of d") simp_all
  show ?thesis
    using held d'(1) [unfolded d] v key n assms(1,2,9,10)
    by (intro conjI)
       (simp_all add: read_lake_def stream_store_def open_streaming_reader_def on_world_def bind_io_def try_io_def)
qed

section \<open>A failed attach\<close>

text \<open>
  Claim C26. A refused attach leaks the work copy of a transaction: if DuckDB cannot attach the copy, leaving the
  file where it is, \<^verbatim>\<open>transaction\<close> raises and the copy stays on disk, although \<^verbatim>\<open>_writable_copy\<close> says that it is
  discarded on any failure; \<^verbatim>\<open>scratch\<close> removes it in the same situation. On every store.
\<close>
theorem refused_attach_leaks_the_work_copy:
  assumes "fetch_current_base K w = (Inr (base, work), (s, mc, ps))"
    and "lake_connection (engine K) work (Some (data_path_of K)) False (credentials K) mc = (Inl e, mc')"
    and "files mc' work = Some data"
  shows "(\<exists>mc''. transaction K env client w = Some (Inl e, (s, mc'', ps)) \<and> files mc'' work = Some data) \<and>
    (\<exists>mc''. scratch K inside w = (Inl e, (s, mc'', ps)) \<and> files mc'' work = None)"
proof -
  have "transaction K env client w = Some (Inl e, (s, mc', ps))"
    using assms by (simp add: transaction_def transaction_with_def open_transaction_with_def writable_copy_def)
  moreover have "scratch K inside w = (Inl e, (s, snd (discard work mc'), ps))"
    using assms by (simp add: scratch_def discard_def try_io_def)
  ultimately show ?thesis using assms(3) by (simp add: discard_def)
qed

section \<open>Samples\<close>

lemma toy_cache: "cache_inv ''w'' (\<lambda>_. toy_fresh) [] (files toy_machine)"
  by (simp add: cache_inv_def toy_machine_def)

text \<open>The body reads the file it was given.\<close>

theorem reader_sees_the_last_version_witness:
  "\<exists>w. read_lake toy_lake NoStream (\<lambda>con. on_machine (bind_io (ask duck) read_file)) (toy_store, toy_machine, []) = (Inr toy_fresh, w)"
proof -
  have pin: "map_of (pins toy_doc) PIN_DUCKDB_VERSION = Some (duck_version (engine toy_lake))"
    by (simp add: lake_pins_def toy_duckdb_def)
  have tries: "0 < max_attempts_of toy_lake" and some: "[toy_fresh] \<noteq> []" "length [toy_fresh] \<le> 4116480" by simp_all
  have head: "marker_at sample_lib (mem_objs toy_store) (int (length [toy_fresh]) - 1) toy_doc" using toy_store_facts(2) by simp
  have cache: "cache_inv (work_dir toy_lake) (\<lambda>_. toy_fresh) [] (files toy_machine)" using toy_cache by simp
  from reader_sees_the_last_version [OF toy_lake_sel(1,2) tries toy_store_facts(1) some head pin toy_serves cache,
      of "\<lambda>con. on_machine (bind_io (ask duck) read_file)"]
  obtain f mc ps where f: "f \<in> range (work_path (work_dir toy_lake))" "files mc f = Some (List.last [toy_fresh])"
    and read: "read_lake toy_lake NoStream (\<lambda>con. on_machine (bind_io (ask duck) read_file)) (toy_store, toy_machine, []) =
      (case lake_connection (engine toy_lake) f None True (credentials toy_lake) mc of
         (Inl e, mc'') \<Rightarrow> (Inl e, (toy_store, mc''\<lparr>files := (files mc'')(f := None, f @ ''.wal'' := None)\<rparr>, ps))
       | (Inr con, mc'') \<Rightarrow> finally_io (on_machine (bind_io (ask duck) read_file))
           (bind_io (on_machine (lake_abandon (engine toy_lake) con)) (\<lambda>_. on_machine (discard f))) (toy_store, mc'', ps))"
    by (elim exE conjE) (rule that)
  note f = f [simplified] and read = read [unfolded toy_lake_sel]
  have plain: "CHR 0x27 \<notin> set f" using f(1) plain_paths(2) by auto
  then have "takeWhile (\<lambda>c. c \<noteq> CHR 0x27) (f @ CHR 0x27 # rest) = f" for rest
    by (subst takeWhile_append2) auto
  then have "toy_execute 0 (attach_sql f None True) [] mc = (Inr [], attached f mc)"
    by (simp add: toy_execute_def attached_def Let_def attach_sql_def sql_quoted_def probe_sql_def)
  then have "lake_connection toy_duckdb f None True None mc = (Inr 0, attached f mc)"
    by (simp add: lake_connection_def toy_duckdb_def toy_execute_def probe_sql_def try_io_def)
  moreover have "files (attached f mc) (duck (attached f mc)) = Some toy_fresh" using f(2) by (simp add: attached_def)
  ultimately show ?thesis
    unfolding read by (simp add: finally_io_def lake_abandon_def toy_duckdb_def discard_def)
qed

definition toy_creds :: s3_credentials where
  "toy_creds = \<lparr>access_key_id = ''a'', secret_access_key = ''b'', endpoint = None, region = ''r'', use_ssl = True, url_style = ''path''\<rparr>"

definition streaming_lake :: "(mem, string, string, string) lake" where
  "streaming_lake = toy_lake\<lparr>uri_of := Some (s3_uri ''lake'' ''p''), credentials := Some toy_creds\<rparr>"

theorem streaming_reads_the_last_version_witness:
  "\<exists>w. read_lake streaming_lake Stream (\<lambda>con. on_machine (ask duck)) (toy_store, toy_machine, []) =
     (Inr (s3_uri ''lake'' ''p'' (payload_key_text 0 10)), w)"
proof -
  let ?k = "payload_key_text 0 10"
  let ?f = "s3_uri ''lake'' ''p'' ?k"
  have pin: "map_of (pins toy_doc) PIN_DUCKDB_VERSION = Some (duck_version (engine streaming_lake))"
    by (simp add: lake_pins_def toy_duckdb_def streaming_lake_def)
  have tries: "0 < max_attempts_of streaming_lake" and some: "[toy_fresh] \<noteq> []" "length [toy_fresh] \<le> 4116480"
    and sel: "lake_lib streaming_lake = sample_lib" "lake_store streaming_lake = mem_store" "engine streaming_lake = toy_duckdb"
      "uri_of streaming_lake = Some (s3_uri ''lake'' ''p'')" "credentials streaming_lake = Some toy_creds"
    by (simp_all add: streaming_lake_def)
  have head: "marker_at sample_lib (mem_objs toy_store) (int (length [toy_fresh]) - 1) toy_doc" using toy_store_facts(2) by simp
  have k: "?k = payload_key_text (generation toy_doc) (payload_uuid toy_doc)" by simp
  have plain: "CHR 0x27 \<notin> set ?f"
    by (simp add: s3_uri_def s3_prefix_def payload_key_text_def PAYLOAD_PREFIX_def uuid_str_plain) code_simp
  have "lake_connection toy_duckdb ?f None True (Some toy_creds) toy_machine = (Inr 0, attached ?f toy_machine)"
  proof -
    have "toy_execute 0 (attach_sql ?f None True) [] toy_machine = (Inr [], attached ?f toy_machine)"
      using plain by (simp add: toy_execute_def attached_def Let_def attach_sql_def sql_quoted_def probe_sql_def takeWhile_append)
    moreover have "create_s3_secret toy_duckdb 0 toy_creds toy_machine = (Inr (), toy_machine)"
      by (simp add: create_s3_secret_def toy_duckdb_def toy_execute_def probe_sql_def Let_def)
    moreover have "toy_execute con ''INSTALL ducklake; LOAD ducklake;'' [] m = (Inr [], m)" "toy_execute con ''USE lake'' [] m = (Inr [], m)"
      for con m by (simp_all add: toy_execute_def probe_sql_def)
    moreover have "duck_execute toy_duckdb = toy_execute" "duck_connect toy_duckdb = ret 0" by (simp_all add: toy_duckdb_def)
    ultimately show ?thesis by (simp add: lake_connection_def)
  qed
  with streaming_reads_the_last_version [OF sel(1,2) tries toy_store_facts(1) some head pin sel(4,5) k,
      where inside = "\<lambda>con. on_machine (ask duck)" and mc = toy_machine and ps = "[]"]
  show ?thesis by (simp add: finally_io_def lake_abandon_def toy_duckdb_def sel attached_def)
qed

definition newer_lake :: "(mem, string, string, string) lake" where
  "newer_lake = toy_lake\<lparr>engine := toy_duckdb\<lparr>duck_version := ''1.5''\<rparr>\<rparr>"

theorem mismatched_versions_touch_nothing_witness:
  "transaction newer_lake sample_env (toy_client ''INSERT'') (toy_store, toy_machine, []) =
     Some (Inl VersionMismatchError, (toy_store, toy_machine, []))"
proof -
  have "map_of (pins toy_doc) PIN_DUCKDB_VERSION \<noteq> Some (duck_version (engine newer_lake))"
    by (simp add: lake_pins_def toy_duckdb_def newer_lake_def)
  then show ?thesis
    by (rule mismatched_versions_touch_nothing [OF _ _ _ toy_store_facts(1), THEN conjunct1, rotated -1])
       (use toy_store_facts(2) in \<open>simp_all add: newer_lake_def\<close>)
qed

definition refusing_lake :: "(mem, string, string, string) lake" where
  "refusing_lake = toy_lake\<lparr>engine := toy_duckdb\<lparr>duck_execute := (\<lambda>con q args m. (Inl DuckDBError, m))\<rparr>\<rparr>"

theorem refused_attach_leaks_the_work_copy_witness:
  "\<exists>mc ps. transaction refusing_lake sample_env (toy_client ''INSERT'') (toy_store, toy_machine, []) =
     Some (Inl ExternalServiceError, (toy_store, mc, ps)) \<and> files mc (work_path ''w'' 7) = Some toy_fresh"
proof -
  have "check_versions (engine refusing_lake) toy_doc = Inr ()"
    by (simp add: check_versions_def lake_pins_def toy_duckdb_def refusing_lake_def)
  from fetch_current_base_mem [OF _ _ _ toy_store_facts(1) _ _ _ this toy_serves, of "[]" toy_machine]
  obtain mc ps where base: "fetch_current_base refusing_lake (toy_store, toy_machine, []) =
      (Inr (toy_doc, work_path ''w'' 7), (toy_store, mc, ps))" "files mc (work_path ''w'' 7) = Some toy_fresh"
    using toy_cache toy_store_facts(2) by (auto simp: refusing_lake_def)
  have "lake_connection (engine refusing_lake) f dp ro creds mc = (Inl ExternalServiceError, mc)" for f dp ro creds
    by (simp add: lake_connection_def refusing_lake_def toy_duckdb_def try_io_def bind_io_def)
  from refused_attach_leaks_the_work_copy [OF base(1) this base(2)] show ?thesis by blast
qed

end
