(* ===== verification/Gc_Maintain.thy ===== *)
theory Gc_Maintain
  imports Gc_Sweep Lake_Session
begin

text \<open>
  \<^verbatim>\<open>gc.py\<close>, the data pass: \<^verbatim>\<open>maintain_data\<close> expires snapshots and reclaims Parquet files in one transaction of
  the lake, under the same lease as \<^verbatim>\<open>collect\<close>. The lease's ETag is kept beside the store, so the lake here is one
  over \<open>'s \<times> string option\<close>; times are microseconds.
\<close>

section \<open>Constants and the report\<close>

definition DEFAULT_EXPIRE_AGE :: int where
  "DEFAULT_EXPIRE_AGE = hours (7 * 24)"

definition DEFAULT_PHYSICAL_DELAY :: int where
  "DEFAULT_PHYSICAL_DELAY = hours 24"

definition MIN_PHYSICAL_DELAY :: int where
  "MIN_PHYSICAL_DELAY = 15 * 60 * 1000000"

record maintenance_report =
  maintained_dry :: bool
  snapshots_expired :: "string list"
  files_cleaned :: "string list"
  orphans_deleted :: "string list"

text \<open>\<^verbatim>\<open>datetime.min\<close> in microseconds of the epoch: a difference before it is an \<^verbatim>\<open>OverflowError\<close>.\<close>

definition DATETIME_MIN :: int where
  "DATETIME_MIN = - 62135596800 * 1000000"

definition time_minus :: "int \<Rightarrow> int \<Rightarrow> error + int" where
  "time_minus t delta = (if t - delta < DATETIME_MIN then Inl PyOverflowError else Inr (t - delta))"

definition column :: "('e, 'v) duckdb \<Rightarrow> 'v list list \<Rightarrow> ('s, string list) io" where
  "column D rows = map_io (\<lambda>r. bind_io (lift_io (first_column r)) (\<lambda>v. ret (value_str D v))) rows"

section \<open>The statements\<close>

definition expire_sql :: "bool \<Rightarrow> string" where
  "expire_sql dry = ''CALL ducklake_expire_snapshots('' @ sql_quoted ''lake'' @ (if dry then '', dry_run => true'' else '''') @ '', older_than => ?)''"

definition cleanup_sql :: "bool \<Rightarrow> string" where
  "cleanup_sql dry = ''CALL ducklake_cleanup_old_files('' @ sql_quoted ''lake'' @ (if dry then '', dry_run => true'' else '''') @ '', older_than => ?)''"

definition orphans_sql :: "bool \<Rightarrow> string" where
  "orphans_sql dry = ''CALL ducklake_delete_orphaned_files('' @ sql_quoted ''lake'' @ (if dry then '', dry_run => true'' else '''') @ '', older_than => ?)''"

section \<open>The pass\<close>

definition report_of :: "('e, 'v) duckdb \<Rightarrow> bool \<Rightarrow> 'v list list \<times> 'v list list \<times> 'v list list \<Rightarrow> ('s, maintenance_report) io" where
  "report_of D dry rows = (case rows of (expired, cleaned, orphans) \<Rightarrow>
     bind_io (column D expired) (\<lambda>e. bind_io (column D cleaned) (\<lambda>c. bind_io (column D orphans) (\<lambda>d.
       ret \<lparr>maintained_dry = dry, snapshots_expired = e, files_cleaned = c, orphans_deleted = d\<rparr>))))"

text \<open>The dry calls on a scratch copy.\<close>

definition probe_pass :: "('s, 'e, 'v, 't) lake \<Rightarrow> int \<Rightarrow> int \<Rightarrow> (('s, 'e) session, maintenance_report) io" where
  "probe_pass K expire_before physical_before =
     (let D = engine K in
      bind_io (scratch K (\<lambda>con.
        bind_io (on_machine (lake_execute D con (expire_sql True) [time_value D expire_before])) (\<lambda>expired.
        bind_io (on_machine (lake_execute D con (cleanup_sql True) [time_value D physical_before])) (\<lambda>cleaned.
        bind_io (on_machine (lake_execute D con (orphans_sql True) [time_value D physical_before])) (\<lambda>orphans.
          ret (expired, cleaned, orphans)))))) (report_of D True))"

text \<open>The body of the transaction: the wet calls, and the renewal that allows the commit.\<close>

type_synonym ('s, 'e) leased = "('s \<times> string option, 'e) session"

definition wet_pass :: "('s \<times> string option, 'e, 'v, 't) lake \<Rightarrow> lease_lib \<Rightarrow> 's lease_cfg \<Rightarrow> 's store \<Rightarrow> int \<Rightarrow> int \<Rightarrow> nat \<Rightarrow>
    (('s, 'e) leased \<times> 'v changeset, 'v list list \<times> 'v list list \<times> 'v list list) io" where
  "wet_pass K J C S expire_before physical_before con =
     (let D = engine K in
      bind_io (transaction_sql K con (expire_sql False) [time_value D expire_before]) (\<lambda>expired.
      bind_io (transaction_sql K con (cleanup_sql False) [time_value D physical_before]) (\<lambda>cleaned.
      bind_io (transaction_sql K con (orphans_sql False) [time_value D physical_before]) (\<lambda>orphans.
      bind_io (on_world (on_world (lease_renew J C S))) (\<lambda>ok.
        if \<not> ok then raise ExternalServiceError else ret (expired, cleaned, orphans))))))"

definition idle :: "maintenance_report \<Rightarrow> bool" where
  "idle p \<longleftrightarrow> snapshots_expired p = [] \<and> files_cleaned p = [] \<and> orphans_deleted p = []"

definition maintain_prepare :: "('s, 'e, 'v, 't) lake \<Rightarrow> (('s, 'e) session \<Rightarrow> int) \<Rightarrow> int \<Rightarrow> int \<Rightarrow>
    (('s, 'e) session, int \<times> int \<times> maintenance_report) io" where
  "maintain_prepare K utc_now expire_older_than physical_delete_delay =
     bind_io (ask utc_now) (\<lambda>t.
     bind_io (lift_io (time_minus t expire_older_than)) (\<lambda>expire_before.
     bind_io (lift_io (time_minus t physical_delete_delay)) (\<lambda>physical_before.
     bind_io (probe_pass K expire_before physical_before) (\<lambda>probe.
       ret (expire_before, physical_before, probe)))))"

definition maintain_locked :: "('s \<times> string option, 'e, 'v, 't) lake \<Rightarrow> lease_lib \<Rightarrow> 's lease_cfg \<Rightarrow> 's store \<Rightarrow> environment \<Rightarrow>
    (('s, 'e) leased \<Rightarrow> int) \<Rightarrow> int \<Rightarrow> int \<Rightarrow> bool \<Rightarrow> ('s, 'e) leased \<Rightarrow> ((error + maintenance_report) \<times> ('s, 'e) leased) option" where
  "maintain_locked K J C S env utc_now expire_older_than physical_delete_delay dry_run w =
     (case maintain_prepare K utc_now expire_older_than physical_delete_delay w of
        (Inl e, w1) \<Rightarrow> Some (Inl e, w1)
      | (Inr (expire_before, physical_before, probe), w1) \<Rightarrow>
          if dry_run \<or> idle probe then Some (Inr probe, w1)
          else (case on_world (lease_renew J C S) w1 of
            (Inl e, w2) \<Rightarrow> Some (Inl e, w2)
          | (Inr ok, w2) \<Rightarrow>
              if \<not> ok then Some (Inl ExternalServiceError, w2)
              else (case transaction_with K env (wet_pass K J C S expire_before physical_before) w2 of
                None \<Rightarrow> None
              | Some (Inl e, w3) \<Rightarrow> Some (Inl e, w3)
              | Some (Inr rows, w3) \<Rightarrow> Some (report_of (engine K) False rows w3))))"

text \<open>The lease object lives for the call.\<close>

definition leased_world :: "('s, 'e) session \<Rightarrow> ('s, 'e) leased" where
  "leased_world w = (case w of (s, m, p) \<Rightarrow> ((s, None), m, p))"

definition unleased :: "('s, 'e) leased \<Rightarrow> ('s, 'e) session" where
  "unleased w = (case w of ((s, _), m, p) \<Rightarrow> (s, m, p))"

definition maintain_data :: "nat \<Rightarrow> ('s \<times> string option, 'e, 'v, 't) lake \<Rightarrow> lease_lib \<Rightarrow> 's lease_cfg \<Rightarrow> 's store \<Rightarrow> environment \<Rightarrow>
    (('s, 'e) leased \<Rightarrow> int) \<Rightarrow> int \<Rightarrow> int \<Rightarrow> bool \<Rightarrow> bool \<Rightarrow> ('s, 'e) session \<Rightarrow>
    ((error + maintenance_report option) \<times> ('s, 'e) session) option" where
  "maintain_data depth K J C S env utc_now expire_older_than physical_delete_delay dry_run unsafe_allow_short_delay w =
     (if expire_older_than < 0 \<or> physical_delete_delay < 0 then Some (Inl InputValidationError, w)
      else if \<not> dry_run \<and> physical_delete_delay < MIN_PHYSICAL_DELAY \<and> \<not> unsafe_allow_short_delay
      then Some (Inl InputValidationError, w)
      else (let lease = C\<lparr>lease_key := LEASE_KEY\<rparr> in
        case on_world (lease_acquire depth J lease S) (leased_world w) of
          (Inl e, w1) \<Rightarrow> Some (Inl e, unleased w1)
        | (Inr ok, w1) \<Rightarrow>
            if \<not> ok then Some (Inr None, unleased w1)
            else (case maintain_locked K J lease S env utc_now expire_older_than physical_delete_delay dry_run w1 of
              None \<Rightarrow> None
            | Some (r, w2) \<Rightarrow> (case on_world (lease_release J lease S) w2 of
                (Inl e, w3) \<Rightarrow> Some (Inl e, unleased w3)
              | (Inr _, w3) \<Rightarrow> Some (map_sum id Some r, unleased w3)))))"

end
