(* ===== verification/Maintain_Safety.thy ===== *)
theory Maintain_Safety
  imports Gc_Maintain Gc_Effects Session_Samples
begin

text \<open>
  What a maintenance pass does: on every store of the contract it keeps the lake and a wet report has landed; a
  dry or idle pass changes neither the store nor the data files; a lost race replays it only by policy.
\<close>

section \<open>Readers of a lake\<close>

context lake_reader
begin

lemma guar_scratch:
  assumes "lake_store K = S" and "\<And>con. guar RW (inside con)"
  shows "guar RW (scratch K inside)"
  unfolding scratch_def using guar_current_base [OF assms(1)]
  by (auto intro!: guar_session assms(2) split: sum.splits prod.splits)

lemma guar_column: "guar RW (column D rows)"
  unfolding column_def
  by (intro step_relation.guar_map [OF step_relation_world] guar_session)

lemma guar_report: "guar RW (report_of D dry rows)"
  unfolding report_of_def by (auto intro!: guar_session guar_column split: prod.splits)

lemma guar_probe_pass:
  assumes "lake_store K = S"
  shows "guar RW (probe_pass K e p)"
  unfolding probe_pass_def Let_def by (intro guar_session guar_scratch [OF assms] guar_report)

lemma guar_prepare:
  assumes "lake_store K = S"
  shows "guar RW (maintain_prepare K utc_now e p)"
  unfolding maintain_prepare_def by (intro guar_session guar_probe_pass [OF assms])

end

section \<open>The lake is kept\<close>

text \<open>Whatever a transaction returns, the store has only evolved.\<close>

lemma transaction_with_evolves:
  assumes "object_store L S objs" and "lib_ok L" and "lake_lib K = L" and "lake_store K = S" and "lake_ok L (objs (fst w))"
    and "\<And>con. guar (\<lambda>p q. heap_evolves L (objs (fst (fst p))) (objs (fst (fst q)))) (inside con)"
    and "transaction_with K env inside w = Some (r, w')"
  shows "heap_evolves L (objs (fst w)) (objs (fst w'))"
proof -
  have ours: "lake_lib K = L \<and> lake_store K = S" using assms(3,4) by simp
  obtain q u where opened: "open_transaction_with K inside w = (q, u)" by (metis surj_pair)
  note law = object_store.open_transaction_law [OF assms(1) ours assms(6,5) opened]
  show ?thesis
  proof (cases q)
    case (Inl e)
    with assms(7) opened law show ?thesis by (simp add: transaction_with_def)
  next
    case (Inr y)
    then obtain base work x changes where q: "q = Inr (base, work, x, changes)" by (metis prod_cases4)
    with law have u: "heap_evolves L (objs (fst w)) (objs (fst u))" "marker_at L (objs (fst u)) (generation base) base" by auto
    then have ok: "lake_ok L (objs (fst u))" using assms(5) by (blast intro: evolves_lake_ok)
    from assms(7) opened q obtain r' v where run: "lake_commit K env work base changes u = Some (r', v)"
      and w': "w' = snd (on_machine (discard work) v)"
      by (auto simp: transaction_with_def split: option.splits)
    from commit_context.run_commit_law [OF object_store.lake_context [OF assms(1) ours] assms(2) ok u(2)] run ours
    have "heap_evolves L (objs (fst u)) (objs (fst v))" by (auto simp: lake_commit_def)
    moreover have "fst w' = fst v" unfolding w' by (cases v) (simp add: on_machine_def split: prod.splits)
    ultimately show ?thesis using u(1) by (metis heap_evolves_trans)
  qed
qed

context lake_reader
begin

lemma guar_sql: "guar (\<lambda>p q. RW (fst p) (fst q)) (transaction_sql K con q args)"
  by (auto simp: transaction_sql_def intro!: guar_inner guar_machine)

end

lemma guar_wet_pass:
  assumes "object_store L S objs" and "lease_key C = LEASE_KEY"
  shows "guar (\<lambda>p q. heap_evolves L (objs (fst (fst (fst p)))) (objs (fst (fst (fst q))))) (wet_pass K J C S e p con)"
proof -
  note reader = object_store.reads [OF object_store.world [OF assms(1)]]
  show ?thesis
    unfolding wet_pass_def Let_def
    by (auto intro!: lake_reader.guar_inner [OF reader] lake_reader.guar_sql [OF reader]
        lake_reader.guar_session [OF reader] object_store.guar_renew [OF assms])
qed

lemma maintain_locked_law:
  assumes store: "object_store L S objs" and ok: "lib_ok L" and K: "lake_lib K = L" "lake_store K = world_store S"
    and C: "lease_key C = LEASE_KEY" and lake: "lake_ok L (objs (fst (fst w)))"
    and run: "maintain_locked K J C S env utc_now e p dry w = Some (r, w')"
  shows "heap_evolves L (objs (fst (fst w))) (objs (fst (fst w'))) \<and>
    (\<forall>rep. r = Inr rep \<longrightarrow> \<not> maintained_dry rep \<longrightarrow> \<not> dry \<and>
       (\<exists>g i d. marker_at L (objs (fst (fst w'))) g d \<and> payload_uuid d = uuid4 env i))"
proof -
  let ?E = "\<lambda>p q. heap_evolves L (objs (fst (fst p))) (objs (fst (fst q)))"
  note world = object_store.world [OF store]
  note reads = object_store.reads [OF world]
  obtain q1 w1 where w1: "maintain_prepare K utc_now e p w = (q1, w1)" by (metis surj_pair)
  have E1: "?E w w1" using guarD [OF lake_reader.guar_prepare [OF reads K(2)] w1] .
  show ?thesis
  proof (cases q1)
    case (Inl x)
    with run w1 E1 show ?thesis by (auto simp: maintain_locked_def)
  next
    case (Inr y)
    then obtain eb pb probe where q1: "q1 = Inr (eb, pb, probe)" by (metis surj_pair)
    have dry: "maintained_dry probe"
      using w1 q1 by (auto simp: maintain_prepare_def probe_pass_def report_of_def Let_def io_simps split: prod.splits)
    show ?thesis
    proof (cases "dry \<or> idle probe")
      case True
      with run w1 q1 E1 dry show ?thesis by (auto simp: maintain_locked_def)
    next
      case busy: False
      obtain q2 w2 where w2: "on_world (lease_renew J C S) w1 = (q2, w2)" by (metis surj_pair)
      have "guar ?E (on_world (lease_renew J C S))"
        using step_relation.guar_world(1) [OF lake_reader.axioms(1) [OF reads, THEN reader.axioms(1)]] object_store.guar_renew [OF store C] .
      from guarD [OF this w2] have E2: "?E w1 w2" .
      with E1 have E12: "?E w w2" by (rule heap_evolves_trans)
      show ?thesis
      proof (cases "q2 = Inr True")
        case False
        with run w1 q1 w2 busy E12 show ?thesis by (cases q2) (auto simp: maintain_locked_def)
      next
        case True
        with run w1 q1 w2 busy obtain q3 w3 where w3: "transaction_with K env (wet_pass K J C S eb pb) w2 = Some (q3, w3)"
          by (cases "transaction_with K env (wet_pass K J C S eb pb) w2") (auto simp: maintain_locked_def)
        have lake2: "lake_ok L (objs (fst (fst w2)))" using E12 lake by (rule evolves_lake_ok)
        note inside = guar_wet_pass [OF store C, of K J eb pb]
        from transaction_with_evolves [OF world ok K lake2 inside w3] have E3: "?E w w3"
          using E12 heap_evolves_trans by blast
        show ?thesis
        proof (cases q3)
          case (Inl x)
          with run w1 q1 w2 busy True w3 E3 show ?thesis by (auto simp: maintain_locked_def)
        next
          case rows: (Inr rows)
          with run w1 q1 w2 busy True w3 have report: "report_of (engine K) False rows w3 = (r, w')"
            by (auto simp: maintain_locked_def)
          have E4: "?E w3 w'" using guarD [OF lake_reader.guar_report [OF reads] report] .
          from transaction_with_lands [OF world ok K lake2 inside w3 [unfolded rows]] obtain g d i where
            "marker_at L (objs (fst (fst w3))) g d" "payload_uuid d = uuid4 env i" by blast
          moreover from this E4 have "marker_at L (objs (fst (fst w'))) g d" by (blast intro: evolves_marker_at)
          ultimately show ?thesis using busy E3 E4 heap_evolves_trans by blast
        qed
      qed
    qed
  qed
qed

lemma unleased_store: "fst (unleased w) = fst (fst w)"
  by (simp add: unleased_def split: prod.splits)

lemma maintain_data_guards:
  assumes "e < 0 \<or> p < 0 \<or> \<not> dry \<and> p < MIN_PHYSICAL_DELAY \<and> \<not> unsafe"
  shows "maintain_data depth K J C S env utc_now e p dry unsafe w = Some (Inl InputValidationError, w)"
  using assms by (auto simp: maintain_data_def)

text \<open>
  Claim C22. Maintenance keeps the lake, on every store of the contract, whatever it returns and whatever
  DuckDB does: the lake stays dense and readable and no marker is changed; and a wet report is returned only
  by a wet run whose generation has landed.
\<close>
theorem maintenance_keeps_the_lake:
  assumes "object_store L S objs" and "lib_ok L" and "lake_lib K = L" and "lake_store K = world_store S"
    and "lake_ok L (objs (fst w))"
    and "maintain_data depth K J C S env utc_now e p dry unsafe w = Some (r, w')"
  shows "lake_ok L (objs (fst w')) \<and> (\<forall>g d. marker_at L (objs (fst w)) g d \<longrightarrow> marker_at L (objs (fst w')) g d) \<and>
    (\<forall>rep. r = Inr (Some rep) \<longrightarrow> \<not> maintained_dry rep \<longrightarrow> \<not> dry \<and>
       (\<exists>g i d. marker_at L (objs (fst w')) g d \<and> payload_uuid d = uuid4 env i))"
proof -
  let ?C = "C\<lparr>lease_key := LEASE_KEY\<rparr>" and ?E = "\<lambda>p q. heap_evolves L (objs (fst (fst p))) (objs (fst (fst q)))"
  have C: "lease_key ?C = LEASE_KEY" by simp
  note reads = object_store.reads [OF object_store.world [OF assms(1)]]
  note on_lease = step_relation.guar_world(1) [OF lake_reader.axioms(1) [OF reads, THEN reader.axioms(1)]]
  show ?thesis
  proof (cases "e < 0 \<or> p < 0 \<or> \<not> dry \<and> p < MIN_PHYSICAL_DELAY \<and> \<not> unsafe")
    case True
    from assms(5,6) show ?thesis by (auto simp: maintain_data_guards [OF True])
  next
    case ok: False
    obtain q1 w1 where w1: "on_world (lease_acquire depth J ?C S) (leased_world w) = (q1, w1)" by (metis surj_pair)
    have "fst (fst (leased_world w)) = fst w" by (simp add: leased_world_def split: prod.splits)
    moreover from guarD [OF on_lease [OF object_store.guar_acquire [OF assms(1) C]] w1] have "?E (leased_world w) w1" .
    ultimately have E1: "heap_evolves L (objs (fst w)) (objs (fst (fst w1)))" by simp
    have kept: ?thesis if "heap_evolves L (objs (fst w)) (objs (fst w'))"
      and "\<And>rep. r = Inr (Some rep) \<Longrightarrow> \<not> maintained_dry rep \<Longrightarrow> \<not> dry \<and>
       (\<exists>g i d. marker_at L (objs (fst w')) g d \<and> payload_uuid d = uuid4 env i)"
      using that assms(5) evolves_lake_ok evolves_marker_at by blast
    show ?thesis
    proof (cases "q1 = Inr True")
      case False
      with assms(6) ok w1 have "w' = unleased w1" "\<forall>rep. r \<noteq> Inr (Some rep)"
        by (cases q1; auto simp: maintain_data_def Let_def)+
      with E1 show ?thesis by (intro kept) (simp_all add: unleased_store)
    next
      case True
      with assms(6) ok w1 obtain q2 w2 where w2: "maintain_locked K J ?C S env utc_now e p dry w1 = Some (q2, w2)"
        by (cases "maintain_locked K J ?C S env utc_now e p dry w1") (auto simp: maintain_data_def Let_def)
      obtain q3 w3 where w3: "on_world (lease_release J ?C S) w2 = (q3, w3)" by (metis surj_pair)
      with assms(6) ok w1 True w2 have w': "w' = unleased w3" "\<And>rep. r = Inr (Some rep) \<Longrightarrow> q2 = Inr rep"
        by (cases q3; cases q2; auto simp: maintain_data_def Let_def)+
      have "lake_ok L (objs (fst (fst w1)))" using E1 assms(5) by (rule evolves_lake_ok)
      note law = maintain_locked_law [OF assms(1-4) C this w2]
      have E3: "?E w2 w3" using guarD [OF on_lease [OF object_store.guar_release [OF assms(1) C]] w3] .
      show ?thesis
      proof (rule kept)
        show "heap_evolves L (objs (fst w)) (objs (fst w'))"
          unfolding w' unleased_store using E1 law E3 heap_evolves_trans by blast
        show "\<not> dry \<and> (\<exists>g i d. marker_at L (objs (fst w')) g d \<and> payload_uuid d = uuid4 env i)"
          if "r = Inr (Some rep)" "\<not> maintained_dry rep" for rep
          unfolding w'(1) unleased_store using law w'(2) [OF that(1)] that(2) evolves_marker_at [OF E3] by blast
      qed
    qed
  qed
qed

section \<open>Dry passes\<close>

text \<open>
  \<open>I\<close> says something of DuckDB's state, such as that certain data files exist. \<open>dry_safe D I\<close>: no call but the
  three wet statements can destroy it, which is what \<^verbatim>\<open>dry_run => true\<close> promises.
\<close>

definition keeps :: "('e \<Rightarrow> bool) \<Rightarrow> 'e machine \<Rightarrow> 'e machine \<Rightarrow> bool" where
  "keeps I m m' \<longleftrightarrow> (I (duck m) \<longrightarrow> I (duck m'))"

definition wet_statements :: "string set" where
  "wet_statements = {expire_sql False, cleanup_sql False, orphans_sql False}"

definition dry_safe :: "('e, 'v) duckdb \<Rightarrow> ('e \<Rightarrow> bool) \<Rightarrow> bool" where
  "dry_safe D I \<longleftrightarrow> guar (keeps I) (duck_connect D) \<and> (\<forall>con. guar (keeps I) (duck_close D con)) \<and>
     (\<forall>con q args. q \<notin> wet_statements \<longrightarrow> guar (keeps I) (duck_execute D con q args))"

interpretation kept: step_relation "keeps I" for I
  by unfold_locales (auto simp: keeps_def)

lemma keeps_files: "guar (keeps I) (write_file f b)" "guar (keeps I) (unlink f)" "guar (keeps I) (file_exists f)"
    "guar (keeps I) (read_file f)" "guar (keeps I) (copy_file f g)" "guar (keeps I) (discard f)"
proof -
  show files: "guar (keeps I) (write_file f b)" "guar (keeps I) (unlink f)" "guar (keeps I) (file_exists f)"
    "guar (keeps I) (read_file f)" for f b
    by (auto simp: guar_def keeps_def write_file_def unlink_def file_exists_def read_file_def ask_def)
  show "guar (keeps I) (copy_file f g)" unfolding copy_file_def by (intro kept.guar_bind files)
  show "guar (keeps I) (discard f)" unfolding discard_def by (intro kept.guar_bind files)
qed

lemma keeps_mapped: "guar (keeps I) m \<Longrightarrow> guar (keeps I) (map_duck_error m)"
  unfolding map_duck_error_def by (auto intro!: kept.guar_bind kept.guar_try kept.guar_raise kept.guar_ret split: sum.splits)

lemma dry_texts:
  "attach_sql f dp ro \<notin> wet_statements" "''CREATE SECRET '' @ q \<notin> wet_statements" "''INSTALL '' @ q \<notin> wet_statements"
  "''USE '' @ q \<notin> wet_statements" "expire_sql True \<notin> wet_statements" "cleanup_sql True \<notin> wet_statements"
  "orphans_sql True \<notin> wet_statements"
  by (simp_all add: wet_statements_def attach_sql_def expire_sql_def cleanup_sql_def orphans_sql_def sql_quoted_def)

lemma keeps_connection:
  assumes "dry_safe D I"
  shows "guar (keeps I) (lake_connection D f dp ro creds)"
proof -
  have dry: "guar (keeps I) (duck_execute D con q args)" if "q \<notin> wet_statements" for con q args
    using assms that by (simp add: dry_safe_def)
  have calls: "guar (keeps I) (duck_connect D)" "guar (keeps I) (duck_close D con)" for con
    using assms by (simp_all add: dry_safe_def)
  note plain = dry_texts(2) [of "''lake_s3 ('' @ q" for q] dry_texts(3) [of "''ducklake; LOAD ducklake;''"]
    dry_texts(3) [of "''httpfs; LOAD httpfs;''"] dry_texts(4) [of "''lake''"]
  show ?thesis
    unfolding lake_connection_def create_s3_secret_def Let_def
    by (auto intro!: kept.guar_bind kept.guar_try kept.guar_ret kept.guar_raise dry calls dry_texts(1) plain [simplified]
        split: option.splits sum.splits)
qed

definition calm :: "('e \<Rightarrow> bool) \<Rightarrow> ('s, 'e) session \<Rightarrow> ('s, 'e) session \<Rightarrow> bool" where
  "calm I p q \<longleftrightarrow> fst q = fst p \<and> keeps I (fst (snd p)) (fst (snd q))"

interpretation calm: step_relation "calm I" for I
  by unfold_locales (auto simp: calm_def keeps_def)

lemma calm_parts:
  "guar (keeps I) d \<Longrightarrow> guar (calm I) (on_machine d)"
  "guar (calm I) get_cache" "guar (calm I) (set_cache ps)"
  by (auto simp: guar_def calm_def keeps_def on_machine_def get_cache_def set_cache_def ask_def split: prod.splits) metis?

lemma calm_world: "guar (=) c \<Longrightarrow> guar (calm I) (on_world c)"
  by (rule guarI) (auto simp: calm_def keeps_def io_simps dest: guarD)

lemmas calm_intros = calm_parts calm_world calm.guar_bind calm.guar_try calm.guar_finally calm.guar_ret calm.guar_raise
  calm.guar_lift calm.guar_ask calm.guar_map keeps_files

lemma calm_evict: "guar (calm I) (evict ps)"
  by (induction ps) (simp_all only: evict.simps, auto intro!: calm_intros)

lemma calm_fetch_copy:
  assumes still: "lake_reader (=) S"
  shows "guar (calm I) (fetch_copy L S W draw d)"
  unfolding fetch_copy_def cached_def fetch_pristine_def reconstruct_to_def
  by (auto intro!: calm_intros calm_evict lake_reader.guar_manifest [OF still] lake_reader.guar_reconstruct [OF still]
      reader.get_step [OF lake_reader.axioms(1) [OF still]] split: option.splits transport.splits sum.splits)

lemma calm_current_base:
  assumes still: "lake_reader (=) S" and "lake_store K = S"
  shows "guar (calm I) (fetch_current_base K)"
proof -
  have "guar (calm I) (fetch_base K n)" for n
  proof (induction n)
    case (Suc n)
    then show ?case
      by (auto simp: assms(2) intro!: calm_intros calm_fetch_copy [OF still]
          reader.reader_resolve_head [OF lake_reader.axioms(1) [OF still]] split: sum.splits prod.splits)
  qed (simp only: fetch_base.simps, intro calm_intros)
  then show ?thesis by (simp add: fetch_current_base_def)
qed

lemma keeps_calls:
  assumes "dry_safe D I"
  shows "q \<notin> wet_statements \<Longrightarrow> guar (keeps I) (lake_execute D con q args)" and "guar (keeps I) (lake_abandon D con)"
  using assms by (auto simp: dry_safe_def lake_execute_def lake_abandon_def intro: keeps_mapped)

lemma calm_scratch:
  assumes "lake_reader (=) S" and "lake_store K = S" and "dry_safe (engine K) I" and "\<And>con. guar (calm I) (inside con)"
  shows "guar (calm I) (scratch K inside)"
  unfolding scratch_def using calm_current_base [OF assms(1,2)] keeps_calls(2) [OF assms(3)]
  by (auto intro!: calm_intros keeps_connection [OF assms(3)] assms(4) split: sum.splits prod.splits)

lemma calm_report: "guar (calm I) (report_of D dry rows)"
  unfolding report_of_def column_def by (auto intro!: calm_intros split: prod.splits)

lemma calm_prepare:
  assumes "lake_reader (=) S" and "lake_store K = S" and "dry_safe (engine K) I"
  shows "guar (calm I) (maintain_prepare K utc_now e p)"
  unfolding maintain_prepare_def probe_pass_def Let_def
  by (intro calm_intros calm_scratch [OF assms] calm_report keeps_calls(1) [OF assms(3)] dry_texts)

lemma guar_eq_world: "guar (=) c \<Longrightarrow> guar (=) (on_world c)"
  by (rule guarI) (auto simp: io_simps dest: guarD intro: prod_eqI)

lemma mem_world_still: "lake_reader (=) (world_store mem_store)"
  by unfold_locales (auto simp: world_store_def intro!: guar_eq_world mem_reader.get_step mem_session.guar_meta)

text \<open>Taking and giving back the lease writes the lease and its probe only.\<close>

lemma lease_writes:
  assumes "lease_key C = LEASE_KEY" and "\<not> own_key k"
  shows "lease_acquire n J C mem_store (m, t) = (r, (m', t')) \<Longrightarrow> mem_objs m' k = mem_objs m k"
    and "lease_release J C mem_store (m, t) = (q, (m', t')) \<Longrightarrow> mem_objs m' k = mem_objs m k"
proof -
  have col: "collector L mem_store (agrees (mem_objs m) own_key) own_key own_key 1 True 0 (\<lambda>_. True) (\<lambda>_. True) (\<lambda>_. True) (\<lambda>_. True)" for L
    by (rule free_collector) (auto simp: agrees_calls own_key_def)
  show "mem_objs m' k = mem_objs m k" if "lease_acquire n J C mem_store (m, t) = (r, (m', t'))"
    using tripleD [OF collector.acquire_keeps [OF col assms(1)] _ that] assms(2) by (simp add: agrees_def)
  show "mem_objs m' k = mem_objs m k" if "lease_release J C mem_store (m, t) = (q, (m', t'))"
    using tripleD [OF collector.release_keeps [OF col assms(1)] _ that] assms(2) by (simp add: agrees_def)
qed

lemma maintain_locked_calm:
  assumes K: "lake_store K = world_store mem_store" "dry_safe (engine K) I"
    and run: "maintain_locked K J C mem_store env utc_now e p dry w = Some (r, w')"
    and dry: "dry \<or> (\<exists>rep. r = Inr rep \<and> maintained_dry rep)"
  shows "calm I w w'"
proof -
  obtain q1 w1 where w1: "maintain_prepare K utc_now e p w = (q1, w1)" by (metis surj_pair)
  have "calm I w w1" using guarD [OF calm_prepare [OF mem_world_still K] w1] .
  moreover have "w' = w1"
  proof (cases "\<exists>eb pb probe. q1 = Inr (eb, pb, probe) \<and> \<not> (dry \<or> idle probe)")
    case False
    with run w1 show ?thesis by (cases q1) (auto simp: maintain_locked_def split: if_splits)
  next
    case True
    then obtain eb pb probe where q1: "q1 = Inr (eb, pb, probe)" "\<not> dry" "\<not> idle probe" by blast
    with dry obtain rep where rep: "r = Inr rep" "maintained_dry rep" by blast
    from run w1 q1 rep(1) obtain rows w3 where "report_of (engine K) False rows w3 = (Inr rep, w')"
      by (auto simp: maintain_locked_def split: prod.splits sum.splits if_splits option.splits)
    then have "\<not> maintained_dry rep" by (auto simp: report_of_def io_simps split: prod.splits)
    with rep(2) show ?thesis by simp
  qed
  ultimately show ?thesis by simp
qed

text \<open>
  Claim C23. Dry and idle passes are harmless, whatever else they return: \<^verbatim>\<open>maintain_data\<close> with \<^verbatim>\<open>dry_run\<close>, or
  with a probe that found nothing to do, or without the lease, changes no object of the store but the lease
  and the probes of its clock, and destroys nothing of DuckDB's that only the three wet statements can destroy,
  such as data files.
\<close>
theorem dry_maintenance_is_harmless:
  assumes "lake_store K = world_store mem_store" and "dry_safe (engine K) I"
    and "maintain_data depth K J C mem_store env utc_now e p dry unsafe (m, mc, ps) = Some (r, (m', mc', ps'))"
    and "dry \<or> r = Inr None \<or> (\<exists>rep. r = Inr (Some rep) \<and> maintained_dry rep)"
  shows "(\<forall>k. \<not> own_key k \<longrightarrow> mem_objs m' k = mem_objs m k) \<and> (I (duck mc) \<longrightarrow> I (duck mc'))"
proof (cases "e < 0 \<or> p < 0 \<or> \<not> dry \<and> p < MIN_PHYSICAL_DELAY \<and> \<not> unsafe")
  case True
  with assms(3) show ?thesis by (auto simp: maintain_data_guards [OF True])
next
  case ok: False
  let ?C = "C\<lparr>lease_key := LEASE_KEY\<rparr>"
  have C: "lease_key ?C = LEASE_KEY" by simp
  obtain q1 m1 t1 where acq: "lease_acquire depth J ?C mem_store (m, None) = (q1, (m1, t1))" by (metis surj_pair)
  then have w1: "on_world (lease_acquire depth J ?C mem_store) (leased_world (m, mc, ps)) = (q1, ((m1, t1), mc, ps))"
    by (simp add: leased_world_def)
  note same1 = lease_writes(1) [OF C _ acq]
  show ?thesis
  proof (cases "q1 = Inr True")
    case False
    with assms(3) ok w1 have "(m', mc', ps') = (m1, mc, ps)"
      by (cases q1) (auto simp: maintain_data_def Let_def unleased_def)
    with same1 show ?thesis by simp
  next
    case True
    with assms(3) ok w1 obtain q2 w2 where w2: "maintain_locked K J ?C mem_store env utc_now e p dry ((m1, t1), mc, ps) = Some (q2, w2)"
      by (cases "maintain_locked K J ?C mem_store env utc_now e p dry ((m1, t1), mc, ps)") (auto simp: maintain_data_def Let_def)
    obtain m2 t2 mc2 ps2 where v: "w2 = ((m2, t2), mc2, ps2)" by (metis surj_pair)
    obtain q3 m3 t3 where rel: "lease_release J ?C mem_store (m2, t2) = (q3, (m3, t3))" by (metis surj_pair)
    then have w3: "on_world (lease_release J ?C mem_store) w2 = (q3, ((m3, t3), mc2, ps2))" by (simp add: v)
    with assms(3) ok w1 True w2 have out: "(m', mc', ps') = (m3, mc2, ps2)" "r = Inr x \<Longrightarrow> map_sum id Some q2 = Inr x" for x
      by (cases q3; auto simp: maintain_data_def Let_def unleased_def)+
    have "dry \<or> (\<exists>rep. q2 = Inr rep \<and> maintained_dry rep)"
      using assms(4) out(2) by (cases q2) auto
    from maintain_locked_calm [OF assms(1,2) w2 this] have "m2 = m1" "I (duck mc) \<longrightarrow> I (duck mc2)"
      by (auto simp: v calm_def keeps_def)
    with out(1) same1 lease_writes(2) [OF C _ rel] show ?thesis by simp
  qed
qed

section \<open>Replayed passes\<close>

lemma transaction_sql_recorded:
  assumes "transaction_sql K con q args (w, c) = (Inr rows, v)" and "classify (parser K) q = Inr cls"
  shows "snd v = c @ [\<lparr>sql = q, params = args, statement_class = cls\<rparr>]"
  using assms by (auto simp: transaction_sql_def record_statement_def io_simps)

lemma wet_pass_recorded:
  assumes "wet_pass K J C S e p con (w, []) = (Inr rows, (w', changes))"
    and "\<And>q. q \<in> wet_statements \<Longrightarrow> classify (parser K) q = Inr STATE_DEPENDENT_DML"
  shows "map statement_class changes = [STATE_DEPENDENT_DML, STATE_DEPENDENT_DML, STATE_DEPENDENT_DML]"
proof -
  let ?D = "engine K"
  from assms(1) obtain x1 v1 x2 v2 x3 v3 ok where
    run: "transaction_sql K con (expire_sql False) [time_value ?D e] (w, []) = (Inr x1, v1)"
      "transaction_sql K con (cleanup_sql False) [time_value ?D p] (fst v1, snd v1) = (Inr x2, v2)"
      "transaction_sql K con (orphans_sql False) [time_value ?D p] (fst v2, snd v2) = (Inr x3, v3)"
    and renew: "on_world (on_world (lease_renew J C S)) v3 = (ok, (w', changes))"
    by (force simp: wet_pass_def Let_def io_simps split: if_splits)
  have wet: "classify (parser K) (expire_sql False) = Inr STATE_DEPENDENT_DML"
    "classify (parser K) (cleanup_sql False) = Inr STATE_DEPENDENT_DML" "classify (parser K) (orphans_sql False) = Inr STATE_DEPENDENT_DML"
    using assms(2) by (simp_all add: wet_statements_def)
  from renew have "changes = snd v3" by (auto simp: io_simps)
  with transaction_sql_recorded [OF run(1) wet(1)] transaction_sql_recorded [OF run(2) wet(2)] transaction_sql_recorded [OF run(3) wet(3)]
  show ?thesis by simp
qed

text \<open>
  A maintenance pass that lost its race is replayed under one policy: after its three calls, which the
  recorder takes for state-dependent statements, the driver's decision is \<^verbatim>\<open>Replay\<close> exactly if attempts are left
  and the lake's policy is \<^verbatim>\<open>REPLAY_ALL\<close>; so only the other two policies give what \<^verbatim>\<open>maintain_data\<close> promises, that
  the calls are never replayed.
\<close>
theorem maintenance_is_replayed_by_replay_all:
  assumes "wet_pass K J C S e p con (w, []) = (Inr rows, (w', changes))"
    and "\<And>q. q \<in> wet_statements \<Longrightarrow> classify (parser K) q = Inr STATE_DEPENDENT_DML"
  shows "decide (lake_hooks K changes) a m = Replay \<longleftrightarrow> a < m \<and> policy_of K = REPLAY_ALL"
proof -
  from wet_pass_recorded [OF assms] have "changes \<noteq> []" "\<not> has_ddl changes" "has_state_dependent changes" "\<not> has_reads changes"
    by (auto simp: has_ddl_def has_state_dependent_def has_reads_def)
  then show ?thesis by (cases "policy_of K") (auto simp: hooks_decide decide_rebase_def)
qed

section \<open>Samples\<close>

text \<open>A database whose state is whether the data files are there; the lake is the one of \<open>Session_Samples\<close>.\<close>

definition data_duckdb :: "(bool, string) duckdb" where
  "data_duckdb = \<lparr>duck_version = ''1.4'', duck_connect = ret 0, duck_open = (\<lambda>f ro. ret 0),
     duck_execute = (\<lambda>con q args m. (Inr [], if q \<in> wet_statements then m\<lparr>duck := False\<rparr> else m)),
     duck_close = (\<lambda>con. ret ()), text_value = id, time_value = (\<lambda>t. []), value_str = id, value_int = (\<lambda>v. Inr 0)\<rparr>"

definition data_lake :: "(mem \<times> string option, bool, string, string) lake" where
  "data_lake = make_lake sample_lib (world_store mem_store) None data_duckdb toy_parser (\<lambda>_. 7) ''w'' ''data/'' REPLAY_ALL 5 None None"

lemma data_lake_sel [simp]:
  "lake_lib data_lake = sample_lib" "lake_store data_lake = world_store mem_store" "engine data_lake = data_duckdb"
  "parser data_lake = toy_parser" "policy_of data_lake = REPLAY_ALL"
  by (simp_all add: data_lake_def make_lake_def)

definition data_machine :: "bool machine" where
  "data_machine = \<lparr>files = (\<lambda>_. None), duck = True\<rparr>"

abbreviation dry_pass :: "((error + maintenance_report option) \<times> (mem, bool) session) option" where
  "dry_pass \<equiv> maintain_data 5 data_lake sample_json (sample_cfg 1) mem_store sample_env (\<lambda>_. 0) 0 0 True False
     (toy_store, data_machine, [])"

lemma maintain_locked_dry: "maintain_locked K J C S env utc_now e p True w \<noteq> None"
proof -
  obtain q v where "maintain_prepare K utc_now e p w = (q, v)" by (metis surj_pair)
  then show ?thesis by (cases q) (auto simp: maintain_locked_def simp del: not_None_eq)
qed

lemma maintain_dry_returns: "maintain_data depth K J C S env utc_now e p True unsafe w \<noteq> None"
proof -
  let ?C = "C\<lparr>lease_key := LEASE_KEY\<rparr>"
  obtain q1 w1 where w1: "on_world (lease_acquire depth J ?C S) (leased_world w) = (q1, w1)" by (metis surj_pair)
  obtain q2 w2 where w2: "maintain_locked K J ?C S env utc_now e p True w1 = Some (q2, w2)"
    using maintain_locked_dry [of K J ?C S env utc_now e p w1] by (metis not_None_eq surj_pair)
  obtain q3 w3 where w3: "on_world (lease_release J ?C S) w2 = (q3, w3)" by (metis surj_pair)
  from w1 w2 w3 show ?thesis by (cases q1; cases q3) (auto simp: maintain_data_def Let_def simp del: not_None_eq)
qed

lemma dry_pass_returns: "\<exists>r m' mc' ps'. dry_pass = Some (r, (m', mc', ps'))"
  using maintain_dry_returns by (metis not_None_eq prod_cases4)

lemma data_dry_safe: "dry_safe data_duckdb (\<lambda>present. present)"
  by (auto simp: dry_safe_def data_duckdb_def guar_def keeps_def ret_def)

theorem dry_maintenance_is_harmless_witness:
  "\<exists>r m' mc' ps'. dry_pass = Some (r, (m', mc', ps')) \<and> duck mc' \<and>
     mem_objs m' (payload_key_text 0 10) = mem_objs toy_store (payload_key_text 0 10)"
proof -
  obtain r m' mc' ps' where run: "dry_pass = Some (r, (m', mc', ps'))" using dry_pass_returns by blast
  have "\<not> own_key (payload_key_text 0 10)"
    by (auto simp: own_key_def LEASE_KEY_def CLOCK_PROBE_KEY_def now_probe_def payload_key_text_def PAYLOAD_PREFIX_def)
  moreover have "dry_safe (engine data_lake) (\<lambda>present. present)" using data_dry_safe by simp
  ultimately show ?thesis
    using dry_maintenance_is_harmless [OF data_lake_sel(2) _ run] run by (auto simp: data_machine_def)
qed

theorem maintenance_keeps_the_lake_witness:
  "\<exists>r w'. dry_pass = Some (r, w') \<and> lake_ok sample_lib (mem_objs (fst w')) \<and> marker_at sample_lib (mem_objs (fst w')) 0 toy_doc"
proof -
  obtain r w' where run: "dry_pass = Some (r, w')" using dry_pass_returns by blast
  have "lake_ok sample_lib (mem_objs (fst (toy_store, data_machine, [] :: pristine)))"
    using versions_lake_ok [OF toy_store_facts(1)] by simp
  from maintenance_keeps_the_lake [OF mem.object_store_axioms sample_lib_ok data_lake_sel(1,2) this run] run toy_store_facts(2)
  show ?thesis by simp
qed

text \<open>A pass under a lease with ETag 1.\<close>

definition lease_mem :: mem where
  "lease_mem = snd (mem_write LEASE_KEY ''lease'' empty_mem)"

lemma wet_pass_runs:
  "\<exists>rows w' changes. wet_pass data_lake sample_json (sample_cfg 1) mem_store 0 0 0 (((lease_mem, Some (etag_text 1)), data_machine, []), [])
     = (Inr rows, (w', changes))"
proof -
  obtain r m' tag' where run: "lease_renew sample_json (sample_cfg 1) mem_store (lease_mem, Some (etag_text 1)) = (r, (m', tag'))"
    by (metis surj_pair)
  have "\<exists>ob. mem_objs lease_mem LEASE_KEY = Some ob \<and> ob_etag ob = 1"
    by (simp add: lease_mem_def mem_write_run mem_objs_def empty_mem_def)
  with lease_renew_mem [OF run] have r: "r = Inr True" by (auto simp: sample_cfg_def)
  have "record_statement toy_parser q args = Inr \<lparr>sql = q, params = args, statement_class = STATE_DEPENDENT_DML\<rparr>"
    if "q \<in> wet_statements" for q and args :: "string list"
    using that by (auto simp: record_statement_def classify_def classify_tree_def toy_parser_def function_names_def wet_statements_def
        expire_sql_def cleanup_sql_def orphans_sql_def)
  then have sql: "transaction_sql data_lake 0 q args (((s, t), mc, ps), c) =
      (Inr [], (((s, t), mc\<lparr>duck := False\<rparr>, ps), c @ [\<lparr>sql = q, params = args, statement_class = STATE_DEPENDENT_DML\<rparr>]))"
    if "q \<in> wet_statements" for q args and s :: mem and t mc ps c
    using that by (simp add: transaction_sql_def lake_execute_def map_duck_error_def data_duckdb_def try_io_def)
  have "expire_sql False \<in> wet_statements" "cleanup_sql False \<in> wet_statements" "orphans_sql False \<in> wet_statements"
    by (simp_all add: wet_statements_def)
  with run r show ?thesis by (simp add: wet_pass_def Let_def sql)
qed

theorem maintenance_is_replayed_by_replay_all_witness:
  "\<exists>rows w' changes. wet_pass data_lake sample_json (sample_cfg 1) mem_store 0 0 0 (((lease_mem, Some (etag_text 1)), data_machine, []), [])
     = (Inr rows, (w', changes)) \<and> decide (lake_hooks data_lake changes) 1 5 = Replay"
proof -
  have "classify (parser data_lake) q = Inr STATE_DEPENDENT_DML" if "q \<in> wet_statements" for q
    using that by (auto simp: classify_def classify_tree_def toy_parser_def function_names_def wet_statements_def
        expire_sql_def cleanup_sql_def orphans_sql_def)
  with wet_pass_runs maintenance_is_replayed_by_replay_all [of data_lake sample_json "sample_cfg 1" mem_store 0 0 0 _ _ _ _ 1 5]
  show ?thesis by (metis data_lake_sel(5) one_less_numeral_iff semiring_norm(77))
qed

end
