(* ===== verification/Crash_Model.thy ===== *)
theory Crash_Model
  imports Store_Simulation Gc_Safety
begin

text \<open>
  A process that is killed. \<open>watched_store S\<close> is the store \<open>S\<close> of a process that is watched until a given number
  of requests have been served: the store is photographed before the next request. What the process does
  after that moment is what it would have done; a process killed there by \<^verbatim>\<open>kill -9\<close> leaves the photograph, \<open>left_behind\<close>.
  A request in flight at the kill has been served or not, so every number of requests is a moment
  at which the signal may strike; a number beyond the last request is a process that ends by itself.
\<close>

section \<open>The store of a watched process\<close>

text \<open>The second component: the photograph, or how many requests are to be served before it is taken.\<close>

type_synonym 's watched = "'s \<times> ('s + nat)"

definition watch :: "('s, 'a) io \<Rightarrow> ('s watched, 'a) io" where
  "watch m = (\<lambda>(s, c). case m s of (r, s') \<Rightarrow> (r, (s', case c of
     Inl t \<Rightarrow> Inl t
   | Inr n \<Rightarrow> (case n of 0 \<Rightarrow> Inl s | Suc k \<Rightarrow> Inr k))))"

definition watched_store :: "'s store \<Rightarrow> 's watched store" where
  "watched_store S = \<lparr>get = (\<lambda>k. watch (get S k)), get_range = (\<lambda>k a n. watch (get_range S k a n)),
     put_if_absent = (\<lambda>k b. watch (put_if_absent S k b)), put_if_match = (\<lambda>k b t. watch (put_if_match S k b t)),
     put = (\<lambda>k b. watch (put S k b)), list_prefix = (\<lambda>p. watch (list_prefix S p)),
     list_meta = (\<lambda>p. watch (list_meta S p)), head_meta = (\<lambda>k. watch (head_meta S k)),
     delete = (\<lambda>k. watch (delete S k))\<rparr>"

definition left_behind :: "'s watched \<Rightarrow> 's" where
  "left_behind w = (case snd w of Inl t \<Rightarrow> t | Inr _ \<Rightarrow> fst w)"

definition killed_after :: "nat \<Rightarrow> ('s watched, 'a) io \<Rightarrow> 's \<Rightarrow> 's" where
  "killed_after n c s = left_behind (snd (c (s, Inr n)))"

lemma watched_store_sel [simp]:
  "get (watched_store S) k = watch (get S k)" "get_range (watched_store S) k a n = watch (get_range S k a n)"
  "put_if_absent (watched_store S) k b = watch (put_if_absent S k b)"
  "put_if_match (watched_store S) k b t = watch (put_if_match S k b t)"
  "put (watched_store S) k b = watch (put S k b)" "list_prefix (watched_store S) p = watch (list_prefix S p)"
  "list_meta (watched_store S) p = watch (list_meta S p)" "head_meta (watched_store S) k = watch (head_meta S k)"
  "delete (watched_store S) k = watch (delete S k)"
  by (simp_all add: watched_store_def)

lemma left_behind_simps [simp]: "left_behind (s, Inl t) = t" "left_behind (s, Inr n) = s"
  by (simp_all add: left_behind_def)

section \<open>What the watched process does\<close>

text \<open>It does what the process does on the store, and the photograph stays once it is taken.\<close>

abbreviation running :: "'s watched \<Rightarrow> 's \<Rightarrow> bool" where
  "running w s \<equiv> fst w = s"

abbreviation photographed :: "'s \<Rightarrow> 's watched \<Rightarrow> 's \<Rightarrow> bool" where
  "photographed t w s \<equiv> w = (s, Inl t)"

lemma simulates_watch: "simulates running m (watch m)" "simulates (photographed t) m (watch m)"
  by (auto simp: simulates_def watch_def split: prod.splits)

interpretation living: store_simulation running S "watched_store S" for S
  by unfold_locales (simp_all only: watched_store_sel simulates_watch)

interpretation killed: store_simulation "photographed t" S "watched_store S" for S t
  by unfold_locales (simp_all only: watched_store_sel simulates_watch)

text \<open>What every request keeps, the process keeps at every moment.\<close>

definition always :: "('s \<Rightarrow> bool) \<Rightarrow> 's watched \<Rightarrow> bool" where
  "always I w \<longleftrightarrow> I (fst w) \<and> (\<forall>t. snd w = Inl t \<longrightarrow> I t)"

lemma always_start [simp]: "always I (s, Inr n) \<longleftrightarrow> I s"
  and always_left: "always I w \<Longrightarrow> I (left_behind w)"
  by (auto simp: always_def left_behind_def split: sum.splits)

lemma triple_watch:
  assumes "triple I m F"
  shows "triple (always I) (watch m) F"
proof (rule tripleI)
  fix w r w'
  assume w: "always I w" and run: "watch m w = (r, w')"
  obtain q s' where m: "m (fst w) = (q, s')" by (metis surj_pair)
  with tripleD [OF assms _ m] w have "I s' \<and> (\<forall>x. q = Inr x \<longrightarrow> F x)" by (simp add: always_def)
  with w m run show "always I w' \<and> (\<forall>x. r = Inr x \<longrightarrow> F x)"
    by (cases w) (auto simp: always_def watch_def split: sum.splits nat.splits)
qed

lemma keeping_reader:
  assumes "\<And>k. triple J (get T k) (\<lambda>_. True)"
  shows "reader (\<lambda>p q. J p \<longrightarrow> J q) T"
proof unfold_locales
  show "guar (\<lambda>p q. J p \<longrightarrow> J q) (get T k)" for k by (rule guarI) (blast dest: tripleD [OF assms])
qed auto

lemma resolve_head_keeps:
  assumes "\<And>k. triple J (get T k) (\<lambda>_. True)"
  shows "triple J (resolve_head L T) (\<lambda>_. True)"
  by (rule guar_triple [OF reader.reader_resolve_head [OF keeping_reader [OF assms]]]) blast

lemma triple_simulated:
  assumes "triple J c (\<lambda>_. True)" and "simulates running m c" and "triple I m F" and "\<And>w. J w \<Longrightarrow> I (fst w)"
  shows "triple J c F"
proof (rule tripleI)
  fix w r w'
  assume w: "J w" and run: "c w = (r, w')"
  from simulates_run [OF assms(2) _ run] obtain s' where m: "m (fst w) = (r, s')" by auto
  from tripleD [OF assms(3) assms(4) [OF w] m] tripleD [OF assms(1) w run] show "J w' \<and> (\<forall>x. r = Inr x \<longrightarrow> F x)" by simp
qed

section \<open>What carries over\<close>

text \<open>A sequence, when the first part is known: killed within the first part, or in the second.\<close>

lemma left_of_bind:
  assumes first: "c (s, k) = (Inr x, (s1, k1))" and run: "bind_io c f (s, k) = (r, w)"
    and frozen: "\<And>t. simulates (photographed t) g (f x)"
  shows "(\<exists>t. k1 = Inl t \<and> left_behind w = t) \<or> (\<exists>n. k1 = Inr n \<and> f x (s1, Inr n) = (r, w))"
proof (cases k1)
  case (Inl t)
  from first run have "f x (s1, k1) = (r, w)" by simp
  with simulates_run [OF frozen, of "(s1, k1)" s1 t r w] Inl have "snd w = Inl t" by force
  with Inl show ?thesis by (simp add: left_behind_def)
qed (use assms in simp)

end
