(* ===== verification/Crash_Safety.thy ===== *)
theory Crash_Safety
  imports Crash_Model Gc_Effects
begin

text \<open>
  What a killed process leaves behind. A writer killed at any request has appended its version or has not, and
  the versions before it are intact; a collection killed at any request has deleted nothing that a retained
  generation needs.
\<close>

section \<open>What a write adds before its marker\<close>

text \<open>Packs under their own hashes and the payload object \<open>k\<close>; every other object stays.\<close>

definition prepares :: "lib \<Rightarrow> bytes set \<Rightarrow> key \<Rightarrow> mem \<Rightarrow> mem \<Rightarrow> bool" where
  "prepares L U k m m' \<longleftrightarrow> packs_in L U (mem_objs m') \<and> packs_grow m m' \<and>
     (\<forall>j. \<not> prefix PACKS_PREFIX j \<longrightarrow> j \<noteq> k \<longrightarrow> mem_objs m' j = mem_objs m j)"

lemma prepares_refl: "packs_in L U (mem_objs m) \<Longrightarrow> prepares L U k m m"
  by (simp add: prepares_def packs_grow_def)

text \<open>Versions depend on the markers, the payloads and the packs only.\<close>

lemma versions_frame:
  assumes vs: "versions_at L U h vs" and pin: "packs_in L U h'"
    and grow: "\<And>s b. pack_of h s = Some b \<Longrightarrow> pack_of h' s = Some b"
    and roots: "\<And>g. h' (marker_key_text g) = h (marker_key_text g)"
    and payloads: "\<And>k ob. prefix PAYLOAD_PREFIX k \<Longrightarrow> h k = Some ob \<Longrightarrow> h' k = Some ob"
  shows "versions_at L U h' vs"
proof -
  have "has_marker h' g = has_marker h g" "marker_at L h' g d = marker_at L h g d" for g d
    by (simp_all add: has_marker_def marker_at_def roots)
  with vs pin payload_holds_grow [OF _ grow payloads] show ?thesis unfolding versions_at_def by metis
qed

lemma prepares_versions:
  assumes "prepares L U (payload_key_text g u) m m'" and "mem_objs m (payload_key_text g u) = None"
    and "versions_at L U (mem_objs m) vs"
  shows "versions_at L U (mem_objs m') vs"
proof (rule versions_frame [OF assms(3)])
  show "packs_in L U (mem_objs m')" using assms(1) by (simp add: prepares_def)
  show "pack_of (mem_objs m') s = Some b" if "pack_of (mem_objs m) s = Some b" for s b
    using assms(1) that by (simp add: prepares_def packs_grow_def)
  show "mem_objs m' (marker_key_text j) = mem_objs m (marker_key_text j)" for j
    using assms(1) by (simp add: prepares_def area_keys(1) [symmetric])
  show "mem_objs m' k = Some ob" if "prefix PAYLOAD_PREFIX k" "mem_objs m k = Some ob" for k ob
  proof -
    have "\<not> prefix PACKS_PREFIX k" "k \<noteq> payload_key_text g u" using that assms(2) by (auto dest: area_disjoint)
    with assms(1) that(2) show ?thesis by (simp add: prepares_def)
  qed
qed

lemma versions_but_hint:
  assumes "versions_at L U h vs" and same: "\<And>k. k \<noteq> ROOT_HINT_KEY \<Longrightarrow> h' k = h k"
  shows "versions_at L U h' vs"
proof (rule versions_frame [OF assms(1)])
  have packs: "pack_of h' s = pack_of h s" for s using same by (simp add: pack_of_def)
  then show "packs_in L U h'" using assms(1) by (simp add: versions_at_def packs_in_def)
  show "pack_of h s = Some b \<Longrightarrow> pack_of h' s = Some b" for s b by (simp add: packs)
  show "h' (marker_key_text g) = h (marker_key_text g)" for g
    using same hint_key_not_root prefix_roots_marker by metis
  show "prefix PAYLOAD_PREFIX k \<Longrightarrow> h k = Some ob \<Longrightarrow> h' k = Some ob" for k ob
    using same area_keys(4) by metis
qed

text \<open>Publishing the packs and the payload does no more, at every moment.\<close>

lemma prepares_pack:
  assumes "inj_on (sha256 L) U" and "b \<in> U" and "sha256 L b = sha"
  shows "triple (prepares L U k m) (put mem_store (format_pack_key sha) b) (\<lambda>_. True)"
    and "triple (prepares L U k m) (put_if_absent mem_store (format_pack_key sha) b) (\<lambda>_. True)"
proof -
  have w: "prepares L U k m t'" if t: "prepares L U k m t" and w: "mem_write (format_pack_key sha) b t = (r, t')" for t r t'
  proof -
    have "packs_in L U (mem_objs t)" using t by (simp add: prepares_def)
    note p = write_pack_mem [OF this assms w]
    obtain ob where "mem_objs t' = (mem_objs t)(format_pack_key sha \<mapsto> ob)" using mem_write_objs [OF w] by blast
    with t p show ?thesis by (auto simp: prepares_def format_pack_key_def intro: packs_grow_trans)
  qed
  show "triple (prepares L U k m) (put mem_store (format_pack_key sha) b) (\<lambda>_. True)"
    by (rule tripleI) (auto simp: mem_store_def mem_put_def intro: w)
  show "triple (prepares L U k m) (put_if_absent mem_store (format_pack_key sha) b) (\<lambda>_. True)"
    by (rule tripleI) (auto simp: mem_store_def mem_put_if_absent_def split: if_splits intro: w)
qed

lemma prepares_reads:
  "triple (always (prepares L U k m)) (get (watched_store mem_store) j) (\<lambda>_. True)"
  "triple (always (prepares L U k m)) (head_meta (watched_store mem_store) j) (\<lambda>_. True)"
  unfolding watched_store_sel
  by (intro triple_watch guar_eq_triple; auto simp: guar_def mem_store_def mem_get_def mem_head_meta_def split: option.splits)+

lemma prepares_put_pack:
  assumes "inj_on (sha256 L) U" and "b \<in> U" and "sha256 L b = sha"
  shows "triple (always (prepares L U k m)) (put_pack (watched_store mem_store) sha b n) (\<lambda>_. True)"
proof (induction n)
  case (Suc n)
  have "triple (always (prepares L U k m)) (put_if_absent (watched_store mem_store) (format_pack_key sha) b) (\<lambda>_. True)"
    unfolding watched_store_sel by (intro triple_watch prepares_pack assms)
  with Suc show ?case unfolding put_pack.simps by (intro triple_intros prepares_reads TrueI)
qed (simp only: put_pack.simps triple_raise)

lemma prepares_refresh:
  assumes "inj_on (sha256 L) U" and "b \<in> U" and "sha256 L b = sha"
  shows "triple (always (prepares L U k m)) (refresh_put (watched_store mem_store) (format_pack_key sha) b n) (\<lambda>_. True)"
proof (induction n)
  case (Suc n)
  have "triple (always (prepares L U k m)) (put (watched_store mem_store) (format_pack_key sha) b) (\<lambda>_. True)"
    unfolding watched_store_sel by (intro triple_watch prepares_pack assms)
  with Suc show ?case unfolding refresh_put.simps by (intro triple_intros TrueI)
qed (simp only: refresh_put.simps triple_ret)

lemma prepares_run_all:
  "(\<And>x. x \<in> set xs \<Longrightarrow> triple I (f x) (\<lambda>_. True)) \<Longrightarrow> triple I (run_all f xs) (\<lambda>_. True)"
proof (induction xs)
  case (Cons x xs)
  then show ?case unfolding run_all.simps by (intro triple_intros triple_lift TrueI) auto
qed (simp only: run_all.simps triple_ret)

lemma prepares_stage:
  assumes inj: "inj_on (sha256 L) U" and fits: "write_fits L U base threshold data"
  shows "triple (always (prepares L U k m)) (stage_payload L (watched_store mem_store) data
      \<lparr>chunk_threshold = threshold, base_manifest = base, pack_target = DEFAULT_PACK_TARGET\<rparr>) (\<lambda>_. True)"
proof (cases "(case threshold of None \<Rightarrow> False | Some t \<Rightarrow> int (length data) \<ge> t)")
  case False
  then show ?thesis by (simp add: stage_payload_def triple_ret)
next
  case True
  let ?b = "build_manifest L data base None DEFAULT_PACK_TARGET"
  have good: "b \<in> U \<and> sha256 L b = s" if "?b = Inr (M, packs)" "(s, b) \<in> set packs" for M packs s b
    using fits True that build_manifest_hashes [OF that] by (force simp: write_fits_def split: option.splits)
  have publish: "triple (always (prepares L U k m)) (publish_packs (watched_store mem_store) packs) (\<lambda>_. True)"
    if "?b = Inr (M, packs)" for M packs
    unfolding publish_packs_def
    by (auto intro!: triple_ret prepares_run_all prepares_put_pack inj dest: good [OF that])
  have verify: "triple (always (prepares L U k m)) (verify_packs L (watched_store mem_store) M (novel_pack_index packs)) (\<lambda>_. True)"
    if b: "?b = Inr (M, packs)" for M packs
  proof -
    have "triple (always (prepares L U k m)) (check_pack L (watched_store mem_store) (novel_pack_index packs) j) (\<lambda>_. True)" for j
      unfolding check_pack_def
    proof (rule triple_bind [OF triple_lift])
      fix sha
      assume sha: "parse_pack_key j = Inr sha"
      then have j: "j = format_pack_key sha" by (simp add: parse_pack_key_iff)
      show "triple (always (prepares L U k m)) (case novel_pack_index packs sha of
          Some b \<Rightarrow> (if sha256 L b \<noteq> sha then raise ExternalServiceError else refresh_put (watched_store mem_store) j b REFRESH_PUT_ATTEMPTS)
        | None \<Rightarrow> bind_io (try_io (head_meta (watched_store mem_store) j)) (\<lambda>r. case r of
             Inr _ \<Rightarrow> ret ()
           | Inl e \<Rightarrow> raise (if e = ObjectNotFoundError then ExternalServiceError else e))) (\<lambda>_. True)"
        unfolding j
        by (intro triple_intros prepares_reads TrueI) (auto dest!: novel_index_Some good [OF b] intro!: prepares_refresh inj)
    qed auto
    then show ?thesis unfolding verify_packs_def Let_def by (auto intro!: triple_ret prepares_run_all)
  qed
  show ?thesis
  proof (cases ?b)
    case (Inl e)
    with True show ?thesis by (simp add: stage_payload_def bind_io_def lift_io_def triple_def)
  next
    case (Inr x)
    then obtain M packs where b: "?b = Inr (M, packs)" by (metis surj_pair)
    have "stage_payload L (watched_store mem_store) data
        \<lparr>chunk_threshold = threshold, base_manifest = base, pack_target = DEFAULT_PACK_TARGET\<rparr> =
      bind_io (publish_packs (watched_store mem_store) packs) (\<lambda>_.
        bind_io (verify_packs L (watched_store mem_store) M (novel_pack_index packs)) (\<lambda>_.
        bind_io (lift_io (manifest_to_bytes L M)) (\<lambda>b. ret (b, PublishedChunked (int (length data))))))"
      using True b by (simp add: stage_payload_def bind_io_def fun_eq_iff)
    then show ?thesis by (simp only:) (intro triple_intros publish [OF b] verify [OF b] triple_lift TrueI)
  qed
qed

lemma prepares_payload:
  "triple (prepares L U (payload_key_text g u) m) (put_if_absent mem_store (payload_key_text g u) b) (\<lambda>_. True)"
proof (rule tripleI)
  fix t r t'
  let ?k = "payload_key_text g u"
  assume t: "prepares L U ?k m t" and run: "put_if_absent mem_store ?k b t = (r, t')"
  show "prepares L U ?k m t' \<and> (\<forall>x. r = Inr x \<longrightarrow> True)"
  proof (cases "mem_objs t ?k")
    case None
    from mem_create_run [OF this, of b] run obtain ob where h: "mem_objs t' = (mem_objs t)(?k \<mapsto> ob)" by auto
    then have "pack_of (mem_objs t') = pack_of (mem_objs t)" by (simp add: pack_of_def fun_eq_iff)
    with t h show ?thesis by (simp add: prepares_def packs_in_def packs_grow_def)
  next
    case (Some ob)
    with run have "t' = t" by (auto simp: mem_store_def mem_put_if_absent_def mem_objs_def)
    with t show ?thesis by simp
  qed
qed

lemma prepares_publish:
  assumes inj: "inj_on (sha256 L) U" and fits: "write_fits L U base threshold data"
  shows "triple (always (prepares L U (payload_key_text g u) m)) (publish_resolved L (watched_store mem_store) data g u a mx
      \<lparr>chunk_threshold = threshold, base_manifest = base, pack_target = DEFAULT_PACK_TARGET\<rparr>) (\<lambda>_. True)"
proof (cases "valid_generation g")
  case False
  then show ?thesis by (simp add: publish_resolved_def format_payload_key_def check_generation_bad bind_io_def triple_def)
next
  case True
  have put: "triple (always (prepares L U (payload_key_text g u) m))
      (put_if_absent (watched_store mem_store) (payload_key_text g u) b) (\<lambda>_. True)" for b
    unfolding watched_store_sel by (rule triple_watch [OF prepares_payload])
  have "format_payload_key g u = Inr (payload_key_text g u)" using True by simp
  then show ?thesis
    unfolding publish_resolved_def
    by (intro triple_bind [OF triple_lift [where F = "\<lambda>k. k = payload_key_text g u"]]; simp)
       (auto intro!: triple_intros prepares_stage [OF inj fits] prepares_reads [unfolded watched_store_sel] put [unfolded watched_store_sel] split: prod.splits)
qed

section \<open>A killed writer\<close>

text \<open>Winning the marker, killed anywhere: no request took effect, or the marker is there and all but the hint as it will be.\<close>

lemma killed_create:
  assumes "doc_valid d" and "mem_objs m (marker_key_text (generation d)) = None"
    and run: "try_create_marker L (watched_store mem_store) d u a mx (m, Inr n) = (r, w)"
    and whole: "try_create_marker L mem_store d u a mx m = (q, m4)"
  shows "left_behind w = m \<or> (\<forall>k. k \<noteq> ROOT_HINT_KEY \<longrightarrow> mem_objs (left_behind w) k = mem_objs m4 k)"
proof -
  let ?mk = "marker_key_text (generation d)" and ?b = "root_to_json_bytes L d" and ?T = "watched_store mem_store"
  let ?hb = "hint_to_json_bytes L (generation d)"
  have key: "marker_key d = Inr ?mk" using assms(1) by (simp add: doc_valid_def marker_key_def)
  obtain tag m3 where put: "put_if_absent mem_store ?mk ?b m = (Inr tag, m3)" using mem_create_run [OF assms(2)] by blast
  obtain x m5 where x: "put mem_store ROOT_HINT_KEY ?hb m3 = (x, m5)" by (metis surj_pair)
  have hint: "mem_objs m5 k = mem_objs m3 k" if "k \<noteq> ROOT_HINT_KEY" for k
    using that x mem_write_objs [of ROOT_HINT_KEY ?hb m3 x m5] by (auto simp: mem_store_def mem_put_def)
  have m4: "m4 = m5"
    using whole key put x
    by (auto simp: try_create_marker_def create_marker_def write_hint_def bind_io_def try_io_def
        create_marker_resolving.simps [of L mem_store] split: sum.splits if_splits)
  obtain c where c: "watch (put_if_absent mem_store ?mk ?b) (m, Inr n) = (Inr tag, (m3, c))"
    "c = (case n of 0 \<Rightarrow> Inl m | Suc k \<Rightarrow> Inr k)" using put by (auto simp: watch_def)
  have w: "w = snd (watch (put mem_store ROOT_HINT_KEY ?hb) (m3, c))"
    using run key c(1)
    by (auto simp: try_create_marker_def create_marker_def write_hint_def bind_io_def try_io_def
        create_marker_resolving.simps [of L ?T] split: sum.splits if_splits prod.splits)
  show ?thesis
    unfolding w m4 using x c(2) hint by (auto simp: watch_def split: nat.splits)
qed

text \<open>The step of the driver for a blob, from the outcome of the publication on.\<close>

abbreviation blob_landed :: "lib \<Rightarrow> 's store \<Rightarrow> environment \<Rightarrow> int option \<Rightarrow> int \<Rightarrow> root_doc \<Rightarrow> bytes \<Rightarrow> publish_outcome \<Rightarrow>
    ('s, bytes phase) io" where
  "blob_landed L S env t mx d data outcome \<equiv> (case outcome of
     NotLanded \<Rightarrow> bind_io (backoff 1) (\<lambda>_. ret (Attempt d data 1))
   | PublishedWhole n \<Rightarrow> create_and_rebase L S (blob_hooks L S t) mx (next_doc env d 0 Whole n) data 0
   | PublishedChunked n \<Rightarrow> create_and_rebase L S (blob_hooks L S t) mx (next_doc env d 0 Chunked n) data 0)"

abbreviation blob_publish :: "lib \<Rightarrow> 's store \<Rightarrow> environment \<Rightarrow> int \<Rightarrow> root_doc \<Rightarrow> bytes \<Rightarrow> transport_policy \<Rightarrow>
    ('s, publish_outcome) io" where
  "blob_publish L S env mx d data policy \<equiv> publish_resolved L S data (generation d + 1) (uuid4 env 0) 0 mx policy"

lemma blob_first_step:
  "advance L S env (blob_hooks L S t) mx d data 0 =
     bind_io (blob_policy L S t d) (\<lambda>policy. bind_io (blob_publish L S env mx d data policy) (blob_landed L S env t mx d data))"
  by (simp add: advance_def cong: publish_outcome.case_cong)

lemma killed_landed: "simulates (photographed t') (blob_landed L S env t mx d data outcome)
    (blob_landed L (watched_store S) env t mx d data outcome)"
  and killed_publish: "simulates (photographed t') (bind_io (blob_publish L S env mx d data policy) (blob_landed L S env t mx d data))
    (bind_io (blob_publish L (watched_store S) env mx d data policy) (blob_landed L (watched_store S) env t mx d data))"
  and killed_step: "simulates (photographed t') (advance L S env (blob_hooks L S t) mx d data 0)
    (advance L (watched_store S) env (blob_hooks L (watched_store S) t) mx d data 0)"
  unfolding blob_first_step create_and_rebase_def blob_hooks_sel rebase_decision.case
  by (intro simulation_intros killed.sim_blob_policy killed.sim_publish_resolved killed.sim_try_create)+

lemma living_step: "simulates running (advance L S env (blob_hooks L S t) mx d data 0)
    (advance L (watched_store S) env (blob_hooks L (watched_store S) t) mx d data 0)"
  unfolding blob_first_step create_and_rebase_def blob_hooks_sel rebase_decision.case
  by (intro simulation_intros living.sim_blob_policy living.sim_publish_resolved living.sim_try_create)+

lemma killed_policy: "triple (always (\<lambda>s. s = m)) (blob_policy L (watched_store mem_store) t d) (\<lambda>_. True)"
proof -
  have "triple (always (\<lambda>s. s = m)) (get (watched_store mem_store) k) (\<lambda>_. True)"
    "triple (always (\<lambda>s. s = m)) (head_meta (watched_store mem_store) k) (\<lambda>_. True)" for k
    unfolding watched_store_sel
    by (intro triple_watch guar_eq_triple; auto simp: guar_def mem_store_def mem_get_def mem_head_meta_def split: option.splits)+
  then show ?thesis
    unfolding blob_policy_def load_manifest_def by (intro triple_intros triple_lift TrueI)
qed

lemma killed_advance:
  assumes ok: "lib_ok L" and inj: "inj_on (sha256 L) U"
    and vs: "versions_at L U (mem_objs m) vs" "vs \<noteq> []" "length vs \<le> 4116480"
    and head: "marker_at L (mem_objs m) (int (length vs) - 1) d"
    and fits: "write_fits L U (stored_manifest L (mem_objs m) d) threshold data"
    and fresh: "mem_objs m (payload_key_text (int (length vs)) (uuid4 env 0)) = None"
    and run: "advance L (watched_store mem_store) env (blob_hooks L (watched_store mem_store) threshold) mx d data 0 (m, Inr n) = (r, w)"
  shows "versions_at L U (mem_objs (left_behind w)) vs \<or> versions_at L U (mem_objs (left_behind w)) (vs @ [data])"
proof -
  let ?T = "watched_store mem_store" and ?u = "uuid4 env 0" and ?n = "int (length vs)"
  let ?policy = "\<lparr>chunk_threshold = threshold, base_manifest = stored_manifest L (mem_objs m) d, pack_target = DEFAULT_PACK_TARGET\<rparr>"
  have pin: "packs_in L U (mem_objs m)" using vs(1) by (simp add: versions_at_def)
  from versions_head [OF vs] obtain d' where rh: "generation d' = ?n - 1" "marker_at L (mem_objs m) (generation d') d'"
    "payload_holds L U (mem_objs m) d' (List.last vs)" by blast
  with head have dd: "d' = d" by (auto dest: marker_at_unique)
  have g: "generation d + 1 = ?n" "valid_generation (generation d)" using rh dd by (auto dest: marker_at_generation)
  from first_attempt_mem [OF assms(1-8), of mx] obtain out tr m2 m4 where
    out: "(out = PublishedWhole (int (length data)) \<and> tr = Whole) \<or> (out = PublishedChunked (int (length data)) \<and> tr = Chunked)"
    and pub: "blob_publish L mem_store env mx d data ?policy m = (Inr out, m2)"
    and win: "try_create_marker L mem_store (next_doc env d 0 tr (int (length data))) ?u 0 mx m2 =
         (Inr (Some \<lparr>result_generation = ?n, result_uuid = ?u, attempts = 1\<rparr>), m4)"
    and res: "versions_at L U (mem_objs m4) (vs @ [data])" by blast
  let ?d = "next_doc env d 0 tr (int (length data))"
  note kept = prepares_versions [OF _ fresh vs(1)]
  from simulates_runs [OF living.sim_blob_policy _ blob_policy_mem [OF rh(3) [unfolded dd] g(2)], of "(m, Inr n)"]
  obtain c1 where pol: "blob_policy L ?T threshold d (m, Inr n) = (Inr ?policy, (m, c1))" by auto
  from tripleD [OF killed_policy _ pol, of m] have c1: "c1 = Inl t \<Longrightarrow> t = m" for t by (simp add: always_def)
  from left_of_bind [OF pol run [unfolded blob_first_step] killed_publish] consider "left_behind w = m"
    | n1 where "bind_io (blob_publish L ?T env mx d data ?policy) (blob_landed L ?T env threshold mx d data) (m, Inr n1) = (r, w)"
    using c1 by blast
  then show ?thesis
  proof cases
    case 1
    with vs(1) show ?thesis by simp
  next
    case (2 n1)
    from simulates_runs [OF living.sim_publish_resolved _ pub, of "(m, Inr n1)"]
    obtain c2 where c2: "blob_publish L ?T env mx d data ?policy (m, Inr n1) = (Inr out, (m2, c2))" by auto
    have prep: "always (prepares L U (payload_key_text ?n ?u) m) (m2, c2)"
      using tripleD [OF prepares_publish [OF inj fits, where g = "generation d + 1" and u = ?u and m = m and a = 0 and mx = mx] _ c2]
        prepares_refl [OF pin] g(1) by simp
    then have m2: "prepares L U (payload_key_text ?n ?u) m m2" "c2 = Inl t \<Longrightarrow> prepares L U (payload_key_text ?n ?u) m t" for t
      by (simp_all add: always_def)
    from left_of_bind [OF c2 2 killed_landed] consider t where "c2 = Inl t" "left_behind w = t"
      | n2 where "blob_landed L ?T env threshold mx d data out (m2, Inr n2) = (r, w)" by blast
    then show ?thesis
    proof cases
      case 1
      with kept [OF m2(2)] show ?thesis by simp
    next
      case (2 n2)
      have d: "doc_valid ?d" "generation ?d = ?n" "payload_uuid ?d = ?u"
        using commit_context.next_doc_ok [OF mem.blob_context ok, of "mem_objs m" d] rh(1,2) dd vs(3)
        by (simp_all add: may_create_def next_doc_def valid_generation_def MAX_GENERATION_def)
      have "mem_objs m (marker_key_text ?n) = None"
        using vs(1) d(1,2) by (auto simp: versions_at_def has_marker_def doc_valid_def)
      then have "mem_objs m2 (marker_key_text (generation ?d)) = None"
        using m2(1) d(2) by (simp add: prepares_def area_keys(1) [symmetric])
      note won = killed_create [OF d(1) this _ win]
      obtain q u where q: "try_create_marker L ?T ?d ?u 0 mx (m2, Inr n2) = (q, u)" by (metis surj_pair)
      have "create_and_rebase L ?T (blob_hooks L ?T threshold) mx ?d data 0 (m2, Inr n2) = (r, w)" using 2 out by auto
      with q d(3) have "w = u" by (auto simp: create_and_rebase_def bind_io_def split: sum.splits option.splits)
      with won [OF q] kept [OF m2(1)] versions_but_hint [OF res] show ?thesis by auto
    qed
  qed
qed

subsection \<open>Objects a write does not touch\<close>

locale write_frame =
  fixes J :: "'s \<Rightarrow> bool" and T :: "'s store" and u :: uuid
  assumes get_frame: "triple J (get T k) (\<lambda>_. True)" and head_frame: "triple J (head_meta T k) (\<lambda>_. True)"
    and pack_create: "triple J (put_if_absent T (format_pack_key sha) b) (\<lambda>_. True)"
    and pack_put: "triple J (put T (format_pack_key sha) b) (\<lambda>_. True)"
    and marker_frame: "triple J (put_if_absent T (marker_key_text g) b) (\<lambda>_. True)"
    and payload_frame: "triple J (put_if_absent T (payload_key_text g u) b) (\<lambda>_. True)"
    and hint_frame: "triple J (put T ROOT_HINT_KEY b) (\<lambda>_. True)"
begin

lemmas frames = get_frame head_frame pack_create pack_put marker_frame payload_frame hint_frame

lemma put_pack_frame: "triple J (put_pack T sha b n) (\<lambda>_. True)"
  by (induction n) (simp_all only: put_pack.simps triple_raise, (intro triple_intros frames TrueI | assumption)+)

lemma refresh_frame: "triple J (refresh_put T (format_pack_key sha) b n) (\<lambda>_. True)"
  by (induction n) (simp_all only: refresh_put.simps triple_ret, (intro triple_intros frames TrueI | assumption)+)

lemma check_pack_frame: "triple J (check_pack L T novel k) (\<lambda>_. True)"
  unfolding check_pack_def
proof (rule triple_bind [OF triple_lift])
  fix sha
  assume "parse_pack_key k = Inr sha"
  then have "k = format_pack_key sha" by (simp add: parse_pack_key_iff)
  then show "triple J (case novel sha of
      Some b \<Rightarrow> (if sha256 L b \<noteq> sha then raise ExternalServiceError else refresh_put T k b REFRESH_PUT_ATTEMPTS)
    | None \<Rightarrow> bind_io (try_io (head_meta T k)) (\<lambda>r. case r of
         Inr _ \<Rightarrow> ret ()
       | Inl e \<Rightarrow> raise (if e = ObjectNotFoundError then ExternalServiceError else e))) (\<lambda>_. True)"
    by (auto intro!: triple_intros frames refresh_frame split: option.splits)
qed auto

lemma stage_frame: "triple J (stage_payload L T work policy) (\<lambda>_. True)"
  unfolding stage_payload_def publish_packs_def verify_packs_def Let_def
  by (auto intro!: triple_intros triple_lift prepares_run_all put_pack_frame check_pack_frame split: prod.splits)

lemma publish_frame: "triple J (publish_resolved L T work g u a m policy) (\<lambda>_. True)"
proof (cases "valid_generation g")
  case False
  then show ?thesis by (simp add: publish_resolved_def format_payload_key_def check_generation_bad bind_io_def triple_def)
next
  case True
  then have "format_payload_key g u = Inr (payload_key_text g u)" by simp
  then show ?thesis
    unfolding publish_resolved_def
    by (intro triple_bind [OF triple_lift [where F = "\<lambda>k. k = payload_key_text g u"]]; simp)
       (auto intro!: triple_intros stage_frame frames split: prod.splits)
qed

lemma create_frame: "triple J (create_marker_resolving L T doc v a m) (\<lambda>_. True)"
proof (induction "nat (m - a)" arbitrary: a rule: less_induct)
  case less
  have create: "triple J (create_marker L T doc) (\<lambda>_. True)"
    unfolding create_marker_def
    by (rule triple_bind [OF triple_lift [where F = "\<lambda>k. k = marker_key_text (generation doc)"]])
       (auto simp: marker_key_def format_marker_key_Inr intro!: triple_intros frames)
  have read: "triple J (resolve_marker L T g v) (\<lambda>_. True)" for g
    unfolding resolve_marker_def read_marker_def by (intro triple_intros triple_lift frames TrueI)
  show ?case
    by (subst create_marker_resolving.simps) (auto intro!: triple_intros create read less split: sum.splits)
qed

lemma advance_frame:
  assumes "uuid4 env 0 = u"
  shows "triple J (advance L T env (blob_hooks L T t) mx d data 0) (\<lambda>_. True)"
proof -
  have "triple J (write_hint L T g) (\<lambda>_. True)" for g
    unfolding write_hint_def by (intro triple_intros frames TrueI)
  then have "triple J (try_create_marker L T doc v a mx) (\<lambda>_. True)" for doc v a
    unfolding try_create_marker_def by (auto intro!: triple_intros create_frame split: marker_outcome.splits)
  then have "triple J (blob_landed L T env t mx d data out) (\<lambda>_. True)" for out
    unfolding create_and_rebase_def blob_hooks_sel rebase_decision.case
    by (auto intro!: triple_intros split: publish_outcome.splits)
  moreover have "triple J (blob_policy L T t d) (\<lambda>_. True)"
    unfolding blob_policy_def load_manifest_def by (intro triple_intros triple_lift frames TrueI)
  ultimately show ?thesis
    unfolding blob_first_step using publish_frame assms by (intro triple_intros) auto
qed

end

definition foreign :: "uuid \<Rightarrow> key \<Rightarrow> bool" where
  "foreign u j \<longleftrightarrow> \<not> prefix PACKS_PREFIX j \<and> \<not> prefix ROOTS_PREFIX j \<and> j \<noteq> ROOT_HINT_KEY \<and> (\<forall>g. j \<noteq> payload_key_text g u)"

lemma mem_write_frame:
  assumes "foreign u j"
  shows "write_frame (\<lambda>s. mem_objs s j = v) mem_store u"
proof -
  have w: "k \<noteq> j \<Longrightarrow> mem_write k b s = (r, s') \<Longrightarrow> mem_objs s' j = mem_objs s j" for k b s r s'
    using mem_write_objs [of k b s r s'] by auto
  have j: "format_pack_key sha \<noteq> j" "marker_key_text g \<noteq> j" "payload_key_text g u \<noteq> j" "ROOT_HINT_KEY \<noteq> j" for sha g
    using assms prefix_roots_marker [of g] by (auto simp: foreign_def format_pack_key_def)
  have put: "triple (\<lambda>s. mem_objs s j = v) (put mem_store k b) (\<lambda>_. True)"
    and create: "triple (\<lambda>s. mem_objs s j = v) (put_if_absent mem_store k b) (\<lambda>_. True)" if "k \<noteq> j" for k b
    using w [OF that] by (auto simp: triple_def mem_store_def mem_put_def mem_put_if_absent_def split: if_splits)
  have "triple (\<lambda>s. mem_objs s j = v) (get mem_store k) (\<lambda>_. True)" "triple (\<lambda>s. mem_objs s j = v) (head_meta mem_store k) (\<lambda>_. True)" for k
    by (rule guar_eq_triple; auto simp: guar_def mem_store_def mem_get_def mem_head_meta_def split: option.splits)+
  then show ?thesis by unfold_locales (assumption | rule put create | rule j)+
qed

lemma watched_write_frame: "write_frame I S u \<Longrightarrow> write_frame (always I) (watched_store S) u"
  by (unfold_locales; unfold watched_store_sel; rule triple_watch; erule write_frame.frames)

subsection \<open>A whole write on the watched store\<close>

lemma watched_write:
  assumes "lib_ok L" and "inj_on (sha256 L) U"
    and vs: "versions_at L U (mem_objs m) vs" "vs \<noteq> []" "length vs \<le> 4116480"
    and "marker_at L (mem_objs m) (int (length vs) - 1) d"
    and "write_fits L U (stored_manifest L (mem_objs m) d) threshold data"
    and "mem_objs m (payload_key_text (int (length vs)) (uuid4 env 0)) = None"
    and run: "blob_write L (watched_store mem_store) env threshold mx data (m, c) = Some (r, w)"
  shows "r = Inr \<lparr>result_generation = int (length vs), result_uuid = uuid4 env 0, attempts = 1\<rparr>"
    and "versions_at L U (mem_objs (fst w)) (vs @ [data])"
    and "c = Inl t \<Longrightarrow> snd w = Inl t"
    and "c = Inr n \<Longrightarrow> versions_at L U (mem_objs (left_behind w)) vs \<or> versions_at L U (mem_objs (left_behind w)) (vs @ [data])"
    and "foreign (uuid4 env 0) j \<Longrightarrow> mem_objs (fst w) j = mem_objs m j"
    and "foreign (uuid4 env 0) j \<Longrightarrow> c = Inr n \<Longrightarrow> mem_objs (left_behind w) j = mem_objs m j"
proof -
  let ?T = "watched_store mem_store"
  let ?step = "advance L ?T env (blob_hooks L ?T threshold) mx"
  from blob_advance_mem [OF assms(1-8), of mx] obtain m4 where whole: "resolve_head L mem_store m = (Inr (d, generation d), m)"
    "advance L mem_store env (blob_hooks L mem_store threshold) mx d data 0 m =
      (Inr (Committed \<lparr>result_generation = int (length vs), result_uuid = uuid4 env 0, attempts = 1\<rparr>), m4)"
    "versions_at L U (mem_objs m4) (vs @ [data])" by blast
  from simulates_runs [OF living.sim_resolve_head _ whole(1), of "(m, c)"] obtain c1 where
    head: "resolve_head L ?T (m, c) = (Inr (d, generation d), (m, c1))" by auto
  from simulates_runs [OF living_step _ whole(2), of "(m, c1)"] obtain c2 where
    step: "?step d data 0 (m, c1) = (Inr (Committed \<lparr>result_generation = int (length vs), result_uuid = uuid4 env 0, attempts = 1\<rparr>), (m4, c2))"
    by auto
  with run head have w: "w = (m4, c2)" and r: "r = Inr \<lparr>result_generation = int (length vs), result_uuid = uuid4 env 0, attempts = 1\<rparr>"
    by (auto simp: blob_write_def run_commit_def)
  have c2: "c2 = Inl t" if "c1 = Inl t" for t
    using simulates_run [OF killed_step refl step [unfolded that]] by auto
  have start: "c1 = Inl t \<Longrightarrow> t = m" if "c = Inr n" for t n
  proof -
    have "triple (always (\<lambda>s. s = m)) (get ?T k) (\<lambda>_. True)" for k
      unfolding watched_store_sel by (rule triple_watch [OF guar_eq_triple [OF mem_reader.get_step]])
    from tripleD [OF resolve_head_keeps [OF this] _ head] that show "c1 = Inl t \<Longrightarrow> t = m" by (simp add: always_def)
  qed
  show "r = Inr \<lparr>result_generation = int (length vs), result_uuid = uuid4 env 0, attempts = 1\<rparr>" by (rule r)
  show "versions_at L U (mem_objs (fst w)) (vs @ [data])" using whole(3) w by simp
  show "snd w = Inl t" if "c = Inl t"
    using simulates_run [OF killed.sim_resolve_head refl head [unfolded that]] c2 w by auto
  show "versions_at L U (mem_objs (left_behind w)) vs \<or> versions_at L U (mem_objs (left_behind w)) (vs @ [data])" if "c = Inr n"
  proof (cases c1)
    case (Inl t)
    with start [OF that] c2 w vs(1) show ?thesis by simp
  next
    case (Inr n1)
    with killed_advance [OF assms(1-8) step [unfolded Inr]] w show ?thesis by simp
  qed
  show "mem_objs (fst w) j = mem_objs m j" if "foreign (uuid4 env 0) j"
    using tripleD [OF write_frame.advance_frame [OF mem_write_frame [OF that, of "mem_objs m j"] refl] refl whole(2)] w by simp
  show "mem_objs (left_behind w) j = mem_objs m j" if "foreign (uuid4 env 0) j" "c = Inr n"
  proof (cases c1)
    case (Inl t)
    with start [OF that(2)] c2 w show ?thesis by simp
  next
    case (Inr n1)
    from tripleD [OF write_frame.advance_frame [OF watched_write_frame [OF mem_write_frame [OF that(1), of "mem_objs m j"]] refl]
        _ step [unfolded Inr]] w
    show ?thesis by (auto dest: always_left)
  qed
qed

section \<open>A killed collection\<close>

context store_simulation
begin

lemma sim_resolve_payloads [simulation_intros]:
  "sim (resolve_payloads L S cur ks items) (resolve_payloads L T cur ks items)"
proof (induction ks arbitrary: items)
  case (Cons k ks)
  show ?case
    unfolding resolve_payloads.simps marker_for_def names_key_def load_committed_manifest_def resolve_orphan_def
    by (intro simulation_intros Cons)
qed (simp only: resolve_payloads.simps simulates_basic)

end

text \<open>What a collection keeps is kept at every moment of it: a collector on a store is one on the watched store.\<close>

context collector
begin

lemma watched: "collector L (watched_store S) (always I) free loose retain dry grace seen head_ok listed_ok good"
proof (unfold_locales, unfold watched_store_sel)
  show "triple (always I) (resolve_head L (watched_store S)) (\<lambda>(cur, g). head_ok cur)"
  proof (rule triple_simulated [OF _ living.sim_resolve_head head_found])
    show "triple (always I) (resolve_head L (watched_store S)) (\<lambda>_. True)"
      by (rule resolve_head_keeps) (unfold watched_store_sel, rule triple_watch [OF get_keeps])
  qed (auto simp: always_def)
  show "triple (always I) (resolve_payloads L (watched_store S) cur keep []) (\<lambda>r. \<forall>items. r = Inr items \<longrightarrow> good items)"
    if "head_ok cur" "listed_ok ks"
      "\<And>k g. k \<in> set ks \<Longrightarrow> generation_of k = Some g \<Longrightarrow> generation cur - retain + 1 \<le> g \<Longrightarrow> k \<in> set keep" for cur ks keep
  proof (rule triple_simulated [OF resolve_payloads_keeps living.sim_resolve_payloads resolved [OF that]])
    show "triple (always I) (get (watched_store S) j) (\<lambda>_. True)" "triple (always I) (head_meta (watched_store S) j) (\<lambda>_. True)" for j
      unfolding watched_store_sel by (intro triple_watch get_keeps triple_weaken [OF head_keeps] TrueI)+
  qed (auto simp: always_def)
  show "loose k" if "\<not> dry" "head_ok cur" "generation_of k = Some g" "g < generation cur - retain + 1" for cur k g
    using that by (rule expired_loose)
  show "loose (meta_key m)" if "\<not> dry" "good items" "seen m" "seen c" "meta_modified c = Some t" "cold items t grace m"
      "prefix PACKS_PREFIX (meta_key m)" for items m c t
    using that by (rule unmarked_loose)
qed (rule triple_watch get_keeps head_keeps metas_keep create_keeps put_keeps match_keeps delete_keeps listing own_keys
    wet_keys | assumption)+

end

text \<open>
  Claim C14. A collection killed at any moment has lost no retained generation: over a store nobody else writes
  to, if the generation \<open>g\<close> is among the newest \<open>retain\<close> and its payload stands for \<open>data\<close>, then whatever
  a collection with that window leaves behind when it is killed after \<open>n\<close> requests still has the marker of
  \<open>g\<close>, and its payload still stands for \<open>data\<close>.
\<close>
theorem killed_collection_loses_nothing_retained:
  assumes "lake_ok L (mem_objs m)" and "marker_at L (mem_objs m) g d" and "payload_holds L U (mem_objs m) d data"
    and "\<And>k. has_marker (mem_objs m) k \<Longrightarrow> k < g + retain"
    and "m' = killed_after n (collect depth J C L (watched_store mem_store) retain dry grace unsafe) m"
  shows "marker_at L (mem_objs m') g d \<and> payload_holds L U (mem_objs m') d data"
proof -
  let ?h = "mem_objs m" and ?c = "collect depth J C L (watched_store mem_store) retain dry grace unsafe"
  have "?h (payload_key_text g (payload_uuid d)) \<noteq> None"
    using assms(2,3) by (auto simp: payload_holds_def stored_manifest_def dest: marker_at_generation split: transport.splits option.splits)
  note gc = collector.watched [OF retention_collector [OF assms(1,2) this assms(4)]]
  obtain r w where run: "?c (m, Inr n) = (r, w)" by (metis surj_pair)
  from tripleD [OF collector.collect_keeps [OF gc] _ run]
  have "always (agrees ?h (\<lambda>k. \<not> spared L ?h d k)) w" by (simp add: agrees_def)
  then have "agrees ?h (\<lambda>k. \<not> spared L ?h d k) (left_behind w)" by (rule always_left)
  with agrees_survives [OF _ assms(2,3)] assms(5) run show ?thesis by (simp add: killed_after_def)
qed

text \<open>
  Claim C13. A write killed at any moment is all or nothing: on a lake that stands for the versions \<open>vs\<close>, whatever
  \<^verbatim>\<open>BlobStore.write\<close> leaves behind when it is killed after \<open>n\<close> requests, chunked or whole, stands for
  \<open>vs\<close> or for \<open>vs @ [data]\<close>.
\<close>
theorem killed_write_is_all_or_nothing:
  assumes "lib_ok L" and "inj_on (sha256 L) U"
    and "versions_at L U (mem_objs m) vs" and "vs \<noteq> []" and "length vs \<le> 4116480"
    and "marker_at L (mem_objs m) (int (length vs) - 1) d"
    and "write_fits L U (stored_manifest L (mem_objs m) d) threshold data"
    and "mem_objs m (payload_key_text (int (length vs)) (uuid4 env 0)) = None"
    and "blob_write L (watched_store mem_store) env threshold max_attempts data (m, Inr n) = Some (r, w)"
  shows "versions_at L U (mem_objs (left_behind w)) vs \<or> versions_at L U (mem_objs (left_behind w)) (vs @ [data])"
  by (rule watched_write(4) [OF assms refl])

theorem killed_collection_loses_nothing_retained_witness:
  "\<forall>n. payload_holds sample_lib {} (mem_objs (killed_after n (collect 5 sample_json
       \<lparr>holder_id = ''1'', lease_key = LEASE_KEY, lease_ttl = Finite 300, wall_clock = (\<lambda>_. Finite 0), fresh = (\<lambda>_. 7)\<rparr>
       sample_lib (watched_store mem_store) 1 False MIN_PACK_GRACE False) sample_two)) (sample_doc 1 11) ''y''"
proof
  fix n
  have "k < 1 + 1" if "has_marker (mem_objs sample_two) k" for k using sample_two_lake(3) [OF that] by simp
  from killed_collection_loses_nothing_retained [OF sample_two_lake(1,2,4) this refl] show "payload_holds sample_lib {} (mem_objs (killed_after n (collect 5 sample_json
       \<lparr>holder_id = ''1'', lease_key = LEASE_KEY, lease_ttl = Finite 300, wall_clock = (\<lambda>_. Finite 0), fresh = (\<lambda>_. 7)\<rparr>
       sample_lib (watched_store mem_store) 1 False MIN_PACK_GRACE False) sample_two)) (sample_doc 1 11) ''y''" by blast
qed

theorem killed_write_is_all_or_nothing_witness:
  "\<forall>n. \<exists>r w. blob_write sample_lib (watched_store mem_store) sample_env (Some 0) 5 ''abc'' (sample_blob, Inr n) = Some (r, w) \<and>
     (versions_at sample_lib short (mem_objs (left_behind w)) [''abc''] \<or>
      versions_at sample_lib short (mem_objs (left_behind w)) [''abc'', ''abc''])"
proof
  fix n
  obtain r w where run: "blob_write sample_lib (watched_store mem_store) sample_env (Some 0) 5 ''abc'' (sample_blob, Inr n) = Some (r, w)"
    using blob_write_returns [of sample_lib "watched_store mem_store"] by metis
  have "write_fits sample_lib short (stored_manifest sample_lib (mem_objs sample_blob) (sample_doc 0 10)) (Some 0) ''abc''"
    using sample_fits by (simp add: stored_manifest_def)
  from killed_write_is_all_or_nothing [OF sample_lib_ok short_inj sample_blob_facts(1) _ _ _ this _ run] sample_blob_facts(2,3) run
  show "\<exists>r w. blob_write sample_lib (watched_store mem_store) sample_env (Some 0) 5 ''abc'' (sample_blob, Inr n) = Some (r, w) \<and>
     (versions_at sample_lib short (mem_objs (left_behind w)) [''abc''] \<or>
      versions_at sample_lib short (mem_objs (left_behind w)) [''abc'', ''abc''])" by auto
qed

text \<open>The maintenance lease is such an object: no write of a blob touches it, under any uuid.\<close>

lemma lease_foreign: "foreign u LEASE_KEY"
  by (auto simp: foreign_def LEASE_KEY_def PACKS_PREFIX_def ROOTS_PREFIX_def ROOT_HINT_KEY_def payload_key_text_def PAYLOAD_PREFIX_def)

interpretation lease_frame: write_frame "\<lambda>s. mem_objs s LEASE_KEY = v" mem_store u for v u
  by (rule mem_write_frame [OF lease_foreign])

end
