(* ===== verification/Crash_Drill.thy ===== *)
theory Crash_Drill
  imports Crash_Safety Lease_Fleet
begin

text \<open>
  \<^verbatim>\<open>scripts/soak_crash_drill.py\<close>: the soak and the crash drill. A child process runs on the watched store and is
  killed after a number of requests; the drill goes on from what it left behind. What the random generator and
  the scheduler choose (the victims and their lengths of life) are arguments, and so is the effect that waiting has on
  the world. The chunk threshold, which the script sets to 0, is a field of the surroundings.
\<close>

section \<open>The surroundings\<close>

text \<open>
  \<open>rig_env p i\<close> is what the \<open>i\<close>-th write of process \<open>p\<close> draws, \<open>rig_sleep\<close> the effect of \<^verbatim>\<open>time.sleep\<close>.
\<close>

record 's rig =
  rig_lib :: lib
  rig_json :: lease_lib
  rig_depth :: nat
  rig_store :: "'s store"
  rig_threshold :: "int option"
  rig_clock :: "'s \<Rightarrow> pyfloat"
  rig_uuid :: "'s \<Rightarrow> uuid"
  rig_env :: "nat \<Rightarrow> nat \<Rightarrow> environment"
  rig_sleep :: "('s, unit) io"

text \<open>The signal may strike before a sleep as it may before a request.\<close>

definition watched_rig :: "'s rig \<Rightarrow> 's watched rig" where
  "watched_rig W = \<lparr>rig_lib = rig_lib W, rig_json = rig_json W, rig_depth = rig_depth W,
     rig_store = watched_store (rig_store W), rig_threshold = rig_threshold W, rig_clock = (\<lambda>w. rig_clock W (fst w)),
     rig_uuid = (\<lambda>w. rig_uuid W (fst w)), rig_env = rig_env W,
     rig_sleep = watch (rig_sleep W)\<rparr>"

definition DEFAULT_MAX_ATTEMPTS :: int where
  "DEFAULT_MAX_ATTEMPTS = 5"

text \<open>\<^verbatim>\<open>except AppError\<close>: the errors of \<^verbatim>\<open>errors.py\<close>.\<close>

definition is_AppError :: "error \<Rightarrow> bool" where
  "is_AppError e \<longleftrightarrow> is_NotFoundError e \<or> e = InputValidationError \<or> e = ExternalServiceError \<or> e = BackendUnsafeError \<or>
     e = PreconditionFailedError \<or> e = ConditionalConflictError \<or> e = AmbiguousCasError \<or>
     (\<exists>reason. e = ConflictAbortError reason) \<or> e = CatalogHygieneError \<or> e = VersionMismatchError"

section \<open>The script\<close>

definition drill_payload :: "int \<Rightarrow> nat \<Rightarrow> bytes" where
  "drill_payload seed n = map (\<lambda>i. char_of (nat ((int i * 31 + seed) mod 251))) [0..<n]"

fun referenced_packs :: "lib \<Rightarrow> 's store \<Rightarrow> key list \<Rightarrow> key set \<Rightarrow> ('s, key set) io" where
  "referenced_packs L S [] referenced = ret referenced"
| "referenced_packs L S (k # ks) referenced =
     bind_io (try_io (bind_io (get S k) (\<lambda>r. bind_io (lift_io (manifest_from_bytes L (body r))) (\<lambda>M. ret (pack_keys M)))))
       (\<lambda>r. case r of
           Inl e \<Rightarrow> (if e = InputValidationError then referenced_packs L S ks referenced else raise e)
         | Inr packs \<Rightarrow> referenced_packs L S ks (referenced \<union> packs))"

definition assert_referenced_subset_surviving :: "lib \<Rightarrow> 's store \<Rightarrow> ('s, unit) io" where
  "assert_referenced_subset_surviving L S =
     bind_io (list_prefix S PACKS_PREFIX) (\<lambda>surviving.
     bind_io (list_prefix S PAYLOAD_PREFIX) (\<lambda>ks.
     bind_io (referenced_packs L S ks {}) (\<lambda>referenced.
       if referenced - set surviving \<noteq> {} then raise PyAssertionError else ret ())))"

definition drill_write :: "'s rig \<Rightarrow> nat \<Rightarrow> nat \<Rightarrow> bytes \<Rightarrow> 's \<Rightarrow> ((error + commit_result) \<times> 's) option" where
  "drill_write W p i data =
     blob_write (rig_lib W) (rig_store W) (rig_env W p i) (rig_threshold W) DEFAULT_MAX_ATTEMPTS data"

definition drill_collect :: "'s rig \<Rightarrow> string \<Rightarrow> int \<Rightarrow> int \<Rightarrow> bool \<Rightarrow> ('s, gc_report option) io" where
  "drill_collect W holder retain grace unsafe =
     collect (rig_depth W) (rig_json W) \<lparr>holder_id = holder, lease_key = LEASE_KEY, lease_ttl = Finite 300,
         wall_clock = rig_clock W, fresh = rig_uuid W\<rparr> (rig_lib W) (rig_store W) retain False grace unsafe"

definition drill_bootstrap :: "'s rig \<Rightarrow> uuid \<times> uuid \<times> uuid \<Rightarrow> ('s, root_doc) io" where
  "drill_bootstrap W probes =
     blob_bootstrap (rig_lib W) (rig_store W) probes (rig_env W 0 0) DEFAULT_MAX_ATTEMPTS True ''gen0''"

text \<open>The iterations of \<^verbatim>\<open>_writer_child\<close> that are left.\<close>

fun writer_child :: "'s rig \<Rightarrow> nat \<Rightarrow> int \<Rightarrow> nat list \<Rightarrow> 's \<Rightarrow> ((error + unit) \<times> 's) option" where
  "writer_child W p seed [] s = Some (Inr (), s)"
| "writer_child W p seed (i # is) s =
     (case drill_write W p i (drill_payload (seed * 1000 + int i) 400000) s of
        None \<Rightarrow> None
      | Some (r, s') \<Rightarrow> (case r of
          Inl e \<Rightarrow> (if is_AppError e then writer_child W p seed is s' else Some (Inl e, s'))
        | Inr _ \<Rightarrow> writer_child W p seed is s'))"

definition gc_child :: "'s rig \<Rightarrow> nat \<Rightarrow> int \<Rightarrow> ('s, unit) io" where
  "gc_child W child_pid grace = for_io [0..<1000] (\<lambda>_.
     bind_io (try_io (drill_collect W (''drill-gc-'' @ dec child_pid) 2 grace True)) (\<lambda>r.
     bind_io (case r of Inl e \<Rightarrow> (if is_AppError e then ret () else raise e) | Inr _ \<Rightarrow> ret ()) (\<lambda>_. rig_sleep W)))"

text \<open>One kill: the victim, and how many requests it has served when the signal strikes.\<close>

record kill =
  victim_is_gc :: bool
  victim_pid :: nat
  served :: nat

definition kill_victim :: "'s rig \<Rightarrow> int \<Rightarrow> nat \<Rightarrow> kill \<Rightarrow> 's \<Rightarrow> 's option" where
  "kill_victim W grace k x s =
     (if victim_is_gc x then Some (killed_after (served x) (gc_child (watched_rig W) (victim_pid x) grace) s)
      else (case writer_child (watched_rig W) (2 * k + 1) (int k) [0..<1000] (s, Inr (served x)) of
          None \<Rightarrow> None
        | Some (_, w) \<Rightarrow> Some (left_behind w)))"

text \<open>Convergence: a fresh writer and reader, then a fresh collection.\<close>

definition fresh_check :: "'s rig \<Rightarrow> nat \<Rightarrow> bytes \<Rightarrow> 's \<Rightarrow> ((error + unit) \<times> 's) option" where
  "fresh_check W p data s = (case drill_write W p 0 data s of
     None \<Rightarrow> None
   | Some (r, s') \<Rightarrow> Some (bind_io (lift_io r) (\<lambda>_. bind_io (blob_read (rig_lib W) (rig_store W)) (\<lambda>found.
       if found \<noteq> data then raise PyAssertionError else ret ())) s'))"

definition verify_collect :: "'s rig \<Rightarrow> int \<Rightarrow> ('s, unit) io" where
  "verify_collect W grace =
     bind_io (drill_collect W ''drill-verify-gc'' 2 grace True) (\<lambda>report.
       if report = None then raise PyAssertionError
       else assert_referenced_subset_surviving (rig_lib W) (rig_store W))"

definition crash_round :: "'s rig \<Rightarrow> int \<Rightarrow> nat \<Rightarrow> kill \<Rightarrow> 's \<Rightarrow> ((error + unit) \<times> 's) option" where
  "crash_round W grace k x s = (case kill_victim W grace k x s of
     None \<Rightarrow> None
   | Some s1 \<Rightarrow> (case fresh_check W (2 * k + 2) (drill_payload (90000 + int k) 400000) s1 of
       None \<Rightarrow> None
     | Some (r, s2) \<Rightarrow> Some (bind_io (lift_io r) (\<lambda>_. verify_collect W grace) s2)))"

fun crash_rounds :: "'s rig \<Rightarrow> int \<Rightarrow> nat \<Rightarrow> kill list \<Rightarrow> 's \<Rightarrow> ((error + unit) \<times> 's) option" where
  "crash_rounds W grace k [] s = Some (Inr (), s)"
| "crash_rounds W grace k (x # xs) s = (case crash_round W grace k x s of
     None \<Rightarrow> None
   | Some (r, s') \<Rightarrow> (case r of Inl e \<Rightarrow> Some (Inl e, s') | Inr _ \<Rightarrow> crash_rounds W grace (Suc k) xs s'))"

definition crash_drill :: "'s rig \<Rightarrow> uuid \<times> uuid \<times> uuid \<Rightarrow> int \<Rightarrow> kill list \<Rightarrow> 's \<Rightarrow> ((error + unit) \<times> 's) option" where
  "crash_drill W probes grace kills s = (case drill_bootstrap W probes s of (r, s') \<Rightarrow>
     (case r of Inl e \<Rightarrow> Some (Inl e, s') | Inr _ \<Rightarrow> crash_rounds W grace 0 kills s'))"

text \<open>The rounds of \<^verbatim>\<open>soak\<close> that are left; \<open>lifecycle\<close> is \<^verbatim>\<open>lifecycle_complete\<close>.\<close>

fun soak_rounds :: "'s rig \<Rightarrow> int \<Rightarrow> nat list \<Rightarrow> bool \<Rightarrow> 's \<Rightarrow> ((error + unit) \<times> 's) option" where
  "soak_rounds W grace [] lifecycle s = Some (if lifecycle then Inr () else Inl PyAssertionError, s)"
| "soak_rounds W grace (r # rs) lifecycle s =
     (let last = drill_payload (int r) 400000 in
      case drill_write W 0 (Suc r) last s of
        None \<Rightarrow> None
      | Some (q, s1) \<Rightarrow>
          (case bind_io (lift_io q) (\<lambda>_.
             bind_io (drill_collect W ''drill-gc'' 3 grace (grace < MIN_PACK_GRACE)) (\<lambda>report.
             bind_io (case report of None \<Rightarrow> ret False
                | Some rep \<Rightarrow> bind_io (assert_referenced_subset_surviving (rig_lib W) (rig_store W)) (\<lambda>_. ret (swept_packs rep \<noteq> [])))
               (\<lambda>swept.
             bind_io (blob_read (rig_lib W) (rig_store W)) (\<lambda>found.
             bind_io (if found \<noteq> last then raise PyAssertionError else ret ()) (\<lambda>_.
             bind_io (rig_sleep W) (\<lambda>_. ret swept)))))) s1
           of (Inl e, s2) \<Rightarrow> Some (Inl e, s2)
            | (Inr swept, s2) \<Rightarrow> soak_rounds W grace rs (lifecycle \<or> swept) s2))"

definition soak :: "'s rig \<Rightarrow> uuid \<times> uuid \<times> uuid \<Rightarrow> nat \<Rightarrow> int \<Rightarrow> 's \<Rightarrow> ((error + unit) \<times> 's) option" where
  "soak W probes rounds grace s = (case drill_bootstrap W probes s of (r, s') \<Rightarrow>
     (case r of Inl e \<Rightarrow> Some (Inl e, s') | Inr _ \<Rightarrow> soak_rounds W grace [0..<rounds] False s'))"

section \<open>A killed writer is survived\<close>










section \<open>A killed collector fails the drill\<close>












section \<open>The drill on a sample lake\<close>









end
