(* ===== verification/Guest_Model.thy ===== *)
theory Guest_Model
  imports Crash_Safety
begin

text \<open>
  A process that is overtaken. \<open>visited_store g S\<close> is the store \<open>S\<close> of a process into whose requests another
  process breaks: before the request that is due after a given number of others, \<open>g\<close> runs, a whole computation
  of the other process. Every request of the visited process is served as it would be, in the state it then finds.
\<close>

section \<open>The store of a visited process\<close>

text \<open>The second component: how many requests are left before the visit, or what the visitor has returned.\<close>

type_synonym ('s, 'b) visited = "'s \<times> (nat + 'b)"

definition visit :: "('s \<Rightarrow> 'b \<times> 's) \<Rightarrow> ('s, 'a) io \<Rightarrow> (('s, 'b) visited, 'a) io" where
  "visit g m = (\<lambda>(s, c). case c of
     Inl n \<Rightarrow> (case n of
         0 \<Rightarrow> (case g s of (b, s1) \<Rightarrow> (case m s1 of (r, s2) \<Rightarrow> (r, (s2, Inr b))))
       | Suc k \<Rightarrow> (case m s of (r, s') \<Rightarrow> (r, (s', Inl k))))
   | Inr b \<Rightarrow> (case m s of (r, s') \<Rightarrow> (r, (s', Inr b))))"

definition visited_store :: "('s \<Rightarrow> 'b \<times> 's) \<Rightarrow> 's store \<Rightarrow> ('s, 'b) visited store" where
  "visited_store g S = \<lparr>get = (\<lambda>k. visit g (get S k)), get_range = (\<lambda>k a n. visit g (get_range S k a n)),
     put_if_absent = (\<lambda>k b. visit g (put_if_absent S k b)), put_if_match = (\<lambda>k b t. visit g (put_if_match S k b t)),
     put = (\<lambda>k b. visit g (put S k b)), list_prefix = (\<lambda>p. visit g (list_prefix S p)),
     list_meta = (\<lambda>p. visit g (list_meta S p)), head_meta = (\<lambda>k. visit g (head_meta S k)),
     delete = (\<lambda>k. visit g (delete S k))\<rparr>"

lemma visited_store_sel [simp]:
  "get (visited_store g S) k = visit g (get S k)" "get_range (visited_store g S) k a n = visit g (get_range S k a n)"
  "put_if_absent (visited_store g S) k b = visit g (put_if_absent S k b)"
  "put_if_match (visited_store g S) k b t = visit g (put_if_match S k b t)"
  "put (visited_store g S) k b = visit g (put S k b)" "list_prefix (visited_store g S) p = visit g (list_prefix S p)"
  "list_meta (visited_store g S) p = visit g (list_meta S p)" "head_meta (visited_store g S) k = visit g (head_meta S k)"
  "delete (visited_store g S) k = visit g (delete S k)"
  by (simp_all add: visited_store_def)

section \<open>Before and after the visit\<close>

text \<open>\<open>W\<close> holds while the visit is due, \<open>D b\<close> when the visitor has returned \<open>b\<close>.\<close>

definition around :: "('s \<Rightarrow> bool) \<Rightarrow> ('b \<Rightarrow> 's \<Rightarrow> bool) \<Rightarrow> ('s, 'b) visited \<Rightarrow> bool" where
  "around W D p \<longleftrightarrow> (case snd p of Inl n \<Rightarrow> W (fst p) | Inr b \<Rightarrow> D b (fst p))"

lemma around_simps [simp]: "around W D (s, Inl n) = W s" "around W D (s, Inr b) = D b s"
  by (simp_all add: around_def)

lemma triple_visit:
  assumes W: "triple W m F" and D: "\<And>b. triple (D b) m F"
    and turn: "\<And>s b s'. W s \<Longrightarrow> g s = (b, s') \<Longrightarrow> D b s'"
  shows "triple (around W D) (visit g m) F"
proof (rule tripleI)
  fix p r p'
  assume p: "around W D p" and run: "visit g m p = (r, p')"
  obtain s c where sc: "p = (s, c)" by (rule prod.exhaust)
  show "around W D p' \<and> (\<forall>x. r = Inr x \<longrightarrow> F x)"
  proof (cases c)
    case (Inr b)
    obtain q s' where m: "m s = (q, s')" by (rule prod.exhaust)
    with tripleD [OF D _ m] p run sc Inr show ?thesis by (auto simp: visit_def)
  next
    case (Inl n)
    show ?thesis
    proof (cases n)
      case 0
      obtain b s1 where g: "g s = (b, s1)" by (rule prod.exhaust)
      obtain q s2 where m: "m s1 = (q, s2)" by (rule prod.exhaust)
      from p sc Inl have "W s" by simp
      from tripleD [OF D turn [OF this g] m] run sc Inl 0 g m show ?thesis by (auto simp: visit_def)
    next
      case (Suc k)
      obtain q s' where m: "m s = (q, s')" by (rule prod.exhaust)
      with tripleD [OF W _ m] p run sc Inl Suc show ?thesis by (auto simp: visit_def)
    qed
  qed
qed

text \<open>A request that is sure to succeed, and what is then sure to.\<close>

lemma try_visit: "try_io (visit g m) = visit g (try_io m)"
  by (rule ext) (auto simp: try_io_def visit_def split: prod.splits sum.splits nat.splits)

lemma triple_try_bind:
  assumes "triple I (try_io m) (\<lambda>r. \<exists>x. r = Inr x \<and> P x)" and "\<And>x. P x \<Longrightarrow> triple I (try_io (f x)) G"
  shows "triple I (try_io (bind_io m f)) G"
proof (rule tripleI)
  fix s r s'
  assume s: "I s" and run: "try_io (bind_io m f) s = (r, s')"
  obtain q s1 where m: "m s = (q, s1)" by (rule prod.exhaust)
  then have "try_io m s = (Inr q, s1)" by (simp add: try_io_def)
  with tripleD [OF assms(1) s] obtain x where x: "q = Inr x" "P x" "I s1" by blast
  with run m have "try_io (f x) s1 = (r, s')" by (simp add: try_io_def)
  from tripleD [OF assms(2) [OF x(2)] x(3) this] show "I s' \<and> (\<forall>y. r = Inr y \<longrightarrow> G y)" .
qed

lemma triple_try_ret: "G (Inr x) \<Longrightarrow> triple I (try_io (ret x)) G"
  and triple_try_lift: "q = Inr x \<Longrightarrow> G (Inr x) \<Longrightarrow> triple I (try_io (lift_io q)) G"
  by (simp_all add: triple_def try_io_def)

lemma sure_marker:
  assumes "triple I (try_io (get S (marker_key_text g))) (\<lambda>r. \<exists>x. r = Inr x \<and> root_from_json_bytes L (body x) = Some d)"
    and "valid_generation g" and "generation d = g"
  shows "triple I (try_io (read_marker L S g)) (\<lambda>r. r = Inr d)"
  unfolding read_marker_def
proof (rule triple_try_bind [where P = "\<lambda>k. k = marker_key_text g"], goal_cases)
  case 1
  show ?case using assms(2) by (intro triple_try_lift) auto
next
  case (2 k)
  show ?case unfolding 2 by (rule triple_try_bind [OF assms(1)]) (simp add: assms(3) triple_try_ret)
qed

lemma sure_manifest:
  assumes "triple I (try_io (head_meta S k)) (\<lambda>r. \<exists>x. r = Inr x \<and> meta_size x = length b)"
    and "triple I (try_io (get S k)) (\<lambda>r. \<exists>x. r = Inr x \<and> body x = b)"
    and "length b \<le> MAX_MANIFEST_BYTES" and "manifest_from_bytes L b = Inr M"
  shows "triple I (try_io (load_committed_manifest L S k)) (\<lambda>r. r = Inr M)"
  unfolding load_committed_manifest_def
  by (rule triple_try_bind [OF assms(1)]) (use assms(3,4) in \<open>auto intro!: triple_try_lift triple_try_bind [OF assms(2)]\<close>)

section \<open>What the search for the head returns\<close>

text \<open>Whatever happens to the store meanwhile, the head is a marker that was read.\<close>

lemma resolve_head_found:
  fixes I :: "'s \<Rightarrow> bool"
  assumes get: "\<And>k. triple I (get S k) (\<lambda>_. True)"
    and marker: "\<And>g. triple I (read_marker L S g) (\<lambda>d. ok d \<and> generation d = g)"
  shows "triple I (resolve_head L S) (\<lambda>(d, g). ok d \<and> generation d = g)"
proof -
  have rd: "reader (\<lambda>p q. I p \<longrightarrow> I q) S" by (rule keeping_reader [OF get])
  have keep: "triple I c (\<lambda>_. True)" if "guar (\<lambda>p q. I p \<longrightarrow> I q) c" for c :: "('s, 'c) io"
    by (rule guar_triple [OF that]) blast
  note tried = triple_try [OF marker]
  have discover: "triple I (gallop_discover L S) ok"
    unfolding gallop_discover_def
    by (rule triple_bind [OF tried])
       (auto intro!: triple_intros triple_weaken [OF marker] keep [OF reader.reader_bracket [OF rd]] keep [OF reader.reader_search [OF rd]]
          split: prod.splits)
  have start: "triple I (head_start L S hint) ok" for hint
    unfolding head_start_def
    by (rule triple_option) (auto intro!: discover triple_bind [OF tried] triple_intros)
  have probe: "triple I (forward_probe L S n d g step) (\<lambda>(d, g). ok d \<and> generation d = g)" if "ok d" "generation d = g" for n d g step
    using that
  proof (induction n arbitrary: d g step)
    case (Suc n)
    show ?case
      unfolding forward_probe.simps Let_def
      by (intro triple_if triple_bind [OF tried] triple_sum triple_raise Suc.IH triple_ret) (use Suc.prems in auto)
  qed (simp add: triple_ret)
  show ?thesis
    unfolding resolve_head_def
    by (rule triple_then [OF keep [OF reader.reader_hint [OF rd]]], rule triple_bind [OF start], rule probe) simp_all
qed

end
