(* ===== verification/Race_Safety.thy ===== *)
theory Race_Safety
  imports Guest_Model
begin

text \<open>
  A collection overtaken by a writer. Between any two requests of the collection a whole \<^verbatim>\<open>BlobStore.write\<close> runs,
  after and before delays: no retained generation is lost, nor the new one, unless a pack the write adds was
  there before, unreferenced and old. That exception is real: the second half shows the pack, and the
  generation with it, go.
\<close>

section \<open>The collection's own steps\<close>

definition gc_key :: "key \<Rightarrow> bool" where
  "gc_key k \<longleftrightarrow> own_key k \<or> k = ROOT_HINT_KEY \<or> k = TOMBSTONE_KEY"

text \<open>Objects are as they were, or the collection's own and written now, or removed where nothing forbids it.\<close>

definition tidied :: "(key \<Rightarrow> bool) \<Rightarrow> mem \<Rightarrow> mem \<Rightarrow> bool" where
  "tidied P s s' \<longleftrightarrow> clock s' = clock s \<and> (\<forall>k. mem_objs s' k = mem_objs s k \<or>
     gc_key k \<and> (\<exists>ob. mem_objs s' k = Some ob \<and> ob_mtime ob = clock s) \<or> (gc_key k \<or> \<not> P k) \<and> mem_objs s' k = None)"

lemma tidied_refl [simp]: "tidied P s s"
  by (simp add: tidied_def)

lemma mem_write_time:
  assumes "mem_write k b m = (r, m')"
  obtains ob where "mem_objs m' = (mem_objs m)(k \<mapsto> ob)" "ob_mtime ob = clock m" "clock m' = clock m"
  using assms that by (auto simp: mem_write_run mem_objs_def)

lemma tidied_calls:
  "guar (tidied P) (get mem_store k)" "guar (tidied P) (head_meta mem_store k)" "guar (tidied P) (list_meta mem_store p)"
  "guar (tidied P) (list_prefix mem_store p)"
  "gc_key k \<Longrightarrow> guar (tidied P) (put_if_absent mem_store k b)" "gc_key k \<Longrightarrow> guar (tidied P) (put mem_store k b)"
  "gc_key k \<Longrightarrow> guar (tidied P) (put_if_match mem_store k b t)"
  "gc_key k \<or> \<not> P k \<Longrightarrow> guar (tidied P) (delete mem_store k)"
proof -
  have w: "gc_key k \<Longrightarrow> mem_write k b m = (r, m') \<Longrightarrow> tidied P m m'" for k b m r m'
    by (erule mem_write_time) (simp add: tidied_def)
  show "guar (tidied P) (get mem_store k)" "guar (tidied P) (head_meta mem_store k)" "guar (tidied P) (list_meta mem_store p)"
    "guar (tidied P) (list_prefix mem_store p)"
    by (auto simp: guar_def mem_store_def mem_get_def mem_head_meta_def mem_list_meta_def mem_list_prefix_def split: option.splits)
  show "guar (tidied P) (put_if_absent mem_store k b)" if "gc_key k"
    by (rule guarI) (auto simp: mem_store_def mem_put_if_absent_def split: if_splits intro: w [OF that])
  show "guar (tidied P) (put mem_store k b)" if "gc_key k"
    by (rule guarI) (auto simp: mem_store_def mem_put_def intro: w [OF that])
  show "guar (tidied P) (put_if_match mem_store k b t)" if "gc_key k"
    by (rule guarI) (auto simp: mem_store_def mem_put_if_match_def split: if_splits option.splits intro: w [OF that])
  show "guar (tidied P) (delete mem_store k)" if "gc_key k \<or> \<not> P k"
    by (rule guarI) (use that in \<open>auto simp: mem_store_def mem_delete_def tidied_def mem_objs_def\<close>)
qed

lemma gc_key_areas: "gc_key k \<Longrightarrow> \<not> prefix ROOTS_PREFIX k \<and> \<not> prefix PAYLOAD_PREFIX k \<and> \<not> prefix PACKS_PREFIX k"
  by (auto simp: gc_key_def own_key_def LEASE_KEY_def now_probe_def ROOT_HINT_KEY_def CLOCK_PROBE_KEY_def TOMBSTONE_KEY_def
      PAYLOAD_PREFIX_def PACKS_PREFIX_def ROOTS_PREFIX_def)

section \<open>The writer\<close>

text \<open>The write that comes \<open>before\<close> time units after the request it follows; \<open>after\<close> more pass before the next one.\<close>

definition late_write :: "lib \<Rightarrow> environment \<Rightarrow> int option \<Rightarrow> int \<Rightarrow> bytes \<Rightarrow> nat \<Rightarrow> nat \<Rightarrow>
    mem \<Rightarrow> (error + commit_result) option \<times> mem" where
  "late_write L env threshold mx data before after s =
     (case blob_write L mem_store env threshold mx data (tick_mem before s) of
        None \<Rightarrow> (None, s)
      | Some (r, s') \<Rightarrow> (Some r, tick_mem after s'))"

lemma tick_mem_sel [simp]: "mem_objs (tick_mem t s) = mem_objs s" "clock (tick_mem t s) = clock s + int t"
  by (simp_all add: tick_mem_def mem_objs_def)

text \<open>What a write changes carries the time of the write.\<close>

definition stamped :: "int \<Rightarrow> contents \<Rightarrow> mem \<Rightarrow> bool" where
  "stamped T h s \<longleftrightarrow> clock s = T \<and> (\<forall>k. mem_objs s k = h k \<or> (\<exists>ob. mem_objs s k = Some ob \<and> ob_mtime ob = T))"

lemma stamped_frame: "write_frame (stamped T h) mem_store u"
proof -
  have w: "stamped T h s \<Longrightarrow> mem_write k b s = (r, s') \<Longrightarrow> stamped T h s'" for k b s r s'
    by (erule mem_write_time) (simp add: stamped_def)
  have put: "triple (stamped T h) (put mem_store k b) (\<lambda>_. True)"
    and create: "triple (stamped T h) (put_if_absent mem_store k b) (\<lambda>_. True)" for k b
    using w by (auto simp: triple_def mem_store_def mem_put_def mem_put_if_absent_def split: if_splits)
  have "triple (stamped T h) (get mem_store k) (\<lambda>_. True)" "triple (stamped T h) (head_meta mem_store k) (\<lambda>_. True)" for k
    by (rule guar_eq_triple; auto simp: guar_def mem_store_def mem_get_def mem_head_meta_def split: option.splits)+
  then show ?thesis by unfold_locales (assumption | rule put create)+
qed

lemma late_write_run:
  assumes ok: "lib_ok L" and inj: "inj_on (sha256 L) U" and head: "headed L U (mem_objs s) d"
    and fits: "write_fits L U (stored_manifest L (mem_objs s) d) threshold data"
    and fresh: "mem_objs s (payload_key_text (generation d + 1) (uuid4 env 0)) = None"
    and run: "late_write L env threshold mx data before after s = (r, s')"
  obtains out tr b where "r = Some (Inr (first_result env d))"
    "(out = PublishedWhole (int (length data)) \<and> tr = Whole) \<or> (out = PublishedChunked (int (length data)) \<and> tr = Chunked)"
    "appended L U s (next_doc env d 0 tr (int (length data))) b data s'"
    "draws_on L (stored_manifest L (mem_objs s) d) threshold data out b"
    "clock s' = clock s + int before + int after"
    "\<forall>k. mem_objs s' k = mem_objs s k \<or> (\<exists>ob. mem_objs s' k = Some ob \<and> ob_mtime ob = clock s + int before)"
proof -
  let ?s = "tick_mem before s"
  obtain out tr b m' where adv: "(out = PublishedWhole (int (length data)) \<and> tr = Whole) \<or> (out = PublishedChunked (int (length data)) \<and> tr = Chunked)"
    "advance L mem_store env (blob_hooks L mem_store threshold) mx d data 0 ?s = (Inr (Committed (first_result env d)), m')"
    "appended L U ?s (next_doc env d 0 tr (int (length data))) b data m'"
    "draws_on L (stored_manifest L (mem_objs ?s) d) threshold data out b"
    by (rule blob_advance_headed [where m = "tick_mem before s" and d = d and mx = mx and env = env, OF ok inj]) (use head fits fresh in auto)
  have "resolve_head L mem_store ?s = (Inr (d, generation d), ?s)" using head by (intro headed_head) simp
  with adv(2) have "blob_write L mem_store env threshold mx data ?s = Some (Inr (first_result env d), m')"
    by (simp add: blob_write_def run_commit_def)
  with run have r: "r = Some (Inr (first_result env d))" "s' = tick_mem after m'" by (simp_all add: late_write_def)
  have "stamped (clock s + int before) (mem_objs s) ?s" by (simp add: stamped_def)
  from tripleD [OF write_frame.advance_frame [OF stamped_frame refl] this adv(2)]
  have "stamped (clock s + int before) (mem_objs s) m'" by simp
  moreover have "appended L U s (next_doc env d 0 tr (int (length data))) b data s'"
    using adv(3) by (simp add: appended_def packs_grow_def r(2))
  ultimately show thesis using that [OF r(1) adv(1)] adv(4) by (simp add: stamped_def r(2))
qed

interpretation stamped_write: write_frame "stamped T h" mem_store u for T h u
  by (rule stamped_frame)

section \<open>Before and after the write\<close>

text \<open>The markers, what the generations \<open>d0\<close> and \<open>d\<close> need, and the payload key of the write.\<close>

definition guarded :: "lib \<Rightarrow> contents \<Rightarrow> root_doc \<Rightarrow> root_doc \<Rightarrow> uuid \<Rightarrow> key \<Rightarrow> bool" where
  "guarded L h d0 d u k \<longleftrightarrow> prefix ROOTS_PREFIX k \<or> k \<in> needed L h d0 \<or> k \<in> needed L h d \<or> k = payload_key_text (generation d0 + 1) u"

definition added :: "root_doc \<Rightarrow> uuid \<Rightarrow> key \<Rightarrow> bool" where
  "added d0 u k \<longleftrightarrow> k = marker_key_text (generation d0 + 1) \<or> k = payload_key_text (generation d0 + 1) u"

definition as_in :: "contents \<Rightarrow> (key \<Rightarrow> bool) \<Rightarrow> mem \<Rightarrow> bool" where
  "as_in h P s \<longleftrightarrow> (\<forall>k. P k \<longrightarrow> map_option ob_body (mem_objs s k) = map_option ob_body (h k))"

text \<open>Nothing is from the future, and the packs \<open>N\<close> of the write are young, at the time \<open>T\<close>.\<close>

definition aged :: "int \<Rightarrow> int \<Rightarrow> key set \<Rightarrow> mem \<Rightarrow> bool" where
  "aged T grace N s \<longleftrightarrow> (\<forall>k ob. mem_objs s k = Some ob \<longrightarrow> ob_mtime ob \<le> T \<and> (k \<in> N \<longrightarrow> T - ob_mtime ob \<le> grace))"

definition due :: "lib \<Rightarrow> bytes set \<Rightarrow> contents \<Rightarrow> (key \<Rightarrow> bool) \<Rightarrow> int \<Rightarrow> int \<Rightarrow> int \<Rightarrow> key set \<Rightarrow> mem \<Rightarrow> bool" where
  "due L U h P T0 T grace N s \<longleftrightarrow> clock s = T0 \<and> packs_in L U (mem_objs s) \<and> aged T grace N s \<and> as_in h P s"

definition passed :: "lib \<Rightarrow> bytes set \<Rightarrow> contents \<Rightarrow> (key \<Rightarrow> bool) \<Rightarrow> int \<Rightarrow> int \<Rightarrow> key set \<Rightarrow> environment \<Rightarrow> root_doc \<Rightarrow> bytes \<Rightarrow>
    (error + commit_result) option \<Rightarrow> mem \<Rightarrow> bool" where
  "passed L U h P T grace N env d0 data r s \<longleftrightarrow> r = Some (Inr (first_result env d0)) \<and> clock s = T \<and> aged T grace N s \<and>
     as_in h (\<lambda>k. P k \<and> \<not> added d0 (uuid4 env 0) k) s \<and>
     (\<exists>tr. let d1 = next_doc env d0 0 tr (int (length data)) in doc_valid d1 \<and>
        map_option ob_body (mem_objs s (marker_key_text (generation d0 + 1))) = Some (root_to_json_bytes L d1) \<and>
        payload_holds L U (mem_objs s) d1 data \<and>
        needed L (mem_objs s) d1 \<subseteq> {payload_key_text (generation d0 + 1) (uuid4 env 0)} \<union> needed L h d0 \<union> N)"

lemma next_doc_sel [simp]:
  "generation (next_doc env d a tr n) = generation d + 1" "payload_uuid (next_doc env d a tr n) = uuid4 env a"
  "transport_of (next_doc env d a tr n) = tr"
  by (simp_all add: next_doc_def)

lemma tidied_same:
  "tidied P s s' \<Longrightarrow> P k \<Longrightarrow> \<not> gc_key k \<Longrightarrow> mem_objs s' k = mem_objs s k"
  by (auto simp: tidied_def)

lemma tidied_there:
  assumes "tidied P s s'" and "mem_objs s' k = Some ob"
  shows "mem_objs s k = Some ob \<or> gc_key k \<and> ob_mtime ob = clock s"
proof -
  have "mem_objs s' k = mem_objs s k \<or> gc_key k \<and> (\<exists>ob. mem_objs s' k = Some ob \<and> ob_mtime ob = clock s) \<or>
      (gc_key k \<or> \<not> P k) \<and> mem_objs s' k = None"
    using assms(1) by (simp add: tidied_def)
  with assms(2) show ?thesis by auto
qed

lemma tidied_aged:
  assumes "tidied P s s'" and "aged T grace N s" and "clock s \<le> T" and "\<And>k. gc_key k \<Longrightarrow> k \<notin> N"
  shows "aged T grace N s'"
  unfolding aged_def
proof (intro allI impI)
  fix k ob
  assume ob: "mem_objs s' k = Some ob"
  from tidied_there [OF assms(1) this] consider "mem_objs s k = Some ob" | "gc_key k" "ob_mtime ob = clock s" by blast
  then show "ob_mtime ob \<le> T \<and> (k \<in> N \<longrightarrow> T - ob_mtime ob \<le> grace)"
    using assms(2-4) by cases (auto simp: aged_def)
qed

lemma due_tidied:
  assumes "tidied (\<lambda>k. P k \<or> k \<in> N) s s'" and "due L U h P T0 T grace N s" and "T0 \<le> T" and own: "\<And>k. gc_key k \<Longrightarrow> \<not> P k \<and> k \<notin> N"
  shows "due L U h P T0 T grace N s'"
proof -
  have s: "clock s = T0" "packs_in L U (mem_objs s)" "aged T grace N s" "as_in h P s" using assms(2) by (simp_all add: due_def)
  have "clock s' = T0" using assms(1) s(1) by (simp add: tidied_def)
  moreover have "packs_in L U (mem_objs s')"
    unfolding packs_in_def
  proof (intro allI impI)
    fix x b
    assume "pack_of (mem_objs s') x = Some b"
    then obtain ob where ob: "mem_objs s' (format_pack_key x) = Some ob" "ob_body ob = b" by (auto simp: pack_of_def)
    with tidied_there [OF assms(1) ob(1)] gc_key_areas [of "format_pack_key x"] have "pack_of (mem_objs s) x = Some b"
      by (auto simp: pack_of_def)
    with s(2) show "sha256 L b = x \<and> b \<in> U" by (simp add: packs_in_def)
  qed
  moreover have "aged T grace N s'" using tidied_aged [OF assms(1) s(3)] s(1) assms(3) own by simp
  moreover have "mem_objs s' k = mem_objs s k" if "P k" for k using tidied_same [OF assms(1)] own that by blast
  then have "as_in h P s'" using s(4) by (simp add: as_in_def)
  ultimately show ?thesis by (simp add: due_def)
qed

lemma needed_same:
  assumes "map_option ob_body (h' (payload_key_text (generation d) (payload_uuid d))) =
    map_option ob_body (h (payload_key_text (generation d) (payload_uuid d)))"
  shows "needed L h' d = needed L h d"
  by (simp add: needed_def stored_manifest_cong [of h' d h L, OF assms])

lemma passed_tidied:
  assumes t: "tidied (\<lambda>k. P k \<or> k \<in> N) s s'" and p: "passed L U h P T grace N env d0 data r s" and own: "\<And>k. gc_key k \<Longrightarrow> \<not> P k \<and> k \<notin> N"
    and P: "\<And>k. k \<in> needed L h d0 \<Longrightarrow> P k" "P (payload_key_text (generation d0 + 1) (uuid4 env 0))" "P (marker_key_text (generation d0 + 1))"
  shows "passed L U h P T grace N env d0 data r s'"
proof -
  let ?k = "payload_key_text (generation d0 + 1) (uuid4 env 0)" and ?mk = "marker_key_text (generation d0 + 1)"
  from p obtain tr where s: "r = Some (Inr (first_result env d0))" "clock s = T" "aged T grace N s"
      "as_in h (\<lambda>k. P k \<and> \<not> added d0 (uuid4 env 0) k) s"
    and d1: "doc_valid (next_doc env d0 0 tr (int (length data)))"
      "map_option ob_body (mem_objs s ?mk) = Some (root_to_json_bytes L (next_doc env d0 0 tr (int (length data))))"
      "payload_holds L U (mem_objs s) (next_doc env d0 0 tr (int (length data))) data"
      "needed L (mem_objs s) (next_doc env d0 0 tr (int (length data))) \<subseteq> {?k} \<union> needed L h d0 \<union> N"
    unfolding passed_def Let_def by blast
  let ?d1 = "next_doc env d0 0 tr (int (length data))"
  have same: "mem_objs s' k = mem_objs s k" if "P k \<or> k \<in> N" for k
    using tidied_same [OF t that] own that by blast
  have "clock s' = T" using t s(2) by (simp add: tidied_def)
  moreover have "aged T grace N s'" using tidied_aged [OF t s(3)] s(2) own by simp
  moreover have "as_in h (\<lambda>k. P k \<and> \<not> added d0 (uuid4 env 0) k) s'" using s(4) same by (simp add: as_in_def)
  moreover have "map_option ob_body (mem_objs s' ?mk) = Some (root_to_json_bytes L ?d1)" using d1(2) same P(3) by simp
  moreover have "payload_holds L U (mem_objs s') ?d1 data"
    by (rule payload_holds_needed [OF _ d1(3)]) (use d1(4) same P in auto)
  moreover have "needed L (mem_objs s') ?d1 = needed L (mem_objs s) ?d1"
    by (rule needed_same) (simp add: same P(2))
  ultimately show ?thesis using s(1) d1(1,4) unfolding passed_def Let_def by auto
qed

text \<open>The write finds the lake as it was, and leaves its generation beside it.\<close>

lemma roots_as_in:
  assumes "as_in h P s" and "\<And>k. prefix ROOTS_PREFIX k \<Longrightarrow> P k"
  shows "has_marker (mem_objs s) g = has_marker h g" "marker_at L (mem_objs s) g d = marker_at L h g d" "lake_ok L (mem_objs s) = lake_ok L h"
proof -
  have same: "map_option ob_body (mem_objs s (marker_key_text g)) = map_option ob_body (h (marker_key_text g))" for g
    using assms by (simp add: as_in_def)
  have a: "has_marker (mem_objs s) g = has_marker h g" for g using same [of g]
    by (cases "mem_objs s (marker_key_text g)"; cases "h (marker_key_text g)") (auto simp: has_marker_def)
  have b: "marker_at L (mem_objs s) g d = marker_at L h g d" for g d
    using same [of g] by (cases "mem_objs s (marker_key_text g)"; cases "h (marker_key_text g)") (auto simp: marker_at_def)
  show "has_marker (mem_objs s) g = has_marker h g" "marker_at L (mem_objs s) g d = marker_at L h g d" by (rule a, rule b)
  show "lake_ok L (mem_objs s) = lake_ok L h" by (simp add: lake_ok_def a b)
qed

lemma needed_parts:
  "payload_key_text (generation d) (payload_uuid d) \<in> needed L h d"
  "stored_manifest L h d = Some M \<Longrightarrow> pack_keys M \<subseteq> needed L h d"
  by (auto simp: needed_def)

lemma those_None: "those xs = None \<longleftrightarrow> None \<in> set xs"
  by (induction xs) (auto split: option.splits)

lemma needed_there:
  assumes "payload_holds L U h d x" and "k \<in> needed L h d"
  shows "h k \<noteq> None"
proof (cases "k = payload_key_text (generation d) (payload_uuid d)")
  case True
  with assms(1) show ?thesis by (auto simp: payload_holds_def stored_manifest_def split: transport.splits option.splits)
next
  case False
  with assms(2) obtain M where M: "stored_manifest L h d = Some M" "k \<in> pack_keys M" by (auto simp: needed_def split: option.splits)
  with assms(1) have "payload_of (pack_of h) M = Some x"
    by (auto simp: payload_holds_def manifest_holds_def stored_manifest_def split: transport.splits if_splits)
  moreover from M(2) obtain e where e: "e \<in> set (entries M)" "k = format_pack_key (pack_sha256 e)" by (auto simp: pack_keys_def)
  ultimately have "None \<notin> set (map (entry_bytes (pack_of h)) (entries M))"
    unfolding those_None [symmetric] by (auto simp: payload_of_def)
  with e(1) have "entry_bytes (pack_of h) e \<noteq> None" by force
  with e(2) show ?thesis by (auto simp: entry_bytes_def pack_of_def)
qed

lemma needed_pack: "k \<in> needed L h d \<Longrightarrow> prefix PACKS_PREFIX k \<Longrightarrow> \<exists>x. k = format_pack_key x"
  by (auto simp: needed_def pack_keys_def split: option.splits)

lemma headed_due:
  assumes head: "headed L U h d0" and due: "due L U h P T0 T grace N s" and roots: "\<And>k. prefix ROOTS_PREFIX k \<Longrightarrow> P k"
    and P: "\<And>k. k \<in> needed L h d0 \<Longrightarrow> P k"
  shows "headed L U (mem_objs s) d0" and "stored_manifest L (mem_objs s) d0 = stored_manifest L h d0"
proof -
  have as: "as_in h P s" "packs_in L U (mem_objs s)" using due by (simp_all add: due_def)
  from head obtain x where x: "payload_holds L U h d0 x" by (auto simp: headed_def)
  have same: "map_option ob_body (mem_objs s k) = map_option ob_body (h k)" if "k \<in> needed L h d0" for k
    using as(1) P [OF that] by (simp add: as_in_def)
  from payload_holds_needed [OF same x] have "\<exists>x. payload_holds L U (mem_objs s) d0 x" by blast
  with head as(2) show "headed L U (mem_objs s) d0" by (simp add: headed_def roots_as_in [OF as(1) roots])
  show "stored_manifest L (mem_objs s) d0 = stored_manifest L h d0" by (rule stored_manifest_cong) (rule same [OF needed_parts(1)])
qed

lemma write_passes:
  assumes ok: "lib_ok L" and inj: "inj_on (sha256 L) U" and head: "headed L U h d0"
    and fits: "write_fits L U (stored_manifest L h d0) threshold data"
    and fresh: "h (payload_key_text (generation d0 + 1) (uuid4 env 0)) = None"
    and N: "N = novel_keys L (stored_manifest L h d0) threshold data"
    and time: "T = T0 + int before + int after" "int after \<le> grace"
    and P: "P = guarded L h d0 d (uuid4 env 0)" and hold: "payload_holds L U h d x"
    and due: "due L U h P T0 T grace N s" and run: "late_write L env threshold mx data before after s = (r, s')"
  shows "passed L U h P T grace N env d0 data r s'"
proof -
  let ?k = "payload_key_text (generation d0 + 1) (uuid4 env 0)" and ?B = "stored_manifest L h d0"
  from head obtain y where hold0: "payload_holds L U h d0 y" by (auto simp: headed_def)
  have roots: "prefix ROOTS_PREFIX k \<Longrightarrow> P k" and need: "k \<in> needed L h d0 \<Longrightarrow> P k" and k: "P ?k" for k
    by (simp_all add: P guarded_def)
  note hd = headed_due [OF head due roots need]
  have s: "clock s = T0" "aged T grace N s" "as_in h P s" using due by (simp_all add: due_def)
  have "map_option ob_body (mem_objs s ?k) = map_option ob_body (h ?k)" using s(3) k by (simp add: as_in_def)
  then have "mem_objs s ?k = None" using fresh by simp
  note none = this
  have "write_fits L U (stored_manifest L (mem_objs s) d0) threshold data" using fits hd(2) by simp
  note lw = late_write_run [OF ok inj hd(1) this none run]
  obtain out tr b where res: "r = Some (Inr (first_result env d0))"
    and tr: "(out = PublishedWhole (int (length data)) \<and> tr = Whole) \<or> (out = PublishedChunked (int (length data)) \<and> tr = Chunked)"
    and app: "appended L U s (next_doc env d0 0 tr (int (length data))) b data s'"
    and draws: "draws_on L (stored_manifest L (mem_objs s) d0) threshold data out b"
    and clk: "clock s' = clock s + int before + int after"
    and new: "\<forall>k. mem_objs s' k = mem_objs s k \<or> (\<exists>ob. mem_objs s' k = Some ob \<and> ob_mtime ob = clock s + int before)"
    by (rule lw)
  let ?d1 = "next_doc env d0 0 tr (int (length data))"
  note app' = app [unfolded appended_def next_doc_sel]
  have "aged T grace N s'"
    unfolding aged_def
  proof (intro allI impI)
    fix k ob
    assume "mem_objs s' k = Some ob"
    with spec [OF new, of k] consider "mem_objs s k = Some ob" | "ob_mtime ob = clock s + int before" by auto
    then show "ob_mtime ob \<le> T \<and> (k \<in> N \<longrightarrow> T - ob_mtime ob \<le> grace)" using s(1,2) time by cases (auto simp: aged_def)
  qed
  moreover have "as_in h (\<lambda>k. P k \<and> \<not> added d0 (uuid4 env 0) k) s'"
    unfolding as_in_def
  proof (intro allI impI)
    fix k
    assume k: "P k \<and> \<not> added d0 (uuid4 env 0) k"
    then have same: "map_option ob_body (mem_objs s k) = map_option ob_body (h k)" using s(3) by (simp add: as_in_def)
    show "map_option ob_body (mem_objs s' k) = map_option ob_body (h k)"
    proof (cases "prefix PACKS_PREFIX k")
      case False
      have "k \<noteq> ROOT_HINT_KEY"
        using k False by (auto simp: P guarded_def ROOT_HINT_KEY_def ROOTS_PREFIX_def dest!: needed_areas) (auto simp: PAYLOAD_PREFIX_def payload_key_text_def)
      with False k app' have "mem_objs s' k = mem_objs s k" by (simp add: added_def)
      with same show ?thesis by simp
    next
      case True
      with k have "k \<in> needed L h d0 \<or> k \<in> needed L h d"
        using area_exclusive(2) by (auto simp: P guarded_def added_def)
      with needed_there [OF hold] needed_there [OF hold0] needed_pack True obtain x ob where
        x: "k = format_pack_key x" "mem_objs s k = Some ob" using same by (metis option.exhaust option.simps(8,9))
      then have "pack_of (mem_objs s) x = Some (ob_body ob)" by (simp add: pack_of_def)
      with app' have "pack_of (mem_objs s') x = Some (ob_body ob)" by (simp add: packs_grow_def)
      with same x show ?thesis by (auto simp: pack_of_def)
    qed
  qed
  moreover have "needed L (mem_objs s') ?d1 \<subseteq> {?k} \<union> needed L h d0 \<union> N"
  proof -
    have "pack_keys M \<subseteq> needed L h d0 \<union> N" if M: "stored_manifest L (mem_objs s') ?d1 = Some M" for M
    proof -
      have b: "tr = Chunked" using M by (cases tr) (simp_all add: stored_manifest_def)
      moreover from M app' b have "manifest_from_bytes L b = Inr M"
        by (auto simp: stored_manifest_def sniff_manifest_def split: if_splits option.splits sum.splits)
      ultimately have "pack_keys M \<subseteq> (case ?B of None \<Rightarrow> {} | Some B \<Rightarrow> pack_keys B) \<union> N"
        using draws tr draws_keys [of L ?B threshold data "int (length data)" b M] by (simp add: hd(2) N)
      then show ?thesis using needed_parts(2) [of L h d0] by (auto split: option.splits)
    qed
    then show ?thesis by (auto simp: needed_def [of L "mem_objs s'"] split: option.splits)
  qed
  ultimately show ?thesis
    using res clk s(1) time(1) app' unfolding passed_def Let_def by auto
qed

section \<open>The overtaken collection\<close>

text \<open>What a race is about: the collection, the write, and that nothing but its own new packs is in its way.\<close>

definition race :: "lib \<Rightarrow> bytes set \<Rightarrow> mem \<Rightarrow> environment \<Rightarrow> int option \<Rightarrow> bytes \<Rightarrow> nat \<Rightarrow> nat \<Rightarrow> int \<Rightarrow> root_doc \<Rightarrow> root_doc \<Rightarrow> bool" where
  "race L U m env threshold data before after grace d0 d \<longleftrightarrow> lib_ok L \<and> inj_on (sha256 L) U \<and> headed L U (mem_objs m) d0 \<and>
     write_fits L U (stored_manifest L (mem_objs m) d0) threshold data \<and>
     mem_objs m (payload_key_text (generation d0 + 1) (uuid4 env 0)) = None \<and>
     int after \<le> grace \<and>
     aged (clock m + int before + int after) grace (novel_keys L (stored_manifest L (mem_objs m) d0) threshold data) m \<and>
     marker_at L (mem_objs m) (generation d) d \<and> (\<exists>x. payload_holds L U (mem_objs m) d x)"

abbreviation racing :: "lib \<Rightarrow> bytes set \<Rightarrow> mem \<Rightarrow> environment \<Rightarrow> int option \<Rightarrow> bytes \<Rightarrow> nat \<Rightarrow> nat \<Rightarrow> int \<Rightarrow> root_doc \<Rightarrow> root_doc \<Rightarrow>
    (mem, (error + commit_result) option) visited \<Rightarrow> bool" where
  "racing L U m env threshold data before after grace d0 d \<equiv>
     (let h = mem_objs m; P = guarded L h d0 d (uuid4 env 0); N = novel_keys L (stored_manifest L h d0) threshold data;
          T = clock m + int before + int after in
      around (due L U h P (clock m) T grace N) (passed L U h P T grace N env d0 data))"

lemma novel_keys_packs: "k \<in> novel_keys L base threshold data \<Longrightarrow> prefix PACKS_PREFIX k"
  by (auto simp: novel_keys_def split: option.splits if_splits sum.splits)

lemma gc_key_free: "gc_key k \<Longrightarrow> \<not> guarded L h d0 d u k \<and> k \<notin> novel_keys L base threshold data"
  using gc_key_areas [of k] by (auto simp: guarded_def dest: needed_areas novel_keys_packs)

lemma guarded_parts:
  "prefix ROOTS_PREFIX k \<Longrightarrow> guarded L h d0 d u k" "k \<in> needed L h d0 \<Longrightarrow> guarded L h d0 d u k" "k \<in> needed L h d \<Longrightarrow> guarded L h d0 d u k"
  "guarded L h d0 d u (payload_key_text (generation d0 + 1) u)"
  by (simp_all add: guarded_def)

text \<open>A request of the collection: what it promises in memory in both states, it promises when overtaken.\<close>

lemma racing_call:
  assumes race: "race L U m env threshold data before after grace d0 d"
    and T: "T = clock m + int before + int after" and N: "N = novel_keys L (stored_manifest L (mem_objs m) d0) threshold data"
    and P: "P = guarded L (mem_objs m) d0 d (uuid4 env 0)"
    and step: "guar (tidied (\<lambda>k. P k \<or> k \<in> N)) c"
    and W: "\<And>s r s'. due L U (mem_objs m) P (clock m) T grace N s \<Longrightarrow> c s = (Inr r, s') \<Longrightarrow> F r"
    and D: "\<And>b s r s'. passed L U (mem_objs m) P T grace N env d0 data b s \<Longrightarrow> c s = (Inr r, s') \<Longrightarrow> F r"
  shows "triple (racing L U m env threshold data before after grace d0 d) (visit (late_write L env threshold mx data before after) c) F"
  unfolding Let_def T [symmetric] N [symmetric] P [symmetric]
proof (rule triple_visit)
  have own: "gc_key k \<Longrightarrow> \<not> P k \<and> k \<notin> N" for k unfolding P N by (rule gc_key_free)
  show "triple (due L U (mem_objs m) P (clock m) T grace N) c F"
    by (rule tripleI) (use W in \<open>auto intro: due_tidied [OF guarD [OF step]] simp: T own\<close>)
  show "triple (passed L U (mem_objs m) P T grace N env d0 data b) c F" for b
  proof (rule tripleI)
    fix s r s'
    assume s: "passed L U (mem_objs m) P T grace N env d0 data b s" and run: "c s = (r, s')"
    have "passed L U (mem_objs m) P T grace N env d0 data b s'"
      by (rule passed_tidied [OF guarD [OF step run] s own]) (simp_all add: P guarded_parts)
    with D [OF s] run show "passed L U (mem_objs m) P T grace N env d0 data b s' \<and> (\<forall>x. r = Inr x \<longrightarrow> F x)" by simp
  qed
  from race obtain x where x: "payload_holds L U (mem_objs m) d x" by (auto simp: race_def)
  show "passed L U (mem_objs m) P T grace N env d0 data b s'"
    if "due L U (mem_objs m) P (clock m) T grace N s" "late_write L env threshold mx data before after s = (b, s')" for s b s'
    by (rule write_passes [OF _ _ _ _ _ N T _ P x that]) (use race in \<open>auto simp: race_def\<close>)
qed

definition timed :: "int \<Rightarrow> int \<Rightarrow> key set \<Rightarrow> object_meta \<Rightarrow> bool" where
  "timed T grace N x \<longleftrightarrow> (\<forall>t. meta_modified x = Some t \<longrightarrow> t \<le> T \<and> (meta_key x \<in> N \<longrightarrow> T - t \<le> grace))"

lemma due_aged: "due L U h P T0 T grace N s \<Longrightarrow> aged T grace N s"
  and passed_aged: "passed L U h P T grace N env d0 data b s \<Longrightarrow> aged T grace N s"
  by (simp_all add: due_def passed_def)

lemma head_timed: "aged T grace N s \<Longrightarrow> head_meta mem_store k s = (Inr x, s') \<Longrightarrow> meta_key x = k \<and> timed T grace N x"
  by (auto simp: mem_store_def mem_head_meta_def aged_def timed_def mem_objs_def split: option.splits)

lemma metas_timed:
  assumes "aged T grace N s" and "list_meta mem_store p s = (Inr ms, s')" and x: "x \<in> set ms"
  shows "prefix p (meta_key x) \<and> timed T grace N x"
proof -
  from assms(2) have m: "metas_answer p (mem_objs s) (Inr ms)" using mem_metas_answer [of p s "Inr ms" s'] by (simp add: mem_store_def)
  then have "prefix p (meta_key x)" using x imageI [of x "set ms" meta_key] by (auto simp: metas_answer_def)
  moreover from m x obtain ob where "mem_objs s (meta_key x) = Some ob" "meta_modified x = None \<or> meta_modified x = Some (ob_mtime ob)"
    by (auto simp: metas_answer_def)
  ultimately show ?thesis using assms(1) by (auto simp: aged_def timed_def)
qed

lemma guar_tried: "guar R c \<Longrightarrow> guar R (try_io c)"
  by (rule guarI) (auto simp: try_io_def dest: guarD split: prod.splits)

lemma racing_sure:
  assumes race: "race L U m env threshold data before after grace d0 d"
    and k: "guarded L (mem_objs m) d0 d (uuid4 env 0) k" "mem_objs m k = Some ob"
  shows "triple (racing L U m env threshold data before after grace d0 d)
      (try_io (get (visited_store (late_write L env threshold mx data before after) mem_store) k)) (\<lambda>r. \<exists>x. r = Inr x \<and> body x = ob_body ob)"
    and "triple (racing L U m env threshold data before after grace d0 d)
      (try_io (head_meta (visited_store (late_write L env threshold mx data before after) mem_store) k))
      (\<lambda>r. \<exists>x. r = Inr x \<and> meta_size x = length (ob_body ob))"
    and "triple (racing L U m env threshold data before after grace d0 d)
      (list_prefix (visited_store (late_write L env threshold mx data before after) mem_store) p) (\<lambda>ks. prefix p k \<longrightarrow> k \<in> set ks)"
proof -
  let ?P = "guarded L (mem_objs m) d0 d (uuid4 env 0)"
  from race have "\<not> has_marker (mem_objs m) (generation d0 + 1)" "valid_generation (generation d0 + 1)"
    by (auto simp: race_def headed_def valid_generation_def MAX_GENERATION_def dest: marker_at_generation)
  then have "mem_objs m (marker_key_text (generation d0 + 1)) = None" by (simp add: has_marker_def)
  with race k(2) have "\<not> added d0 (uuid4 env 0) k" by (auto simp: added_def race_def)
  then have there: "\<exists>o'. mem_objs s k = Some o' \<and> ob_body o' = ob_body ob"
    if "as_in (mem_objs m) ?P s \<or> as_in (mem_objs m) (\<lambda>k. ?P k \<and> \<not> added d0 (uuid4 env 0) k) s" for s
    using that k unfolding as_in_def by (metis map_option_eq_Some option.simps(9))
  note call = racing_call [OF race refl refl refl]
  have W: "\<exists>o'. mem_objs s k = Some o' \<and> ob_body o' = ob_body ob" if "due L U (mem_objs m) ?P T0 T grace N s" for T0 T N s
    using that there by (simp add: due_def)
  have D: "\<exists>o'. mem_objs s k = Some o' \<and> ob_body o' = ob_body ob" if "passed L U (mem_objs m) ?P T grace N env d0 data b s" for T N b s
    using that there by (simp add: passed_def)
  show "triple (racing L U m env threshold data before after grace d0 d)
      (try_io (get (visited_store (late_write L env threshold mx data before after) mem_store) k)) (\<lambda>r. \<exists>x. r = Inr x \<and> body x = ob_body ob)"
    unfolding visited_store_sel try_visit
    by (rule call [OF guar_tried [OF tidied_calls(1)]]) (auto dest!: W D simp: try_io_def mem_get_run)
  show "triple (racing L U m env threshold data before after grace d0 d)
      (try_io (head_meta (visited_store (late_write L env threshold mx data before after) mem_store) k))
      (\<lambda>r. \<exists>x. r = Inr x \<and> meta_size x = length (ob_body ob))"
    unfolding visited_store_sel try_visit
    by (rule call [OF guar_tried [OF tidied_calls(2)]]) (auto dest!: W D simp: try_io_def mem_head_meta_run)
  have listed: "prefix p k \<longrightarrow> k \<in> set ks" if "list_prefix mem_store p s = (Inr ks, s')" "\<exists>o'. mem_objs s k = Some o' \<and> ob_body o' = ob_body ob" for ks s s'
    using that by (auto simp: mem_store_def list_answers_def dest!: mem_list_answers)
  show "triple (racing L U m env threshold data before after grace d0 d)
      (list_prefix (visited_store (late_write L env threshold mx data before after) mem_store) p) (\<lambda>ks. prefix p k \<longrightarrow> k \<in> set ks)"
    unfolding visited_store_sel
    by (rule call [OF tidied_calls(4)]) (erule listed, erule W, erule listed, erule D)
qed

text \<open>The head it finds is one that was there, or the new one.\<close>

definition known :: "lib \<Rightarrow> contents \<Rightarrow> environment \<Rightarrow> root_doc \<Rightarrow> bytes \<Rightarrow> root_doc \<Rightarrow> bool" where
  "known L h env d0 data doc \<longleftrightarrow> marker_at L h (generation doc) doc \<or> (\<exists>tr. doc = next_doc env d0 0 tr (int (length data)))"

lemma racing_marker:
  assumes race: "race L U m env threshold data before after grace d0 d"
  shows "triple (racing L U m env threshold data before after grace d0 d)
    (read_marker L (visited_store (late_write L env threshold mx data before after) mem_store) g)
    (\<lambda>doc. known L (mem_objs m) env d0 data doc \<and> generation doc = g)"
proof (cases "valid_generation g")
  case False
  then show ?thesis by (simp add: triple_def read_marker_def check_generation_bad format_marker_key_def)
next
  case True
  let ?h = "mem_objs m" and ?k = "marker_key_text g" and ?mk = "marker_key_text (generation d0 + 1)"
  let ?F = "\<lambda>x. \<forall>doc. root_from_json_bytes L (body x) = Some doc \<longrightarrow> generation doc = g \<longrightarrow> known L ?h env d0 data doc"
  have old: "known L ?h env d0 data doc"
    if "map_option ob_body (mem_objs s ?k) = map_option ob_body (?h ?k)" "mem_objs s ?k = Some ob"
      "root_from_json_bytes L (ob_body ob) = Some doc" "generation doc = g" for s ob doc
    using that True by (cases "?h ?k") (auto simp: known_def marker_at_def)
  have get: "triple (racing L U m env threshold data before after grace d0 d)
      (get (visited_store (late_write L env threshold mx data before after) mem_store) ?k) ?F"
    unfolding visited_store_sel
  proof (rule racing_call [OF race refl refl refl tidied_calls(1)], goal_cases)
    case (1 s r s')
    then obtain ob where ob: "mem_objs s ?k = Some ob" "body r = ob_body ob"
      by (auto simp: mem_store_def mem_get_def mem_objs_def split: option.splits)
    from 1 have "map_option ob_body (mem_objs s ?k) = map_option ob_body (?h ?k)"
      by (simp add: due_def as_in_def guarded_def)
    from old [OF this ob(1)] ob(2) show ?case by simp
  next
    case (2 b s r s')
    then obtain ob where ob: "mem_objs s ?k = Some ob" "body r = ob_body ob"
      by (auto simp: mem_store_def mem_get_def mem_objs_def split: option.splits)
    show ?case
    proof (cases "?k = ?mk")
      case True
      from 2(1) obtain tr where "doc_valid (next_doc env d0 0 tr (int (length data)))"
        "map_option ob_body (mem_objs s ?mk) = Some (root_to_json_bytes L (next_doc env d0 0 tr (int (length data))))"
        by (auto simp: passed_def Let_def)
      with ob True race have "root_from_json_bytes L (body r) = Some (next_doc env d0 0 tr (int (length data)))"
        by (simp add: race_def root_doc_roundtrip_lemma)
      then show ?thesis by (auto simp: known_def)
    next
      case False
      then have "\<not> added d0 (uuid4 env 0) ?k" by (simp add: added_def area_keys(1) [symmetric])
      with 2(1) have "map_option ob_body (mem_objs s ?k) = map_option ob_body (?h ?k)"
        by (simp add: passed_def as_in_def guarded_def)
      from old [OF this ob(1)] ob(2) show ?thesis by simp
    qed
  qed
  show ?thesis
    unfolding read_marker_def
  proof (rule triple_bind [OF triple_lift [where F = "\<lambda>k. k = ?k"]], goal_cases)
    case (1 x)
    then show ?case using True by simp
  next
    case (2 x)
    show ?case
      unfolding 2 by (rule triple_bind [OF get], rule triple_option) (auto intro: triple_raise triple_ret)
  qed
qed

lemma racing_head:
  assumes race: "race L U m env threshold data before after grace d0 d"
  shows "triple (racing L U m env threshold data before after grace d0 d)
    (resolve_head L (visited_store (late_write L env threshold mx data before after) mem_store))
    (\<lambda>(cur, g). known L (mem_objs m) env d0 data cur)"
proof -
  have get: "triple (racing L U m env threshold data before after grace d0 d)
      (get (visited_store (late_write L env threshold mx data before after) mem_store) k) (\<lambda>_. True)" for k
    unfolding visited_store_sel by (rule racing_call [OF race refl refl refl tidied_calls(1)]) simp_all
  show ?thesis by (rule triple_weaken [OF resolve_head_found [OF get racing_marker [OF race]]]) auto
qed

lemma known_below:
  assumes "race L U m env threshold data before after grace d0 d" and "known L (mem_objs m) env d0 data cur"
  shows "generation cur \<le> generation d0 + 1"
  using assms by (auto simp: known_def race_def headed_def dest!: marker_at_has)

lemma known_same:
  assumes "race L U m env threshold data before after grace d0 d" and "known L (mem_objs m) env d0 data cur"
    and e: "marker_at L (mem_objs m) (generation e) e" and "generation cur = generation e"
  shows "cur = e"
proof -
  have "has_marker (mem_objs m) (generation e)" using e by (rule marker_at_has)
  then have "generation e \<le> generation d0" using assms(1) by (simp add: race_def headed_def)
  with assms(2,4) have "marker_at L (mem_objs m) (generation e) cur" by (auto simp: known_def)
  with e show ?thesis by (rule marker_at_unique [THEN sym])
qed

lemma payload_of_guarded:
  assumes race: "race L U m env threshold data before after grace d0 d" and e: "e \<in> {d0, d}"
  obtains ob where "mem_objs m (payload_key_text (generation e) (payload_uuid e)) = Some ob"
    "marker_at L (mem_objs m) (generation e) e"
    "guarded L (mem_objs m) d0 d (uuid4 env 0) (payload_key_text (generation e) (payload_uuid e))"
proof -
  from race e obtain x where x: "payload_holds L U (mem_objs m) e x" and at: "marker_at L (mem_objs m) (generation e) e"
    by (auto simp: race_def headed_def)
  from needed_there [OF x needed_parts(1)] obtain ob where "mem_objs m (payload_key_text (generation e) (payload_uuid e)) = Some ob" by auto
  with at e needed_parts(1) [of e L "mem_objs m"] that show thesis by (auto simp: guarded_def)
qed

lemma racing_resolves:
  assumes race: "race L U m env threshold data before after grace d0 d" and e: "e \<in> {d0, d}"
    and cur: "known L (mem_objs m) env d0 data cur" and listed: "payload_key_text (generation e) (payload_uuid e) \<in> set ks"
  shows "triple (racing L U m env threshold data before after grace d0 d)
    (resolve_payloads L (visited_store (late_write L env threshold mx data before after) mem_store) cur ks [])
    (\<lambda>r. \<forall>items. r = Inr items \<longrightarrow> (\<forall>M. stored_manifest L (mem_objs m) e = Some M \<longrightarrow> CommittedChunked e M \<in> set items))"
proof -
  let ?S = "visited_store (late_write L env threshold mx data before after) mem_store"
  let ?I = "racing L U m env threshold data before after grace d0 d" and ?k = "payload_key_text (generation e) (payload_uuid e)"
  have reads: "triple ?I (get ?S k) (\<lambda>_. True)" "triple ?I (head_meta ?S k) (\<lambda>_. True)" for k
    unfolding visited_store_sel by (rule racing_call [OF race refl refl refl], rule tidied_calls, simp, simp)+
  show ?thesis
  proof (cases "stored_manifest L (mem_objs m) e")
    case None
    then show ?thesis by (auto intro: triple_weaken [OF resolve_payloads_keeps [OF reads]])
  next
    case (Some M)
    from payload_of_guarded [OF race e] obtain ob where ob: "mem_objs m ?k = Some ob" and at: "marker_at L (mem_objs m) (generation e) e"
      and P: "guarded L (mem_objs m) d0 d (uuid4 env 0) ?k" .
    from at obtain mo where mo: "mem_objs m (marker_key_text (generation e)) = Some mo" "root_from_json_bytes L (ob_body mo) = Some e"
      "valid_generation (generation e)" by (auto simp: marker_at_def split: option.splits)
    from Some ob have body: "length (ob_body ob) \<le> MAX_MANIFEST_BYTES" "manifest_from_bytes L (ob_body ob) = Inr M" "transport_of e = Chunked"
      by (cases "transport_of e"; auto simp: stored_manifest_def sniff_manifest_def split: if_splits sum.splits)+
    note sure = racing_sure [OF race P ob]
    have "triple ?I (try_io (read_marker L ?S (generation e))) (\<lambda>r. r = Inr e)"
      by (rule sure_marker [OF triple_weaken [OF racing_sure(1) [OF race _ mo(1)]]]) (use mo in \<open>auto simp: guarded_def\<close>)
    from resolve_finds_manifest [OF reads refl mo(3) body(3) _ this sure_manifest [OF sure(2,1) body(1,2)], of cur ks "[]"]
      known_same [OF race cur at] listed Some
    show ?thesis by (auto elim!: triple_weaken)
  qed
qed

lemma racing_collector:
  assumes race: "race L U m env threshold data before after grace d0 d"
    and window: "2 \<le> retain" "generation d0 + 1 < generation d + retain"
    and N: "N = novel_keys L (stored_manifest L (mem_objs m) d0) threshold data" and P: "P = guarded L (mem_objs m) d0 d (uuid4 env 0)"
  shows "collector L (visited_store (late_write L env threshold mx data before after) mem_store)
    (racing L U m env threshold data before after grace d0 d) gc_key (\<lambda>k. gc_key k \<or> \<not> (P k \<or> k \<in> N)) retain dry grace
    (timed (clock m + int before + int after) grace N) (known L (mem_objs m) env d0 data)
    (\<lambda>ks. \<forall>e \<in> {d0, d}. payload_key_text (generation e) (payload_uuid e) \<in> set ks)
    (\<lambda>items. \<forall>e \<in> {d0, d}. \<forall>M. stored_manifest L (mem_objs m) e = Some M \<longrightarrow> CommittedChunked e M \<in> set items)"
    (is "collector L ?S ?I gc_key ?loose retain dry grace (timed ?T grace N) ?ok ?listed ?good")
proof
  note call = racing_call [OF race refl N P]
  have any: "triple ?I (visit (late_write L env threshold mx data before after) c) (\<lambda>_. True)"
    if "guar (tidied (\<lambda>k. P k \<or> k \<in> N)) c" for c :: "(mem, 'x) io"
    by (rule call [OF that]) simp_all
  show "triple ?I (get ?S k) (\<lambda>_. True)" for k unfolding visited_store_sel by (rule any [OF tidied_calls(1)])
  show "triple ?I (head_meta ?S k) (\<lambda>x. meta_key x = k \<and> timed ?T grace N x)" for k
    unfolding visited_store_sel
    by (rule call [OF tidied_calls(2)]) (erule head_timed [OF due_aged], assumption, erule head_timed [OF passed_aged], assumption)
  show "triple ?I (list_meta ?S p) (\<lambda>ms. \<forall>x \<in> set ms. prefix p (meta_key x) \<and> timed ?T grace N x)" for p
    unfolding visited_store_sel
    by (rule call [OF tidied_calls(3)]) (rule ballI, erule metas_timed [OF due_aged], assumption, assumption,
        rule ballI, erule metas_timed [OF passed_aged], assumption, assumption)
  show "triple ?I (put_if_absent ?S k b) (\<lambda>_. True)" "triple ?I (put ?S k b) (\<lambda>_. True)" "triple ?I (put_if_match ?S k b t) (\<lambda>_. True)"
    if "gc_key k" for k b t
    unfolding visited_store_sel by (rule any [OF tidied_calls(5) [OF that]] any [OF tidied_calls(6) [OF that]] any [OF tidied_calls(7) [OF that]])+
  show "triple ?I (delete ?S k) (\<lambda>_. True)" if "?loose k" for k
    unfolding visited_store_sel by (rule any, rule tidied_calls(8)) (use that in simp)
  show "triple ?I (resolve_head L ?S) (\<lambda>(cur, g). ?ok cur)" by (rule racing_head [OF race])
  show "triple ?I (list_prefix ?S PAYLOAD_PREFIX) ?listed"
  proof -
    have one: "triple ?I (list_prefix ?S PAYLOAD_PREFIX) (\<lambda>ks. payload_key_text (generation e) (payload_uuid e) \<in> set ks)" if "e \<in> {d0, d}" for e
    proof -
      from payload_of_guarded [OF race that] obtain ob where ob: "mem_objs m (payload_key_text (generation e) (payload_uuid e)) = Some ob"
        and g: "guarded L (mem_objs m) d0 d (uuid4 env 0) (payload_key_text (generation e) (payload_uuid e))" .
      show ?thesis by (rule triple_weaken [OF racing_sure(3) [OF race g ob]]) simp
    qed
    show ?thesis using triple_conj [OF one [of d0] one [of d]] by simp
  qed
  have low: "generation cur - retain + 1 \<le> generation e" if "?ok cur" "e \<in> {d0, d}" for cur e
    using known_below [OF race that(1)] that(2) window by auto
  have gen: "generation_of (payload_key_text (generation e) u) = Some (generation e)" if "e \<in> {d0, d}" for e u
  proof -
    from payload_of_guarded [OF race that] have "marker_at L (mem_objs m) (generation e) e" .
    then have "valid_generation (generation e)" by (rule marker_at_generation [THEN conjunct2])
    from parse_payload_key_text [OF this dollar_payload] show ?thesis by (simp add: generation_of_def)
  qed
  show "?loose k" if "?ok cur" "generation_of k = Some i" "i < generation cur - retain + 1" for cur k i
  proof -
    have pre: "prefix PAYLOAD_PREFIX k" using that(2) by (rule generation_of_payload)
    have "generation cur - retain + 1 \<le> generation d0" using low [OF that(1)] by simp
    have not: "k \<noteq> payload_key_text (generation e) (payload_uuid e)" if "e \<in> {d0, d}" for e
      using gen [OF that] low [OF \<open>?ok cur\<close> that] \<open>generation_of k = Some i\<close> \<open>i < generation cur - retain + 1\<close> by auto
    have "k \<noteq> payload_key_text (generation d0 + 1) (uuid4 env 0)"
    proof -
      have "valid_generation (generation d0 + 1)"
        using race by (auto simp: race_def headed_def valid_generation_def MAX_GENERATION_def dest: marker_at_generation)
      from parse_payload_key_text [OF this dollar_payload] known_below [OF race that(1)] that(2,3) window(1)
      show ?thesis by (auto simp: generation_of_def)
    qed
    with not [of d0] not [of d] pre area_exclusive show ?thesis
      by (auto simp: P N guarded_def dest!: needed_cases novel_keys_packs)
  qed
  show "triple ?I (resolve_payloads L ?S cur keep []) (\<lambda>r. \<forall>items. r = Inr items \<longrightarrow> ?good items)"
    if "?ok cur" "?listed ks" and all:
      "\<And>k i. k \<in> set ks \<Longrightarrow> generation_of k = Some i \<Longrightarrow> generation cur - retain + 1 \<le> i \<Longrightarrow> k \<in> set keep" for cur ks keep
  proof -
    have kept: "payload_key_text (generation e) (payload_uuid e) \<in> set keep" if "e \<in> {d0, d}" for e
      using that \<open>?listed ks\<close> \<open>?ok cur\<close> by (intro all [OF _ gen low]) auto
    show ?thesis
      using triple_conj [OF racing_resolves [OF race _ that(1) kept, of d0 mx] racing_resolves [OF race _ that(1) kept, of d mx]]
      by (auto elim!: triple_weaken)
  qed
  show "?loose (meta_key x)"
    if "?good items" "timed ?T grace N x" "timed ?T grace N c" "meta_modified c = Some t" "cold items t grace x" "prefix PACKS_PREFIX (meta_key x)"
    for items x c t
  proof -
    from that(5) obtain u where u: "meta_modified x = Some u" "grace < t - u" "meta_key x \<notin> (\<Union>item \<in> set items. item_marks item)"
      by (auto simp: cold_def)
    with that(2-4) have "meta_key x \<notin> N" by (auto simp: timed_def)
    moreover have "meta_key x \<notin> needed L (mem_objs m) e" if "e \<in> {d0, d}" for e
    proof -
      have "meta_key x \<notin> pack_keys M" if "stored_manifest L (mem_objs m) e = Some M" for M
        using that \<open>?good items\<close> \<open>e \<in> {d0, d}\<close> u(3) by (force simp: item_marks_def)
      moreover have "meta_key x \<noteq> payload_key_text (generation e) (payload_uuid e)"
        using \<open>prefix PACKS_PREFIX (meta_key x)\<close> by auto
      ultimately show ?thesis by (auto simp: needed_def split: option.splits)
    qed
    moreover have "meta_key x \<noteq> payload_key_text (generation d0 + 1) (uuid4 env 0)" using that(6) by auto
    ultimately show ?thesis using that(6) area_exclusive(2) by (auto simp: P guarded_def)
  qed
qed (auto simp: gc_key_def own_key_def)

lemma passed_survives:
  assumes race: "race L U m env threshold data before after grace d0 d" and hold: "payload_holds L U (mem_objs m) d x"
    and I: "racing L U m env threshold data before after grace d0 d (s, c)"
  shows "marker_at L (mem_objs s) (generation d) d \<and> payload_holds L U (mem_objs s) d x"
    and "c = Inr w \<Longrightarrow> w = Some (Inr (first_result env d0)) \<and> (\<exists>d1. payload_uuid d1 = uuid4 env 0 \<and>
      marker_at L (mem_objs s) (generation d0 + 1) d1 \<and> payload_holds L U (mem_objs s) d1 data)"
proof -
  let ?h = "mem_objs m" and ?P = "guarded L (mem_objs m) d0 d (uuid4 env 0)"
  have v: "valid_generation (generation d0 + 1)"
    using race by (auto simp: race_def headed_def valid_generation_def MAX_GENERATION_def dest: marker_at_generation)
  moreover have "\<not> has_marker ?h (generation d0 + 1)" using race by (auto simp: race_def headed_def)
  ultimately have "?h (marker_key_text (generation d0 + 1)) = None" by (simp add: has_marker_def)
  with race have there: "\<not> added d0 (uuid4 env 0) k" if "?h k \<noteq> None" for k using that by (auto simp: added_def race_def)
  have same: "map_option ob_body (mem_objs s k) = map_option ob_body (?h k)" if "?P k" "?h k \<noteq> None" for k
    using I that there [OF that(2)] by (cases c) (auto simp: Let_def due_def passed_def as_in_def)
  from race obtain o1 where o1: "?h (marker_key_text (generation d)) = Some o1" and at: "marker_at L ?h (generation d) d"
    by (auto simp: race_def marker_at_def split: option.splits)
  have "map_option ob_body (mem_objs s (marker_key_text (generation d))) = map_option ob_body (?h (marker_key_text (generation d)))"
    by (rule same) (simp_all add: guarded_parts o1)
  with at o1 have "marker_at L (mem_objs s) (generation d) d" by (auto simp: marker_at_def)
  moreover have "payload_holds L U (mem_objs s) d x"
    by (rule payload_holds_needed [OF same hold]) (auto simp: guarded_parts dest: needed_there [OF hold])
  ultimately show "marker_at L (mem_objs s) (generation d) d \<and> payload_holds L U (mem_objs s) d x" by blast
  show "w = Some (Inr (first_result env d0)) \<and> (\<exists>d1. payload_uuid d1 = uuid4 env 0 \<and>
      marker_at L (mem_objs s) (generation d0 + 1) d1 \<and> payload_holds L U (mem_objs s) d1 data)" if c: "c = Inr w"
  proof -
    from I c obtain tr where w: "w = Some (Inr (first_result env d0))"
      and d1: "doc_valid (next_doc env d0 0 tr (int (length data)))"
        "map_option ob_body (mem_objs s (marker_key_text (generation d0 + 1))) = Some (root_to_json_bytes L (next_doc env d0 0 tr (int (length data))))"
        "payload_holds L U (mem_objs s) (next_doc env d0 0 tr (int (length data))) data"
      by (auto simp: Let_def passed_def)
    from race have "lib_ok L" by (simp add: race_def)
    with d1(1,2) v have "marker_at L (mem_objs s) (generation d0 + 1) (next_doc env d0 0 tr (int (length data)))"
      by (auto simp: marker_at_def root_doc_roundtrip_lemma)
    with w d1(3) next_doc_sel(2) show ?thesis by blast
  qed
qed

text \<open>
  Claim C9. A collection and a write do not hurt each other: let a whole \<^verbatim>\<open>BlobStore.write\<close> run between any two
  requests of a collection that keeps at least two generations, any time after the request before it and at most the
  grace before the one after it. Then the write succeeds at its first attempt, and afterwards its generation, like every
  generation in the window, has its marker and its payload still stands for its data. This needs that a pack the write
  adds was absent before, or is no older than the grace when the collection goes on (an older one may be lost, as
  the next section shows), and that no object is dated in the future. Payloads older than the window may be half swept
  meanwhile.
\<close>
theorem collection_spares_a_concurrent_write:
  assumes "lib_ok L" and "inj_on (sha256 L) U" and "headed L U (mem_objs m) d0"
    and "write_fits L U (stored_manifest L (mem_objs m) d0) threshold data"
    and "mem_objs m (payload_key_text (generation d0 + 1) (uuid4 env 0)) = None"
    and "int after \<le> grace" and "2 \<le> retain"
    and "aged (clock m + int before + int after) grace (novel_keys L (stored_manifest L (mem_objs m) d0) threshold data) m"
    and "marker_at L (mem_objs m) g d" and "payload_holds L U (mem_objs m) d x" and "generation d0 + 1 < g + retain"
    and "collect depth J C L (visited_store (late_write L env threshold max_attempts data before after) mem_store) retain dry grace unsafe
      (m, Inl n) = (r, (m', c))"
  shows "marker_at L (mem_objs m') g d \<and> payload_holds L U (mem_objs m') d x \<and>
    (\<forall>w. c = Inr w \<longrightarrow> w = Some (Inr \<lparr>result_generation = generation d0 + 1, result_uuid = uuid4 env 0, attempts = 1\<rparr>) \<and>
      (\<exists>d1. payload_uuid d1 = uuid4 env 0 \<and> marker_at L (mem_objs m') (generation d0 + 1) d1 \<and> payload_holds L U (mem_objs m') d1 data))"
proof -
  have g: "generation d = g" using assms(9) by (auto dest: marker_at_generation)
  have race: "race L U m env threshold data before after grace d0 d" using assms(1-6,8-10) g by (auto simp: race_def)
  note col = racing_collector [OF race assms(7) _ refl refl, of max_attempts dry, unfolded g, OF assms(11)]
  have start: "racing L U m env threshold data before after grace d0 d (m, Inl n)"
    using race by (simp add: Let_def due_def race_def headed_def as_in_def)
  from tripleD [OF collector.collect_keeps [OF col] start assms(12)]
  have "racing L U m env threshold data before after grace d0 d (m', c)" by blast
  from passed_survives [OF race assms(10) this] show ?thesis unfolding g by blast
qed

section \<open>The pack that was there before\<close>

text \<open>A payload can be put together only if every pack of its manifest is there.\<close>

lemma triple_map_io:
  "(\<And>x. x \<in> set xs \<Longrightarrow> triple I (f x) (\<lambda>_. P x)) \<Longrightarrow> triple I (map_io f xs) (\<lambda>_. \<forall>x \<in> set xs. P x)"
proof (induction xs)
  case (Cons x xs)
  have "triple I (f x) (\<lambda>_. P x)" and rest: "triple I (map_io f xs) (\<lambda>_. \<forall>x \<in> set xs. P x)" using Cons by auto
  then show ?case
    unfolding map_io.simps by (intro triple_bind [OF \<open>triple I (f x) (\<lambda>_. P x)\<close>] triple_bind [OF rest] triple_ret) simp
qed (simp add: triple_ret)

lemma reconstruct_needs:
  assumes get: "\<And>sha. triple I (get S (format_pack_key sha)) (\<lambda>_. there sha)"
  shows "triple I (reconstruct L S M) (\<lambda>_. \<forall>e \<in> set (entries M). there (pack_sha256 e))"
proof -
  have fetch: "triple I (fetch_pack L S sha) (\<lambda>_. there sha)" for sha
    unfolding fetch_pack_def by (rule triple_bind [OF get]) (auto intro: triple_raise triple_ret)
  have cut: "triple I (cut_piece b e) (\<lambda>_. True)" for b e
    by (auto simp: cut_piece_def Let_def intro: triple_raise triple_ret)
  note any = triple_weaken [OF fetch TrueI]
  have ents: "triple I (write_entries L S position limit bodies es memo out) (\<lambda>_. True)" for position limit bodies es memo out
    by (induction es arbitrary: memo out) (auto intro!: triple_intros cut any split: option.splits prod.splits)
  have windows: "triple I (write_windows L S position start ws es memo out) (\<lambda>_. \<forall>w \<in> set ws. \<forall>sha \<in> set w. there sha)"
    for position start ws es memo out
  proof (induction ws arbitrary: start es memo out)
    case (Cons w ws)
    have one: "triple I (map_io (\<lambda>sha. bind_io (fetch_pack L S sha) (\<lambda>b. ret (sha, b))) w) (\<lambda>_. \<forall>sha \<in> set w. there sha)"
      by (rule triple_map_io) (auto intro: triple_bind [OF fetch] triple_ret)
    show ?case
      unfolding write_windows.simps
    proof (rule triple_bind [OF one], rule triple_then [OF ents], goal_cases)
      case (1 x y)
      then show ?case by (cases y) (auto intro: triple_weaken [OF Cons])
    qed
  qed (simp add: triple_ret)
  obtain ordered position where st: "fold note_pack (entries M) ([], Map.empty) = (ordered, position)" by (rule prod.exhaust)
  have "pack_sha256 e \<in> set ordered" if e: "e \<in> set (entries M)" for e
  proof -
    have ok: "position_ok (ordered, position)"
      using position_ok_fold [of "([], Map.empty)" "entries M"] by (simp add: st position_ok_def)
    obtain i where "position (pack_sha256 e) = Some i"
      using fold_note_covers [OF e, of "([], Map.empty)"] st by auto
    with ok have "i < length ordered" "ordered ! i = pack_sha256 e" unfolding position_ok_def fst_conv snd_conv by blast+
    then show ?thesis by (metis nth_mem)
  qed
  moreover have "set ordered = (\<Union>w \<in> set (range_slices RECONSTRUCT_WINDOW_PACKS ordered). set w)"
    using concat_range_slices [of RECONSTRUCT_WINDOW_PACKS ordered] set_concat [of "range_slices RECONSTRUCT_WINDOW_PACKS ordered"]
    by (simp add: RECONSTRUCT_WINDOW_PACKS_def)
  ultimately show ?thesis
    unfolding reconstruct_def st Let_def prod.case
    by (intro triple_bind [OF windows]) (auto intro!: triple_raise triple_ret)
qed

lemma stored_after_delete:
  assumes app: "appended L U s d b data s'" and M: "manifest_from_bytes L b = Inr M" "transport_of d = Chunked"
    and h: "\<And>k. \<not> prefix PACKS_PREFIX k \<Longrightarrow> mem_objs m' k = mem_objs s' k"
  shows "stored_manifest L (mem_objs m') d = Some M" and "lib_ok L \<Longrightarrow> marker_at L (mem_objs m') (generation d) d"
proof -
  let ?k = "payload_key_text (generation d) (payload_uuid d)"
  note app' = app [unfolded appended_def]
  obtain ob where ob: "mem_objs s' ?k = Some ob" "ob_body ob = b" using app' by auto
  have "payload_holds L U (mem_objs s') d data" using app' by blast
  with M ob have "stored_manifest L (mem_objs s') d = Some M"
    by (auto simp: payload_holds_def stored_manifest_def sniff_manifest_def split: if_splits option.splits)
  moreover have "stored_manifest L (mem_objs m') d = stored_manifest L (mem_objs s') d" by (rule stored_manifest_cong) (simp add: h)
  ultimately show "stored_manifest L (mem_objs m') d = Some M" by simp
  have "mem_objs m' (marker_key_text (generation d)) = mem_objs s' (marker_key_text (generation d))" by (rule h) simp
  with appended_marker [OF _ app] show "lib_ok L \<Longrightarrow> marker_at L (mem_objs m') (generation d) d" by (simp add: marker_at_def)
qed

lemma unreadable:
  assumes M: "stored_manifest L (mem_objs m) d = Some M" and d: "transport_of d = Chunked" "valid_generation (generation d)"
    and e: "e \<in> set (entries M)" and gone: "mem_objs m (format_pack_key (pack_sha256 e)) = None"
  shows "\<exists>err. fetch_payload L mem_store d m = (Inl err, m)" and "\<not> payload_holds L U (mem_objs m) d x"
proof -
  have "triple (\<lambda>s. s = m) (get mem_store (format_pack_key sha)) (\<lambda>_. pack_of (mem_objs m) sha \<noteq> None)" for sha
    by (rule tripleI) (auto simp: mem_store_def mem_get_def pack_of_def mem_objs_def split: option.splits)
  note needs = reconstruct_needs [where I = "\<lambda>s. s = m" and there = "\<lambda>sha. pack_of (mem_objs m) sha \<noteq> None", OF this, of L M]
  obtain r m' where r: "reconstruct L mem_store M m = (r, m')" by (rule prod.exhaust)
  from tripleD [OF needs refl r] e gone have "m' = m" "\<exists>err. r = Inl err" by (auto simp: pack_of_def split: sum.splits) (cases r; force)
  with r load_manifest_mem [OF M] d show "\<exists>err. fetch_payload L mem_store d m = (Inl err, m)"
    by (auto simp: fetch_payload_def payload_key_def)
  have "format_pack_key (pack_sha256 e) \<in> needed L (mem_objs m) d" using e M by (auto simp: needed_def pack_keys_def)
  with needed_there [of L U "mem_objs m" d x] gone show "\<not> payload_holds L U (mem_objs m) d x" by blast
qed

lemma probe_headed:
  assumes "headed L U (mem_objs m) d0" and "mem_objs m1 = (mem_objs m)(CLOCK_PROBE_KEY \<mapsto> ob)"
  shows "headed L U (mem_objs m1) d0" and "stored_manifest L (mem_objs m1) d0 = stored_manifest L (mem_objs m) d0"
    and "mem_objs m1 (payload_key_text g u) = mem_objs m (payload_key_text g u)"
proof -
  have gc: "gc_key CLOCK_PROBE_KEY" by (simp add: gc_key_def own_key_def)
  have other: "mem_objs m1 k = mem_objs m k" if "prefix ROOTS_PREFIX k \<or> prefix PAYLOAD_PREFIX k \<or> prefix PACKS_PREFIX k" for k
    using that gc_key_areas [OF gc] assms(2) by auto
  from assms(1) obtain x where hd: "lake_ok L (mem_objs m)" "packs_in L U (mem_objs m)" "marker_at L (mem_objs m) (generation d0) d0"
    "generation d0 < 4116480" "\<And>g. has_marker (mem_objs m) g \<Longrightarrow> g \<le> generation d0" "payload_holds L U (mem_objs m) d0 x"
    by (auto simp: headed_def)
  have as: "as_in (mem_objs m) (prefix ROOTS_PREFIX) m1" by (simp add: as_in_def other)
  have "pack_of (mem_objs m1) = pack_of (mem_objs m)" by (rule ext) (simp add: pack_of_def other)
  then have "packs_in L U (mem_objs m1)" using hd(2) by (simp add: packs_in_def)
  moreover have "payload_holds L U (mem_objs m1) d0 x"
    by (rule payload_holds_needed [OF _ hd(6)]) (auto dest!: needed_areas simp: other)
  ultimately show "headed L U (mem_objs m1) d0" using hd by (auto simp: headed_def roots_as_in [OF as])
  show key: "mem_objs m1 (payload_key_text g u) = mem_objs m (payload_key_text g u)" for g u by (rule other) simp
  show "stored_manifest L (mem_objs m1) d0 = stored_manifest L (mem_objs m) d0" by (rule stored_manifest_cong) (simp add: key)
qed

text \<open>
  Claim C10. The exception is real, and needs no stalled writer: if a pack of the write is already in the bucket, older
  than the grace and up for deletion, and the whole write falls between the collection's last look at that pack and its
  DELETE, then the write succeeds and is committed, and the collection deletes the pack. The payload of the
  committed generation stands for nothing any more, and reading it fails.
\<close>
theorem revived_pack_is_lost:
  assumes "lib_ok L" and "inj_on (sha256 L) U" and "headed L U (mem_objs m) d0"
    and "write_fits L U (stored_manifest L (mem_objs m) d0) (Some t) data" and "t \<le> int (length data)"
    and "mem_objs m (payload_key_text (generation d0 + 1) (uuid4 env 0)) = None"
    and "build_manifest L data (stored_manifest L (mem_objs m) d0) None DEFAULT_PACK_TARGET = Inr (M, packs)"
    and "e \<in> set (entries M)" and "mem_objs m (format_pack_key (pack_sha256 e)) = Some ob" and "grace < clock m - ob_mtime ob"
  shows "\<exists>m' d1. delete_cold_packs J C (visited_store (late_write L env (Some t) max_attempts data 0 0) mem_store)
      [format_pack_key (pack_sha256 e)] grace ((m, Inl 3), tag) =
        (Inr [format_pack_key (pack_sha256 e)],
         ((m', Inr (Some (Inr \<lparr>result_generation = generation d0 + 1, result_uuid = uuid4 env 0, attempts = 1\<rparr>))), tag)) \<and>
    marker_at L (mem_objs m') (generation d0 + 1) d1 \<and> payload_uuid d1 = uuid4 env 0 \<and>
    (\<forall>x. \<not> payload_holds L U (mem_objs m') d1 x) \<and> (\<exists>err. fetch_payload L mem_store d1 m' = (Inl err, m'))"
proof -
  let ?k = "format_pack_key (pack_sha256 e)" and ?g = "late_write L env (Some t) max_attempts data 0 0"
  obtain q m1 where put: "mem_write CLOCK_PROBE_KEY ''t'' m = (q, m1)" by (rule prod.exhaust)
  then obtain po where m1: "q = Inr (etag_text (Suc (etag_counter m)))" "mem_objs m1 = (mem_objs m)(CLOCK_PROBE_KEY \<mapsto> po)"
    "ob_mtime po = clock m" "clock m1 = clock m" by (auto simp: mem_write_run mem_objs_def)
  note hd = probe_headed [OF assms(3) m1(2)]
  have fits1: "write_fits L U (stored_manifest L (mem_objs m1) d0) (Some t) data" using assms(4) hd(2) by simp
  have fresh1: "mem_objs m1 (payload_key_text (generation d0 + 1) (uuid4 env 0)) = None" using assms(6) hd(3) by simp
  obtain w m2 where lw: "?g m1 = (w, m2)" by (rule prod.exhaust)
  obtain out tr b where w: "w = Some (Inr (first_result env d0))"
    and tr: "(out = PublishedWhole (int (length data)) \<and> tr = Whole) \<or> (out = PublishedChunked (int (length data)) \<and> tr = Chunked)"
    and app: "appended L U m1 (next_doc env d0 0 tr (int (length data))) b data m2"
    and draws: "draws_on L (stored_manifest L (mem_objs m1) d0) (Some t) data out b"
    and "clock m2 = clock m1 + int 0 + int 0"
    and "\<forall>k. mem_objs m2 k = mem_objs m1 k \<or> (\<exists>ob. mem_objs m2 k = Some ob \<and> ob_mtime ob = clock m1 + int 0)"
    by (rule late_write_run [OF assms(1,2) hd(1) fits1 fresh1 lw])
  have b: "tr = Chunked" "manifest_from_bytes L b = Inr M"
    using draws tr assms(5,7) hd(2) by (auto simp: draws_on_def)
  let ?d1 = "next_doc env d0 0 Chunked (int (length data))" and ?m' = "m2\<lparr>objects := DAList.delete ?k (objects m2)\<rparr>"
  have h: "mem_objs ?m' j = (if j = ?k then None else mem_objs m2 j)" for j by (simp add: mem_objs_def DAList.lookup_delete)
  have "mem_objs ?m' j = mem_objs m2 j" if "\<not> prefix PACKS_PREFIX j" for j using that h by auto
  from stored_after_delete [OF app [unfolded b(1)] b(2) _ this] assms(1) have
    d1: "stored_manifest L (mem_objs ?m') ?d1 = Some M" "marker_at L (mem_objs ?m') (generation d0 + 1) ?d1" by simp_all
  have "mem_objs ?m' ?k = None" by (simp add: h)
  from unreadable [OF d1(1) _ _ assms(8) this] d1(2) have
    gone: "\<exists>err. fetch_payload L mem_store ?d1 ?m' = (Inl err, ?m')" "\<forall>x. \<not> payload_holds L U (mem_objs ?m') ?d1 x"
    by (auto dest: marker_at_generation)
  have "?k \<noteq> CLOCK_PROBE_KEY" by (simp add: format_pack_key_def CLOCK_PROBE_KEY_def PACKS_PREFIX_def)
  then have "mem_objs m1 ?k = Some ob" using assms(9) by (simp add: m1(2))
  note reads = mem_head_meta_run [OF this] mem_head_meta_run [where m = m1 and k = CLOCK_PROBE_KEY and ob = po]
  have "delete_cold_packs J C (visited_store ?g mem_store) [?k] grace ((m, Inl 3), tag) = (Inr [?k], ((?m', Inr w), tag))"
    using put m1 reads lw assms(10)
    by (simp add: delete_cold_packs_def store_now_def visit_def try_io_def on_world_def bind_io_def renew_after_def RENEW_EVERY_def
        mem_delete_def mem_store_def mem_put_def)
  with w d1(2) gone show ?thesis by (metis next_doc_sel(2))
qed

section \<open>Samples\<close>

lemma sample_headed: "headed sample_lib short (mem_objs sample_blob) (sample_doc 0 10)"
  using versions_headed [OF sample_blob_facts(1)] sample_blob_facts(2) by simp

lemma sample_times: "mem_objs sample_blob k = Some ob \<Longrightarrow> ob_mtime ob = 0" and sample_clock: "clock sample_blob = 0"
  by (auto simp: sample_blob_def sample_mem_def add_marker_def mem_write_run mem_objs_def empty_mem_def mem_put_if_absent_def
      split: if_splits)

lemma sample_novel: "novel_keys sample_lib None (Some 0) ''abc'' = {format_pack_key (sample_hash ''abc'')}"
  by (simp add: novel_keys_def sample_build)

lemma sample_no_pack: "mem_objs sample_blob (format_pack_key x) = None"
proof -
  obtain ob where ob: "mem_objs sample_blob = (mem_objs (sample_mem [10]))(payload_key_text 0 10 \<mapsto> ob)" using sample_blob_objs by blast
  then show ?thesis by simp
qed

abbreviation sample_visit :: "nat \<Rightarrow> nat \<Rightarrow> (mem, (error + commit_result) option) visited store" where
  "sample_visit before after \<equiv> visited_store (late_write sample_lib sample_env (Some 0) 5 ''abc'' before after) mem_store"

theorem collection_spares_a_concurrent_write_witness:
  "\<forall>n. payload_holds sample_lib short (mem_objs (fst (snd (collect 5 sample_json
       \<lparr>holder_id = ''1'', lease_key = LEASE_KEY, lease_ttl = Finite 300, wall_clock = (\<lambda>_. Finite 0), fresh = (\<lambda>_. 7)\<rparr>
       sample_lib (sample_visit 1000 500) 2 False MIN_PACK_GRACE False (sample_blob, Inl n))))) (sample_doc 0 10) ''abc''"
proof
  fix n
  let ?run = "collect 5 sample_json
       \<lparr>holder_id = ''1'', lease_key = LEASE_KEY, lease_ttl = Finite 300, wall_clock = (\<lambda>_. Finite 0), fresh = (\<lambda>_. 7)\<rparr>
       sample_lib (sample_visit 1000 500) 2 False MIN_PACK_GRACE False (sample_blob, Inl n)"
  obtain r m' c where run: "?run = (r, (m', c))" by (metis surj_pair)
  have none: "stored_manifest sample_lib (mem_objs sample_blob) (sample_doc 0 10) = None" by (simp add: stored_manifest_def)
  have old: "payload_holds sample_lib short (mem_objs sample_blob) (sample_doc 0 10) ''abc''"
    using versions_last [OF sample_blob_facts(1)] sample_blob_facts(2) by (auto dest: marker_at_unique)
  have aged: "aged (clock sample_blob + int 1000 + int 500) MIN_PACK_GRACE
      (novel_keys sample_lib (stored_manifest sample_lib (mem_objs sample_blob) (sample_doc 0 10)) (Some 0) ''abc'') sample_blob"
    unfolding aged_def none sample_novel by (auto simp: sample_no_pack sample_clock dest: sample_times)
  from collection_spares_a_concurrent_write [OF sample_lib_ok short_inj sample_headed _ _ _ _ aged sample_blob_facts(2) old _ run]
    sample_fits sample_blob_facts(3) none run
  show "payload_holds sample_lib short (mem_objs (fst (snd ?run))) (sample_doc 0 10) ''abc''"
    by (simp add: MIN_PACK_GRACE_def hours_def)
qed

text \<open>The same lake two hours after the pack of \<open>''abc''\<close> was left there.\<close>

definition sample_stale :: mem where
  "sample_stale = tick_mem 7200000000 (snd (mem_write (format_pack_key (sample_hash ''abc'')) ''abc'' sample_blob))"

lemma sample_stale_objs:
  "mem_objs sample_stale = (mem_objs sample_blob)(format_pack_key (sample_hash ''abc'') \<mapsto>
     \<lparr>ob_body = ''abc'', ob_etag = Suc (etag_counter sample_blob), ob_mtime = 0\<rparr>)"
  "clock sample_stale = 7200000000"
  by (simp_all add: sample_stale_def mem_write_run sample_clock) (simp add: mem_objs_def)

lemma sample_stale_headed: "headed sample_lib short (mem_objs sample_stale) (sample_doc 0 10)"
proof -
  have roots: "mem_objs sample_stale k = mem_objs sample_blob k" if "\<not> prefix PACKS_PREFIX k" for k
    using that by (auto simp: sample_stale_objs)
  have "versions_at sample_lib short (mem_objs sample_stale) [''abc'']"
  proof (rule versions_frame [OF sample_blob_facts(1)])
    show "packs_in sample_lib short (mem_objs sample_stale)"
      by (simp add: packs_in_def sample_stale_objs(1) pack_of_update) (simp add: pack_of_def sample_no_pack short_def sample_lib_def)
    show "pack_of (mem_objs sample_blob) s = Some b \<Longrightarrow> pack_of (mem_objs sample_stale) s = Some b" for s b
      by (simp add: pack_of_def sample_no_pack)
  qed (auto simp: roots area_exclusive)
  moreover have "marker_at sample_lib (mem_objs sample_stale) 0 (sample_doc 0 10)"
    using sample_blob_facts(2) by (simp add: marker_at_def roots)
  ultimately show ?thesis using versions_headed by fastforce
qed

theorem revived_pack_is_lost_witness:
  "\<exists>m' w d1. delete_cold_packs sample_json
      \<lparr>holder_id = ''1'', lease_key = LEASE_KEY, lease_ttl = Finite 300, wall_clock = (\<lambda>_. Finite 0), fresh = (\<lambda>_. 7)\<rparr>
      (sample_visit 0 0) [format_pack_key (sample_hash ''abc'')] MIN_PACK_GRACE ((sample_stale, Inl 3), None) =
        (Inr [format_pack_key (sample_hash ''abc'')], ((m', Inr w), None)) \<and>
    marker_at sample_lib (mem_objs m') 1 d1 \<and> (\<exists>err. fetch_payload sample_lib mem_store d1 m' = (Inl err, m'))"
proof -
  have none: "stored_manifest sample_lib (mem_objs sample_stale) (sample_doc 0 10) = None" by (simp add: stored_manifest_def)
  have fits: "write_fits sample_lib short (stored_manifest sample_lib (mem_objs sample_stale) (sample_doc 0 10)) (Some 0) ''abc''"
    using sample_fits by (simp add: none)
  have free: "mem_objs sample_stale (payload_key_text (generation (sample_doc 0 10) + 1) (uuid4 sample_env 0)) = None"
    using sample_blob_facts(3) by (simp add: sample_stale_objs area_keys(2) [symmetric])
  let ?e = "\<lparr>chunk_sha256 = sample_hash ''abc'', pack_sha256 = sample_hash ''abc'', pack_offset = 0, entry_length = 3\<rparr>"
  have e: "?e \<in> set (entries (sample_manifest\<lparr>chunk_size := DEFAULT_CHUNK_SIZE\<rparr>))" by (simp add: sample_manifest_def)
  have there: "mem_objs sample_stale (format_pack_key (pack_sha256 ?e)) =
      Some \<lparr>ob_body = ''abc'', ob_etag = Suc (etag_counter sample_blob), ob_mtime = 0\<rparr>" by (simp add: sample_stale_objs)
  have old: "MIN_PACK_GRACE < clock sample_stale - ob_mtime \<lparr>ob_body = ''abc'', ob_etag = Suc (etag_counter sample_blob), ob_mtime = 0\<rparr>"
    by (simp add: sample_stale_objs MIN_PACK_GRACE_def hours_def)
  from revived_pack_is_lost [OF sample_lib_ok short_inj sample_stale_headed fits _ free, unfolded none, OF _ sample_build e there old,
      of sample_json "\<lparr>holder_id = ''1'', lease_key = LEASE_KEY, lease_ttl = Finite 300, wall_clock = (\<lambda>_. Finite 0), fresh = (\<lambda>_. 7)\<rparr>" 5 None]
  show ?thesis by (simp) blast
qed

end
