(* ===== verification/Compat_Probe.thy ===== *)
theory Compat_Probe
  imports Sample_Library "HOL-Library.Multiset"
begin

text \<open>
  \<^verbatim>\<open>scripts/compat_probe.py\<close> and \<^verbatim>\<open>scripts/compat_report.py\<close>: a probe of a bucket for the conditional writes the
  commit protocol rests on, and the table of the results. The probe talks to the boto3 client itself, so an exception
  that it does not catch is the client's.
\<close>

section \<open>The client\<close>

text \<open>
  Three more answers of the third-party client: whether it creates the bucket, the \<^verbatim>\<open>ETag\<close> of a HEAD request, and what
  simultaneous create-only PUTs of some bodies to one key come to, which is the backend's to decide.
\<close>

record 's probe_client = "'s client" +
  create_bucket :: "'s \<Rightarrow> (boto_exc + unit) \<times> 's"
  head_etag :: "key \<Rightarrow> 's \<Rightarrow> (boto_exc + string) \<times> 's"
  race :: "key \<Rightarrow> bytes list \<Rightarrow> 's \<Rightarrow> (boto_exc + string) list \<times> 's"

definition bind_boto :: "(boto_exc + 'a) \<times> 's \<Rightarrow> ('a \<Rightarrow> 's \<Rightarrow> (boto_exc + 'b) \<times> 's) \<Rightarrow> (boto_exc + 'b) \<times> 's" where
  "bind_boto rs f = (case rs of (r, s) \<Rightarrow> (case r of Inl x \<Rightarrow> (Inl x, s) | Inr a \<Rightarrow> f a s))"

lemma bind_boto_simps [simp]: "bind_boto (Inl x, s) f = (Inl x, s)" "bind_boto (Inr a, s) f = f a s"
  by (simp_all add: bind_boto_def)

section \<open>The probe\<close>

definition PROBE_BODY_1 :: bytes where
  "PROBE_BODY_1 = CHR ''{'' # CHR 0x22 # ''probe'' @ CHR 0x22 # '': 1}''"

definition PROBE_BODY_2 :: bytes where
  "PROBE_BODY_2 = CHR ''{'' # CHR 0x22 # ''probe'' @ CHR 0x22 # '': 2}''"

text \<open>\<^verbatim>\<open>dict[str, str]\<close>\<close>

type_synonym results = "string \<rightharpoonup> string"

definition int_text :: "int \<Rightarrow> string" where
  "int_text n = (if n < 0 then CHR ''-'' # dec (nat (- n)) else dec (nat n))"

text \<open>The inner \<^verbatim>\<open>put\<close>: an error response is a result, a missing response ends the probe.\<close>

definition probe_put :: "'s probe_client \<Rightarrow> key \<Rightarrow> string \<Rightarrow> bytes \<Rightarrow> put_condition \<Rightarrow> results \<Rightarrow> 's \<Rightarrow> (boto_exc + results) \<times> 's" where
  "probe_put C key name b cond res s = (case put_object C key b cond s of (r, s') \<Rightarrow>
     (case r of
        Inr _ \<Rightarrow> (Inr (res(name \<mapsto> ''200'')), s')
      | Inl (ClientError _ status) \<Rightarrow> (Inr (res(name \<mapsto> int_text status)), s')
      | Inl BotoCore \<Rightarrow> (Inl BotoCore, s')))"

text \<open>Each thread records its success; an error response or an exception that ends the thread is none.\<close>

definition concurrent_create_winners :: "'s probe_client \<Rightarrow> key \<Rightarrow> nat \<Rightarrow> 's \<Rightarrow> nat \<times> 's" where
  "concurrent_create_winners C key racers s =
     (case race C key (map (\<lambda>i. CHR ''w'' # dec i) [0..<racers]) s of (rs, s') \<Rightarrow> (length (filter (\<lambda>r. \<not> isl r) rs), s'))"

definition probe :: "'s probe_client \<Rightarrow> key \<Rightarrow> 's \<Rightarrow> (boto_exc + results) \<times> 's" where
  "probe C key s =
     bind_boto (probe_put C key ''create_only_fresh'' PROBE_BODY_1 IfNoneMatch Map.empty s) (\<lambda>r s.
     bind_boto (probe_put C key ''create_only_existing'' PROBE_BODY_1 IfNoneMatch r s) (\<lambda>r s.
     bind_boto (head_etag C key s) (\<lambda>head s.
     let etag = strip_quotes head in
     bind_boto (probe_put C key ''if_match_correct'' PROBE_BODY_2 (IfMatch etag) r s) (\<lambda>r s.
     bind_boto (probe_put C key ''if_match_stale'' PROBE_BODY_2 (IfMatch etag) r s) (\<lambda>r s.
     bind_boto (delete_object C key s) (\<lambda>_ s.
     case concurrent_create_winners C (key @ ''-conc'') 6 s of (winners, s) \<Rightarrow>
     let r = r(''concurrent_create_winners'' \<mapsto> dec winners) in
     bind_boto (delete_object C (key @ ''-conc'') s) (\<lambda>_ s. (Inr r, s))))))))"

text \<open>The number of winners is a decimal text, as the probe writes it.\<close>

definition verdict_of :: "results \<Rightarrow> string" where
  "verdict_of results =
     (let fresh_ok = results ''create_only_fresh'' = Some ''200'';
          match_ok = results ''if_match_correct'' = Some ''200'';
          existing = results ''create_only_existing'';
          stale = results ''if_match_stale'';
          winners = text_num 10 (case results ''concurrent_create_winners'' of None \<Rightarrow> ''0'' | Some t \<Rightarrow> t) in
      if \<not> (fresh_ok \<and> match_ok) then ''broken''
      else if existing = Some ''200'' \<and> stale = Some ''200'' then ''ignore''
      else if existing = Some ''412'' \<and> stale = Some ''412'' then (if winners = 1 then ''atomic'' else ''sequential-only'')
      else ''mixed'')"

record probe_doc =
  doc_backend :: string
  doc_version :: string
  doc_verdict :: string
  doc_expected :: string
  doc_probes :: results
  doc_tested_at :: string
  doc_provenance :: string

text \<open>The bucket of a live endpoint may exist; moto is a fresh backend in the process, with a client \<open>M\<close> of its own.\<close>

definition run_moto :: "'s probe_client \<Rightarrow> key \<Rightarrow> 's \<Rightarrow> (boto_exc + results) \<times> 's" where
  "run_moto M key s = bind_boto (create_bucket M s) (\<lambda>_. probe M key)"

definition run_endpoint :: "'s probe_client \<Rightarrow> key \<Rightarrow> 's \<Rightarrow> (boto_exc + results) \<times> 's" where
  "run_endpoint C key s = (case create_bucket C s of (r, s') \<Rightarrow> (case r of Inl BotoCore \<Rightarrow> (Inl BotoCore, s') | _ \<Rightarrow> probe C key s'))"

record probe_args =
  arg_backend :: string
  arg_version :: string
  arg_expected :: string
  arg_endpoint :: "string option"

text \<open>
  What \<^verbatim>\<open>main\<close> writes to the output file, and its exit code; \<open>None\<close> is a traceback or a usage error, and no document.
  \<open>C e\<close> is the client of the endpoint \<open>e\<close>, \<open>moto_version\<close> the version of the installed package.
\<close>

definition probe_main :: "'s probe_client \<Rightarrow> (string \<Rightarrow> 's probe_client) \<Rightarrow> string \<Rightarrow> probe_args \<Rightarrow> key \<Rightarrow> string \<Rightarrow> 's \<Rightarrow>
    (probe_doc \<times> int) option \<times> 's" where
  "probe_main M C moto_version args key today s =
     (let ran = (if arg_backend args = ''moto'' then Some (run_moto M key s, moto_version)
                 else map_option (\<lambda>endpoint. (run_endpoint (C endpoint) key s, arg_version args)) (arg_endpoint args)) in
      case ran of
        None \<Rightarrow> (None, s)
      | Some ((r, s'), version) \<Rightarrow> (case r of
          Inl _ \<Rightarrow> (None, s')
        | Inr results \<Rightarrow> (let verdict = verdict_of results in
            (Some (\<lparr>doc_backend = arg_backend args, doc_version = version, doc_verdict = verdict, doc_expected = arg_expected args,
               doc_probes = results, doc_tested_at = today, doc_provenance = ''ci''\<rparr>,
               if verdict \<noteq> arg_expected args then 1 else 0), s'))))"

lemma probe_main_endpoint:
  assumes "arg_backend args \<noteq> ''moto''" and "arg_endpoint args = Some e" and "create_bucket (C e) s = (r, s1)" and "r \<noteq> Inl BotoCore"
  shows "probe_main M C mv args key today s = (case probe (C e) key s1 of (r, s') \<Rightarrow> (case r of
      Inl _ \<Rightarrow> (None, s')
    | Inr results \<Rightarrow> (Some (\<lparr>doc_backend = arg_backend args, doc_version = arg_version args, doc_verdict = verdict_of results,
        doc_expected = arg_expected args, doc_probes = results, doc_tested_at = today, doc_provenance = ''ci''\<rparr>,
        if verdict_of results \<noteq> arg_expected args then 1 else 0), s')))"
proof -
  have "run_endpoint (C e) key s = probe (C e) key s1"
    using assms(3,4) by (auto simp: run_endpoint_def split: sum.splits boto_exc.splits)
  with assms(1,2) show ?thesis by (simp add: probe_main_def Let_def split: prod.split sum.split)
qed

lemma probe_main_verdict: "probe_main M C mv args key today s = (Some (doc, code), s') \<Longrightarrow> \<exists>results. doc_verdict doc = verdict_of results"
  by (auto simp: probe_main_def Let_def split: option.splits prod.splits sum.splits)

section \<open>The report\<close>

text \<open>Texts are their UTF-8 bytes.\<close>

definition em_dash :: string where
  "em_dash = [CHR 0xE2, CHR 0x80, CHR 0x94]"

definition warning_sign :: string where
  "warning_sign = [CHR 0xE2, CHR 0x9A, CHR 0xA0, CHR 0xEF, CHR 0xB8, CHR 0x8F]"

definition VERDICT_LABEL :: "string \<rightharpoonup> string" where
  "VERDICT_LABEL = [
     ''atomic'' \<mapsto> [CHR 0xE2, CHR 0x9C, CHR 0x85] @ '' atomic '' @ em_dash @ '' safe for concurrent writers'',
     ''sequential-only'' \<mapsto> warning_sign @ '' sequential only '' @ em_dash @ '' UNSAFE under concurrency (silently loses commits)'',
     ''ignore'' \<mapsto> [CHR 0xE2, CHR 0x9D, CHR 0x8C] @ '' accepts but IGNORES '' @ em_dash @ '' unsafe, corrupts silently'',
     ''mixed'' \<mapsto> warning_sign @ '' partial '' @ em_dash @ '' unsafe'',
     ''broken'' \<mapsto> warning_sign @ '' probe failed'']"

record report_row =
  row_backend :: string
  row_version :: string
  row_verdict :: string
  row_tested_at :: string
  row_provenance :: string

definition MANUAL_ROWS :: "report_row list" where
  "MANUAL_ROWS =
    [\<lparr>row_backend = ''AWS S3'', row_version = ''(service)'', row_verdict = ''atomic'', row_tested_at = ''2024-11-25'',
      row_provenance = ''AWS launch announcement + delta-rs production use''\<rparr>,
     \<lparr>row_backend = ''iDrive E2'', row_version = ''(service)'', row_verdict = ''sequential-only'', row_tested_at = ''2026-07-07'',
      row_provenance = ''manual probe: enforces sequentially but NOT under concurrency (14-15/15 multi-winner) '' @ em_dash @
        '' unsafe for concurrent writers''\<rparr>]"

definition report_line :: "report_row \<Rightarrow> error + string" where
  "report_line r = (case VERDICT_LABEL (row_verdict r) of
     None \<Rightarrow> Inl PyKeyError
   | Some label \<Rightarrow> Inr (''| '' @ row_backend r @ '' | `'' @ row_version r @ ''` | '' @ label @
       '' | '' @ row_tested_at r @ '' | '' @ row_provenance r @ '' |''))"

fun report_lines :: "report_row list \<Rightarrow> error + string list" where
  "report_lines [] = Inr []"
| "report_lines (r # rs) = (case report_line r of Inl e \<Rightarrow> Inl e | Inr l \<Rightarrow>
     (case report_lines rs of Inl e \<Rightarrow> Inl e | Inr ls \<Rightarrow> Inr (l # ls)))"

text \<open>The table of the documents found, without the fixed text around it.\<close>

definition report_table :: "report_row list \<Rightarrow> error + string list" where
  "report_table found = report_lines (found @ MANUAL_ROWS)"

definition row_of :: "probe_doc \<Rightarrow> report_row" where
  "row_of d = \<lparr>row_backend = doc_backend d, row_version = doc_version d, row_verdict = doc_verdict d,
     row_tested_at = doc_tested_at d, row_provenance = doc_provenance d\<rparr>"

section \<open>A backend that enforces the conditions\<close>

text \<open>What is expected of one process: \<open>objs\<close> is the content of the bucket with the entity tags.\<close>

locale conditional_client =
  fixes C :: "'s probe_client" and objs :: "'s \<Rightarrow> key \<rightharpoonup> bytes \<times> string" and calm :: "'s \<Rightarrow> bool"
  assumes create_absent: "calm s \<Longrightarrow> objs s k = None \<Longrightarrow>
      \<exists>q t s'. put_object C k b IfNoneMatch s = (Inr q, s') \<and> calm s' \<and> objs s' = (objs s)(k \<mapsto> (b, t))"
    and create_present: "calm s \<Longrightarrow> objs s k \<noteq> None \<Longrightarrow>
      \<exists>code s'. put_object C k b IfNoneMatch s = (Inl (ClientError code 412), s') \<and> calm s' \<and> objs s' = objs s"
    and match_current: "calm s \<Longrightarrow> objs s k = Some (b', t) \<Longrightarrow> b \<noteq> b' \<Longrightarrow>
      \<exists>q t' s'. put_object C k b (IfMatch t) s = (Inr q, s') \<and> calm s' \<and> objs s' = (objs s)(k \<mapsto> (b, t')) \<and> t' \<noteq> t"
    and match_stale: "calm s \<Longrightarrow> objs s k = Some (b', t') \<Longrightarrow> t' \<noteq> t \<Longrightarrow>
      \<exists>code s'. put_object C k b (IfMatch t) s = (Inl (ClientError code 412), s') \<and> calm s' \<and> objs s' = objs s"
    and head_current: "calm s \<Longrightarrow> objs s k = Some (b, t) \<Longrightarrow>
      \<exists>q s'. head_etag C k s = (Inr q, s') \<and> strip_quotes q = t \<and> calm s' \<and> objs s' = objs s"
    and deletes: "calm s \<Longrightarrow> \<exists>s'. delete_object C k s = (Inr (), s') \<and> calm s' \<and> objs s' = (objs s)(k := None)"
    and creates: "calm s \<Longrightarrow> \<exists>r s'. create_bucket C s = (r, s') \<and> r \<noteq> Inl BotoCore \<and> calm s' \<and> objs s' = objs s"
    and race_calm: "calm s \<Longrightarrow> race C k bs s = (rs, s') \<Longrightarrow> calm s'"
begin

lemma sequential_probes:
  assumes "calm s" and "objs s key = None" and "objs s (key @ ''-conc'') = None"
  shows "\<exists>t rs res s'. calm t \<and> objs t (key @ ''-conc'') = None \<and>
    fst (race C (key @ ''-conc'') (map (\<lambda>i. CHR ''w'' # dec i) [0..<6]) t) = rs \<and> probe C key s = (Inr res, s') \<and>
    verdict_of res = (if length (filter (\<lambda>r. \<not> isl r) rs) = 1 then ''atomic'' else ''sequential-only'')"
proof -
  have bodies: "PROBE_BODY_2 \<noteq> PROBE_BODY_1" by (simp add: PROBE_BODY_1_def PROBE_BODY_2_def)
  have other: "key @ ''-conc'' \<noteq> key" by simp
  from create_absent [OF assms(1,2), of PROBE_BODY_1] obtain q1 t1 s1 where
    s1: "put_object C key PROBE_BODY_1 IfNoneMatch s = (Inr q1, s1)" "calm s1" "objs s1 = (objs s)(key \<mapsto> (PROBE_BODY_1, t1))" by blast
  from create_present [OF s1(2), of key PROBE_BODY_1] s1(3) obtain c2 s2 where
    s2: "put_object C key PROBE_BODY_1 IfNoneMatch s1 = (Inl (ClientError c2 412), s2)" "calm s2" "objs s2 = objs s1" by auto
  from head_current [OF s2(2), of key PROBE_BODY_1 t1] s1(3) s2(3) obtain q s3 where
    s3: "head_etag C key s2 = (Inr q, s3)" "strip_quotes q = t1" "calm s3" "objs s3 = objs s2" by auto
  from match_current [OF s3(3), of key PROBE_BODY_1 t1, OF _ bodies] s1(3) s2(3) s3(4) obtain q4 t4 s4 where
    s4: "put_object C key PROBE_BODY_2 (IfMatch t1) s3 = (Inr q4, s4)" "calm s4" "objs s4 = (objs s3)(key \<mapsto> (PROBE_BODY_2, t4))" "t4 \<noteq> t1"
    by auto
  from match_stale [OF s4(2), of key PROBE_BODY_2 t4 t1 PROBE_BODY_2] s4(3,4) obtain c5 s5 where
    s5: "put_object C key PROBE_BODY_2 (IfMatch t1) s4 = (Inl (ClientError c5 412), s5)" "calm s5" "objs s5 = objs s4" by auto
  from deletes [OF s5(2), of key] obtain s6 where
    s6: "delete_object C key s5 = (Inr (), s6)" "calm s6" "objs s6 = (objs s5)(key := None)" by blast
  obtain rs s7 where s7: "race C (key @ ''-conc'') (map (\<lambda>i. CHR ''w'' # dec i) [0..<6]) s6 = (rs, s7)" by fastforce
  from deletes [OF race_calm [OF s6(2) s7], of "key @ ''-conc''"] obtain s8 where
    s8: "delete_object C (key @ ''-conc'') s7 = (Inr (), s8)" by blast
  let ?w = "length (filter (\<lambda>r. \<not> isl r) rs)"
  let ?res = "[''create_only_fresh'' \<mapsto> ''200'', ''create_only_existing'' \<mapsto> ''412'', ''if_match_correct'' \<mapsto> ''200'',
      ''if_match_stale'' \<mapsto> ''412'', ''concurrent_create_winners'' \<mapsto> dec ?w]"
  have n412: "int_text 412 = ''412''" by code_simp
  have "objs s6 (key @ ''-conc'') = None" using assms(3) s1(3) s2(3) s3(4) s4(3) s5(3) s6(3) other by simp
  moreover have "probe C key s = (Inr ?res, s8)"
    using s1(1) s2(1) s3(1,2) s4(1) s5(1) s6(1) s7 s8
    by (simp add: probe_def probe_put_def concurrent_create_winners_def n412 Let_def del: upt_rec_numeral)
  moreover have "verdict_of ?res = (if ?w = 1 then ''atomic'' else ''sequential-only'')"
    by (simp add: verdict_of_def Let_def)
  ultimately show ?thesis using s6(2) s7 by (metis fst_conv)
qed

end

text \<open>Requests served one after the other.\<close>

fun put_all :: "(key \<Rightarrow> bytes \<Rightarrow> put_condition \<Rightarrow> 's \<Rightarrow> (boto_exc + string) \<times> 's) \<Rightarrow> put_condition \<Rightarrow> key \<Rightarrow> bytes list \<Rightarrow> 's \<Rightarrow>
    (boto_exc + string) list \<times> 's" where
  "put_all P cond k [] s = ([], s)"
| "put_all P cond k (b # bs) s = (case P k b cond s of (r, s') \<Rightarrow> (case put_all P cond k bs s' of (rs, s'') \<Rightarrow> (r # rs, s'')))"

text \<open>An atomic backend serves simultaneous requests as if one after the other, in some order.\<close>

locale atomic_client = conditional_client +
  assumes serial: "calm s \<Longrightarrow> race C k bs s = (rs, s') \<Longrightarrow>
    \<exists>bs' rs'. mset bs' = mset bs \<and> put_all (put_object C) IfNoneMatch k bs' s = (rs', s') \<and> mset rs' = mset rs"
begin

lemma later_creates_lose: "calm s \<Longrightarrow> objs s k \<noteq> None \<Longrightarrow> put_all (put_object C) IfNoneMatch k bs s = (rs, s') \<Longrightarrow>
    filter (\<lambda>r. \<not> isl r) rs = []"
proof (induction bs arbitrary: s rs)
  case (Cons b bs)
  from create_present [OF Cons.prems(1,2), of b] obtain c t where
    t: "put_object C k b IfNoneMatch s = (Inl (ClientError c 412), t)" "calm t" "objs t = objs s" by blast
  obtain rs' where rs': "put_all (put_object C) IfNoneMatch k bs t = (rs', s')" "rs = Inl (ClientError c 412) # rs'"
    using Cons.prems(3) t(1) by (auto split: prod.splits)
  with Cons.IH [OF t(2) _ rs'(1)] t(3) Cons.prems(2) show ?case by simp
qed simp

lemma one_winner:
  assumes "calm s" and "objs s k = None" and "bs \<noteq> []" and run: "race C k bs s = (rs, s')"
  shows "length (filter (\<lambda>r. \<not> isl r) rs) = 1"
proof -
  from serial [OF assms(1) run] obtain bs' rs' where
    bs': "mset bs' = mset bs" "put_all (put_object C) IfNoneMatch k bs' s = (rs', s')" "mset rs' = mset rs" by blast
  with assms(3) obtain b bs'' where b: "bs' = b # bs''" by (cases bs') auto
  from create_absent [OF assms(1,2), of b] obtain q t s1 where
    s1: "put_object C k b IfNoneMatch s = (Inr q, s1)" "calm s1" "objs s1 = (objs s)(k \<mapsto> (b, t))" by blast
  obtain rs'' where rs'': "put_all (put_object C) IfNoneMatch k bs'' s1 = (rs'', s')" "rs' = Inr q # rs''"
    using bs'(2) b s1(1) by (auto split: prod.splits)
  from later_creates_lose [OF s1(2) _ rs''(1)] s1(3) rs''(2) have "length (filter (\<lambda>r. \<not> isl r) rs') = 1" by simp
  moreover have "length (filter (\<lambda>r. \<not> isl r) rs) = length (filter (\<lambda>r. \<not> isl r) rs')"
    using bs'(3) by (metis mset_filter size_mset)
  ultimately show ?thesis by simp
qed

lemma probed_atomic:
  assumes "calm s" and "objs s key = None" and "objs s (key @ ''-conc'') = None"
  shows "\<exists>res s'. probe C key s = (Inr res, s') \<and> verdict_of res = ''atomic''"
proof -
  from sequential_probes [OF assms] obtain t rs res s' where
    t: "calm t" "objs t (key @ ''-conc'') = None" "fst (race C (key @ ''-conc'') (map (\<lambda>i. CHR ''w'' # dec i) [0..<6]) t) = rs"
    "probe C key s = (Inr res, s')" "verdict_of res = (if length (filter (\<lambda>r. \<not> isl r) rs) = 1 then ''atomic'' else ''sequential-only'')"
    by blast
  then obtain t' where "race C (key @ ''-conc'') (map (\<lambda>i. CHR ''w'' # dec i) [0..<6]) t = (rs, t')" by (metis prod.collapse)
  from one_winner [OF t(1,2) _ this] t(4,5) show ?thesis by simp
qed

end

section \<open>The shared bucket, calm\<close>

text \<open>
  The bucket of \<open>net_client\<close> when nothing else happens, with the races served in order: each PUT under the condition
  (an atomic backend), or unconditionally (a backend that checks the condition only before it admits the requests).
\<close>

definition net_head_etag :: "lib \<Rightarrow> key \<Rightarrow> net \<Rightarrow> (boto_exc + string) \<times> net" where
  "net_head_etag L k n = (case net_get_object L k None n of (r, n') \<Rightarrow> (map_sum id resp_etag r, n'))"

text \<open>The bucket exists.\<close>

definition net_create_bucket :: "net \<Rightarrow> (boto_exc + unit) \<times> net" where
  "net_create_bucket n = (Inl (ClientError ''BucketAlreadyOwnedByYou'' 409), n)"

definition probe_net :: "lib \<Rightarrow> put_condition \<Rightarrow> net probe_client" where
  "probe_net L cond = \<lparr>get_object = net_get_object L, put_object = net_put_object L, list_pages = net_list_pages L,
     head_object = net_head_object L, delete_object = net_delete_object L, create_bucket = net_create_bucket, head_etag = net_head_etag L,
     race = put_all (net_put_object L) cond\<rparr>"

definition tagged :: "net \<Rightarrow> key \<rightharpoonup> bytes \<times> string" where
  "tagged n k = map_option (\<lambda>ob. (ob_body ob, etag_text (ob_etag ob))) (net_objs n k)"

definition calm_net :: "net \<Rightarrow> bool" where
  "calm_net n \<longleftrightarrow> script n = [] \<and> (\<forall>k ob. net_objs n k = Some ob \<longrightarrow> ob_etag ob \<le> etag_counter (cell n))"

lemma calm_begin: "calm_net n \<Longrightarrow> net_begin L n = (quiet, n)"
  by (simp add: calm_net_def net_begin_def)

lemma quiet_fault [simp]: "fault_exc (fault quiet) = None"
  by (simp add: quiet_def fault_exc_def)

lemma calm_write:
  assumes "calm_net n"
  obtains t m where "mem_write k b (cell n) = (Inr t, m)" "calm_net (n\<lparr>cell := m\<rparr>)" "tagged (n\<lparr>cell := m\<rparr>) = (tagged n)(k \<mapsto> (b, t))"
    "\<And>b' t'. tagged n k = Some (b', t') \<Longrightarrow> t \<noteq> t'"
proof -
  obtain m where w: "mem_write k b (cell n) = (Inr (etag_text (Suc (etag_counter (cell n)))), m)"
    "m = (cell n)\<lparr>etag_counter := Suc (etag_counter (cell n)),
       objects := DAList.update k \<lparr>ob_body = b, ob_etag = Suc (etag_counter (cell n)), ob_mtime = clock (cell n)\<rparr> (objects (cell n))\<rparr>"
    by (simp add: mem_write_run)
  from assms have old: "ob_etag ob \<le> etag_counter (cell n)" if "mem_objs (cell n) j = Some ob" for j ob
    using that by (auto simp: calm_net_def net_objs_def)
  show thesis
  proof (rule that [OF w(1)])
    show "calm_net (n\<lparr>cell := m\<rparr>)"
      using assms old by (auto simp: calm_net_def net_objs_def w(2) mem_objs_def le_SucI split: if_splits)
    show "tagged (n\<lparr>cell := m\<rparr>) = (tagged n)(k \<mapsto> (b, etag_text (Suc (etag_counter (cell n)))))"
      by (rule ext) (simp add: tagged_def net_objs_def w(2) mem_objs_def)
    show "etag_text (Suc (etag_counter (cell n))) \<noteq> t'" if "tagged n k = Some (b', t')" for b' t'
      using that old by (fastforce simp: tagged_def net_objs_def)
  qed
qed

lemma probe_net_sel [simp]:
  "put_object (probe_net L cond) = net_put_object L" "delete_object (probe_net L cond) = net_delete_object L"
  "create_bucket (probe_net L cond) = net_create_bucket" "head_etag (probe_net L cond) = net_head_etag L" "race (probe_net L cond) = put_all (net_put_object L) cond"
  by (simp_all add: probe_net_def)

lemma calm_put:
  assumes n: "calm_net n"
  shows "tagged n k = None \<Longrightarrow> \<exists>t n'. net_put_object L k b IfNoneMatch n = (Inr (quoted t), n') \<and> calm_net n' \<and> tagged n' = (tagged n)(k \<mapsto> (b, t))"
    and "\<exists>t n'. net_put_object L k b Unconditional n = (Inr (quoted t), n') \<and> calm_net n' \<and> tagged n' = (tagged n)(k \<mapsto> (b, t))"
    and "tagged n k \<noteq> None \<Longrightarrow> net_put_object L k b IfNoneMatch n = (Inl (ClientError ''PreconditionFailed'' 412), n)"
    and "tagged n k = Some (b', t) \<Longrightarrow> \<exists>t' n'. net_put_object L k b (IfMatch t) n = (Inr (quoted t'), n') \<and> calm_net n' \<and>
      tagged n' = (tagged n)(k \<mapsto> (b, t')) \<and> t' \<noteq> t"
    and "tagged n k = Some (b', t') \<Longrightarrow> t' \<noteq> t \<Longrightarrow> net_put_object L k b (IfMatch t) n = (Inl (ClientError ''PreconditionFailed'' 412), n)"
proof -
  obtain u m where w: "mem_write k b (cell n) = (Inr u, m)" "calm_net (n\<lparr>cell := m\<rparr>)" "tagged (n\<lparr>cell := m\<rparr>) = (tagged n)(k \<mapsto> (b, u))"
    "\<And>b' t'. tagged n k = Some (b', t') \<Longrightarrow> u \<noteq> t'" using calm_write [OF n] by blast
  note put = net_put_object_def put_effect_def calm_begin [OF n] mem_put_def mem_put_if_absent_def mem_put_if_match_def
    boto_of_def Let_def w(1)
  have lookup: "DAList.lookup (objects (cell n)) k = None \<longleftrightarrow> tagged n k = None"
    "DAList.lookup (objects (cell n)) k = Some ob \<Longrightarrow> tagged n k = Some (ob_body ob, etag_text (ob_etag ob))" for ob
    by (simp_all add: tagged_def net_objs_def mem_objs_def)
  show "tagged n k = None \<Longrightarrow> \<exists>t n'. net_put_object L k b IfNoneMatch n = (Inr (quoted t), n') \<and> calm_net n' \<and> tagged n' = (tagged n)(k \<mapsto> (b, t))"
    using w(2,3) lookup(1) by (auto simp: put)
  show "\<exists>t n'. net_put_object L k b Unconditional n = (Inr (quoted t), n') \<and> calm_net n' \<and> tagged n' = (tagged n)(k \<mapsto> (b, t))"
    using w(2,3) by (auto simp: put)
  show "tagged n k \<noteq> None \<Longrightarrow> net_put_object L k b IfNoneMatch n = (Inl (ClientError ''PreconditionFailed'' 412), n)"
    using lookup(1) by (cases "DAList.lookup (objects (cell n)) k") (auto simp: put)
  show "\<exists>t' n'. net_put_object L k b (IfMatch t) n = (Inr (quoted t'), n') \<and> calm_net n' \<and>
      tagged n' = (tagged n)(k \<mapsto> (b, t')) \<and> t' \<noteq> t" if "tagged n k = Some (b', t)"
    using that w(2,3) w(4) [OF that] lookup by (cases "DAList.lookup (objects (cell n)) k") (auto simp: put)
  show "net_put_object L k b (IfMatch t) n = (Inl (ClientError ''PreconditionFailed'' 412), n)" if "tagged n k = Some (b', t')" "t' \<noteq> t"
    using that lookup by (cases "DAList.lookup (objects (cell n)) k") (auto simp: put)
qed

lemma calm_put_all: "calm_net n \<Longrightarrow> cond = IfNoneMatch \<or> cond = Unconditional \<Longrightarrow>
    put_all (net_put_object L) cond k bs n = (rs, n') \<Longrightarrow> calm_net n'"
proof (induction bs arbitrary: n rs)
  case (Cons b bs)
  obtain r m where run: "net_put_object L k b cond n = (r, m)" by fastforce
  have "calm_net m"
    using calm_put(1-3) [OF Cons.prems(1), where k = k and L = L and b = b] Cons.prems(1,2) run
    by (cases "tagged n k = None") auto
  with Cons.IH [OF this Cons.prems(2)] Cons.prems(3) run show ?case by (auto split: prod.splits)
qed simp

text \<open>The bucket enforces the conditions on a single process, and is atomic if it enforces them in a race.\<close>

lemma bucket_enforces:
  assumes "cond = IfNoneMatch \<or> cond = Unconditional"
  shows "conditional_client (probe_net L cond) tagged calm_net"
proof (unfold_locales, unfold probe_net_sel)
  fix n k b
  assume n: "calm_net n"
  note put = calm_put [OF n, where k = k and L = L and b = b]
  show "\<exists>q t s'. net_put_object L k b IfNoneMatch n = (Inr q, s') \<and> calm_net s' \<and> tagged s' = (tagged n)(k \<mapsto> (b, t))"
    if "tagged n k = None" using put(1) that by blast
  show "\<exists>code s'. net_put_object L k b IfNoneMatch n = (Inl (ClientError code 412), s') \<and> calm_net s' \<and> tagged s' = tagged n"
    if "tagged n k \<noteq> None" using put(3) that n by blast
  show "\<exists>q t' s'. net_put_object L k b (IfMatch t) n = (Inr q, s') \<and> calm_net s' \<and> tagged s' = (tagged n)(k \<mapsto> (b, t')) \<and> t' \<noteq> t"
    if "tagged n k = Some (b', t)" for b' t using put(4) [OF that] by blast
  show "\<exists>code s'. net_put_object L k b (IfMatch t) n = (Inl (ClientError code 412), s') \<and> calm_net s' \<and> tagged s' = tagged n"
    if "tagged n k = Some (b', t')" "t' \<noteq> t" for b' t t' using put(5) [OF that] n by blast
  show "\<exists>q s'. net_head_etag L k n = (Inr q, s') \<and> strip_quotes q = t \<and> calm_net s' \<and> tagged s' = tagged n"
    if "tagged n k = Some (b, t)" for t
    using that n by (auto simp: net_head_etag_def net_get_object_def calm_begin [OF n] mem_get_def tagged_def net_objs_def mem_objs_def
        Let_def)
  show "\<exists>s'. net_delete_object L k n = (Inr (), s') \<and> calm_net s' \<and> tagged s' = (tagged n)(k := None)"
    using n by (auto simp: net_delete_object_def calm_begin [OF n] mem_delete_def calm_net_def tagged_def net_objs_def mem_objs_def
        fun_eq_iff split: if_splits)
  show "\<exists>r s'. net_create_bucket n = (r, s') \<and> r \<noteq> Inl BotoCore \<and> calm_net s' \<and> tagged s' = tagged n"
    using n by (simp add: net_create_bucket_def)
  show "calm_net s'" if "put_all (net_put_object L) cond k bs n = (rs, s')" for bs rs s'
    by (rule calm_put_all [OF n assms that])
qed

interpretation bucket: atomic_client "probe_net L IfNoneMatch" tagged calm_net for L
  by (rule atomic_client.intro [OF bucket_enforces]) (unfold_locales, auto)

interpretation late_bucket: conditional_client "probe_net L Unconditional" tagged calm_net for L
  by (rule bucket_enforces) simp

lemma unconditional_wins: "calm_net n \<Longrightarrow> put_all (net_put_object L) Unconditional k bs n = (rs, n') \<Longrightarrow>
    length (filter (\<lambda>r. \<not> isl r) rs) = length bs"
proof (induction bs arbitrary: n rs)
  case (Cons b bs)
  from calm_put(2) [OF Cons.prems(1), where k = k and L = L and b = b] obtain t m where
    t: "net_put_object L k b Unconditional n = (Inr (quoted t), m)" "calm_net m" by blast
  with Cons.IH [OF t(2)] Cons.prems(2) show ?case by (auto split: prod.splits)
qed simp

section \<open>Properties\<close>

text \<open>
  Claim C35. The probe tells an atomic backend from one that only looks like it: a backend that enforces the conditions on one
  process and serves races as if in some order is found \<open>atomic\<close>; the one that lets every racer win is found \<open>sequential-only\<close>.
\<close>
theorem atomic_backend_is_recognised:
  assumes "atomic_client (C e) objs calm" and "calm s" and "objs s key = None" and "objs s (key @ ''-conc'') = None"
    and args: "arg_backend args \<noteq> ''moto''" "arg_endpoint args = Some e" "arg_expected args = ''atomic''"
  shows "\<exists>doc s'. probe_main M C mv args key today s = (Some (doc, 0), s') \<and> doc_verdict doc = ''atomic''"
proof -
  have C: "conditional_client (C e) objs calm" using assms(1) by (simp add: atomic_client_def)
  from conditional_client.creates [OF C assms(2)] obtain r s1 where
    s1: "create_bucket (C e) s = (r, s1)" "r \<noteq> Inl BotoCore" "calm s1" "objs s1 = objs s" by blast
  from atomic_client.probed_atomic [OF assms(1) s1(3)] assms(3,4) s1(4) obtain res s' where
    "probe (C e) key s1 = (Inr res, s')" "verdict_of res = ''atomic''" by metis
  with args(3) show ?thesis by (simp add: probe_main_endpoint [where C = C and e = e, OF args(1,2) s1(1,2)])
qed

theorem racy_backend_is_recognised:
  assumes "calm_net n" and "tagged n key = None" and "tagged n (key @ ''-conc'') = None"
    and args: "arg_backend args \<noteq> ''moto''" "arg_endpoint args \<noteq> None" "arg_expected args = ''atomic''"
  shows "\<exists>doc n'. probe_main M (\<lambda>_. probe_net L Unconditional) mv args key today n = (Some (doc, 1), n') \<and>
    doc_verdict doc = ''sequential-only''"
proof -
  from args(2) obtain e where e: "arg_endpoint args = Some e" by blast
  have made: "create_bucket (probe_net L Unconditional) n = (Inl (ClientError ''BucketAlreadyOwnedByYou'' 409), n)"
    by (simp add: net_create_bucket_def)
  let ?bs = "map (\<lambda>i. CHR ''w'' # dec i) [0..<6]"
  have six: "length ?bs = 6" by simp
  from late_bucket.sequential_probes [OF assms(1-3), of L] obtain t rs res n' where
    t: "calm_net t" "fst (race (probe_net L Unconditional) (key @ ''-conc'') ?bs t) = rs"
      "probe (probe_net L Unconditional) key n = (Inr res, n')"
      "verdict_of res = (if length (filter (\<lambda>r. \<not> isl r) rs) = 1 then ''atomic'' else ''sequential-only'')"
    by blast
  obtain t' where "put_all (net_put_object L) Unconditional (key @ ''-conc'') ?bs t = (rs, t')"
    using t(2) unfolding probe_net_sel by (metis prod.collapse)
  from unconditional_wins [OF t(1) this] six t(4) have "verdict_of res = ''sequential-only''" by simp
  with t(3) args(3) show ?thesis
    by (simp add: probe_main_endpoint [where C = "\<lambda>_. probe_net L Unconditional", OF args(1) e made])
qed

text \<open>
  A backend that refuses create-only PUTs altogether (an error response to both) has no object at the HEAD request, whose error
  nothing catches: no document is written, although \<open>broken\<close> is the verdict for it.
\<close>
theorem refusing_backend_has_no_verdict:
  assumes "arg_backend args \<noteq> ''moto''" and "arg_endpoint args = Some e" and "create_bucket (C e) s = (r, s0)" and "r \<noteq> Inl BotoCore"
    and "put_object (C e) key PROBE_BODY_1 IfNoneMatch s0 = (Inl (ClientError c n), s1)"
    and "put_object (C e) key PROBE_BODY_1 IfNoneMatch s1 = (Inl (ClientError c' n'), s2)"
    and "head_etag (C e) key s2 = (Inl x, s3)"
  shows "probe_main M C mv args key today s = (None, s3)"
  unfolding probe_main_endpoint [where C = C and e = e, OF assms(1-4)] using assms(5-7) by (simp add: probe_def probe_put_def)

text \<open>Every document of the probe has a row in the report.\<close>

lemma report_lines_total: "\<forall>r \<in> set rs. VERDICT_LABEL (row_verdict r) \<noteq> None \<Longrightarrow> \<exists>ls. report_lines rs = Inr ls \<and> length ls = length rs"
  by (induction rs) (auto simp: report_line_def)

lemma verdict_labelled: "VERDICT_LABEL (verdict_of results) \<noteq> None"
  by (simp add: verdict_of_def Let_def VERDICT_LABEL_def)

text \<open>
  The report accepts every document the probe writes: rendering the table of any documents that
  \<^verbatim>\<open>compat_probe.py\<close> wrote raises nothing, and the table has a line for each of them and for the two manual rows.
\<close>
theorem report_accepts_every_verdict:
  assumes "\<And>d. d \<in> set docs \<Longrightarrow> \<exists>M C mv args key today s code (s' :: 's). probe_main M C mv args key today s = (Some (d, code), s')"
  shows "\<exists>ls. report_table (map row_of docs) = Inr ls \<and> length ls = length docs + 2"
proof -
  have "VERDICT_LABEL (doc_verdict d) \<noteq> None" if "d \<in> set docs" for d
  proof -
    from assms [OF that] obtain results where "doc_verdict d = verdict_of results" by (blast dest: probe_main_verdict)
    with verdict_labelled show ?thesis by simp
  qed
  then have "VERDICT_LABEL (row_verdict r) \<noteq> None" if "r \<in> set (map row_of docs)" for r
    using that by (simp only: row_of_def set_map image_iff) (metis report_row.select_convs(3))
  moreover have "VERDICT_LABEL (row_verdict r) \<noteq> None" if "r \<in> set MANUAL_ROWS" for r
    using that by (auto simp: MANUAL_ROWS_def VERDICT_LABEL_def)
  ultimately have "\<forall>r \<in> set (map row_of docs @ MANUAL_ROWS). VERDICT_LABEL (row_verdict r) \<noteq> None"
    unfolding set_append by blast
  from report_lines_total [OF this] show ?thesis by (simp add: report_table_def MANUAL_ROWS_def)
qed

abbreviation empty_bucket :: net where
  "empty_bucket \<equiv> \<lparr>cell = empty_mem, script = []\<rparr>"

lemma empty_bucket_facts: "calm_net empty_bucket" "tagged empty_bucket k = None"
  by (simp_all add: calm_net_def tagged_def net_objs_def mem_objs_def empty_mem_def)

theorem atomic_backend_is_recognised_witness:
  "\<exists>doc n'. probe_main (probe_net sample_lib IfNoneMatch) (\<lambda>_. probe_net sample_lib IfNoneMatch) ''5''
      \<lparr>arg_backend = ''minio'', arg_version = ''1'', arg_expected = ''atomic'', arg_endpoint = Some ''e''\<rparr> ''k'' ''2026-01-01'' empty_bucket =
    (Some (doc, 0), n') \<and> doc_verdict doc = ''atomic''"
  by (rule atomic_backend_is_recognised [where e = "''e''", OF bucket.atomic_client_axioms, OF empty_bucket_facts(1,2,2)]) simp_all

end
