(* ===== verification/Resent_Requests.thy ===== *)
theory Resent_Requests
  imports Compat_Probe Lease
begin

text \<open>
  \<^verbatim>\<open>make_s3_client\<close> of \<^verbatim>\<open>objectstore.py\<close>: the client of every S3 store. The configuration \<open>max_attempts\<close> of botocore is
  the number of times a request is sent again after the first one failed in a way botocore takes for transient; which
  failures these are is botocore's (\<open>transient\<close>), and so is the client without them.
\<close>

section \<open>A client that sends again\<close>

fun again :: "nat \<Rightarrow> (boto_exc \<Rightarrow> bool) \<Rightarrow> ('s \<Rightarrow> (boto_exc + 'a) \<times> 's) \<Rightarrow> 's \<Rightarrow> (boto_exc + 'a) \<times> 's" where
  "again 0 transient request s = request s"
| "again (Suc n) transient request s = (case request s of (r, s') \<Rightarrow>
     (case r of Inl x \<Rightarrow> (if transient x then again n transient request s' else (r, s')) | Inr _ \<Rightarrow> (r, s')))"

definition resending :: "nat \<Rightarrow> (boto_exc \<Rightarrow> bool) \<Rightarrow> 's client \<Rightarrow> 's client" where
  "resending max_attempts transient C = \<lparr>get_object = (\<lambda>k rng. again max_attempts transient (get_object C k rng)),
     put_object = (\<lambda>k b cond. again max_attempts transient (put_object C k b cond)),
     list_pages = (\<lambda>p. again max_attempts transient (list_pages C p)),
     head_object = (\<lambda>k. again max_attempts transient (head_object C k)),
     delete_object = (\<lambda>k. again max_attempts transient (delete_object C k))\<rparr>"

definition make_s3_client :: "(boto_exc \<Rightarrow> bool) \<Rightarrow> 's client \<Rightarrow> 's client" where
  "make_s3_client transient = resending 1 transient"

definition made_store :: "(boto_exc \<Rightarrow> bool) \<Rightarrow> 's client \<Rightarrow> string \<Rightarrow> 's store" where
  "made_store transient C prefix_arg = s3_store (make_s3_client transient C) prefix_arg"

lemma make_s3_client_put [simp]: "put_object (make_s3_client transient C) k b cond s =
    (case put_object C k b cond s of (r, s') \<Rightarrow>
       (case r of Inl x \<Rightarrow> (if transient x then put_object C k b cond s' else (r, s')) | Inr _ \<Rightarrow> (r, s')))"
  by (simp add: make_s3_client_def resending_def numeral_eq_Suc del: One_nat_def) (simp add: One_nat_def split: prod.splits sum.splits)

section \<open>A write whose answer is lost\<close>

text \<open>The bucket applies the next request, and its answer does not arrive.\<close>

definition lost_answer :: event where
  "lost_answer = quiet\<lparr>fault := TransportFault True\<rparr>"

lemma lost_answer_put:
  assumes "put_effect cond k b m = (r, m')" and "transient BotoCore"
  shows "put_object (net_client L) k b cond \<lparr>cell = m, script = [lost_answer]\<rparr> = (Inl BotoCore, \<lparr>cell = m', script = []\<rparr>)"
    and "put_object (make_s3_client transient (net_client L)) k b cond \<lparr>cell = m, script = [lost_answer]\<rparr> =
      put_object (net_client L) k b cond \<lparr>cell = m', script = []\<rparr>"
proof -
  show first: "put_object (net_client L) k b cond \<lparr>cell = m, script = [lost_answer]\<rparr> = (Inl BotoCore, \<lparr>cell = m', script = []\<rparr>)"
    using assms(1) by (simp add: net_client_def net_put_object_def net_begin_def lost_answer_def quiet_def fault_exc_def fault_landed_def tick_mem_def)
  show "put_object (make_s3_client transient (net_client L)) k b cond \<lparr>cell = m, script = [lost_answer]\<rparr> =
      put_object (net_client L) k b cond \<lparr>cell = m', script = []\<rparr>"
    using assms(2) by (simp add: first)
qed

lemma resent_match_is_refused:
  assumes ob: "mem_objs m k = Some ob" "ob_etag ob \<le> etag_counter m" and "transient BotoCore"
  obtains m' ob' where "s3_put_if_match (make_s3_client transient (net_client L)) '''' k b (etag_text (ob_etag ob)) \<lparr>cell = m, script = [lost_answer]\<rparr> =
      (Inl PreconditionFailedError, \<lparr>cell = m', script = []\<rparr>)"
    "s3_put_if_match (net_client L) '''' k b (etag_text (ob_etag ob)) \<lparr>cell = m, script = [lost_answer]\<rparr> =
      (Inl AmbiguousCasError, \<lparr>cell = m', script = []\<rparr>)"
    "mem_objs m' k = Some ob'" "ob_body ob' = b"
proof -
  let ?c = "IfMatch (etag_text (ob_etag ob))"
  obtain m' where m': "mem_write k b m = (Inr (etag_text (Suc (etag_counter m))), m')"
    "mem_objs m' k = Some \<lparr>ob_body = b, ob_etag = Suc (etag_counter m), ob_mtime = clock m\<rparr>"
    by (simp add: mem_write_run mem_objs_def)
  have e: "put_effect ?c k b m = (Inr (etag_text (Suc (etag_counter m))), m')"
    using ob(1) m'(1) by (simp add: put_effect_def mem_put_if_match_def mem_objs_def)
  have again: "put_object (net_client L) k b ?c \<lparr>cell = m', script = []\<rparr> =
      (Inl (ClientError ''PreconditionFailed'' 412), \<lparr>cell = m', script = []\<rparr>)"
    using m'(2) ob(2) by (simp add: net_client_def net_put_object_def net_begin_def quiet_def fault_exc_def put_effect_def
        mem_put_if_match_def mem_objs_def boto_of_def)
  note put = lost_answer_put [where transient = transient and L = L, OF e assms(3)]
  show thesis
    by (rule that [OF _ _ m'(2)]) (simp_all only: s3_put_if_match_def append_Nil put again,
       simp_all add: boto_call_def conditional_error_def raise_conditional_def)
qed

section \<open>Properties\<close>

text \<open>
  Claim C34. The docstring of \<^verbatim>\<open>make_s3_client\<close> promises a client that sends nothing again, so that a lost answer surfaces as
  \<^verbatim>\<open>AmbiguousCasError\<close>. Its configuration sends once more: when the answer to a renewal of the lease is lost after the store
  applied it, the second request meets the first one's object, and \<^verbatim>\<open>renew\<close> reports the lease as lost, although the lease
  object is the one it has just written. Over the client that the docstring describes, the same renewal raises
  \<^verbatim>\<open>AmbiguousCasError\<close>.
\<close>
theorem resent_renewal_gives_up_its_lease:
  assumes "mem_objs m (lease_key C) = Some ob" and "ob_etag ob \<le> etag_counter m" and "transient BotoCore"
    and "n = \<lparr>cell = m, script = [lost_answer]\<rparr>" and "tag = etag_text (ob_etag ob)"
  shows "\<exists>n' ob'. lease_renew J C (made_store transient (net_client L) '''') (n, Some tag) = (Inr False, (n', None)) \<and>
    net_objs n' (lease_key C) = Some ob' \<and> ob_body ob' = dumps J (lease_doc (holder_id C) (lease_ttl C) (pf_add (wall_clock C n) (lease_ttl C))) \<and>
    lease_renew J C (net_store L) (n, Some tag) = (Inl AmbiguousCasError, (n', Some tag))"
proof -
  let ?b = "dumps J (lease_doc (holder_id C) (lease_ttl C) (pf_add (wall_clock C n) (lease_ttl C)))"
  from resent_match_is_refused [where transient = transient and b = ?b and L = L, OF assms(1-3)] obtain m' ob' where
    r: "s3_put_if_match (make_s3_client transient (net_client L)) '''' (lease_key C) ?b tag n = (Inl PreconditionFailedError, \<lparr>cell = m', script = []\<rparr>)"
      "s3_put_if_match (net_client L) '''' (lease_key C) ?b tag n = (Inl AmbiguousCasError, \<lparr>cell = m', script = []\<rparr>)"
      "mem_objs m' (lease_key C) = Some ob'" "ob_body ob' = ?b"
    unfolding assms(4,5) by metis
  have S: "put_if_match (made_store transient (net_client L) '''') = s3_put_if_match (make_s3_client transient (net_client L)) ''''"
    "put_if_match (net_store L) = s3_put_if_match (net_client L) ''''"
    by (simp_all add: made_store_def net_store_def s3_store_def s3_prefix_def Let_def)
  have "lease_renew J C (made_store transient (net_client L) '''') (n, Some tag) = (Inr False, (\<lparr>cell = m', script = []\<rparr>, None))"
    using r(1) by (simp add: lease_renew_def S lost_race_def)
  moreover have "lease_renew J C (net_store L) (n, Some tag) = (Inl AmbiguousCasError, (\<lparr>cell = m', script = []\<rparr>, Some tag))"
    using r(2) by (simp add: lease_renew_def S lost_race_def)
  ultimately show ?thesis using r(3,4) by (auto simp: net_objs_def)
qed

theorem resent_renewal_gives_up_its_lease_witness:
  "\<exists>n tag n' ob'. lease_renew sample_json \<lparr>holder_id = ''1'', lease_key = LEASE_KEY, lease_ttl = Finite 300, wall_clock = (\<lambda>_. Finite 0), fresh = (\<lambda>_. 7)\<rparr>
      (made_store (\<lambda>x. x = BotoCore) (net_client sample_lib) '''') (n, Some tag) = (Inr False, (n', None)) \<and>
    net_objs n' LEASE_KEY = Some ob' \<and> ob_body ob' = dumps sample_json (lease_doc ''1'' (Finite 300) (Finite 300))"
proof -
  let ?C = "\<lparr>holder_id = ''1'', lease_key = LEASE_KEY, lease_ttl = Finite 300, wall_clock = (\<lambda>_. Finite 0), fresh = (\<lambda>_. 7)\<rparr>"
  define m where "m = snd (mem_write LEASE_KEY ''held'' empty_mem)"
  have m: "etag_counter m = 1" "mem_objs m LEASE_KEY = Some \<lparr>ob_body = ''held'', ob_etag = 1, ob_mtime = 0\<rparr>"
    by (simp_all add: m_def mem_write_run mem_objs_def empty_mem_def)
  let ?n = "\<lparr>cell = m, script = [lost_answer]\<rparr>" and ?ob = "\<lparr>ob_body = ''held'', ob_etag = 1, ob_mtime = 0\<rparr>"
  have held: "mem_objs m (lease_key ?C) = Some ?ob" "ob_etag ?ob \<le> etag_counter m" "etag_text 1 = etag_text (ob_etag ?ob)"
    using m by simp_all
  have sel: "lease_key ?C = LEASE_KEY" "holder_id ?C = ''1''" "lease_ttl ?C = Finite 300" "pf_add (wall_clock ?C ?n) (Finite 300) = Finite 300"
    by simp_all
  from resent_renewal_gives_up_its_lease [where transient = "\<lambda>x. x = BotoCore" and L = sample_lib and J = sample_json, OF held(1,2) refl refl held(3)]
  obtain n' ob' where "lease_renew sample_json ?C (made_store (\<lambda>x. x = BotoCore) (net_client sample_lib) '''') (?n, Some (etag_text 1)) = (Inr False, (n', None))"
    "net_objs n' LEASE_KEY = Some ob'" "ob_body ob' = dumps sample_json (lease_doc ''1'' (Finite 300) (Finite 300))"
    unfolding sel by blast
  then show ?thesis by blast
qed

end
