(* ===== verification/Log_Config.thy ===== *)
theory Log_Config
  imports Prelude
begin

text \<open>
  \<^verbatim>\<open>log.py\<close>: the configuration of the logger at startup. structlog is not part of the repository; its global
  configuration is the state here, and a processor is the constructor call that makes it.
\<close>

section \<open>The configuration\<close>

datatype processor =
    MergeContextvars
  | AddLogLevel
  | TimeStamper string
  | StackInfoRenderer
  | SetExcInfo
  | JSONRenderer
  | ConsoleRenderer

record log_config =
  processors :: "processor list"
  filtering_level :: int
  cache_logger_on_first_use :: bool

text \<open>The numbers are those of the standard library's \<^verbatim>\<open>logging\<close>.\<close>

definition LEVELS :: "string \<rightharpoonup> int" where
  "LEVELS = [''debug'' \<mapsto> 10, ''info'' \<mapsto> 20, ''warning'' \<mapsto> 30, ''error'' \<mapsto> 40]"

text \<open>\<open>Literal\<close> types are not checked at run time: a level of any other name is a \<^verbatim>\<open>KeyError\<close>, before anything is configured.\<close>

definition configure :: "string \<Rightarrow> bool \<Rightarrow> (log_config, unit) io" where
  "configure level json old =
     (let ps = [MergeContextvars, AddLogLevel, TimeStamper ''iso'', StackInfoRenderer, SetExcInfo] @
        (if json then [JSONRenderer] else [ConsoleRenderer]) in
      case LEVELS level of
        None \<Rightarrow> (Inl PyKeyError, old)
      | Some n \<Rightarrow> (Inr (), \<lparr>processors = ps, filtering_level = n, cache_logger_on_first_use = True\<rparr>))"

section \<open>Configuring again\<close>

definition is_renderer :: "processor \<Rightarrow> bool" where
  "is_renderer p \<longleftrightarrow> p \<in> {JSONRenderer, ConsoleRenderer}"

lemma configure_renders_last:
  "configure level json old = (Inr (), c) \<Longrightarrow> is_renderer (last (processors c)) \<and> \<not> list_ex is_renderer (butlast (processors c))"
  by (cases json) (auto simp: configure_def is_renderer_def Let_def split: option.splits)

lemma configure_fails_iff: "isl (fst (configure level json old)) \<longleftrightarrow> level \<notin> {''debug'', ''info'', ''warning'', ''error''}"
  by (simp add: configure_def LEVELS_def Let_def)

lemma configure_failed_keeps: "configure level json old = (Inl e, c) \<Longrightarrow> e = PyKeyError \<and> c = old"
  by (auto simp: configure_def Let_def split: option.splits)

text \<open>Idempotent, as documented: whatever was configured before, the last successful call decides.\<close>

lemma configure_idempotent:
  assumes "configure level json old = (Inr (), c)"
  shows "configure level json other = (Inr (), c)"
  using assms by (auto simp: configure_def Let_def split: option.splits)

end
