(* ===== verification/Ledger_Safety.thy ===== *)
theory Ledger_Safety
  imports Gc_Effects
begin

text \<open>
  The tombstone ledger of the pack sweep: its document through JSON, and the second defence of a pack. Whatever else a
  sequence of collections may see or decide, a pack is only deleted after the ledger has named it for longer than the
  grace.
\<close>

section \<open>The document\<close>

lemma datetime_dict_texts: "lib_ok L \<Longrightarrow> datetime_dict L (map (\<lambda>(k, t). (k, JStr (iso_text L t))) T) = Some T"
  by (induction T) auto

lemma datetime_dict_keys: "datetime_dict L kvs = Some T \<Longrightarrow> map fst T = map fst kvs"
  by (induction L kvs arbitrary: T rule: datetime_dict.induct) (auto split: option.splits)

lemma tombstones_roundtrip:
  assumes "lib_ok L" and "distinct (map fst T)"
  shows "tombstones_from_bytes L (tombstones_to_bytes L T) = Inr T"
proof -
  have keys: "map fst (map (\<lambda>(k, t). (k, JStr (iso_text L t))) T) = map fst T" by (induction T) auto
  have "json_wf (JObj (map (\<lambda>(k, t). (k, JStr (iso_text L t))) T))"
    using assms(2) unfolding json_wf.simps keys by (auto simp: list_all_iff)
  then have "json_wf (JObj [(''schema'', JStr tombstone_schema), (''cold_since'', JObj (map (\<lambda>(k, t). (k, JStr (iso_text L t))) T))])"
    by simp
  with assms(1) show ?thesis
    unfolding tombstones_from_bytes_def tombstones_to_bytes_def
    by (simp add: json_defs datetime_dict_texts del: json_wf.simps)
qed

text \<open>A ledger that was read names each pack once.\<close>

lemma tombstones_distinct:
  assumes "lib_ok L" and "tombstones_from_bytes L b = Inr T"
  shows "distinct (map fst T)"
proof -
  from assms(2) obtain j kvs where j: "json_loads L b = Some j" "as_obj j = Some kvs"
    and T: "defaulted kvs ''cold_since'' (\<lambda>d. case as_obj d of None \<Rightarrow> None | Some m \<Rightarrow> datetime_dict L m) [] = Some T"
    by (auto simp: tombstones_from_bytes_def split: option.splits if_splits)
  from lib_ok_loads [OF assms(1) j(1)] j(2) have wf: "json_wf (JObj kvs)" by (auto simp: as_obj_def split: json.splits)
  show ?thesis
  proof (cases "map_of kvs ''cold_since''")
    case None
    with T show ?thesis by (simp add: defaulted_def)
  next
    case (Some d)
    with T obtain m where m: "d = JObj m" "datetime_dict L m = Some T"
      by (auto simp: defaulted_def as_obj_def split: json.splits)
    from json_wf_field [OF wf Some] have "json_wf d" .
    with m datetime_dict_keys [OF m(2)] show ?thesis by simp
  qed
qed

section \<open>A pack that is not ripe\<close>

text \<open>The pack is there, and the ledger does not name it, or not since before \<open>since\<close>.\<close>

definition unripe :: "lib \<Rightarrow> key \<Rightarrow> stored \<Rightarrow> int \<Rightarrow> mem \<Rightarrow> bool" where
  "unripe L k ob since s \<longleftrightarrow> mem_objs s k = Some ob \<and>
     (\<forall>lob T t. mem_objs s TOMBSTONE_KEY = Some lob \<longrightarrow> tombstones_from_bytes L (ob_body lob) = Inr T \<longrightarrow>
        map_of T k = Some t \<longrightarrow> since \<le> t)"

definition unripe_at :: "lib \<Rightarrow> key \<Rightarrow> stored \<Rightarrow> int \<Rightarrow> int \<Rightarrow> mem \<Rightarrow> bool" where
  "unripe_at L k ob since t_now s \<longleftrightarrow> unripe L k ob since s \<and> clock s = t_now"

lemma triple_still:
  assumes "guar (=) c" and "triple (\<lambda>_. True) c F"
  shows "triple I c F"
proof (rule tripleI)
  fix s r s'
  assume I: "I s" and run: "c s = (r, s')"
  from guarD [OF assms(1) run] tripleD [OF assms(2) TrueI run] I show "I s' \<and> (\<forall>x. r = Inr x \<longrightarrow> F x)" by auto
qed

lemma mem_reads_keep:
  "triple I (get mem_store j) (\<lambda>_. True)" "triple I (head_meta mem_store j) (\<lambda>m. meta_key m = j)"
  "triple I (list_meta mem_store p) (\<lambda>ms. \<forall>m \<in> set ms. prefix p (meta_key m))" "triple I (list_prefix mem_store p) (\<lambda>_. True)"
proof -
  have all: "agrees h (\<lambda>_. True) = (\<lambda>_. True)" for h by (rule ext) (simp add: agrees_def)
  note calls = agrees_calls [where free = "\<lambda>_. True", unfolded all]
  show "triple I (get mem_store j) (\<lambda>_. True)"
    by (rule triple_still [OF _ calls(1)]) (auto simp: guar_def mem_store_def mem_get_def split: option.splits)
  show "triple I (head_meta mem_store j) (\<lambda>m. meta_key m = j)"
    by (rule triple_still [OF _ calls(2)]) (auto simp: guar_def mem_store_def mem_head_meta_def split: option.splits)
  show "triple I (list_meta mem_store p) (\<lambda>ms. \<forall>m \<in> set ms. prefix p (meta_key m))"
    by (rule triple_still [OF _ calls(3)]) (auto simp: guar_def mem_store_def mem_list_meta_def)
  show "triple I (list_prefix mem_store p) (\<lambda>_. True)"
    by (rule triple_still [OF _ triple_weaken [OF calls(4)]]) (auto simp: guar_def mem_store_def mem_list_prefix_def)
qed

lemma unripe_write:
  assumes "unripe_at L k ob since t_now s" and "j \<noteq> k"
    and "\<And>T t. j = TOMBSTONE_KEY \<Longrightarrow> tombstones_from_bytes L b = Inr T \<Longrightarrow> map_of T k = Some t \<Longrightarrow> since \<le> t"
    and "mem_write j b s = (r, s')"
  shows "unripe_at L k ob since t_now s'"
proof -
  from assms(4) have "mem_objs s' = (mem_objs s)(j \<mapsto> \<lparr>ob_body = b, ob_etag = Suc (etag_counter s), ob_mtime = clock s\<rparr>)" "clock s' = clock s"
    by (auto simp: mem_write_run mem_objs_def)
  with assms(1-3) show ?thesis by (auto simp: unripe_at_def unripe_def)
qed

lemma unripe_calls:
  assumes "j \<noteq> k" and "\<And>T t. j = TOMBSTONE_KEY \<Longrightarrow> tombstones_from_bytes L b = Inr T \<Longrightarrow> map_of T k = Some t \<Longrightarrow> since \<le> t"
  shows "triple (unripe_at L k ob since t_now) (put mem_store j b) (\<lambda>_. True)"
    "triple (unripe_at L k ob since t_now) (put_if_absent mem_store j b) (\<lambda>_. True)"
    "triple (unripe_at L k ob since t_now) (put_if_match mem_store j b tag) (\<lambda>_. True)"
    "triple (unripe_at L k ob since t_now) (delete mem_store j) (\<lambda>_. True)"
proof -
  let ?I = "unripe_at L k ob since t_now"
  have w: "?I s \<Longrightarrow> mem_write j b s = (r, s') \<Longrightarrow> ?I s'" for s r s' by (rule unripe_write [OF _ assms])
  show "triple ?I (put mem_store j b) (\<lambda>_. True)"
    by (intro tripleI) (auto simp: mem_store_def mem_put_def intro: w)
  show "triple ?I (put_if_absent mem_store j b) (\<lambda>_. True)"
    by (intro tripleI) (auto simp: mem_store_def mem_put_if_absent_def split: if_splits intro: w)
  show "triple ?I (put_if_match mem_store j b tag) (\<lambda>_. True)"
    by (intro tripleI) (auto simp: mem_store_def mem_put_if_match_def split: if_splits option.splits intro: w)
  show "triple ?I (delete mem_store j) (\<lambda>_. True)"
    using assms(1) by (intro tripleI) (auto simp: mem_store_def mem_delete_def unripe_at_def unripe_def mem_objs_def split: if_splits)
qed

text \<open>The clock of the store is the time of its writes.\<close>

lemma mem_store_now: "store_now mem_store s = (Inr (clock s), snd (mem_write CLOCK_PROBE_KEY ''t'' s))"
  by (simp add: store_now_def mem_store_def mem_put_def mem_write_run mem_head_meta_def bind_io_def)

lemma unripe_collector:
  assumes "lib_ok L" and "prefix PACKS_PREFIX k" and "t_now - since \<le> grace" and "since \<le> t_now"
  shows "ledger_collector L mem_store (unripe_at L k ob since t_now) (\<lambda>j. j \<noteq> k \<and> j \<noteq> TOMBSTONE_KEY) (\<lambda>j. j \<noteq> k)
    retain dry grace (\<lambda>_. True) (\<lambda>t. t = t_now) (\<lambda>T. distinct (map fst T) \<and> (\<forall>t. map_of T k = Some t \<longrightarrow> since \<le> t))
    (\<lambda>_. True) (\<lambda>_. True) (\<lambda>_. True)"
proof -
  let ?I = "unripe_at L k ob since t_now"
  have other: "LEASE_KEY \<noteq> k" "CLOCK_PROBE_KEY \<noteq> k" "now_probe LEASE_KEY u \<noteq> k" "ROOT_HINT_KEY \<noteq> k" "TOMBSTONE_KEY \<noteq> k"
    "LEASE_KEY \<noteq> TOMBSTONE_KEY" "CLOCK_PROBE_KEY \<noteq> TOMBSTONE_KEY" "now_probe LEASE_KEY u \<noteq> TOMBSTONE_KEY" "ROOT_HINT_KEY \<noteq> TOMBSTONE_KEY" for u
    using assms(2) by (auto simp: LEASE_KEY_def now_probe_def ROOT_HINT_KEY_def CLOCK_PROBE_KEY_def TOMBSTONE_KEY_def PACKS_PREFIX_def)
  have ledger: "since \<le> t" if "distinct (map fst T) \<and> (\<forall>t. map_of T k = Some t \<longrightarrow> since \<le> t)"
      "tombstones_from_bytes L (tombstones_to_bytes L T) = Inr T'" "map_of T' k = Some t" for T T' t
    using that tombstones_roundtrip [OF assms(1), of T] by simp
  show ?thesis
  proof
    show "triple ?I (store_now mem_store) (\<lambda>t. t = t_now)"
    proof (rule tripleI)
      fix s r s'
      assume I: "?I s" and run: "store_now mem_store s = (r, s')"
      from run obtain q where "mem_write CLOCK_PROBE_KEY ''t'' s = (q, s')" "r = Inr (clock s)"
        by (auto simp: mem_store_now) (metis prod.collapse)
      with unripe_write [OF I other(2)] other(7) I show "?I s' \<and> (\<forall>t. r = Inr t \<longrightarrow> t = t_now)"
        by (auto simp: unripe_at_def)
    qed
    show "triple ?I (get mem_store TOMBSTONE_KEY)
        (\<lambda>r. \<forall>T. tombstones_from_bytes L (body r) = Inr T \<longrightarrow> distinct (map fst T) \<and> (\<forall>t. map_of T k = Some t \<longrightarrow> since \<le> t))"
    proof (rule tripleI)
      fix s r s'
      assume I: "?I s" and run: "get mem_store TOMBSTONE_KEY s = (r, s')"
      then have "s' = s" "\<And>x. r = Inr x \<Longrightarrow> \<exists>lob. mem_objs s TOMBSTONE_KEY = Some lob \<and> body x = ob_body lob"
        by (auto simp: mem_store_def mem_get_def mem_objs_def split: option.splits)
      with I tombstones_distinct [OF assms(1)] show "?I s' \<and> (\<forall>x. r = Inr x \<longrightarrow> (\<forall>T. tombstones_from_bytes L (body x) = Inr T \<longrightarrow>
          distinct (map fst T) \<and> (\<forall>t. map_of T k = Some t \<longrightarrow> since \<le> t)))"
        unfolding unripe_at_def unripe_def by metis
    qed
    show "triple ?I (resolve_head L mem_store) (\<lambda>(cur, g). True)"
      using guar_eq_triple [OF mem_reader.reader_resolve_head, of ?I L] by (rule triple_weaken) auto
    show "triple ?I (resolve_payloads L mem_store cur keep []) (\<lambda>r. \<forall>items. r = Inr items \<longrightarrow> True)" for cur keep
      by (rule triple_weaken [OF resolve_payloads_keeps [OF mem_reads_keep(1) triple_weaken [OF mem_reads_keep(2)]]]) simp_all
    show "j \<noteq> k" if "generation_of j = Some g" for j g
      using area_exclusive(3) [OF generation_of_payload [OF that]] assms(2) by auto
    show "triple ?I (head_meta mem_store j) (\<lambda>m. meta_key m = j \<and> True)" for j
      by (rule triple_weaken [OF mem_reads_keep(2)]) simp
    show "triple ?I (list_meta mem_store p) (\<lambda>ms. \<forall>m \<in> set ms. prefix p (meta_key m) \<and> True)" for p
      by (rule triple_weaken [OF mem_reads_keep(3)]) simp
    show "triple ?I (put_if_absent mem_store j b) (\<lambda>_. True)" "triple ?I (put mem_store j b) (\<lambda>_. True)"
      "triple ?I (put_if_match mem_store j b tag) (\<lambda>_. True)" if "j \<noteq> k \<and> j \<noteq> TOMBSTONE_KEY" for j b tag
      using that by (intro unripe_calls; blast)+
    show "triple ?I (put_if_absent mem_store TOMBSTONE_KEY (tombstones_to_bytes L T)) (\<lambda>_. True)"
      "triple ?I (put mem_store TOMBSTONE_KEY (tombstones_to_bytes L T)) (\<lambda>_. True)"
      "triple ?I (put_if_match mem_store TOMBSTONE_KEY (tombstones_to_bytes L T) tag) (\<lambda>_. True)"
      if "distinct (map fst T) \<and> (\<forall>t. map_of T k = Some t \<longrightarrow> since \<le> t)" for T tag
      using ledger [OF that] other(5) by (intro unripe_calls; blast)+
    show "triple ?I (delete mem_store j) (\<lambda>_. True)" if "j \<noteq> k" for j
      using that by (rule unripe_calls(4) [where b = "tombstones_to_bytes L []"]) (use tombstones_roundtrip [OF assms(1), of "[]"] in auto)
    show "distinct (map fst (next_cold T P v plan)) \<and> (\<forall>t. map_of (next_cold T P v plan) k = Some t \<longrightarrow> since \<le> t)"
      if "distinct (map fst T) \<and> (\<forall>t. map_of T k = Some t \<longrightarrow> since \<le> t)" "v = t_now" for T v P plan
      using that assms(4) by (auto simp: map_of_next_cold next_cold_distinct split: if_splits)
    show "meta_key m \<noteq> k" if "t = t_now" "distinct (map fst T) \<and> (\<forall>t. map_of T k = Some t \<longrightarrow> since \<le> t)"
      "map_of T (meta_key m) = Some v" "grace < t - v" for m T v t
      using that assms(3) by fastforce
  qed (use other in \<open>auto intro: mem_reads_keep\<close>)
qed

section \<open>Collections one after the other\<close>

text \<open>Each after a delay, with parameters and a holder of its own.\<close>

record gc_run =
  run_delay :: nat
  run_depth :: nat
  run_holder :: "mem lease_cfg"
  run_retain :: int
  run_dry :: bool
  run_grace :: int
  run_unsafe :: bool

fun collections :: "lease_lib \<Rightarrow> lib \<Rightarrow> gc_run list \<Rightarrow> mem \<Rightarrow> mem" where
  "collections J L [] m = m"
| "collections J L (R # Rs) m =
     collections J L Rs (snd (collect (run_depth R) J (run_holder R) L mem_store (run_retain R) (run_dry R) (run_grace R) (run_unsafe R)
       (tick_mem (run_delay R) m)))"

lemma unripe_tick: "unripe_at L k ob since t s \<Longrightarrow> unripe_at L k ob since (t + int n) (tick_mem n s)"
  by (simp add: unripe_at_def unripe_def mem_objs_def tick_mem_def)

lemma collections_unripe:
  assumes "lib_ok L" and "prefix PACKS_PREFIX k" and "unripe_at L k ob since t m" and "since \<le> t"
    and "\<And>R. R \<in> set Rs \<Longrightarrow> t + int (sum_list (map run_delay Rs)) - since \<le> run_grace R"
  shows "unripe_at L k ob since (t + int (sum_list (map run_delay Rs))) (collections J L Rs m)"
  using assms(3-5)
proof (induction Rs arbitrary: m t)
  case (Cons R Rs)
  let ?t = "t + int (run_delay R)" and ?m = "tick_mem (run_delay R) m"
  let ?c = "collect (run_depth R) J (run_holder R) L mem_store (run_retain R) (run_dry R) (run_grace R) (run_unsafe R)"
  have "?t - since \<le> run_grace R" "since \<le> ?t" using Cons.prems(2) Cons.prems(3) [of R] by simp_all
  note col = unripe_collector [OF assms(1,2) this, of ob "run_retain R" "run_dry R"]
  obtain r m' where run: "?c ?m = (r, m')" by (metis surj_pair)
  from tripleD [OF ledger_collector.collect_keeps [OF col] unripe_tick [OF Cons.prems(1)] run]
  have "unripe_at L k ob since ?t m'" by simp
  from Cons.IH [OF this \<open>since \<le> ?t\<close>] Cons.prems(3) run show ?case by (simp add: algebra_simps)
qed simp

text \<open>
  Claim C11. Two cycles: a pack the ledger does not name survives every sequence of collections that start within the grace
  from now, however old the pack is, whether or not a generation references it, whatever the parameters, the holders and
  the outcomes of the collections, and even if the payloads and markers of the store are gone or corrupt.
\<close>
theorem unnamed_pack_survives_the_grace:
  assumes "lib_ok L" and "prefix PACKS_PREFIX k" and "mem_objs m k = Some ob"
    and "\<And>lob T. mem_objs m TOMBSTONE_KEY = Some lob \<Longrightarrow> tombstones_from_bytes L (ob_body lob) = Inr T \<Longrightarrow> map_of T k = None"
    and "\<And>R. R \<in> set Rs \<Longrightarrow> int (sum_list (map run_delay Rs)) \<le> run_grace R"
  shows "mem_objs (collections J L Rs m) k = Some ob"
proof -
  have "unripe_at L k ob (clock m) (clock m) m" using assms(3,4) by (fastforce simp: unripe_at_def unripe_def)
  from collections_unripe [OF assms(1,2) this order_refl, of Rs J] assms(5)
  show ?thesis by (simp add: unripe_at_def unripe_def)
qed

text \<open>A pack that nothing references, aged for a year, before two collections an hour apart.\<close>

definition lone_pack :: mem where
  "lone_pack = tick_mem (365 * 86400000000) (snd (mem_write (PACKS_PREFIX @ ''p'') ''x'' empty_mem))"

theorem unnamed_pack_survives_the_grace_witness:
  "\<exists>ob. mem_objs (collections sample_json sample_lib
      [\<lparr>run_delay = 0, run_depth = 5, run_holder = sample_cfg 1, run_retain = 1, run_dry = False, run_grace = MIN_PACK_GRACE, run_unsafe = False\<rparr>,
       \<lparr>run_delay = 3600000000, run_depth = 5, run_holder = sample_cfg 2, run_retain = 1, run_dry = False, run_grace = MIN_PACK_GRACE, run_unsafe = False\<rparr>]
      lone_pack) (PACKS_PREFIX @ ''p'') = Some ob \<and> ob_body ob = ''x''"
proof -
  have objs: "mem_objs lone_pack = [PACKS_PREFIX @ ''p'' \<mapsto> \<lparr>ob_body = ''x'', ob_etag = Suc (etag_counter empty_mem), ob_mtime = clock empty_mem\<rparr>]"
    by (simp add: lone_pack_def mem_write_run mem_objs_def tick_mem_def empty_mem_def fun_eq_iff)
  have other: "TOMBSTONE_KEY \<noteq> PACKS_PREFIX @ ''p''" by (simp add: TOMBSTONE_KEY_def PACKS_PREFIX_def)
  show ?thesis
    by (intro exI conjI, rule unnamed_pack_survives_the_grace [OF sample_lib_ok])
       (auto simp: objs other MIN_PACK_GRACE_def hours_def)
qed

end
