(* ===== verification/Pack_Cycles.thy ===== *)
theory Pack_Cycles
  imports Ledger_Safety
begin

text \<open>
  The other half of the ledger: garbage goes. Two wet collections that finish, more than the grace apart, leave no pack
  that was old before the first one and that no payload names.
\<close>

section \<open>A pack no payload names\<close>

definition unnamed :: "lib \<Rightarrow> key \<Rightarrow> contents \<Rightarrow> bool" where
  "unnamed L k h \<longleftrightarrow> (\<forall>j ob M. prefix PAYLOAD_PREFIX j \<longrightarrow> h j = Some ob \<longrightarrow> manifest_from_bytes L (ob_body ob) = Inr M \<longrightarrow>
     k \<notin> pack_keys M)"

text \<open>What the resolved payloads name was read from a payload object.\<close>

definition item_of :: "(manifest \<Rightarrow> bool) \<Rightarrow> resolved_payload \<Rightarrow> bool" where
  "item_of P i = (case i of CommittedChunked d M \<Rightarrow> P M | OrphanManifest j M \<Rightarrow> P M | _ \<Rightarrow> True)"

lemma item_of_simps [simp]:
  "item_of P (CommittedWhole d)" "item_of P (OrphanOpaque j)" "item_of P (CommittedChunked d M) = P M" "item_of P (OrphanManifest j M) = P M"
  by (simp_all add: item_of_def)

lemma resolve_payloads_items:
  assumes reads: "\<And>j. triple I (get S j) (\<lambda>_. True)" "\<And>j. triple I (head_meta S j) (\<lambda>_. True)"
    and named: "\<And>j. prefix PAYLOAD_PREFIX j \<Longrightarrow> triple I (get S j) (\<lambda>r. \<forall>M. manifest_from_bytes L (body r) = Inr M \<longrightarrow> P M)"
  shows "triple I (resolve_payloads L S cur ks items) (\<lambda>r. \<forall>items'. r = Inr items' \<longrightarrow> (\<forall>i \<in> set items'. i \<in> set items \<or> item_of P i))"
proof (induction ks arbitrary: items)
  case Nil
  show ?case by (simp only: resolve_payloads.simps) (rule triple_ret, simp)
next
  case (Cons k ks)
  let ?F = "\<lambda>r. \<forall>items'. r = Inr items' \<longrightarrow> (\<forall>i \<in> set items'. i \<in> set items \<or> item_of P i)"
  have add: "triple I (resolve_payloads L S cur ks (items @ [i])) ?F" if "item_of P i" for i
    by (rule triple_weaken [OF Cons]) (use that in auto)
  show ?case
  proof (cases "generation_of k")
    case None
    then show ?thesis using Cons by simp
  next
    case (Some g)
    note get = named [OF generation_of_payload [OF Some]]
    have load: "triple I (load_committed_manifest L S k) P"
      unfolding load_committed_manifest_def
      by (intro triple_then [OF reads(2)] triple_if triple_raise triple_bind [OF get] triple_lift) simp
    have orphan: "triple I (resolve_orphan L S k) (\<lambda>r. \<forall>i. r = Some i \<longrightarrow> item_of P i)"
      unfolding resolve_orphan_def
    proof (rule triple_bind [OF triple_try [where F = "\<lambda>b. \<forall>data. b = Some data \<longrightarrow> (\<forall>M. manifest_from_bytes L data = Inr M \<longrightarrow> P M)"]])
      show "triple I (bind_io (head_meta S k) (\<lambda>m. if meta_size m \<le> MAX_MANIFEST_BYTES then bind_io (get S k) (\<lambda>r. ret (Some (body r))) else ret None))
          (\<lambda>b. \<forall>data. b = Some data \<longrightarrow> (\<forall>M. manifest_from_bytes L data = Inr M \<longrightarrow> P M))"
        by (intro triple_then [OF reads(2)] triple_if triple_bind [OF get] triple_ret) simp_all
    qed (auto simp: sniff_manifest_def intro!: triple_sum triple_if triple_raise triple_ret triple_option split: sum.splits option.splits)
    show ?thesis
      unfolding resolve_payloads.simps Some option.case names_key_def
      by (intro triple_then [OF resolve_parts(2) [OF reads]] triple_then triple_option triple_ret triple_lift triple_if triple_transport add
          triple_bind [OF triple_try [OF load]] triple_bind [OF orphan] triple_sum triple_raise Cons TrueI)
         auto
  qed
qed

lemma unnamed_items:
  assumes "unnamed L k (mem_objs s)"
  shows "triple (\<lambda>x. x = s) (resolve_payloads L mem_store cur ks [])
    (\<lambda>r. \<forall>items. r = Inr items \<longrightarrow> (\<forall>i \<in> set items. k \<notin> item_marks i))"
proof -
  have named: "triple (\<lambda>x. x = s) (get mem_store j) (\<lambda>r. \<forall>M. manifest_from_bytes L (body r) = Inr M \<longrightarrow> k \<notin> pack_keys M)"
    if "prefix PAYLOAD_PREFIX j" for j
    using assms that by (intro tripleI) (auto simp: mem_store_def mem_get_def unnamed_def mem_objs_def split: option.splits)
  have "k \<notin> item_marks i" if "item_of (\<lambda>M. k \<notin> pack_keys M) i" for i
    using that by (cases i) (simp_all add: item_marks_def)
  with resolve_payloads_items [OF mem_reads_keep(1) triple_weaken [OF mem_reads_keep(2)] named, where cur = cur and ks = ks and items = "[]"]
  show ?thesis by (auto elim!: triple_weaken)
qed

section \<open>The decision on one pack\<close>

lemma decide_sets:
  assumes "decide_pack_sweep items metas T t_now grace fraction = SweepActions plan"
    and "k \<in> meta_key ` set metas" and "\<forall>i \<in> set items. k \<notin> item_marks i"
    and old: "\<And>m. m \<in> set metas \<Longrightarrow> meta_key m = k \<Longrightarrow> \<not> is_young t_now grace (meta_modified m)"
  shows "k \<in> tombstone_packs plan \<longleftrightarrow> map_of T k = None" and "k \<notin> resurrect_packs plan"
    and "k \<in> delete_packs plan \<longleftrightarrow> (\<exists>t. map_of T k = Some t \<and> grace < t_now - t)"
    and "finite (tombstone_packs plan)" "finite (delete_packs plan)"
proof -
  let ?marked = "\<Union>item \<in> set items. item_marks item" and ?row = "\<lambda>k m. (k, m) \<in> set (listed_dict metas)"
  obtain m where m: "?row k m" using assms(2) unfolding listed_keys [symmetric] by auto
  have row: "\<not> is_young t_now grace (meta_modified m)" if "?row k m" for m using listed_rows [OF that] old by blast
  have sets: "tombstone_packs plan = {k. \<exists>m. ?row k m \<and> k \<notin> ?marked \<and> \<not> is_young t_now grace (meta_modified m) \<and> map_of T k = None}"
    "resurrect_packs plan = {k. \<exists>m. ?row k m \<and> (k \<in> ?marked \<or> is_young t_now grace (meta_modified m)) \<and> map_of T k \<noteq> None}"
    "delete_packs plan = {k. \<exists>m t. ?row k m \<and> k \<notin> ?marked \<and> \<not> is_young t_now grace (meta_modified m) \<and>
       map_of T k = Some t \<and> grace < t_now - t}"
    using assms(1) unfolding decide_pack_sweep_def Let_def sweep_fold prod.case
    by (simp_all only: sweep_plan.distinct sweep_plan.inject split: if_splits)
       (erule subst, simp only: sweep_actions.simps Un_empty_left)+
  show "k \<in> tombstone_packs plan \<longleftrightarrow> map_of T k = None" "k \<notin> resurrect_packs plan"
    "k \<in> delete_packs plan \<longleftrightarrow> (\<exists>t. map_of T k = Some t \<and> grace < t_now - t)"
    unfolding sets using m row assms(3) by auto
  have "finite (fst ` set (listed_dict metas))" by simp
  then show "finite (tombstone_packs plan)" "finite (delete_packs plan)"
    unfolding sets by (rule finite_subset [rotated], force)+
qed

lemma add_missing_metas:
  assumes head: "\<And>j. triple I (head_meta S j) (F j)"
  shows "triple I (add_missing S ks ms) (\<lambda>ms'. set ms \<subseteq> set ms' \<and> (\<forall>m \<in> set ms'. m \<in> set ms \<or> (\<exists>j \<in> set ks. F j m)))"
proof (induction ks arbitrary: ms)
  case Nil
  show ?case by (simp only: add_missing.simps) (rule triple_ret, simp)
next
  case (Cons k ks)
  have add: "triple I (add_missing S ks (ms @ [m])) (\<lambda>ms'. set ms \<subseteq> set ms' \<and> (\<forall>m \<in> set ms'. m \<in> set ms \<or> (\<exists>j \<in> set (k # ks). F j m)))" if "F k m" for m
    using that by (intro triple_weaken [OF Cons]) auto
  show ?case
    unfolding add_missing.simps
    by (rule triple_bind [OF triple_try [OF head]]) (intro triple_sum triple_if triple_raise triple_weaken [OF Cons] add; auto)
qed

section \<open>What the sweep writes\<close>

lemma committed_ledger:
  assumes "commit_tombstones L mem_store T ref s = (Inr u, s')"
  obtains lob where "mem_objs s' = (mem_objs s)(TOMBSTONE_KEY \<mapsto> lob)" "ob_body lob = tombstones_to_bytes L T" "clock s' = clock s"
proof -
  from assms obtain x where "mem_write TOMBSTONE_KEY (tombstones_to_bytes L T) s = (Inr x, s')"
    by (cases ref) (auto simp: commit_tombstones_def Let_def io_simps mem_store_def mem_put_def mem_put_if_absent_def mem_put_if_match_def
        mem_write_run split: if_splits option.splits)
  from mem_write_present [OF this] that show thesis by auto
qed

text \<open>An object that is not the lease's own is left alone by its holder.\<close>

lemma bystander:
  assumes "\<not> own_key k"
  shows "lease_user mem_store (\<lambda>s. mem_objs s k = v \<and> clock s = t_now) (\<lambda>j. j \<noteq> k) (\<lambda>j. j \<noteq> k \<or> v = None) (\<lambda>_. True)"
proof -
  have w: "mem_objs s' k = mem_objs s k \<and> clock s' = clock s" if "mem_write j b s = (r, s')" "j \<noteq> k" for j b s r s'
    using that by (auto simp: mem_write_run mem_objs_def)
  show ?thesis
  proof
    show "triple (\<lambda>s. mem_objs s k = v \<and> clock s = t_now) (put_if_absent mem_store j b) (\<lambda>_. True)"
      "triple (\<lambda>s. mem_objs s k = v \<and> clock s = t_now) (put mem_store j b) (\<lambda>_. True)"
      "triple (\<lambda>s. mem_objs s k = v \<and> clock s = t_now) (put_if_match mem_store j b t) (\<lambda>_. True)" if "j \<noteq> k" for j b t
      using w [OF _ that] by (intro tripleI; force simp: mem_store_def mem_put_def mem_put_if_absent_def mem_put_if_match_def
          split: if_splits option.splits)+
    show "triple (\<lambda>s. mem_objs s k = v \<and> clock s = t_now) (delete mem_store j) (\<lambda>_. True)" if "j \<noteq> k \<or> v = None" for j
      using that by (intro tripleI) (auto simp: mem_delete_run mem_objs_def)
  qed (use assms in \<open>auto simp: own_key_def intro: mem_reads_keep triple_weaken [OF mem_reads_keep(2)]\<close>)
qed

lemma cold_pack_deleted:
  assumes C: "lease_key C = LEASE_KEY" and k: "\<not> own_key k" and old: "grace < t_now - ob_mtime ob"
  shows "delete_each_cold J C mem_store t_now grace ks gone (s, h) = (Inr r, (s', h')) \<Longrightarrow> k \<in> set ks \<Longrightarrow>
    mem_objs s k = None \<or> mem_objs s k = Some ob \<Longrightarrow> clock s = t_now \<Longrightarrow> mem_objs s' k = None"
proof (induction ks arbitrary: gone s h)
  case (Cons x ks)
  let ?s = "\<lambda>s. s\<lparr>objects := DAList.delete x (objects s)\<rparr>"
  have rest: "mem_objs s' k = None"
    if "delete_each_cold J C mem_store t_now grace ks gone' (s2, h2) = (Inr r, (s', h'))" "mem_objs s2 k = None" "clock s2 = t_now" for gone' s2 h2
    using tripleD [OF lease_user.cold_deletes_keep [OF bystander [OF k, where v = None and t_now = t_now] C] _ that(1)] that(2,3) by simp
  have renewed: "mem_objs s2 k = mem_objs s1 k \<and> clock s2 = clock s1"
    if "renew_after J C mem_store n (s1, h1) = (q, (s2, h2))" for n s1 h1 q s2 h2
    using tripleD [OF lease_user.renew_after_keeps [OF bystander [OF k, where v = "mem_objs s1 k" and t_now = "clock s1"] C] _ that] by simp
  have head: "head_meta mem_store x s = (case mem_objs s x of None \<Rightarrow> (Inl ObjectNotFoundError, s)
      | Some b \<Rightarrow> (Inr \<lparr>meta_key = x, meta_size = length (ob_body b), meta_modified = Some (ob_mtime b)\<rparr>, s))"
    by (simp add: mem_store_def mem_head_meta_def mem_objs_def)
  have gone: "mem_objs (?s s) j = (if j = x then None else mem_objs s j)" "clock (?s s) = clock s" for j
    by (simp_all add: mem_objs_def DAList.lookup_delete)
  show ?case
  proof (cases "mem_objs s x")
    case None
    then have run: "delete_each_cold J C mem_store t_now grace ks gone (s, h) = (Inr r, (s', h'))"
      using Cons.prems(1) head by (simp add: io_simps)
    with Cons.IH [OF run] Cons.prems(2-4) rest [OF run] None show ?thesis by auto
  next
    case (Some o1)
    show ?thesis
    proof (cases "t_now - ob_mtime o1 \<le> grace")
      case True
      then have "delete_each_cold J C mem_store t_now grace ks gone (s, h) = (Inr r, (s', h'))"
        using Cons.prems(1) head Some by (simp add: io_simps)
      moreover have "x \<noteq> k" using True old Some Cons.prems(3) by auto
      ultimately show ?thesis using Cons.IH Cons.prems(2-4) by auto
    next
      case False
      obtain q s2 h2 where q: "renew_after J C mem_store (length (gone @ [x])) (?s s, h) = (q, (s2, h2))"
        by (metis surj_pair)
      have run: "q = Inr () \<and> delete_each_cold J C mem_store t_now grace ks (gone @ [x]) (s2, h2) = (Inr r, (s', h'))"
        using Cons.prems(1) head Some False q by (cases q) (simp_all add: io_simps mem_delete_run)
      have s2: "mem_objs s2 k = (if k = x then None else mem_objs s k)" "clock s2 = t_now"
        using renewed [OF q] gone Cons.prems(4) by simp_all
      show ?thesis
        using Cons.IH [OF conjunct2 [OF run]] rest [OF conjunct2 [OF run]] s2 Cons.prems(2,3) by (cases "k = x") auto
    qed
  qed
qed simp

section \<open>One sweep\<close>

text \<open>The ledger has named the pack since a time that \<open>P\<close> holds of.\<close>

definition named_since :: "lib \<Rightarrow> key \<Rightarrow> (int \<Rightarrow> bool) \<Rightarrow> mem \<Rightarrow> bool" where
  "named_since L k P s \<longleftrightarrow> (\<exists>lob T t. mem_objs s TOMBSTONE_KEY = Some lob \<and> tombstones_from_bytes L (ob_body lob) = Inr T \<and>
     map_of T k = Some t \<and> P t)"

lemma mem_listed:
  assumes "mem_objs s k = Some ob" and "prefix p k"
  obtains ms where "list_meta mem_store p s = (Inr ms, s)" "k \<in> meta_key ` set ms"
    "\<forall>m \<in> set ms. prefix p (meta_key m) \<and> (meta_key m = k \<longrightarrow> meta_modified m = Some (ob_mtime ob))"
proof -
  have rows: "(j, b) \<in> set (DAList.impl_of (objects s)) \<longleftrightarrow> mem_objs s j = Some b" for j b
    by (simp add: mem_objs_def lookup_mem_iff)
  show thesis
    by (rule that) (use assms in \<open>auto simp: mem_store_def mem_list_meta_def rows image_iff intro!: bexI [of _ "(k, ob)"]\<close>)
qed

lemma mem_head_row: "mem_objs s k = Some ob \<Longrightarrow> triple (\<lambda>x. x = s) (head_meta mem_store j)
    (\<lambda>m. meta_key m = j \<and> (meta_key m = k \<longrightarrow> meta_modified m = Some (ob_mtime ob)))"
  by (rule tripleI) (auto simp: mem_store_def mem_head_meta_def mem_objs_def split: option.splits)

lemma load_tombstones_mem:
  "load_tombstones L mem_store s = (case mem_objs s TOMBSTONE_KEY of
     None \<Rightarrow> (Inr ([], LedgerAbsent), s)
   | Some lob \<Rightarrow> (case tombstones_from_bytes L (ob_body lob) of
       Inr T \<Rightarrow> (Inr (T, LedgerAt (etag_text (ob_etag lob))), s)
     | Inl e \<Rightarrow> (if e = ObjectNotFoundError then (Inr ([], LedgerAbsent), s)
                else if e = InputValidationError then (Inr ([], LedgerCorrupt), s) else (Inl e, s))))"
  by (cases "mem_objs s TOMBSTONE_KEY") (simp_all add: load_tombstones_def io_simps mem_store_def mem_get_def mem_objs_def split: sum.split)

lemma loaded_tombstones:
  assumes "lib_ok L" and "load_tombstones L mem_store s = (Inr (T, ref), s1)"
  shows "s1 = s" "distinct (map fst T)"
    "\<And>lob T'. mem_objs s TOMBSTONE_KEY = Some lob \<Longrightarrow> tombstones_from_bytes L (ob_body lob) = Inr T' \<Longrightarrow> T = T'"
    "map_of T k = Some t \<Longrightarrow> \<exists>lob. mem_objs s TOMBSTONE_KEY = Some lob \<and> tombstones_from_bytes L (ob_body lob) = Inr T"
  using assms(2) tombstones_distinct [OF assms(1)]
  by (auto simp: load_tombstones_mem split: option.splits sum.splits if_splits)

lemma pack_sweep_cold:
  assumes ok: "lib_ok L" and C: "lease_key C = LEASE_KEY"
    and run: "pack_sweep J C L mem_store cur keep False grace (s, h) = (Inr pr, (s', h'))"
    and k: "prefix PACKS_PREFIX k" "mem_objs s k = Some ob" "grace < clock s - ob_mtime ob" "unnamed L k (mem_objs s)"
    and past: "\<not> named_since L k (\<lambda>t. clock s < t) s"
  shows "mem_objs s' k = None \<or> named_since L k (\<lambda>t. t \<le> clock s) s'"
    and "named_since L k (\<lambda>t. grace < clock s - t) s \<Longrightarrow> mem_objs s' k = None"
proof -
  have own: "\<not> own_key k" "\<not> own_key TOMBSTONE_KEY" and kt: "k \<noteq> TOMBSTONE_KEY"
    using k(1) by (auto simp: own_key_def LEASE_KEY_def now_probe_def CLOCK_PROBE_KEY_def TOMBSTONE_KEY_def PACKS_PREFIX_def)
  obtain ms where ms: "list_meta mem_store PACKS_PREFIX s = (Inr ms, s)" "k \<in> meta_key ` set ms"
    "\<forall>m \<in> set ms. prefix PACKS_PREFIX (meta_key m) \<and> (meta_key m = k \<longrightarrow> meta_modified m = Some (ob_mtime ob))"
    by (rule mem_listed [OF k(2,1)])
  then have some: "ms \<noteq> []" by auto
  obtain q s1 where res: "resolve_payloads L mem_store cur keep [] s = (q, s1)" by (metis surj_pair)
  from run ms(1) res obtain items where q: "q = Inr (Inr items)"
    by (cases q) (auto simp: pack_sweep_def io_simps split: sum.splits)
  from tripleD [OF unnamed_items [OF k(4)] refl res] q have items: "s1 = s" "\<forall>i \<in> set items. k \<notin> item_marks i" by auto
  let ?refs = "sorted_list_of_set (committed_refs items - meta_key ` set ms)"
  obtain q2 s2 where add: "add_missing mem_store ?refs ms s = (q2, s2)" by (metis surj_pair)
  from run ms(1) res q items(1) some add obtain metas where q2: "q2 = Inr metas"
    by (cases q2) (auto simp: pack_sweep_def io_simps)
  from tripleD [OF add_missing_metas [OF mem_head_row [OF k(2)]] refl add] q2 have metas: "s2 = s" "set ms \<subseteq> set metas"
    "\<And>m. m \<in> set metas \<Longrightarrow> prefix PACKS_PREFIX (meta_key m) \<and> (meta_key m = k \<longrightarrow> meta_modified m = Some (ob_mtime ob))"
    using ms(3) finite_committed_refs [of items] by (fastforce intro: committed_refs_packs)+
  from run ms(1) res q items(1) some add q2 metas(1) obtain T ref s3 where
    load: "load_tombstones L mem_store s = (Inr (T, ref), s3)"
    and rest: "(case decide_pack_sweep items metas T (clock s3) grace DEFAULT_MAX_DELETE_FRACTION of
        RefuseSweep _ \<Rightarrow> raise ExternalServiceError
      | SweepActions plan \<Rightarrow> execute_sweep J C L mem_store False grace metas T ref (clock s3) plan)
        (snd (mem_write CLOCK_PROBE_KEY ''t'' s3), h) = (Inr pr, (s', h'))"
    by (auto simp: pack_sweep_def io_simps mem_store_now)
  then obtain plan where plan: "decide_pack_sweep items metas T (clock s3) grace DEFAULT_MAX_DELETE_FRACTION = SweepActions plan"
    by (cases "decide_pack_sweep items metas T (clock s3) grace DEFAULT_MAX_DELETE_FRACTION") auto
  obtain w s4 where w: "mem_write CLOCK_PROBE_KEY ''t'' s3 = (w, s4)" by (metis surj_pair)
  with rest plan have exec: "execute_sweep J C L mem_store False grace metas T ref (clock s3) plan (s4, h) = (Inr pr, (s', h'))" by simp
  note T = loaded_tombstones [OF ok load]
  have row: "\<not> is_young (clock s) grace (meta_modified m)" if "m \<in> set metas" "meta_key m = k" for m
    using metas(3) [OF that(1)] that(2) k(3) by (simp add: is_young_def)
  have listed: "k \<in> meta_key ` set metas" using ms(2) metas(2) by blast
  note dec = decide_sets [OF plan listed items(2), unfolded T(1), OF row]
  from exec obtain s5 h5 s6 r gone where
    ren: "lease_renew J C mem_store (s4, h) = (Inr True, (s5, h5))"
    and com: "commit_tombstones L mem_store (next_cold T (meta_key ` set metas) (clock s) plan) ref s5 = (Inr r, s6)"
    and del: "delete_cold_packs J C mem_store (sorted_list_of_set (delete_packs plan)) grace (s6, h5) = (Inr gone, (s', h'))"
    by (auto simp: execute_sweep_def Let_def io_simps T(1) split: if_splits)
  note user = bystander [OF own(1), where v = "Some ob" and t_now = "clock s"]
  from w T(1) own(1) k(2) have s4: "mem_objs s4 k = Some ob \<and> clock s4 = clock s" by (auto simp: mem_write_run mem_objs_def own_key_def)
  have s5: "mem_objs s5 k = Some ob \<and> clock s5 = clock s"
    using tripleD [OF lease_user.renew_keeps [OF user C] _ ren] s4 by simp
  obtain lob where s6: "mem_objs s6 = (mem_objs s5)(TOMBSTONE_KEY \<mapsto> lob)" "clock s6 = clock s5"
    and lob: "ob_body lob = tombstones_to_bytes L (next_cold T (meta_key ` set metas) (clock s) plan)"
    by (rule committed_ledger [OF com])
  obtain s7 where s7: "delete_each_cold J C mem_store (clock s) grace (sorted_list_of_set (delete_packs plan)) [] (s7, h5) = (Inr gone, (s', h'))"
    and probe: "\<exists>w. mem_write CLOCK_PROBE_KEY ''t'' s6 = (w, s7)"
    using del s5 s6(2) by (simp add: delete_cold_packs_def bind_io_def on_world_def mem_store_now) (metis prod.collapse)
  then have at7: "mem_objs s7 k = Some ob" "mem_objs s7 TOMBSTONE_KEY = Some lob" "clock s7 = clock s"
    using own s5 s6 kt by (auto simp: mem_write_run mem_objs_def own_key_def)
  have gone: "mem_objs s' k = None" if "k \<in> delete_packs plan"
    using cold_pack_deleted [OF C own(1) k(3) s7] that dec(5) at7 by simp
  have kept: "mem_objs s' TOMBSTONE_KEY = Some lob"
  proof -
    have "j \<noteq> TOMBSTONE_KEY" if "j \<in> set (sorted_list_of_set (delete_packs plan))" for j
    proof -
      from that dec(5) have "j \<in> delete_packs plan" by simp
      from decide_delete [OF plan this] metas(3) have "prefix PACKS_PREFIX j" by blast
      then show ?thesis by (auto simp: TOMBSTONE_KEY_def PACKS_PREFIX_def)
    qed
    with tripleD [OF lease_user.cold_deletes_keep [OF bystander [OF own(2), where v = "Some lob" and t_now = "clock s"] C] _ s7] at7
    show ?thesis by simp
  qed
  have named: "named_since L k (\<lambda>t. t \<le> clock s) s'" if "k \<notin> delete_packs plan"
  proof -
    have "\<exists>t \<le> clock s. map_of (next_cold T (meta_key ` set metas) (clock s) plan) k = Some t"
    proof (cases "map_of T k")
      case None
      with dec(1,4) that have "map_of (next_cold T (meta_key ` set metas) (clock s) plan) k = Some (clock s)" by (simp add: map_of_next_cold)
      then show ?thesis by blast
    next
      case (Some t)
      have "\<not> clock s < t"
      proof
        assume "clock s < t"
        with T(4) [OF Some] Some have "named_since L k (\<lambda>t. clock s < t) s" unfolding named_since_def by blast
        with past show False by contradiction
      qed
      moreover from Some dec(1,2,4) that listed have "map_of (next_cold T (meta_key ` set metas) (clock s) plan) k = Some t"
        by (simp add: map_of_next_cold)
      ultimately show ?thesis by (intro exI [of _ t]) simp
    qed
    moreover have "tombstones_from_bytes L (ob_body lob) = Inr (next_cold T (meta_key ` set metas) (clock s) plan)"
      unfolding lob by (rule tombstones_roundtrip [OF ok next_cold_distinct [OF T(2)]])
    ultimately show ?thesis using kept unfolding named_since_def by blast
  qed
  show "mem_objs s' k = None \<or> named_since L k (\<lambda>t. t \<le> clock s) s'" using gone named by blast
  show "mem_objs s' k = None" if "named_since L k (\<lambda>t. grace < clock s - t) s"
  proof (rule gone)
    from that obtain lob' T' t where "mem_objs s TOMBSTONE_KEY = Some lob'" "tombstones_from_bytes L (ob_body lob') = Inr T'"
      "map_of T' k = Some t" "grace < clock s - t" unfolding named_since_def by blast
    moreover from T(3) [OF this(1,2)] have "T = T'" .
    ultimately show "k \<in> delete_packs plan" by (intro dec(3) [THEN iffD2]) auto
  qed
qed

section \<open>One collection\<close>

text \<open>The pack is gone or as it was; no payload names it; the ledger is as it was.\<close>

definition litter :: "lib \<Rightarrow> key \<Rightarrow> stored \<Rightarrow> int \<Rightarrow> mem \<Rightarrow> bool" where
  "litter L k ob t_now s \<longleftrightarrow> (mem_objs s k = None \<or> mem_objs s k = Some ob) \<and> clock s = t_now \<and> unnamed L k (mem_objs s)"

definition waiting :: "lib \<Rightarrow> key \<Rightarrow> stored \<Rightarrow> int \<Rightarrow> stored option \<Rightarrow> mem \<Rightarrow> bool" where
  "waiting L k ob t_now lob s \<longleftrightarrow> mem_objs s k = Some ob \<and> clock s = t_now \<and> unnamed L k (mem_objs s) \<and> mem_objs s TOMBSTONE_KEY = lob"

lemma litter_calls:
  assumes "prefix PACKS_PREFIX k"
  shows "j \<noteq> k \<Longrightarrow> \<not> prefix PAYLOAD_PREFIX j \<Longrightarrow> mem_write j b s = (r, s') \<Longrightarrow> litter L k ob t s \<Longrightarrow> litter L k ob t s'"
    and "litter L k ob t s \<Longrightarrow> litter L k ob t (s\<lparr>objects := DAList.delete j (objects s)\<rparr>)"
    and "j \<noteq> k \<Longrightarrow> \<not> prefix PAYLOAD_PREFIX j \<Longrightarrow> j \<noteq> TOMBSTONE_KEY \<Longrightarrow> mem_write j b s = (r, s') \<Longrightarrow>
      waiting L k ob t lob s \<Longrightarrow> waiting L k ob t lob s'"
    and "j \<noteq> k \<Longrightarrow> j \<noteq> TOMBSTONE_KEY \<Longrightarrow> waiting L k ob t lob s \<Longrightarrow> waiting L k ob t lob (s\<lparr>objects := DAList.delete j (objects s)\<rparr>)"
  by (auto simp: litter_def waiting_def unnamed_def mem_write_run mem_objs_def DAList.lookup_delete split: if_splits)

lemma pack_not_own:
  assumes "prefix PACKS_PREFIX k"
  shows "LEASE_KEY \<noteq> k" "CLOCK_PROBE_KEY \<noteq> k" "now_probe LEASE_KEY u \<noteq> k" "ROOT_HINT_KEY \<noteq> k" "TOMBSTONE_KEY \<noteq> k"
  using assms by (auto simp: LEASE_KEY_def now_probe_def ROOT_HINT_KEY_def CLOCK_PROBE_KEY_def TOMBSTONE_KEY_def PACKS_PREFIX_def)

lemma own_not_payload [simp]:
  "\<not> prefix PAYLOAD_PREFIX LEASE_KEY" "\<not> prefix PAYLOAD_PREFIX CLOCK_PROBE_KEY" "\<not> prefix PAYLOAD_PREFIX (now_probe LEASE_KEY u)"
  "\<not> prefix PAYLOAD_PREFIX ROOT_HINT_KEY" "\<not> prefix PAYLOAD_PREFIX TOMBSTONE_KEY"
  "LEASE_KEY \<noteq> TOMBSTONE_KEY" "CLOCK_PROBE_KEY \<noteq> TOMBSTONE_KEY" "now_probe LEASE_KEY u \<noteq> TOMBSTONE_KEY" "ROOT_HINT_KEY \<noteq> TOMBSTONE_KEY"
  by (auto simp: LEASE_KEY_def now_probe_def ROOT_HINT_KEY_def CLOCK_PROBE_KEY_def TOMBSTONE_KEY_def PAYLOAD_PREFIX_def)

text \<open>An invariant that the writes and deletes keep is kept by the calls of the in-memory store.\<close>

lemma mem_calls_keep:
  assumes "\<And>b s r s'. free j \<Longrightarrow> I s \<Longrightarrow> mem_write j b s = (r, s') \<Longrightarrow> I s'"
    and "\<And>s. loose j \<Longrightarrow> I s \<Longrightarrow> I (s\<lparr>objects := DAList.delete j (objects s)\<rparr>)"
  shows "free j \<Longrightarrow> triple I (put_if_absent mem_store j b) (\<lambda>_. True)" "free j \<Longrightarrow> triple I (put mem_store j b) (\<lambda>_. True)"
    "free j \<Longrightarrow> triple I (put_if_match mem_store j b t) (\<lambda>_. True)" "loose j \<Longrightarrow> triple I (delete mem_store j) (\<lambda>_. True)"
proof -
  show "triple I (put_if_absent mem_store j b) (\<lambda>_. True)" if "free j"
    by (intro tripleI) (auto simp: mem_store_def mem_put_if_absent_def split: if_splits intro: assms(1) [OF that])
  show "triple I (put mem_store j b) (\<lambda>_. True)" if "free j"
    by (intro tripleI) (auto simp: mem_store_def mem_put_def intro: assms(1) [OF that])
  show "triple I (put_if_match mem_store j b t) (\<lambda>_. True)" if "free j"
    by (intro tripleI) (auto simp: mem_store_def mem_put_if_match_def split: if_splits option.splits intro: assms(1) [OF that])
  show "triple I (delete mem_store j) (\<lambda>_. True)" if "loose j"
    by (intro tripleI) (auto simp: mem_delete_run intro: assms(2) [OF that])
qed

lemma litter_collector:
  assumes "prefix PACKS_PREFIX k"
  shows "collector L mem_store (litter L k ob t_now) (\<lambda>j. j \<noteq> k \<and> \<not> prefix PAYLOAD_PREFIX j) (\<lambda>_. True) retain dry grace
    (\<lambda>_. True) (\<lambda>_. True) (\<lambda>_. True) (\<lambda>_. True)"
proof
  let ?I = "litter L k ob t_now"
  show "triple ?I (resolve_head L mem_store) (\<lambda>(cur, g). True)"
    using guar_eq_triple [OF mem_reader.reader_resolve_head, of ?I L] by (rule triple_weaken) auto
  show "triple ?I (resolve_payloads L mem_store cur keep []) (\<lambda>r. \<forall>items. r = Inr items \<longrightarrow> True)" for cur keep
    by (rule triple_weaken [OF resolve_payloads_keeps [OF mem_reads_keep(1) triple_weaken [OF mem_reads_keep(2)]]]) simp_all
  show "triple ?I (head_meta mem_store j) (\<lambda>m. meta_key m = j \<and> True)" for j
    by (rule triple_weaken [OF mem_reads_keep(2)]) simp
  show "triple ?I (list_meta mem_store p) (\<lambda>ms. \<forall>m \<in> set ms. prefix p (meta_key m) \<and> True)" for p
    by (rule triple_weaken [OF mem_reads_keep(3)]) simp
qed (use litter_calls(1,2) [OF assms] pack_not_own [OF assms] mem_reads_keep in
  \<open>auto intro: mem_calls_keep [where free = "\<lambda>j. j \<noteq> k \<and> \<not> prefix PAYLOAD_PREFIX j" and loose = "\<lambda>_. True"]\<close>)

lemma waiting_sweeper:
  assumes "prefix PACKS_PREFIX k"
  shows "catalog_sweeper mem_store (waiting L k ob t_now lob) (\<lambda>j. j \<noteq> k \<and> \<not> prefix PAYLOAD_PREFIX j \<and> j \<noteq> TOMBSTONE_KEY)
    (\<lambda>j. j \<noteq> k \<and> j \<noteq> TOMBSTONE_KEY) (\<lambda>_. True) retain dry (\<lambda>_. True)"
proof
  let ?I = "waiting L k ob t_now lob"
  show "triple ?I (head_meta mem_store j) (\<lambda>m. meta_key m = j \<and> True)" for j
    by (rule triple_weaken [OF mem_reads_keep(2)]) simp
  show "j \<noteq> k \<and> j \<noteq> TOMBSTONE_KEY" if "generation_of j = Some g" for j g
    using area_exclusive(3) [OF generation_of_payload [OF that]] assms generation_of_payload [OF that] by auto
qed (use litter_calls(3,4) [OF assms] pack_not_own [OF assms] mem_reads_keep in
  \<open>auto intro: mem_calls_keep [where free = "\<lambda>j. j \<noteq> k \<and> \<not> prefix PAYLOAD_PREFIX j \<and> j \<noteq> TOMBSTONE_KEY"
     and loose = "\<lambda>j. j \<noteq> k \<and> j \<noteq> TOMBSTONE_KEY"]\<close>)

lemma collect_cold:
  assumes ok: "lib_ok L" and run: "collect depth J C L mem_store retain False grace unsafe m = (Inr (Some report), m')"
    and k: "prefix PACKS_PREFIX k" "mem_objs m k = Some ob" "grace < clock m - ob_mtime ob" "unnamed L k (mem_objs m)"
    and past: "\<not> named_since L k (\<lambda>t. clock m < t) m"
  shows "mem_objs m' k = None \<or> named_since L k (\<lambda>t. t \<le> clock m) m'"
    and "named_since L k (\<lambda>t. grace < clock m - t) m \<Longrightarrow> mem_objs m' k = None"
proof -
  let ?C = "C\<lparr>lease_key := LEASE_KEY\<rparr>" and ?I = "waiting L k ob (clock m) (mem_objs m TOMBSTONE_KEY)"
  have C: "lease_key ?C = LEASE_KEY" by simp
  note I = waiting_sweeper [OF k(1), of L ob "clock m" "mem_objs m TOMBSTONE_KEY" retain False]
  have user: "lease_user mem_store ?I (\<lambda>j. j \<noteq> k \<and> \<not> prefix PAYLOAD_PREFIX j \<and> j \<noteq> TOMBSTONE_KEY) (\<lambda>j. j \<noteq> k \<and> j \<noteq> TOMBSTONE_KEY) (\<lambda>_. True)"
    using I by (simp add: catalog_sweeper_def)
  from run obtain m1 t1 m2 t2 t' where acq: "lease_acquire depth J ?C mem_store (m, None) = (Inr True, (m1, t1))"
    and locked: "collect_locked J ?C L mem_store retain False grace (m1, t1) = (Inr report, (m2, t2))"
    and rel: "lease_release J ?C mem_store (m2, t2) = (Inr (), (m', t'))"
    by (auto simp: collect_def Let_def io_simps split: if_splits)
  have "?I m1" using tripleD [OF lease_user.acquire_keeps [OF user C] _ acq] k by (simp add: waiting_def)
  from locked obtain d g m2' where head: "resolve_head L mem_store m1 = (Inr (d, g), m2')"
    by (auto simp: collect_locked_def io_simps)
  with guarD [OF mem_reader.reader_resolve_head head] locked obtain ks m3 m4 u gone keep m5 t5 pr where
    list: "list_prefix mem_store PAYLOAD_PREFIX m1 = (Inr ks, m3)" and hint: "write_hint L mem_store g m3 = (Inr u, m4)"
    and sweep: "sweep_catalogs J ?C mem_store d (generation d - retain + 1) False ks [] [] (m4, t1) = (Inr (gone, keep), (m5, t5))"
    and packs: "pack_sweep J ?C L mem_store d keep False grace (m5, t5) = (Inr pr, (m2, t2))"
    by (auto simp: collect_locked_def io_simps split: if_splits)
  have "?I m3" using tripleD [OF mem_reads_keep(4) [where I = ?I] \<open>?I m1\<close> list] by simp
  then have "?I m4" using tripleD [OF catalog_sweeper.hint_keeps [OF I] _ hint] by simp
  then have I5: "?I m5" using tripleD [OF catalog_sweeper.catalogs_keep [OF I C TrueI] _ sweep] by simp
  then have m5: "mem_objs m5 k = Some ob" "clock m5 = clock m" "unnamed L k (mem_objs m5)" "named_since L k P m5 = named_since L k P m" for P
    by (simp_all add: waiting_def named_since_def)
  note cold = pack_sweep_cold [OF ok C packs k(1) m5(1), unfolded m5(2,4), OF k(3) m5(3) past]
  have own: "\<not> own_key k" "\<not> own_key TOMBSTONE_KEY"
    using pack_not_own [OF k(1)] own_not_payload(6-8) unfolding own_key_def by metis+
  have m': "mem_objs m' j = mem_objs m2 j" if "\<not> own_key j" for j
    using tripleD [OF lease_user.release_keeps [OF bystander [OF that, where v = "mem_objs m2 j" and t_now = "clock m2"] C] _ rel] by simp
  have "named_since L k P m' = named_since L k P m2" for P by (simp add: named_since_def m' own)
  with cold m' [OF own(1)] show "mem_objs m' k = None \<or> named_since L k (\<lambda>t. t \<le> clock m) m'"
    "named_since L k (\<lambda>t. grace < clock m - t) m \<Longrightarrow> mem_objs m' k = None" by simp_all
qed

text \<open>
  A pack that is older than the grace and that no payload object names is gone after two wet collections that return a
  report, if the second one starts more than the grace after the first.
\<close>

lemma unnamed_packs_go:
  assumes "lib_ok L" and "prefix PACKS_PREFIX k" and "unnamed L k (mem_objs m)"
    and "\<And>ob. mem_objs m k = Some ob \<Longrightarrow> grace < clock m - ob_mtime ob"
    and past: "\<not> named_since L k (\<lambda>t. clock m < t) m"
    and "collect depth J C L mem_store retain False grace unsafe m = (Inr (Some report), m1)"
    and "grace < int delay"
    and "collect depth' J' C' L mem_store retain' False grace unsafe' (tick_mem delay m1) = (Inr (Some report'), m2)"
  shows "mem_objs m2 k = None"
proof -
  let ?m1 = "tick_mem delay m1"
  have tick: "mem_objs ?m1 = mem_objs m1" "clock ?m1 = clock m1 + int delay" by (simp_all add: tick_mem_def mem_objs_def fun_eq_iff)
  have stays: "gone_key k s' \<and> (\<forall>x. r = Inr x \<longrightarrow> True)" if "gone_key k s" "collect n F E L mem_store keep False grace un s = (r, s')" for n F E keep un s r s'
    using tripleD [OF collector.collect_keeps [OF gone_collector [OF disjI2 [OF assms(2)]]] that] by simp
  have last: "mem_objs m1 k = None \<Longrightarrow> mem_objs m2 k = None"
    using stays [OF _ assms(8)] by (simp add: gone_key_def tick)
  show ?thesis
  proof (cases "mem_objs m k")
    case None
    with stays [OF _ assms(6)] last show ?thesis by (simp add: gone_key_def)
  next
    case (Some ob)
    have "litter L k ob (clock m) m" using Some assms(3) by (simp add: litter_def)
    from tripleD [OF collector.collect_keeps [OF litter_collector [OF assms(2)]] this assms(6)]
    have m1: "mem_objs m1 k = None \<or> mem_objs m1 k = Some ob" "clock m1 = clock m" "unnamed L k (mem_objs m1)"
      by (simp_all add: litter_def)
    from collect_cold(1) [OF assms(1,6,2) Some assms(4) [OF Some] assms(3) past] m1(1)
    consider "mem_objs m1 k = None" | "mem_objs m1 k = Some ob" "named_since L k (\<lambda>t. t \<le> clock m) m1" by auto
    then show ?thesis
    proof cases
      case 2
      then obtain lob T t where row: "mem_objs ?m1 TOMBSTONE_KEY = Some lob" "tombstones_from_bytes L (ob_body lob) = Inr T" "map_of T k = Some t"
        "t \<le> clock m" by (auto simp: named_since_def tick)
      have "named_since L k (\<lambda>t. grace < clock ?m1 - t) ?m1"
        unfolding named_since_def using row m1(2) tick(2) assms(7) by (intro exI [of _ lob] exI [of _ T] exI [of _ t]) simp
      moreover have "\<not> named_since L k (\<lambda>t. clock ?m1 < t) ?m1"
        unfolding named_since_def using row m1(2) tick(2) by auto
      moreover have "grace < clock ?m1 - ob_mtime ob" using assms(4) [OF Some] m1(2) tick(2) by simp
      moreover have "mem_objs ?m1 k = Some ob" "unnamed L k (mem_objs ?m1)" using 2 m1(3) by (simp_all add: tick)
      ultimately show ?thesis using collect_cold(2) [OF assms(1,8,2)] by blast
    qed (rule last)
  qed
qed

end
