(* ===== verification/Collect_Progress.thy ===== *)
theory Collect_Progress
  imports Pack_Cycles Lease_Fleet
begin

text \<open>
  A collection ends with a report: over an orderly in-memory store whose lease is free, no step of a wet collection
  raises. With \<open>Pack_Cycles\<close> it follows that two collections remove the garbage.
\<close>

section \<open>Computations that succeed\<close>

text \<open>\<open>wins I m F\<close>: from a state with the invariant, \<open>m\<close> returns a value that satisfies \<open>F\<close>, and the invariant holds.\<close>

definition wins :: "('s \<Rightarrow> bool) \<Rightarrow> ('s, 'a) io \<Rightarrow> ('a \<Rightarrow> bool) \<Rightarrow> bool" where
  "wins I m F \<longleftrightarrow> (\<forall>s. I s \<longrightarrow> (\<exists>x s'. m s = (Inr x, s') \<and> I s' \<and> F x))"

named_theorems wins_intros "computations that succeed"

lemma winsI: "(\<And>s. I s \<Longrightarrow> \<exists>x s'. m s = (Inr x, s') \<and> I s' \<and> F x) \<Longrightarrow> wins I m F"
  by (simp add: wins_def)

lemma winsE:
  assumes "wins I m F" and "I s"
  obtains x s' where "m s = (Inr x, s')" "I s'" "F x"
  using assms by (auto simp: wins_def)

lemma wins_ret [wins_intros]: "F x \<Longrightarrow> wins I (ret x) F"
  by (simp add: wins_def)

lemma wins_bind: "wins I m F \<Longrightarrow> (\<And>x. F x \<Longrightarrow> wins I (f x) G) \<Longrightarrow> wins I (bind_io m f) G"
  unfolding wins_def by (fastforce simp: bind_io_def)

lemma wins_weaken: "wins I m F \<Longrightarrow> (\<And>x. F x \<Longrightarrow> G x) \<Longrightarrow> wins I m G"
  unfolding wins_def by blast

lemma wins_if [wins_intros]: "(P \<Longrightarrow> wins I m F) \<Longrightarrow> (\<not> P \<Longrightarrow> wins I m' F) \<Longrightarrow> wins I (if P then m else m') F"
  by simp

section \<open>Lakes without loose ends\<close>

text \<open>The packs of the chunked generations from \<open>lo\<close> on.\<close>

definition live_packs :: "lib \<Rightarrow> contents \<Rightarrow> int \<Rightarrow> key set" where
  "live_packs L h lo = \<Union> {pack_keys M | M. \<exists>g d. lo \<le> g \<and> marker_at L h g d \<and> stored_manifest L h d = Some M}"

text \<open>
  The lake is well formed, its newest generation is \<open>d\<close>, whose payload is there. A chunked generation from \<open>lo\<close> on whose
  payload object is there has a readable manifest, and its packs are there.
\<close>

definition sound_lake :: "lib \<Rightarrow> root_doc \<Rightarrow> int \<Rightarrow> contents \<Rightarrow> bool" where
  "sound_lake L d lo h \<longleftrightarrow> lake_ok L h \<and> marker_at L h (generation d) d \<and> generation d < 4116480 \<and>
     (\<forall>g. has_marker h g \<longrightarrow> g \<le> generation d) \<and> h (payload_key_text (generation d) (payload_uuid d)) \<noteq> None \<and>
     (\<forall>g e. lo \<le> g \<longrightarrow> marker_at L h g e \<longrightarrow> transport_of e = Chunked \<longrightarrow> h (payload_key_text g (payload_uuid e)) \<noteq> None \<longrightarrow>
        (\<exists>M. stored_manifest L h e = Some M)) \<and>
     (\<forall>k \<in> live_packs L h lo. h k \<noteq> None)"

text \<open>What a collection must leave alone.\<close>

definition fixed_key :: "lib \<Rightarrow> contents \<Rightarrow> int \<Rightarrow> key \<Rightarrow> bool" where
  "fixed_key L h lo k \<longleftrightarrow> prefix ROOTS_PREFIX k \<or> k \<in> live_packs L h lo \<or>
     (\<exists>g e. lo \<le> g \<and> marker_at L h g e \<and> k = payload_key_text g (payload_uuid e))"

text \<open>A state of a collection that began with the contents \<open>h\<close>.\<close>

definition orderly :: "lib \<Rightarrow> contents \<Rightarrow> int \<Rightarrow> mem \<Rightarrow> bool" where
  "orderly L h lo s \<longleftrightarrow> agrees h (\<lambda>k. \<not> fixed_key L h lo k) s \<and>
     (\<forall>k. prefix PACKS_PREFIX k \<or> prefix PAYLOAD_PREFIX k \<longrightarrow> mem_objs s k \<noteq> None \<longrightarrow> h k \<noteq> None) \<and>
     (\<forall>u. mem_objs s (now_probe LEASE_KEY u) = None)"

definition held :: "mem \<times> string option \<Rightarrow> bool" where
  "held p \<longleftrightarrow> (\<exists>ob. mem_objs (fst p) LEASE_KEY = Some ob \<and> snd p = Some (etag_text (ob_etag ob)))"

abbreviation steady :: "lib \<Rightarrow> contents \<Rightarrow> int \<Rightarrow> mem \<times> string option \<Rightarrow> bool" where
  "steady L h lo p \<equiv> orderly L h lo (fst p) \<and> held p"

text \<open>The objects that a collection writes.\<close>

definition clerk_key :: "key \<Rightarrow> bool" where
  "clerk_key k \<longleftrightarrow> k = LEASE_KEY \<or> k = CLOCK_PROBE_KEY \<or> k = ROOT_HINT_KEY \<or> k = TOMBSTONE_KEY"

lemma live_packs_prefix: "k \<in> live_packs L h lo \<Longrightarrow> prefix PACKS_PREFIX k"
  by (auto simp: live_packs_def pack_keys_def format_pack_key_def)

lemma fixed_areas: "fixed_key L h lo k \<Longrightarrow> prefix ROOTS_PREFIX k \<or> prefix PACKS_PREFIX k \<or> prefix PAYLOAD_PREFIX k"
  unfolding fixed_key_def using live_packs_prefix by (auto simp: payload_key_text_def)

lemma clerk_areas:
  assumes "clerk_key k"
  shows "\<not> prefix ROOTS_PREFIX k" "\<not> prefix PACKS_PREFIX k" "\<not> prefix PAYLOAD_PREFIX k" "now_probe LEASE_KEY u \<noteq> k"
    "\<not> fixed_key L h lo k"
proof -
  have "CLOCK_PROBE_KEY \<noteq> LEASE_KEY" by (simp add: CLOCK_PROBE_KEY_def LEASE_KEY_def)
  show a: "\<not> prefix ROOTS_PREFIX k" "\<not> prefix PACKS_PREFIX k" "\<not> prefix PAYLOAD_PREFIX k"
    using assms by (auto simp: clerk_key_def LEASE_KEY_def CLOCK_PROBE_KEY_def ROOT_HINT_KEY_def TOMBSTONE_KEY_def ROOTS_PREFIX_def
        PACKS_PREFIX_def PAYLOAD_PREFIX_def)
  then show "\<not> fixed_key L h lo k" using fixed_areas by blast
  show "now_probe LEASE_KEY u \<noteq> k"
    using assms by (auto simp: clerk_key_def LEASE_KEY_def CLOCK_PROBE_KEY_def ROOT_HINT_KEY_def TOMBSTONE_KEY_def now_probe_def)
qed

lemma orderly_write: "clerk_key k \<Longrightarrow> orderly L h lo s \<Longrightarrow> mem_write k b s = (r, s') \<Longrightarrow> orderly L h lo s'"
  using clerk_areas [of k] by (auto simp: orderly_def agrees_def mem_write_run mem_objs_def split: if_splits)

lemma orderly_delete: "\<not> fixed_key L h lo k \<Longrightarrow> orderly L h lo s \<Longrightarrow> orderly L h lo (s\<lparr>objects := DAList.delete k (objects s)\<rparr>)"
  by (auto simp: orderly_def agrees_def mem_objs_def DAList.lookup_delete)

lemma orderly_roots:
  assumes "orderly L h lo s"
  shows "has_marker (mem_objs s) g = has_marker h g" "marker_at L (mem_objs s) g d = marker_at L h g d"
    "lake_ok L (mem_objs s) = lake_ok L h"
proof -
  have ag: "agrees h (\<lambda>k. \<not> fixed_key L h lo k) s" using assms by (simp add: orderly_def)
  note * = agrees_roots [OF ag]
  show "has_marker (mem_objs s) g = has_marker h g" "marker_at L (mem_objs s) g d = marker_at L h g d"
    "lake_ok L (mem_objs s) = lake_ok L h" by (rule *; simp add: fixed_key_def)+
qed

section \<open>The lease\<close>

text \<open>The lease is not live for anyone, and its body is readable.\<close>

definition lease_free :: "lease_lib \<Rightarrow> mem \<Rightarrow> bool" where
  "lease_free J s \<longleftrightarrow> (\<forall>ob. mem_objs s LEASE_KEY = Some ob \<longrightarrow>
     (\<exists>h t x. lease_parse J (ob_body ob) = Inr (h, t, x) \<and> \<not> pf_positive (pf_diff t (total_seconds (clock s - ob_mtime ob)))))"

lemma lease_observe_restores:
  assumes ob: "mem_objs m (lease_key C) = Some ob" and parse: "lease_parse J (ob_body ob) = Inr (h, t, x)"
    and absent: "mem_objs m (now_probe (lease_key C) (fresh C m)) = None"
  obtains obs m' where "lease_observe J C mem_store m = (Inr obs, m')" "mem_objs m' = mem_objs m"
proof -
  let ?p = "now_probe (lease_key C) (fresh C m)"
  obtain e m1 where w: "mem_write ?p ''t'' m = (Inr e, m1)" using mem_write_run by blast
  let ?m = "m1\<lparr>objects := DAList.delete ?p (objects m1)\<rparr>"
  from mem_write_present [OF w] have "get mem_store ?p m1 =
      (Inr \<lparr>body = ''t'', etag = e, last_modified = Some (clock m)\<rparr>, m1)" by (simp add: mem_get_present)
  then have "finally_io (bind_io (get mem_store ?p) (\<lambda>p. ret (last_modified p))) (delete mem_store ?p) m1 = (Inr (Some (clock m)), ?m)"
    by (intro finally_run [where s' = m1]) (simp_all add: mem_delete_run)
  moreover from mem_write_present [OF w] absent have "mem_objs ?m = mem_objs m"
    by (auto simp: mem_objs_def DAList.lookup_delete fun_eq_iff)
  ultimately show thesis
    using parse absent w that by (auto simp: lease_observe_def mem_get_present [OF ob] mem_store_put mem_put_if_absent_run Let_def)
qed

lemma acquire_wins:
  assumes C: "lease_key C = LEASE_KEY" and n: "0 < n" and I: "orderly L h lo s" and free: "lease_free J s"
  obtains p where "lease_acquire n J C mem_store (s, t) = (Inr True, p)" "steady L h lo p"
proof -
  from n obtain i where n: "n = Suc i" by (cases n) auto
  have clerk: "clerk_key LEASE_KEY" by (simp add: clerk_key_def)
  show thesis
  proof (cases "mem_objs s LEASE_KEY")
    case None
    obtain e s1 where w: "mem_write LEASE_KEY (dumps J (lease_doc (holder_id C) (lease_ttl C) (pf_add (wall_clock C s) (lease_ttl C)))) s = (Inr e, s1)"
      using mem_write_run by blast
    with None n C have "lease_acquire n J C mem_store (s, t) = (Inr True, (s1, Some e))"
      by (simp add: mem_store_put mem_put_if_absent_run)
    moreover have "orderly L h lo s1" "held (s1, Some e)"
      using orderly_write [OF clerk I w] mem_write_present [OF w] by (simp_all add: held_def)
    ultimately show thesis using that [of "(s1, Some e)"] by simp
  next
    case (Some ob)
    with free obtain holder ttl x where parse: "lease_parse J (ob_body ob) = Inr (holder, ttl, x)"
      "\<not> pf_positive (pf_diff ttl (total_seconds (clock s - ob_mtime ob)))" by (auto simp: lease_free_def)
    from I have absent: "mem_objs s (now_probe (lease_key C) (fresh C s)) = None" by (simp add: orderly_def C)
    obtain obs s1 where o: "lease_observe J C mem_store s = (Inr obs, s1)" "mem_objs s1 = mem_objs s"
      by (rule lease_observe_restores [OF Some [folded C] parse(1) absent])
    from lease_observe_mem [OF o(1) Some [folded C]] parse(1) have obs:
      "obs = Some \<lparr>ob_holder = holder, seconds_left = pf_diff ttl (total_seconds (clock s - ob_mtime ob)), ob_tag = etag_text (ob_etag ob)\<rparr>"
      by auto
    obtain e s2 where w: "mem_write LEASE_KEY (dumps J (lease_doc (holder_id C) (lease_ttl C) (pf_add (wall_clock C s1) (lease_ttl C)))) s1 = (Inr e, s2)"
      using mem_write_run by blast
    with Some n C o obs parse(2) have "lease_acquire n J C mem_store (s, t) = (Inr True, (s2, Some e))"
      by (simp add: mem_store_put mem_put_if_absent_run mem_put_if_match_run classify_lease_def)
    moreover have "orderly L h lo s1" using I o(2) by (simp add: orderly_def agrees_def)
    with orderly_write [OF clerk _ w] mem_write_present [OF w] have "orderly L h lo s2" "held (s2, Some e)"
      by (simp_all add: held_def)
    ultimately show thesis using that [of "(s2, Some e)"] by simp
  qed
qed

lemma steady_write: "clerk_key k \<Longrightarrow> k \<noteq> LEASE_KEY \<Longrightarrow> steady L h lo (s, t) \<Longrightarrow> mem_write k b s = (r, s') \<Longrightarrow> steady L h lo (s', t)"
  using orderly_write [of k L h lo s b r s'] by (simp add: held_def mem_write_run) (auto simp: mem_objs_def)

lemma steady_delete: "\<not> fixed_key L h lo k \<Longrightarrow> k \<noteq> LEASE_KEY \<Longrightarrow> steady L h lo (s, t) \<Longrightarrow>
    steady L h lo (s\<lparr>objects := DAList.delete k (objects s)\<rparr>, t)"
  using orderly_delete [of L h lo k s] by (auto simp: held_def mem_objs_def DAList.lookup_delete)

lemma held_cases:
  assumes "held p"
  obtains s ob where "p = (s, Some (etag_text (ob_etag ob)))" "mem_objs s LEASE_KEY = Some ob"
  using assms by (cases p) (auto simp: held_def)

lemma renew_wins:
  assumes C: "lease_key C = LEASE_KEY"
  shows "wins (steady L h lo) (lease_renew J C mem_store) (\<lambda>ok. ok)"
proof (rule winsI)
  fix p
  assume I: "steady L h lo p"
  then obtain s ob where p: "p = (s, Some (etag_text (ob_etag ob)))" "mem_objs s LEASE_KEY = Some ob" by (blast elim: held_cases)
  obtain e s1 where w: "mem_write LEASE_KEY (dumps J (lease_doc (holder_id C) (lease_ttl C) (pf_add (wall_clock C s) (lease_ttl C)))) s = (Inr e, s1)"
    using mem_write_run by blast
  have "lease_renew J C mem_store p = (Inr True, (s1, Some e))"
    using p C w by (simp add: lease_renew_def mem_store_put mem_put_if_match_run)
  moreover have "steady L h lo (s1, Some e)"
    using orderly_write [of LEASE_KEY L h lo s, OF _ _ w] I p(1) mem_write_present [OF w] by (simp add: held_def clerk_key_def)
  ultimately show "\<exists>ok q. lease_renew J C mem_store p = (Inr ok, q) \<and> steady L h lo q \<and> ok" by blast
qed

lemma renew_after_wins: "lease_key C = LEASE_KEY \<Longrightarrow> wins (steady L h lo) (renew_after J C mem_store n) (\<lambda>_. True)"
  unfolding renew_after_def by (auto intro!: wins_intros wins_bind [OF renew_wins])

lemma release_wins:
  assumes C: "lease_key C = LEASE_KEY" and J: "lease_lib_ok J" and I: "steady L h lo p"
  obtains q where "lease_release J C mem_store p = (Inr (), q)" "orderly L h lo (fst q)" "lease_free J (fst q)"
proof -
  from I obtain s ob where p: "p = (s, Some (etag_text (ob_etag ob)))" "mem_objs s LEASE_KEY = Some ob" by (blast elim: held_cases)
  obtain e s1 where w: "mem_write LEASE_KEY (dumps J (lease_doc (holder_id C) (Finite 0) (pf_add (wall_clock C s) (Finite 0)))) s = (Inr e, s1)"
    using mem_write_run by blast
  have "lease_release J C mem_store p = (Inr (), (s1, None))"
    using p C w by (simp add: lease_release_def mem_store_put mem_put_if_match_run)
  moreover have "orderly L h lo s1" using orderly_write [of LEASE_KEY L h lo s, OF _ _ w] I p(1) by (simp add: clerk_key_def)
  moreover have "lease_free J s1"
    using mem_write_present [OF w] J by (auto simp: lease_free_def total_seconds_def pf_positive_def)
  ultimately show thesis using that [of "(s1, None)"] by simp
qed

section \<open>The sweeps\<close>

lemma hint_wins: "wins (steady L h lo) (on_world (write_hint L mem_store g)) (\<lambda>_. True)"
proof (rule winsI)
  fix p
  assume I: "steady L h lo p"
  obtain e s1 where w: "mem_write ROOT_HINT_KEY (hint_to_json_bytes L g) (fst p) = (Inr e, s1)" using mem_write_run by blast
  have "steady L h lo (s1, snd p)"
    by (rule steady_write [OF _ _ _ w]) (use I in \<open>simp_all add: clerk_key_def ROOT_HINT_KEY_def LEASE_KEY_def\<close>)
  with w show "\<exists>x q. on_world (write_hint L mem_store g) p = (Inr x, q) \<and> steady L h lo q \<and> True"
    by (cases p) (auto simp: write_hint_def mem_store_def mem_put_def)
qed

lemma delete_wins:
  assumes "\<not> fixed_key L h lo k" and "k \<noteq> LEASE_KEY"
  shows "wins (steady L h lo) (on_world (delete mem_store k)) (\<lambda>_. True)"
proof (rule winsI)
  fix p
  assume "steady L h lo p"
  then have "steady L h lo (fst p, snd p)" by simp
  from steady_delete [OF assms this] show "\<exists>x q. on_world (delete mem_store k) p = (Inr x, q) \<and> steady L h lo q \<and> True"
    by (intro exI [of _ "()"] exI [of _ "((fst p)\<lparr>objects := DAList.delete k (objects (fst p))\<rparr>, snd p)"])
       (simp add: on_world_iff mem_delete_run)
qed

text \<open>The keys of payloads with their generation.\<close>

lemma retained_generation:
  assumes "marker_at L h g e"
  shows "generation_of (payload_key_text g (payload_uuid e)) = Some g"
  using generation_of_key marker_at_generation [OF assms] by blast

lemma expired_not_fixed: "generation_of k = Some g \<Longrightarrow> g < lo \<Longrightarrow> \<not> fixed_key L h lo k \<and> k \<noteq> LEASE_KEY"
proof -
  assume k: "generation_of k = Some g" "g < lo"
  note pre = generation_of_payload [OF k(1)]
  have "k \<notin> live_packs L h lo" using live_packs_prefix area_exclusive(3) [OF pre] by blast
  moreover have "k \<noteq> payload_key_text i (payload_uuid e)" if "lo \<le> i" "marker_at L h i e" for i e
    using retained_generation [OF that(2)] that(1) k by auto
  ultimately show ?thesis using pre area_exclusive(1) [OF pre] own_not_payload(1) unfolding fixed_key_def by blast
qed

lemma catalogs_win:
  assumes C: "lease_key C = LEASE_KEY" and pk: "payload_key cur = Inr pk" "generation_of pk = Some g" "lo \<le> g"
  shows "wins (steady L h lo) (sweep_catalogs J C mem_store cur lo False ks gone keep)
    (\<lambda>(gone', keep'). set keep' = set keep \<union> {x \<in> set ks. \<forall>g. generation_of x = Some g \<longrightarrow> lo \<le> g})"
proof (induction ks arbitrary: gone keep)
  case Nil
  show ?case by (simp only: sweep_catalogs.simps) (rule wins_ret, simp)
next
  case (Cons k ks)
  let ?F = "\<lambda>(gone', keep'). set keep' = set keep \<union> {x \<in> set (k # ks). \<forall>g. generation_of x = Some g \<longrightarrow> lo \<le> g}"
  have keep: "wins (steady L h lo) (sweep_catalogs J C mem_store cur lo False ks gone (keep @ [k])) ?F"
    if "\<forall>g. generation_of k = Some g \<longrightarrow> lo \<le> g"
    by (rule wins_weaken [OF Cons]) (use that in auto)
  have drop: "wins (steady L h lo) (sweep_catalogs J C mem_store cur lo False ks (gone @ [k]) keep) ?F"
    if "generation_of k = Some i" "i < lo" for i
    by (rule wins_weaken [OF Cons]) (use that in auto)
  show ?case
  proof (cases "generation_of k")
    case None
    then show ?thesis using keep by simp
  next
    case (Some i)
    have name: "wins (steady L h lo) (names_key (Some cur) k) (\<lambda>b. b = (pk = k))" by (simp add: wins_def names_key_def pk(1))
    show ?thesis
      unfolding sweep_catalogs.simps Some option.case
    proof (rule wins_bind [OF name], goal_cases)
      case (1 b)
      then show ?case
        using keep pk Some expired_not_fixed [OF Some, of lo L h] drop [OF Some]
        by (intro wins_if) (auto intro!: wins_bind [OF delete_wins] wins_bind [OF renew_after_wins [OF C]])
    qed
  qed
qed

lemma cold_deletes_win:
  assumes C: "lease_key C = LEASE_KEY" and "\<And>k. k \<in> set ks \<Longrightarrow> \<not> fixed_key L h lo k \<and> k \<noteq> LEASE_KEY"
  shows "wins (steady L h lo) (delete_each_cold J C mem_store t grace ks gone) (\<lambda>_. True)"
  using assms(2)
proof (induction ks arbitrary: gone)
  case Nil
  show ?case by (simp only: delete_each_cold.simps) (rule wins_ret, simp)
next
  case (Cons k ks)
  have head: "wins (steady L h lo) (try_io (on_world (head_meta mem_store k))) (\<lambda>r. \<forall>e. r = Inl e \<longrightarrow> e = ObjectNotFoundError)"
    by (rule winsI) (auto simp: try_io_def on_world_def mem_store_def mem_head_meta_def split: option.splits prod.splits)
  have rest: "wins (steady L h lo) (delete_each_cold J C mem_store t grace ks gone') (\<lambda>_. True)" for gone'
    by (rule Cons.IH) (use Cons.prems in simp)
  show ?case
    unfolding delete_each_cold.simps
  proof (rule wins_bind [OF head], goal_cases)
    case (1 r)
    show ?case
    proof (cases r)
      case (Inl e)
      with 1 rest show ?thesis by simp
    next
      case (Inr m)
      then show ?thesis
        unfolding Inr sum.case
        by (intro wins_if rest wins_bind [OF delete_wins] wins_bind [OF renew_after_wins [OF C]]) (use Cons.prems in auto)
    qed
  qed
qed

section \<open>Resolving\<close>

lemma committed_refs_snoc [simp]:
  "committed_refs (items @ [CommittedWhole e]) = committed_refs items"
  "committed_refs (items @ [CommittedChunked e M]) = committed_refs items \<union> pack_keys M"
  "committed_refs (items @ [OrphanManifest k M]) = committed_refs items"
  "committed_refs (items @ [OrphanOpaque k]) = committed_refs items"
  by (auto simp: committed_refs_def)

lemma sound_manifest:
  "sound_lake L d lo h \<Longrightarrow> lo \<le> g \<Longrightarrow> marker_at L h g e \<Longrightarrow> transport_of e = Chunked \<Longrightarrow> h (payload_key_text g (payload_uuid e)) \<noteq> None \<Longrightarrow>
     \<exists>M. stored_manifest L h e = Some M"
  unfolding sound_lake_def by blast

lemma marker_for_run:
  assumes sound: "sound_lake L d lo h" and I: "orderly L h lo s" and g: "valid_generation g"
  obtains doc where "marker_for L mem_store d g s = (Inr doc, s)" "\<forall>e. doc = Some e \<longrightarrow> marker_at L h g e"
    "doc = None \<longrightarrow> \<not> has_marker h g"
proof (cases "g = generation d")
  case True
  with sound show thesis by (intro that [of "Some d"]) (auto simp: marker_for_def sound_lake_def)
next
  case False
  show thesis
  proof (cases "has_marker h g")
    case True
    with sound obtain e where e: "marker_at L h g e" by (auto simp: sound_lake_def lake_ok_def)
    with orderly_roots(2) [OF I] have "read_marker L mem_store g s = (Inr e, s)" by (intro read_marker_mem) simp
    with False e show thesis by (intro that [of "Some e"]) (auto simp: marker_for_def io_simps)
  next
    case no: False
    then have "\<not> has_marker (mem_objs s) g" by (simp add: orderly_roots(1) [OF I])
    with g have "mem_objs s (marker_key_text g) = None" by (simp add: has_marker_def)
    with g have "read_marker L mem_store g s = (Inl ObjectNotFoundError, s)"
      by (simp add: read_marker_def mem_get_missing)
    with False no show thesis by (intro that [of None]) (auto simp: marker_for_def io_simps)
  qed
qed

lemma orphan_run:
  obtains orphan where "resolve_orphan L mem_store k s = (Inr orphan, s)"
    "\<forall>i. orphan = Some i \<longrightarrow> (\<exists>M. i = OrphanManifest k M) \<or> i = OrphanOpaque k"
proof (cases "mem_objs s k")
  case None
  then show thesis by (intro that [of None]) (auto simp: resolve_orphan_def io_simps mem_store_def mem_head_meta_def mem_objs_def)
next
  case (Some ob)
  let ?b = "if length (ob_body ob) \<le> MAX_MANIFEST_BYTES then Some (ob_body ob) else None"
  have "resolve_orphan L mem_store k s = (Inr (Some (case (case ?b of None \<Rightarrow> None | Some data \<Rightarrow> sniff_manifest L data) of
      Some M \<Rightarrow> OrphanManifest k M | None \<Rightarrow> OrphanOpaque k)), s)"
    by (simp add: resolve_orphan_def bind_io_def try_io_def mem_head_meta_run [OF Some] mem_get_run [OF Some] split: option.split)
  then show thesis by (rule that) (auto split: option.splits)
qed

lemma resolve_run:
  assumes sound: "sound_lake L d lo h" and I: "orderly L h lo s"
  shows "\<forall>k \<in> set ks. h k \<noteq> None \<and> (\<forall>g. generation_of k = Some g \<longrightarrow> lo \<le> g) \<Longrightarrow>
    \<exists>items'. resolve_payloads L mem_store d ks items s = (Inr (Inr items'), s) \<and>
      committed_refs items \<subseteq> committed_refs items' \<and> committed_refs items' \<subseteq> committed_refs items \<union> live_packs L h lo \<and>
      (\<forall>g e M. lo \<le> g \<longrightarrow> marker_at L h g e \<longrightarrow> stored_manifest L h e = Some M \<longrightarrow> payload_key_text g (payload_uuid e) \<in> set ks \<longrightarrow>
         pack_keys M \<subseteq> committed_refs items')"
proof (induction ks arbitrary: items)
  case (Cons k ks)
  have rest: "\<forall>k \<in> set ks. h k \<noteq> None \<and> (\<forall>g. generation_of k = Some g \<longrightarrow> lo \<le> g)" using Cons.prems by simp
  let ?R = "\<lambda>items'. committed_refs items \<subseteq> committed_refs items' \<and> committed_refs items' \<subseteq> committed_refs items \<union> live_packs L h lo \<and>
      (\<forall>g e M. lo \<le> g \<longrightarrow> marker_at L h g e \<longrightarrow> stored_manifest L h e = Some M \<longrightarrow> payload_key_text g (payload_uuid e) \<in> set (k # ks) \<longrightarrow>
         pack_keys M \<subseteq> committed_refs items')"
  have go: "\<exists>items''. resolve_payloads L mem_store d ks items' s = (Inr (Inr items''), s) \<and> ?R items''"
    if "committed_refs items \<subseteq> committed_refs items'" "committed_refs items' \<subseteq> committed_refs items \<union> live_packs L h lo"
      "\<And>g e M. marker_at L h g e \<Longrightarrow> stored_manifest L h e = Some M \<Longrightarrow> payload_key_text g (payload_uuid e) = k \<Longrightarrow> pack_keys M \<subseteq> committed_refs items'"
    for items'
  proof -
    from Cons.IH [OF rest, of items'] obtain items'' where run: "resolve_payloads L mem_store d ks items' s = (Inr (Inr items''), s)"
      and up: "committed_refs items' \<subseteq> committed_refs items''" "committed_refs items'' \<subseteq> committed_refs items' \<union> live_packs L h lo"
      and all: "\<And>g e M. lo \<le> g \<Longrightarrow> marker_at L h g e \<Longrightarrow> stored_manifest L h e = Some M \<Longrightarrow> payload_key_text g (payload_uuid e) \<in> set ks \<Longrightarrow>
         pack_keys M \<subseteq> committed_refs items''" by blast
    have "?R items''"
    proof (intro conjI allI impI)
      show "committed_refs items \<subseteq> committed_refs items''" using that(1) up(1) by blast
      show "committed_refs items'' \<subseteq> committed_refs items \<union> live_packs L h lo" using that(2) up(2) by blast
    next
      fix g e M
      assume "lo \<le> g" "marker_at L h g e" "stored_manifest L h e = Some M" "payload_key_text g (payload_uuid e) \<in> set (k # ks)"
      note row = this
      show "pack_keys M \<subseteq> committed_refs items''"
      proof (cases "payload_key_text g (payload_uuid e) = k")
        case True
        from subset_trans [OF that(3) [OF row(2,3) True] up(1)] show ?thesis .
      next
        case False
        with row(4) show ?thesis by (intro all [OF row(1-3)]) simp
      qed
    qed
    with run show ?thesis by blast
  qed
  show ?case
  proof (cases "generation_of k")
    case None
    with go [of items] retained_generation show ?thesis by force
  next
    case (Some g)
    then have g: "valid_generation g" "lo \<le> g" "h k \<noteq> None"
      using Cons.prems parse_payload_key_Inr by (auto simp: generation_of_def split: sum.splits)
    obtain doc where doc: "marker_for L mem_store d g s = (Inr doc, s)" "\<forall>e. doc = Some e \<longrightarrow> marker_at L h g e"
      "doc = None \<longrightarrow> \<not> has_marker h g" by (rule marker_for_run [OF sound I g(1)])
    note doc = doc(1) doc(2) [rule_format] doc(3) [rule_format]
    have same: "e = e'" "i = g" if "marker_at L h i e'" "payload_key_text i (payload_uuid e') = k" "doc = Some e" for i e e'
      using that doc(2) [OF that(3)] retained_generation [OF that(1)] Some marker_at_unique by fastforce+
    have absent: False if "marker_at L h i e'" "payload_key_text i (payload_uuid e') = k" "doc = None" for i e'
      using that doc(3) retained_generation [OF that(1)] Some marker_at_has [OF that(1)] by auto
    show ?thesis
    proof (cases "\<exists>e. doc = Some e \<and> payload_key_text g (payload_uuid e) = k")
      case True
      then obtain e where e: "doc = Some e" "payload_key_text g (payload_uuid e) = k" by blast
      have m: "marker_at L h g e" "generation e = g" using doc(2) [OF e(1)] marker_at_generation by blast+
      have named: "names_key doc k s = (Inr True, s)" using e m g by (simp add: names_key_def payload_key_def)
      show ?thesis
      proof (cases "transport_of e")
        case Whole
        then have "stored_manifest L h e' \<noteq> Some M" if "marker_at L h i e'" "payload_key_text i (payload_uuid e') = k" for i e' M
          using same(1) [OF that e(1)] by (auto simp: stored_manifest_def)
        with go [of "items @ [CommittedWhole e]"] show ?thesis
          using Some doc(1) named e(1) Whole by (fastforce simp: bind_io_def)
      next
        case Chunked
        with sound_manifest [OF sound g(2) m(1)] g(3) e(2) obtain M where M: "stored_manifest L h e = Some M" by blast
        have "fixed_key L h lo k" using g m e unfolding fixed_key_def by blast
        with I have "mem_objs s k = h k" by (simp add: orderly_def agrees_def)
        with load_committed_mem [OF M, of s] e m have load: "load_committed_manifest L mem_store k s = (Inr M, s)" by simp
        have live: "pack_keys M \<subseteq> live_packs L h lo" using M m g unfolding live_packs_def by blast
        have "M' = M" if "marker_at L h i e'" "stored_manifest L h e' = Some M'" "payload_key_text i (payload_uuid e') = k" for i e' M'
          using same(1) [OF that(1,3) e(1)] that(2) M by simp
        then have "\<exists>items''. resolve_payloads L mem_store d ks (items @ [CommittedChunked e M]) s = (Inr (Inr items''), s) \<and> ?R items''"
          using live by (intro go) auto
        then show ?thesis using Some doc(1) named e(1) Chunked load by (simp add: bind_io_def try_io_def)
      qed
    next
      case False
      have none: False if "marker_at L h i e'" "payload_key_text i (payload_uuid e') = k" for i e'
        using False absent [OF that] same [OF that] that by (cases doc) auto
      have named: "names_key doc k s = (Inr False, s)"
        using False doc(2) g by (cases doc) (auto simp: names_key_def payload_key_def dest: marker_at_generation)
      obtain orphan where o: "resolve_orphan L mem_store k s = (Inr orphan, s)"
        "\<forall>i. orphan = Some i \<longrightarrow> (\<exists>M. i = OrphanManifest k M) \<or> i = OrphanOpaque k" by (rule orphan_run)
      have "committed_refs (items @ [i]) = committed_refs items" if "orphan = Some i" for i using o(2) that by auto
      then have "\<exists>items''. resolve_payloads L mem_store d ks (case orphan of None \<Rightarrow> items | Some i \<Rightarrow> items @ [i]) s = (Inr (Inr items''), s) \<and> ?R items''"
        using none by (intro go) (auto split: option.splits)
      then show ?thesis using Some doc(1) named o(1) by (simp add: bind_io_def split: option.splits)
    qed
  qed
qed simp

section \<open>The pack sweep\<close>

definition ledger_matches :: "ledger_ref \<Rightarrow> mem \<Rightarrow> bool" where
  "ledger_matches ref s \<longleftrightarrow> (case ref of
     LedgerAbsent \<Rightarrow> mem_objs s TOMBSTONE_KEY = None
   | LedgerCorrupt \<Rightarrow> True
   | LedgerAt tag \<Rightarrow> (\<exists>ob. mem_objs s TOMBSTONE_KEY = Some ob \<and> etag_text (ob_etag ob) = tag))"

lemma tombstones_error: "tombstones_from_bytes L b = Inl e \<Longrightarrow> e = InputValidationError"
  by (simp add: tombstones_from_bytes_def split: option.splits)

lemma load_run:
  obtains T ref where "load_tombstones L mem_store s = (Inr (T, ref), s)" "ledger_matches ref s"
proof -
  have "\<exists>T ref. load_tombstones L mem_store s = (Inr (T, ref), s) \<and> ledger_matches ref s"
    by (auto simp: load_tombstones_mem ledger_matches_def split: option.split sum.split dest!: tombstones_error)
  then show thesis using that by blast
qed

lemma commit_run:
  assumes "ledger_matches ref s"
  obtains x s' where "commit_tombstones L mem_store T ref s = (Inr (), s')" "mem_write TOMBSTONE_KEY (tombstones_to_bytes L T) s = (Inr x, s')"
proof -
  obtain x s' where w: "mem_write TOMBSTONE_KEY (tombstones_to_bytes L T) s = (Inr x, s')" using mem_write_run by blast
  have "commit_tombstones L mem_store T ref s = (Inr (), s')"
    using assms w by (cases ref) (auto simp: ledger_matches_def commit_tombstones_def Let_def bind_io_def try_io_def mem_store_put
        mem_put_if_absent_run mem_put_if_match_run mem_store_def mem_put_def)
  then show thesis using w by (rule that)
qed

lemma now_wins: "wins (steady L h lo) (on_world (store_now mem_store)) (\<lambda>_. True)"
proof (rule winsI)
  fix p
  assume I: "steady L h lo p"
  obtain e s1 where w: "mem_write CLOCK_PROBE_KEY ''t'' (fst p) = (Inr e, s1)" using mem_write_run by blast
  have "steady L h lo (s1, snd p)"
    by (rule steady_write [OF _ _ _ w]) (use I in \<open>simp_all add: clerk_key_def CLOCK_PROBE_KEY_def LEASE_KEY_def\<close>)
  with w show "\<exists>x q. on_world (store_now mem_store) p = (Inr x, q) \<and> steady L h lo q \<and> True"
    by (cases p) (simp add: on_world_def mem_store_now)
qed

lemma execute_run:
  assumes C: "lease_key C = LEASE_KEY" and I: "steady L h lo p" and led: "ledger_matches ref (fst p)"
    and del: "finite (delete_packs plan)" "\<And>k. k \<in> delete_packs plan \<Longrightarrow> \<not> fixed_key L h lo k \<and> k \<noteq> LEASE_KEY"
  obtains pr q where "execute_sweep J C L mem_store False grace metas T ref t_now plan p = (Inr pr, q)" "steady L h lo q"
proof -
  obtain ok p1 where ren: "lease_renew J C mem_store p = (Inr ok, p1)" "steady L h lo p1" "ok" by (rule winsE [OF renew_wins [OF C] I])
  have "\<not> own_key TOMBSTONE_KEY" using own_not_payload(6-8) unfolding own_key_def by metis
  from tripleD [OF lease_user.renew_keeps [OF bystander [OF this, where v = "mem_objs (fst p) TOMBSTONE_KEY" and t_now = "clock (fst p)"] C] _ ren(1)]
  have "mem_objs (fst p1) TOMBSTONE_KEY = mem_objs (fst p) TOMBSTONE_KEY" by simp
  with led have "ledger_matches ref (fst p1)" unfolding ledger_matches_def by (simp split: ledger_ref.splits)
  from commit_run [OF this] obtain x s2 where
    com: "commit_tombstones L mem_store (next_cold T (meta_key ` set metas) t_now plan) ref (fst p1) = (Inr (), s2)"
    and w: "mem_write TOMBSTONE_KEY (tombstones_to_bytes L (next_cold T (meta_key ` set metas) t_now plan)) (fst p1) = (Inr x, s2)"
    by metis
  have st: "steady L h lo (s2, snd p1)"
    by (rule steady_write [OF _ _ _ w]) (use ren(2) in \<open>simp_all add: clerk_key_def TOMBSTONE_KEY_def LEASE_KEY_def\<close>)
  have "wins (steady L h lo) (delete_cold_packs J C mem_store (sorted_list_of_set (delete_packs plan)) grace) (\<lambda>_. True)"
    unfolding delete_cold_packs_def using del by (intro wins_bind [OF now_wins] cold_deletes_win [OF C]) simp
  from this st obtain gone q where
    "delete_cold_packs J C mem_store (sorted_list_of_set (delete_packs plan)) grace (s2, snd p1) = (Inr gone, q)" "steady L h lo q" "True"
    by (rule winsE)
  with ren com show thesis
    by (intro that [of _ q]) (auto simp: execute_sweep_def Let_def bind_io_def on_world_def split: prod.splits)
qed

text \<open>With fewer packs than the circuit breaker looks at, and none missing, the decision never refuses.\<close>

lemma decides:
  assumes "committed_refs items \<subseteq> meta_key ` set metas" and "card (meta_key ` set metas) < BREAKER_MIN"
  obtains plan where "decide_pack_sweep items metas T t_now grace fraction = SweepActions plan"
proof -
  have "distinct (map fst (fold (\<lambda>m. AList.update (meta_key m) m) ms acc))" if "distinct (map fst acc)" for ms and acc :: "(key \<times> object_meta) list"
    using that by (induction ms arbitrary: acc) (auto intro: distinct_update)
  then have "distinct (map fst (listed_dict metas))" by (simp add: listed_dict_def)
  from distinct_card [OF this] have "length (listed_dict metas) = card (meta_key ` set metas)" by (simp add: listed_keys)
  moreover have "committed_refs items - meta_key ` set metas = {}" using assms(1) by blast
  moreover obtain tomb res del where "fold (sweep_step (\<Union>item \<in> set items. item_marks item) T t_now grace) (listed_dict metas) ({}, {}, {}) =
      (tomb, res, del)" by (metis prod_cases3)
  ultimately show thesis
    using assms(2) by (intro that) (simp add: decide_pack_sweep_def listed_keys)
qed

lemma spared_by_plan:
  assumes "decide_pack_sweep items metas T t_now grace fraction = SweepActions plan" and "k \<in> delete_packs plan"
  shows "k \<notin> committed_refs items" "k \<in> meta_key ` set metas"
proof -
  from decide_delete [OF assms] obtain m where m: "m \<in> set metas" "meta_key m = k" "cold items t_now grace m" by blast
  then show "k \<in> meta_key ` set metas" by blast
  have "committed_refs items \<subseteq> (\<Union>i \<in> set items. item_marks i)"
    unfolding committed_refs_def item_marks_def by (fastforce split: resolved_payload.splits)
  then show "k \<notin> committed_refs items" using m by (auto simp: cold_def)
qed

text \<open>The packs there are, few enough for the circuit breaker to stay out of the way.\<close>

definition packs_at :: "contents \<Rightarrow> key set" where
  "packs_at h = {k. prefix PACKS_PREFIX k \<and> h k \<noteq> None}"

definition few_packs :: "contents \<Rightarrow> bool" where
  "few_packs h \<longleftrightarrow> finite (packs_at h) \<and> card (packs_at h) < BREAKER_MIN"

lemma orderly_packs:
  assumes "sound_lake L d lo h" and "orderly L h lo s"
  shows "packs_at (mem_objs s) \<subseteq> packs_at h" "live_packs L h lo \<subseteq> packs_at (mem_objs s)"
proof -
  show "packs_at (mem_objs s) \<subseteq> packs_at h" using assms(2) unfolding orderly_def packs_at_def by blast
  have "mem_objs s k = h k \<and> h k \<noteq> None \<and> prefix PACKS_PREFIX k" if "k \<in> live_packs L h lo" for k
    using that assms live_packs_prefix [OF that] unfolding orderly_def agrees_def fixed_key_def sound_lake_def by blast
  then show "live_packs L h lo \<subseteq> packs_at (mem_objs s)" unfolding packs_at_def by force
qed

lemma pack_sweep_run:
  assumes C: "lease_key C = LEASE_KEY" and sound: "sound_lake L d lo h" and few: "few_packs h" and I: "steady L h lo p"
    and keep: "\<forall>k \<in> set keep. h k \<noteq> None \<and> (\<forall>g. generation_of k = Some g \<longrightarrow> lo \<le> g)"
    and all: "\<And>g e. lo \<le> g \<Longrightarrow> marker_at L h g e \<Longrightarrow> h (payload_key_text g (payload_uuid e)) \<noteq> None \<Longrightarrow> payload_key_text g (payload_uuid e) \<in> set keep"
  obtains pr q where "pack_sweep J C L mem_store d keep False grace p = (Inr pr, q)" "steady L h lo q"
proof -
  obtain s t where p: "p = (s, t)" by (cases p)
  with I have O: "orderly L h lo s" by simp
  obtain ms where metas: "list_meta mem_store PACKS_PREFIX s = (Inr ms, s)" by (simp add: mem_store_def mem_list_meta_def)
  then have keys: "meta_key ` set ms = packs_at (mem_objs s)"
    using mem_metas_answer [of PACKS_PREFIX s "Inr ms" s] by (auto simp: mem_store_def metas_answer_def packs_at_def)
  note packs = orderly_packs [OF sound O]
  from resolve_run [OF sound O keep, of "[]"] obtain items where
    res: "resolve_payloads L mem_store d keep [] s = (Inr (Inr items), s)"
    and refs: "committed_refs items \<subseteq> live_packs L h lo" and named: "\<And>g e M. lo \<le> g \<Longrightarrow> marker_at L h g e \<Longrightarrow> stored_manifest L h e = Some M \<Longrightarrow>
       payload_key_text g (payload_uuid e) \<in> set keep \<Longrightarrow> pack_keys M \<subseteq> committed_refs items"
    by (auto simp: committed_refs_def [of "[]"])
  have live: "live_packs L h lo \<subseteq> committed_refs items"
  proof -
    have "pack_keys M \<subseteq> committed_refs items" if "lo \<le> g" "marker_at L h g e" "stored_manifest L h e = Some M" for g e M
    proof (rule named [OF that all [OF that(1,2)]])
      show "h (payload_key_text g (payload_uuid e)) \<noteq> None"
        using that(3) marker_at_generation [OF that(2)] by (auto simp: stored_manifest_def split: if_splits option.splits)
    qed
    then show ?thesis unfolding live_packs_def by blast
  qed
  have known: "committed_refs items \<subseteq> meta_key ` set ms" using refs packs(2) unfolding keys by blast
  then have "committed_refs items - meta_key ` set ms = {}" by blast
  then have none: "add_missing mem_store (sorted_list_of_set (committed_refs items - meta_key ` set ms)) ms = ret ms"
    by (simp only: sorted_list_of_set_empty add_missing.simps)
  obtain T ref where load: "load_tombstones L mem_store s = (Inr (T, ref), s)" "ledger_matches ref s" by (rule load_run)
  obtain e s1 where w: "mem_write CLOCK_PROBE_KEY ''t'' s = (Inr e, s1)" using mem_write_run by blast
  have st: "steady L h lo (s1, t)"
    by (rule steady_write [OF _ _ _ w]) (use I p in \<open>simp_all add: clerk_key_def CLOCK_PROBE_KEY_def LEASE_KEY_def\<close>)
  have "mem_objs s1 TOMBSTONE_KEY = mem_objs s TOMBSTONE_KEY" using mem_write_present [OF w] by (simp add: CLOCK_PROBE_KEY_def TOMBSTONE_KEY_def)
  with load(2) have led: "ledger_matches ref (fst (s1, t))" unfolding ledger_matches_def by (simp split: ledger_ref.splits)
  have "card (meta_key ` set ms) < BREAKER_MIN"
    using few card_mono [OF _ packs(1)] unfolding keys few_packs_def by linarith
  from decides [OF known this] obtain plan where
    plan: "decide_pack_sweep items ms T (clock s) grace DEFAULT_MAX_DELETE_FRACTION = SweepActions plan" by metis
  note gone = spared_by_plan [OF plan]
  have loose: "\<not> fixed_key L h lo k \<and> k \<noteq> LEASE_KEY" if "k \<in> delete_packs plan" for k
  proof -
    from gone(2) [OF that] keys have pre: "prefix PACKS_PREFIX k" by (auto simp: packs_at_def)
    moreover have "k \<notin> live_packs L h lo" using gone(1) [OF that] live by blast
    moreover have "\<not> prefix PAYLOAD_PREFIX k" using pre area_exclusive(3) by blast
    then have "k \<noteq> payload_key_text i u" for i u by (auto simp: payload_key_text_def)
    ultimately show ?thesis using area_exclusive(2) [OF pre] pack_not_own(1) [OF pre] unfolding fixed_key_def by blast
  qed
  have "delete_packs plan \<subseteq> meta_key ` set ms" using gone(2) by blast
  then have fin: "finite (delete_packs plan)" by (rule finite_subset) simp
  obtain pr q where exec: "execute_sweep J C L mem_store False grace ms T ref (clock s) plan (s1, t) = (Inr pr, q)" "steady L h lo q"
    by (rule execute_run [OF C st led fin loose])
  show thesis
  proof (cases "ms = [] \<and> committed_refs items = {}")
    case True
    with metas res I p that [of "\<lparr>pr_swept = [], pr_kept = [], pr_tombstoned = []\<rparr>" p] show thesis
      by (simp add: pack_sweep_def bind_io_def)
  next
    case False
    show thesis
    proof (rule that [OF _ exec(2)])
      show "pack_sweep J C L mem_store d keep False grace p = (Inr pr, q)"
        using False metas res load(1) plan exec(1) w
        by (auto simp: pack_sweep_def p bind_io_def Let_def none mem_store_now)
    qed
  qed
qed

section \<open>The collection\<close>

lemma locked_run:
  assumes C: "lease_key C = LEASE_KEY" and sound: "sound_lake L d lo h" and few: "few_packs h" and I: "steady L h lo p"
    and lo: "lo = generation d - retain + 1" "1 \<le> retain"
  obtains report q where "collect_locked J C L mem_store retain False grace p = (Inr report, q)" "steady L h lo q"
proof -
  obtain s t where p: "p = (s, t)" by (cases p)
  with I have O: "orderly L h lo s" by simp
  note roots = orderly_roots [OF O]
  have d: "marker_at L h (generation d) d" "h (payload_key_text (generation d) (payload_uuid d)) \<noteq> None" and low: "lo \<le> generation d"
    using sound lo by (simp_all add: sound_lake_def)
  let ?pk = "payload_key_text (generation d) (payload_uuid d)"
  have fixed: "mem_objs s (payload_key_text g (payload_uuid e)) = h (payload_key_text g (payload_uuid e))" if "lo \<le> g" "marker_at L h g e" for g e
    using O that unfolding orderly_def agrees_def fixed_key_def by blast
  have pk: "payload_key d = Inr ?pk" using marker_at_generation [OF d(1)] by (simp add: payload_key_def)
  have head: "resolve_head L mem_store s = (Inr (d, generation d), s)"
    using sound roots by (intro mem_resolve_head) (auto simp: sound_lake_def)
  obtain ks where list: "list_prefix mem_store PAYLOAD_PREFIX s = (Inr ks, s)" by (simp add: mem_store_def mem_list_prefix_def)
  with mem_list_answers [of PAYLOAD_PREFIX s "Inr ks" s] have ks: "set ks = {k. mem_objs s k \<noteq> None \<and> prefix PAYLOAD_PREFIX k}"
    by (auto simp: mem_store_def list_answers_def)
  have listed: "payload_key_text g (payload_uuid e) \<in> set ks"
    if "lo \<le> g" "marker_at L h g e" "h (payload_key_text g (payload_uuid e)) \<noteq> None" for g e
    using that fixed [OF that(1,2)] by (simp add: ks payload_key_text_def)
  obtain u p1 where hint: "on_world (write_hint L mem_store (generation d)) p = (Inr u, p1)" "steady L h lo p1" "True"
    by (rule winsE [OF hint_wins I])
  obtain y p2 where sweep: "sweep_catalogs J C mem_store d lo False ks [] [] p1 = (Inr y, p2)" "steady L h lo p2"
    "case y of (gone', keep') \<Rightarrow> set keep' = set [] \<union> {x \<in> set ks. \<forall>g. generation_of x = Some g \<longrightarrow> lo \<le> g}"
    by (rule winsE [OF catalogs_win [OF C pk retained_generation [OF d(1)] low] hint(2)])
  obtain gone keep where y: "y = (gone, keep)" by (cases y)
  with sweep(3) have keep: "set keep = {x \<in> set ks. \<forall>g. generation_of x = Some g \<longrightarrow> lo \<le> g}" by simp
  have keep_ok: "\<forall>k \<in> set keep. h k \<noteq> None \<and> (\<forall>g. generation_of k = Some g \<longrightarrow> lo \<le> g)"
    using O unfolding keep ks orderly_def by blast
  have keep_all: "payload_key_text g (payload_uuid e) \<in> set keep"
    if "lo \<le> g" "marker_at L h g e" "h (payload_key_text g (payload_uuid e)) \<noteq> None" for g e
    using listed [OF that] that(1) retained_generation [OF that(2)] by (simp add: keep)
  obtain pr q where packs: "pack_sweep J C L mem_store d keep False grace p2 = (Inr pr, q)" "steady L h lo q"
    by (rule pack_sweep_run [OF C sound few sweep(2) keep_ok keep_all])
  have "?pk \<in> set ks" by (rule listed [OF low d])
  then have "\<exists>report. collect_locked J C L mem_store retain False grace p = (Inr report, q)"
    using head list hint(1) sweep(1) packs(1) pk by (simp add: collect_locked_def p bind_io_def y lo)
  with packs(2) that show thesis by blast
qed

text \<open>An orderly lake: sound, with few packs, a free lease and no left-over clock probe of the lease.\<close>

definition ready :: "lease_lib \<Rightarrow> lib \<Rightarrow> root_doc \<Rightarrow> int \<Rightarrow> mem \<Rightarrow> bool" where
  "ready J L d lo m \<longleftrightarrow> sound_lake L d lo (mem_objs m) \<and> few_packs (mem_objs m) \<and> (\<forall>u. mem_objs m (now_probe LEASE_KEY u) = None) \<and>
     lease_free J m"

lemma sound_again:
  assumes sound: "sound_lake L d lo h" and I: "orderly L h lo s" and low: "lo \<le> generation d"
  shows "sound_lake L d lo (mem_objs s)"
proof -
  note roots = orderly_roots [OF I]
  have same: "mem_objs s k = h k" if "fixed_key L h lo k" for k using I that by (simp add: orderly_def agrees_def)
  have payload: "mem_objs s (payload_key_text g (payload_uuid e)) = h (payload_key_text g (payload_uuid e))" if "lo \<le> g" "marker_at L h g e" for g e
    using that by (intro same) (auto simp: fixed_key_def)
  then have man: "stored_manifest L (mem_objs s) e = stored_manifest L h e" if "lo \<le> g" "marker_at L h g e" for g e
    using marker_at_generation [OF that(2)] that by (intro stored_manifest_cong) auto
  then have live: "live_packs L (mem_objs s) lo = live_packs L h lo"
    unfolding live_packs_def roots(2) by (intro arg_cong [where f = Union] Collect_cong ex_cong1 conj_cong refl) simp
  show ?thesis
    unfolding sound_lake_def roots live
  proof (intro conjI allI impI ballI)
    show "mem_objs s k \<noteq> None" if "k \<in> live_packs L h lo" for k
    proof -
      have "fixed_key L h lo k" using that by (simp add: fixed_key_def)
      from same [OF this] show ?thesis using sound that by (simp add: sound_lake_def)
    qed
    show "\<exists>M. stored_manifest L (mem_objs s) e = Some M"
      if "lo \<le> g" "marker_at L h g e" "transport_of e = Chunked" "mem_objs s (payload_key_text g (payload_uuid e)) \<noteq> None" for g e
      using sound_manifest [OF sound that(1-3)] that(4) payload [OF that(1,2)] man [OF that(1,2)] by simp
    show "mem_objs s (payload_key_text (generation d) (payload_uuid d)) \<noteq> None"
      using sound payload [OF low] by (simp add: sound_lake_def)
  qed (use sound in \<open>auto simp: sound_lake_def\<close>)
qed

lemma collect_ready:
  assumes J: "lease_lib_ok J" and ready: "ready J L d (generation d - retain + 1) m" and retain: "1 \<le> retain"
    and grace: "0 \<le> grace" "MIN_PACK_GRACE \<le> grace \<or> unsafe" and depth: "0 < depth"
  obtains report m' where "collect depth J C L mem_store retain False grace unsafe m = (Inr (Some report), m')"
    "ready J L d (generation d - retain + 1) m'"
proof -
  let ?C = "C\<lparr>lease_key := LEASE_KEY\<rparr>" and ?lo = "generation d - retain + 1" and ?h = "mem_objs m"
  have C: "lease_key ?C = LEASE_KEY" by simp
  from ready have sound: "sound_lake L d ?lo ?h" and few: "few_packs ?h" and free: "lease_free J m" and O: "orderly L ?h ?lo m"
    by (simp_all add: ready_def orderly_def agrees_def)
  obtain p where acq: "lease_acquire depth J ?C mem_store (m, None) = (Inr True, p)" "steady L ?h ?lo p"
    by (rule acquire_wins [OF C depth O free])
  obtain report p1 where locked: "collect_locked J ?C L mem_store retain False grace p = (Inr report, p1)" "steady L ?h ?lo p1"
    by (rule locked_run [OF C sound few acq(2) refl retain])
  obtain q where rel: "lease_release J ?C mem_store p1 = (Inr (), q)" "orderly L ?h ?lo (fst q)" "lease_free J (fst q)"
    by (rule release_wins [OF C J locked(2)])
  have "collect depth J C L mem_store retain False grace unsafe m = (Inr (Some report), fst q)"
    using retain grace acq(1) locked(1) rel(1) by (auto simp: collect_def Let_def bind_io_def finally_io_def with_attr_def split: prod.splits)
  moreover have "sound_lake L d ?lo (mem_objs (fst q))" using retain by (intro sound_again [OF sound rel(2)]) simp
  moreover have "few_packs (mem_objs (fst q))"
    using orderly_packs(1) [OF sound rel(2)] few card_mono [of "packs_at ?h" "packs_at (mem_objs (fst q))"]
    unfolding few_packs_def by (meson finite_subset le_less_trans)
  moreover have "\<forall>u. mem_objs (fst q) (now_probe LEASE_KEY u) = None" using rel(2) by (simp add: orderly_def)
  ultimately show thesis using rel(3) that by (simp add: ready_def)
qed

lemma ready_tick:
  assumes "ready J L d lo m"
  shows "ready J L d lo (tick_mem n m)"
proof -
  have objs: "mem_objs (tick_mem n m) = mem_objs m" "clock (tick_mem n m) = clock m + int n"
    by (simp_all add: tick_mem_def mem_objs_def fun_eq_iff)
  have "\<not> pf_positive (pf_diff t (total_seconds (clock m + int n - v)))" if "\<not> pf_positive (pf_diff t (total_seconds (clock m - v)))" for t v
    using that by (cases t) (auto simp: pf_positive_def pf_diff_def total_seconds_def)
  then have "lease_free J (tick_mem n m)" using assms unfolding ready_def lease_free_def objs by blast
  with assms show ?thesis by (simp add: ready_def objs)
qed

section \<open>Garbage goes\<close>

text \<open>
  Claim C12. Garbage goes, and collections do not get stuck: over an orderly in-memory lake (sound, fewer than ten packs,
  a free lease), two wet collections, the second more than the grace after the first, both end with a report, the lake is
  as orderly as before, and a pack that was older than the grace and that no payload object names is gone. The ledger may
  have named the pack before, but not from the future.
\<close>
theorem garbage_goes_in_two_cycles:
  assumes "lib_ok L" and "lease_lib_ok J" and "ready J L d (generation d - retain + 1) m"
    and "1 \<le> retain" and "0 \<le> grace" and "MIN_PACK_GRACE \<le> grace \<or> unsafe" and "0 < depth" and "0 < depth'"
    and "prefix PACKS_PREFIX k" and "unnamed L k (mem_objs m)"
    and "\<And>ob. mem_objs m k = Some ob \<Longrightarrow> grace < clock m - ob_mtime ob"
    and "\<not> named_since L k (\<lambda>t. clock m < t) m"
    and "grace < int delay"
  shows "\<exists>report1 m1 report2 m2.
    collect depth J C L mem_store retain False grace unsafe m = (Inr (Some report1), m1) \<and>
    collect depth' J C' L mem_store retain False grace unsafe (tick_mem delay m1) = (Inr (Some report2), m2) \<and>
    ready J L d (generation d - retain + 1) m2 \<and> mem_objs m2 k = None"
proof -
  obtain r1 m1 where run1: "collect depth J C L mem_store retain False grace unsafe m = (Inr (Some r1), m1)"
    and ready1: "ready J L d (generation d - retain + 1) m1" by (rule collect_ready [OF assms(2-7)])
  obtain r2 m2 where run2: "collect depth' J C' L mem_store retain False grace unsafe (tick_mem delay m1) = (Inr (Some r2), m2)"
    and ready2: "ready J L d (generation d - retain + 1) m2"
    by (rule collect_ready [OF assms(2) ready_tick [OF ready1] assms(4-6,8)])
  from unnamed_packs_go [OF assms(1,9-12) run1 assms(13) run2] have "mem_objs m2 k = None" .
  with run1 run2 ready2 show ?thesis by blast
qed

text \<open>A lake of one generation, and a pack that nothing names.\<close>

definition littered :: mem where
  "littered = tick_mem 3600000001 (snd (mem_write (PACKS_PREFIX @ ''p'') ''x'' sample_blob))"

lemma littered_objs:
  obtains ob where "ob_body ob = ''abc''" "mem_objs littered = (mem_objs (sample_mem [10]))(payload_key_text 0 10 \<mapsto> ob,
    PACKS_PREFIX @ ''p'' \<mapsto> \<lparr>ob_body = ''x'', ob_etag = Suc (etag_counter sample_blob), ob_mtime = clock sample_blob\<rparr>)"
proof -
  obtain ob where "ob_body ob = ''abc''" "mem_objs sample_blob = (mem_objs (sample_mem [10]))(payload_key_text 0 10 \<mapsto> ob)"
    using sample_blob_objs by blast
  then show thesis
    by (intro that [of ob]) (auto simp: littered_def tick_mem_def mem_write_run mem_objs_def fun_eq_iff)
qed

lemma no_manifest: "manifest_from_bytes sample_lib ''abc'' = Inl InputValidationError" "manifest_from_bytes sample_lib ''x'' = Inl InputValidationError"
  by (simp_all add: manifest_from_bytes_def MANIFEST_MAGIC_def)

lemma littered_ready: "ready sample_json sample_lib (sample_doc 0 10) 0 littered"
proof -
  let ?p = "PACKS_PREFIX @ ''p''"
  obtain ob where ob: "mem_objs littered = (mem_objs (sample_mem [10]))(payload_key_text 0 10 \<mapsto> ob,
    ?p \<mapsto> \<lparr>ob_body = ''x'', ob_etag = Suc (etag_counter sample_blob), ob_mtime = clock sample_blob\<rparr>)"
    by (rule littered_objs)
  have p: "\<not> prefix ROOTS_PREFIX ?p" "payload_key_text 0 10 \<noteq> ?p"
    by (auto simp: payload_key_text_def PAYLOAD_PREFIX_def PACKS_PREFIX_def ROOTS_PREFIX_def)
  have "agrees (mem_objs (sample_mem [10])) (\<lambda>k. \<not> prefix ROOTS_PREFIX k) littered"
    using p by (auto simp: agrees_def ob)
  note roots = agrees_roots [OF this]
  have one: "marker_at sample_lib (mem_objs littered) g e \<longleftrightarrow> g = 0 \<and> e = sample_doc 0 10" for g e
  proof -
    have at: "marker_at sample_lib (mem_objs littered) 0 (sample_doc 0 10)" using roots(2) sample_start_head by simp
    moreover have "g = 0" if "marker_at sample_lib (mem_objs littered) g e"
      using marker_at_has [OF that] roots(1) by (simp add: valid_generation_def)
    ultimately show ?thesis using marker_at_unique by blast
  qed
  have none: "live_packs sample_lib (mem_objs littered) 0 = {}" by (simp add: live_packs_def one stored_manifest_def)
  have has: "has_marker (mem_objs littered) g \<longleftrightarrow> g = 0" for g
    using roots(1) one by (auto simp: valid_generation_def MAX_GENERATION_def)
  have sound: "sound_lake sample_lib (sample_doc 0 10) 0 (mem_objs littered)"
    unfolding sound_lake_def using roots(3) [of sample_lib] by (simp add: one none has MAX_GENERATION_def) (simp add: ob)
  have packs: "packs_at (mem_objs littered) = {?p}"
    using area_exclusive(2) area_exclusive(3) by (auto simp: packs_at_def ob payload_key_text_def split: if_splits)
  have "mem_objs littered (now_probe LEASE_KEY u) = None" "mem_objs littered LEASE_KEY = None" for u
    using p by (auto simp: ob payload_key_text_def now_probe_def LEASE_KEY_def PAYLOAD_PREFIX_def PACKS_PREFIX_def ROOTS_PREFIX_def)
  with sound packs show ?thesis by (simp add: ready_def few_packs_def lease_free_def BREAKER_MIN_def)
qed

theorem garbage_goes_in_two_cycles_witness:
  "\<exists>report1 m1 report2 m2.
    collect 5 sample_json (sample_cfg 1) sample_lib mem_store 1 False MIN_PACK_GRACE False littered = (Inr (Some report1), m1) \<and>
    collect 5 sample_json (sample_cfg 2) sample_lib mem_store 1 False MIN_PACK_GRACE False (tick_mem 3600000001 m1) = (Inr (Some report2), m2) \<and>
    ready sample_json sample_lib (sample_doc 0 10) 0 m2 \<and> mem_objs m2 (PACKS_PREFIX @ ''p'') = None"
proof -
  let ?p = "PACKS_PREFIX @ ''p''"
  obtain ob where body: "ob_body ob = ''abc''" and ob: "mem_objs littered = (mem_objs (sample_mem [10]))(payload_key_text 0 10 \<mapsto> ob,
    ?p \<mapsto> \<lparr>ob_body = ''x'', ob_etag = Suc (etag_counter sample_blob), ob_mtime = clock sample_blob\<rparr>)"
    by (rule littered_objs)
  have "unnamed sample_lib ?p (mem_objs littered)"
    using body no_manifest area_exclusive(1,3) by (auto simp: unnamed_def ob split: if_splits)
  moreover have "TOMBSTONE_KEY \<noteq> payload_key_text 0 10" "TOMBSTONE_KEY \<noteq> ?p"
    by (auto simp: payload_key_text_def PAYLOAD_PREFIX_def TOMBSTONE_KEY_def PACKS_PREFIX_def)
  then have "\<not> named_since sample_lib ?p (\<lambda>t. clock littered < t) littered" by (simp add: named_since_def ob)
  moreover have "MIN_PACK_GRACE < clock littered - ob_mtime ob'" if "mem_objs littered ?p = Some ob'" for ob'
  proof -
    have "ob_mtime ob' = clock sample_blob" using that by (auto simp: ob)
    then show ?thesis by (simp add: littered_def tick_mem_def mem_write_run MIN_PACK_GRACE_def hours_def)
  qed
  moreover have "ready sample_json sample_lib (sample_doc 0 10) (generation (sample_doc 0 10) - 1 + 1) littered"
    using littered_ready by simp
  ultimately show ?thesis
    using garbage_goes_in_two_cycles [OF sample_lib_ok sample_json_ok, of "sample_doc 0 10" 1 littered MIN_PACK_GRACE False 5 5 ?p 3600000001 "sample_cfg 1" "sample_cfg 2"]
    by (simp add: MIN_PACK_GRACE_def hours_def)
qed

end
