(* ===== verification/Spec2Isabelle.thy ===== *)
theory Spec2Isabelle
  imports Prelude Text_Format Models Documents Rebase Object_Store Store_Contract Store_Instances Sample_Library
    Store_Probes Root_Protocol Chunk_Manifest Pack_Transport Commit_Driver Blob_Store Versioned_Blob
    Range_Reader Generation_FS Lease Lease_Fleet Gc_Sweep Gc_Safety Gc_Effects Duck_Engine
    Generation_Cache Cache_Safety Recorder World_Lifting Lake_Session Session_Safety Session_Refinement
    Session_Samples Session_Reads Gc_Maintain Maintain_Safety Store_Simulation Crash_Model Crash_Safety
    Crash_Drill Guest_Model Race_Safety Compat_Probe Resent_Requests Log_Config Ledger_Safety Pack_Cycles Collect_Progress
begin

text \<open>
  \<^bold>\<open>ducklake-serverless\<close>: versioned, serverless storage of one payload (a DuckLake catalog or any blob) on
  an object store, verified from \<^verbatim>\<open>src/ducklake_serverless/\<close> and \<^verbatim>\<open>scripts/\<close>.

  A lake is a prefix of a bucket. Generation \<open>g\<close> of the payload is an immutable object
  \<^verbatim>\<open>payload/<g>-<uuid>\<close>, either the bytes themselves or a manifest of content-addressed packs under
  \<^verbatim>\<open>packs/\<close>, and is committed by the marker \<^verbatim>\<open>roots/<g>\<close>, created with \<^verbatim>\<open>If-None-Match: *\<close> and
  never changed after. Readers find the newest marker from an advisory hint or by searching. A lost
  create is resolved by reading the marker back. That protocol is what the development verifies.

  \<^bold>\<open>Theories\<close>

  \<^item> \<open>Prelude\<close>: the state and error monad that stands for Python statements (\<open>('s, 'a) io\<close> maps a state to an error or
    a result and the next state; \<open>try_io\<close> is \<^verbatim>\<open>try/except\<close>, \<open>finally_io\<close> is \<^verbatim>\<open>try/finally\<close>), the exceptions
    of \<^verbatim>\<open>errors.py\<close> as the datatype \<open>error\<close>, and \<open>guar R c\<close>, which says that every run of \<open>c\<close> relates its
    states by \<open>R\<close>, with a collection of rules that proves it by structure, and \<open>triple I c F\<close>, which says
    that \<open>c\<close> keeps the invariant \<open>I\<close> and every result it returns satisfies \<open>F\<close>. Objects with an attribute
    of their own run on a pair of the world and the attribute.
  \<^item> \<open>Text_Format\<close>, \<open>Models\<close>, \<open>Documents\<close>: \<^verbatim>\<open>models.py\<close>. Keys with their formatters and parsers, the root
    and hint documents through JSON, statements and changesets. Round trips.
  \<^item> \<open>Rebase\<close>: the decision table of \<^verbatim>\<open>rebase.py\<close>.
  \<^item> \<open>Object_Store\<close>: \<^verbatim>\<open>objectstore.py\<close>. A store is a record of its methods over any state; \<open>mem_store\<close> is the
    in-memory one, \<open>s3_store\<close> the S3 one over a boto3 client that is a parameter.
  \<^item> \<open>Store_Contract\<close>: the locale \<open>object_store\<close>, what the protocol needs of a store: a read answers from a
    moment of the call, a create that succeeds has put its body and one that reports a lost precondition
    was late, whatever else happens meanwhile preserves the markers (\<open>heap_evolves\<close>).
  \<^item> \<open>Store_Instances\<close>: the interpretations. \<open>mem_store\<close> meets the contract, and so does \<open>net_store\<close>: the S3
    store over a connection scripted with rivals before every request, lost answers, throttling and
    server errors. All safety properties are stated for \<open>net_store\<close> with an arbitrary script.
  \<^item> \<open>Store_Probes\<close>: the probes that refuse a store which does not enforce conditional writes.
  \<^item> \<open>Root_Protocol\<close>: \<^verbatim>\<open>root.py\<close>. Markers, resolution, hint, head discovery.
  \<^item> \<open>Chunk_Manifest\<close>, \<open>Pack_Transport\<close>: \<^verbatim>\<open>chunk.py\<close>. Manifests, the build with deduplication, then
    publication, verification and reconstruction of packs.
  \<^item> \<open>Commit_Driver\<close>: \<^verbatim>\<open>commit.py\<close>. The locale \<open>commit_context\<close> is the protocol class \<^verbatim>\<open>CommitContext\<close>.
  \<^item> \<open>Blob_Store\<close>: \<^verbatim>\<open>blob.py\<close>, whose hooks interpret \<open>commit_context\<close>, and \<open>Versioned_Blob\<close>, which proves that
    its operations refine a list of versions.
  \<^item> \<open>Range_Reader\<close>, \<open>Generation_FS\<close>: \<^verbatim>\<open>fsspec_fs.py\<close>. The readers translate a byte range into ranged reads of
    the covering pack slices; the theorem is that the result is the slice of the payload. On top, the paths,
    the memo of readers and the operations of the read-only file system, against the list of versions.
  \<^item> \<open>Lease\<close>, \<open>Lease_Fleet\<close>: \<^verbatim>\<open>lease.py\<close>. One holder's operations, whose recursion depth is fuel, and a fleet
    of holders over one store: reachable states, the invariant on ETags, exclusion for the time to live.
  \<^item> \<open>Gc_Sweep\<close>, \<open>Gc_Safety\<close>, \<open>Gc_Effects\<close>: the collection of \<^verbatim>\<open>gc.py\<close>. Four locales list what a collection calls,
    which keys each call may write and what it may assume of the packs it deletes: \<open>lease_user\<close> for the holder of the
    lease, \<open>catalog_sweeper\<close> for the pass over the payloads, \<open>ledger_collector\<close> for the whole with the tombstone ledger,
    and \<open>collector\<close>, its sublocale for the cases where the ledger does not matter. Their instances show that markers stay,
    that retained generations stay readable, that a dry run writes nothing of the lake, and the same of a collection that
    is killed or overtaken.
  \<^item> \<open>Ledger_Safety\<close>, \<open>Pack_Cycles\<close>, \<open>Collect_Progress\<close>: the two cycles of the pack sweep. A pack is only deleted after the
    ledger has named it for longer than the grace, whatever else goes wrong; a pack that is old and that no payload names
    is named by the first collection and deleted by the second. \<open>wins I c F\<close> is total correctness (\<open>c\<close> returns and does not
    raise), by which the collections of an orderly lake are shown to end with a report.
  \<^item> \<open>Duck_Engine\<close>: \<^verbatim>\<open>engine.py\<close>. Scratch connections, attaching a catalog and the inspection of its snapshots
    over a DuckDB that is a parameter acting on the files of the machine and on a state of its own.
  \<^item> \<open>Generation_Cache\<close>, \<open>Cache_Safety\<close>: \<^verbatim>\<open>generation.py\<close>. The directory of downloaded generations with its hygiene
    checks, repair and work copies; a copy handed out holds the bytes of the generation it was asked for.
  \<^item> \<open>Recorder\<close>: \<^verbatim>\<open>recorder.py\<close>. The classification of a statement's parse tree and the recording of a session.
  \<^item> \<open>Store_Simulation\<close>: the locale \<open>store_simulation\<close>, two stores whose requests correspond under a relation of their
    states, and that the operations of the library then correspond too. \<open>World_Lifting\<close> interprets it for a store
    used from a larger world (the machine with its files and DuckDB beside the bucket), \<open>Crash_Model\<close> for a
    store that is watched.
  \<^item> \<open>Lake_Session\<close>: \<^verbatim>\<open>session.py\<close>. Bootstrap, read sessions, transactions and replays, with the cleanup of every
    \<^verbatim>\<open>finally\<close>. \<open>Session_Safety\<close> shows what a transaction that returns has done on any store that meets the
    contract, \<open>Session_Refinement\<close> that the operations append to the list of versions, \<open>Session_Reads\<close>
    what a reader sees and what a refused session leaves behind; \<open>Session_Samples\<close> runs them.
  \<^item> \<open>Gc_Maintain\<close>, \<open>Maintain_Safety\<close>: \<^verbatim>\<open>maintain_data\<close> of \<^verbatim>\<open>gc.py\<close>, a transaction under the lease.
  \<^item> \<open>Crash_Model\<close>, \<open>Crash_Safety\<close>: a process that is killed. The watched store is photographed before the request at which
    the signal strikes, so \<open>killed_after n c s\<close> is what the computation \<open>c\<close> leaves after \<open>n\<close> requests, for every
    \<open>n\<close>. A killed write has appended its version or not, a killed collection has lost nothing retained.
  \<^item> \<open>Guest_Model\<close>, \<open>Race_Safety\<close>: two processes. Before one request of a computation, whichever it is, a whole run of
    another process takes place (\<open>visit\<close>); \<open>around I J\<close> is the invariant that is \<open>I\<close> until then and \<open>J\<close> afterwards. A
    collection and a write that come together this way leave each other whole, except for a pack that was there before:
    that case is shown to lose a committed generation.
  \<^item> \<open>Crash_Drill\<close>: \<^verbatim>\<open>scripts/soak_crash_drill.py\<close>. Children on the watched store, the fresh participants after each kill and
    the assertions of the drill: which rounds pass, and which fail although the system recovers.
  \<^item> \<open>Compat_Probe\<close>: \<^verbatim>\<open>scripts/compat_probe.py\<close> and \<^verbatim>\<open>scripts/compat_report.py\<close>. The locale \<open>conditional_client\<close> is a backend that
    enforces the conditions on one process, \<open>atomic_client\<close> one that serves races in some order; what verdict each gets.
  \<^item> \<open>Resent_Requests\<close>: \<^verbatim>\<open>make_s3_client\<close> of \<^verbatim>\<open>objectstore.py\<close>, whose configuration asks botocore to send a failed request
    once more, and what that does to a conditional write whose answer was lost.
  \<^item> \<open>Log_Config\<close>: \<^verbatim>\<open>log.py\<close>, the configuration it sets.
  \<^item> \<open>Sample_Library\<close>: one concrete instance of the parameters, on which the hypotheses are shown to hold.

  \<^bold>\<open>Parameters\<close>. What the code takes from other packages is the record \<open>lib\<close>: JSON printing and parsing,
  SHA-256, the validators of integers, uuids and times. \<open>lib_ok\<close> states what is used of them (printing then
  parsing gives the value back, digests are 64 lower-case hex digits). Absence of hash collisions is never
  assumed globally but on the set of byte strings a theorem names. Random uuids, the clock and the
  process identity are the record \<open>environment\<close>. The lease uses \<^verbatim>\<open>json\<close> and \<^verbatim>\<open>float\<close> directly: they are
  \<open>lease_lib\<close>, with floats as rationals, infinities and NaN, so rounding is not modelled. The path stripping that
  the file system inherits from \<^verbatim>\<open>fsspec\<close> is the parameter \<open>B\<close>. DuckDB is the record \<open>duckdb\<close>, operations on the
  machine (a map from paths to bytes and DuckDB's own state) whose effect is arbitrary except where a
  theorem names what it relies on; the SQL parser is the record \<open>sqlglot\<close>. The code of a client (the body of
  a \<^verbatim>\<open>with\<close>, the callback of a transaction) is an argument.

  \<^bold>\<open>Termination and bounds\<close>. Every loop is a total function except the commit loop, whose end depends on
  the hooks: it is a \<open>partial_function\<close> into options, and that it returns is a theorem.
  The head search sends at most 4096 forward probes, in steps up to 1024. From a hint that names a marker it reaches the
  generations less than 4116480 beyond it (\<open>within_reach\<close>), and without such a hint all of them; the theorems on the list
  of versions are therefore stated for at most 4116480 versions, where every hint will do.

  \<^bold>\<open>What is not modelled\<close>. Threads run their requests in sequence, which is one of the orders the store may
  see; rivals between requests are part of the store. Files are their bytes. A sleep has no effect on the
  state (\<open>backoff\<close> is the delay that is computed); those of the crash drill are an argument. The settings of \<^verbatim>\<open>config.py\<close>
  are a declaration that pydantic-settings fills from the environment. The clock of the in-memory store moves
  only when a theorem moves it. The read-ahead buffer of \<^verbatim>\<open>fsspec\<close> is third-party.
  \<^verbatim>\<open>payload.py\<close> declares protocol classes without bodies. The command lines of the scripts, the servers they start and
  the prose around the report are I/O.
\<close>

end
